(* ===== verification/Prelude.thy ===== *)
theory Prelude
  imports Main "HOL-Library.Word"
begin

unbundle bit_operations_syntax

text \<open>
  The vocabulary all components share: the machine's integer types, the outcome of a kernel
  function, the rules by which outcomes of a composed function are derived, and generic
  facts on words, lists and byte strings.
\<close>

section \<open>Machine integers\<close>

text \<open>The unsigned types of types.h. A signed \<open>int\<close> is an \<open>int\<close> here unless its width
  matters, in which case the word is read with \<open>sint\<close>.\<close>

type_synonym u8 = "8 word"
type_synonym u16 = "16 word"
type_synonym u32 = "32 word"

section \<open>Outcomes of kernel code\<close>

text \<open>
  A kernel function started in a state either returns a value and a new state, or calls
  \<open>panic\<close> (which prints its argument and loops for ever), or does something C leaves
  undefined (an access outside an array, a null dereference), or gives up the processor
  inside \<open>sched\<close>; the last carries the state at the switch to the scheduler.
\<close>

datatype ('s, 'a) result =
    Ret 'a 's
  | Panic string
  | Undef string
  | Switch 's

type_synonym ('s, 'a) kern = "'s \<Rightarrow> ('s, 'a) result"

definition return :: "'a \<Rightarrow> ('s, 'a) kern" where
  "return a = (\<lambda>s. Ret a s)"

definition call :: "('s, 'a) kern \<Rightarrow> ('a \<Rightarrow> ('s, 'b) kern) \<Rightarrow> ('s, 'b) kern" where
  "call m k = (\<lambda>s. case m s of
      Ret a t \<Rightarrow> k a t
    | Panic e \<Rightarrow> Panic e
    | Undef e \<Rightarrow> Undef e
    | Switch t \<Rightarrow> Switch t)"

definition andthen :: "('s, 'a) kern \<Rightarrow> ('s, 'b) kern \<Rightarrow> ('s, 'b) kern" where
  "andthen m n = call m (\<lambda>_. n)"

definition panic :: "string \<Rightarrow> ('s, 'a) kern" where
  "panic msg = (\<lambda>s. Panic msg)"

definition undef :: "string \<Rightarrow> ('s, 'a) kern" where
  "undef msg = (\<lambda>s. Undef msg)"

definition reads :: "('s \<Rightarrow> 'a) \<Rightarrow> ('s, 'a) kern" where
  "reads f = (\<lambda>s. Ret (f s) s)"

definition modify :: "('s \<Rightarrow> 's) \<Rightarrow> ('s, unit) kern" where
  "modify f = (\<lambda>s. Ret () (f s))"

definition panic_if :: "bool \<Rightarrow> string \<Rightarrow> ('s, unit) kern" where
  "panic_if b msg = (if b then panic msg else return ())"

lemmas kern_defs =
  return_def call_def andthen_def panic_def undef_def reads_def modify_def panic_if_def

lemma call_return [simp]: "call (return a) k = k a"
  by (simp add: call_def return_def)

lemma call_panic [simp]: "call (panic e) k = panic e"
  by (simp add: call_def panic_def)

lemma return_app [simp]: "return a s = Ret a s"
  by (simp add: return_def)

lemma call_Ret [simp]: "call (Ret a) k = k a"
  by (simp add: call_def)

lemma call_app_Ret [simp]: "m s = Ret a t \<Longrightarrow> call m k s = k a t"
  by (simp add: call_def)

lemma call_assoc: "call (call m k) h = call m (\<lambda>x. call (k x) h)"
  by (rule ext) (simp add: call_def split: result.split)

lemma call_app: "call m k s = (case m s of
      Ret a t \<Rightarrow> k a t | Panic e \<Rightarrow> Panic e | Undef e \<Rightarrow> Undef e | Switch t \<Rightarrow> Switch t)"
  by (simp add: call_def)

lemma call_eq_Ret:
  "call m k s = Ret b u \<longleftrightarrow> (\<exists>a t. m s = Ret a t \<and> k a t = Ret b u)"
  by (auto simp: call_def split: result.splits)

lemma call_eq_Switch:
  "call m k s = Switch u \<longleftrightarrow> m s = Switch u \<or> (\<exists>a t. m s = Ret a t \<and> k a t = Switch u)"
  by (auto simp: call_def split: result.splits)

text \<open>The two ways a function can go wrong, for theorems that exclude them.\<close>

fun stuck :: "('s, 'a) result \<Rightarrow> bool" where
  "stuck (Panic e) = True"
| "stuck (Undef e) = True"
| "stuck (Ret a s) = False"
| "stuck (Switch s) = False"

section \<open>Total correctness\<close>

text \<open>
  \<open>runs m s Q\<close>: started in \<open>s\<close>, \<open>m\<close> returns (it neither panics nor is undefined nor
  gives up the processor) and \<open>Q\<close> holds of what it returns. The rules in
  \<open>runs_rules\<close> take a composed function apart; each operation adds its own.
\<close>

named_theorems runs_rules

definition runs :: "('s, 'a) kern \<Rightarrow> 's \<Rightarrow> ('a \<Rightarrow> 's \<Rightarrow> bool) \<Rightarrow> bool" where
  "runs m s Q \<longleftrightarrow> (case m s of Ret a t \<Rightarrow> Q a t | _ \<Rightarrow> False)"

lemma runs_iff: "runs m s Q \<longleftrightarrow> (\<exists>a t. m s = Ret a t \<and> Q a t)"
  by (auto simp: runs_def split: result.splits)

lemma runsI: "m s = Ret a t \<Longrightarrow> Q a t \<Longrightarrow> runs m s Q"
  by (simp add: runs_def)

lemma runsE:
  assumes "runs m s Q"
  obtains a t where "m s = Ret a t" and "Q a t"
  using assms by (auto simp: runs_iff)

lemma runs_unitD: "runs m s Q \<Longrightarrow> \<exists>t. m s = Ret () t \<and> Q () t"
  by (auto simp: runs_iff)

lemma runs_eq: "m s = Ret a t \<Longrightarrow> runs m s Q = Q a t"
  by (simp add: runs_def)

lemma runs_mono: "runs m s Q \<Longrightarrow> (\<And>a t. Q a t \<Longrightarrow> R a t) \<Longrightarrow> runs m s R"
  by (auto simp: runs_iff)

lemma runs_conj: "runs m s Q \<Longrightarrow> runs m s R \<Longrightarrow> runs m s (\<lambda>a t. Q a t \<and> R a t)"
  by (auto simp: runs_iff)

lemma runs_call [runs_rules]: "runs m s (\<lambda>a t. runs (k a) t Q) \<Longrightarrow> runs (call m k) s Q"
  by (auto simp: runs_def call_def split: result.splits)

lemma runs_call_iff [simp]: "runs (call m k) s Q \<longleftrightarrow> runs m s (\<lambda>a t. runs (k a) t Q)"
  by (auto simp: runs_def call_def split: result.splits)

lemma runs_andthen_iff [simp]: "runs (andthen m n) s Q \<longleftrightarrow> runs m s (\<lambda>_ t. runs n t Q)"
  by (simp add: andthen_def)

lemma runs_return [simp]: "runs (return a) s Q \<longleftrightarrow> Q a s"
  by (simp add: runs_def return_def)

lemma runs_Ret [simp]: "runs (Ret a) s Q \<longleftrightarrow> Q a s"
  by (simp add: runs_def)

lemma runs_reads [simp]: "runs (reads f) s Q \<longleftrightarrow> Q (f s) s"
  by (simp add: runs_def reads_def)

lemma runs_modify [simp]: "runs (modify f) s Q \<longleftrightarrow> Q () (f s)"
  by (simp add: runs_def modify_def)

lemma runs_panic [simp]: "\<not> runs (panic e) s Q"
  by (simp add: runs_def panic_def)

lemma runs_undef [simp]: "\<not> runs (undef e) s Q"
  by (simp add: runs_def undef_def)

lemma runs_panic_if [simp]: "runs (panic_if b e) s Q \<longleftrightarrow> \<not> b \<and> Q () s"
  by (simp add: panic_if_def)

lemma runs_if [simp]:
  "runs (if b then m else n) s Q \<longleftrightarrow> (if b then runs m s Q else runs n s Q)"
  by simp

lemma runs_same: "m s = m' s' \<Longrightarrow> runs m' s' Q \<Longrightarrow> runs m s Q"
  by (simp add: runs_def)

lemma runs_stuck: "runs m s Q \<Longrightarrow> \<not> stuck (m s)"
  by (auto simp: runs_iff)

lemma runs_call_mono:
  assumes "runs m s P" and "\<And>a t. P a t \<Longrightarrow> runs (k a) t Q"
  shows "runs (call m k) s Q"
  using assms by (auto intro: runs_mono)

end
