(* ===== verification/Bytes.thy ===== *)
theory Bytes
  imports Prelude
begin

text \<open>
  Byte strings: little-endian encodings of 16 and 32 bit words (the port runs the ARM in
  little-endian mode, so a C struct cast over a byte array reads its fields this way),
  patching a slice of a byte array, and the first index of a list with a property, which is
  how the loops over fixed tables (\<open>for(p = table; p < table + N; p++) if(..) goto found;\<close>)
  are written.
\<close>

section \<open>Words as bytes\<close>

definition le16 :: "u16 \<Rightarrow> u8 list" where
  "le16 w = [ucast w, ucast (drop_bit 8 w)]"

definition of_le16 :: "u8 list \<Rightarrow> u16" where
  "of_le16 bs = ucast (bs ! 0) OR push_bit 8 (ucast (bs ! 1))"

definition le32 :: "u32 \<Rightarrow> u8 list" where
  "le32 w = [ucast w, ucast (drop_bit 8 w), ucast (drop_bit 16 w), ucast (drop_bit 24 w)]"

definition of_le32 :: "u8 list \<Rightarrow> u32" where
  "of_le32 bs = ucast (bs ! 0) OR push_bit 8 (ucast (bs ! 1))
     OR push_bit 16 (ucast (bs ! 2)) OR push_bit 24 (ucast (bs ! 3))"

lemma length_le16 [simp]: "length (le16 w) = 2"
  by (simp add: le16_def)

lemma length_le32 [simp]: "length (le32 w) = 4"
  by (simp add: le32_def)

lemma of_le16_le16 [simp]: "of_le16 (le16 w) = w"
proof (rule bit_word_eqI)
  fix n assume "n < LENGTH(16)"
  then have "n < 8 \<or> 8 \<le> n \<and> n < 16" by auto
  then show "bit (of_le16 (le16 w)) n = bit w n"
    by (auto simp: of_le16_def le16_def bit_simps)
qed

lemma of_le32_le32 [simp]: "of_le32 (le32 w) = w"
proof (rule bit_word_eqI)
  fix n assume "n < LENGTH(32)"
  then have "n < 8 \<or> 8 \<le> n \<and> n < 16 \<or> 16 \<le> n \<and> n < 24 \<or> 24 \<le> n \<and> n < 32" by auto
  then show "bit (of_le32 (le32 w)) n = bit w n"
    by (auto simp: of_le32_def le32_def bit_simps)
qed

lemma of_le32_append [simp]: "4 \<le> length bs \<Longrightarrow> of_le32 (bs @ cs) = of_le32 bs"
  by (cases bs) (auto simp: of_le32_def nth_append)

lemma of_le32_take [simp]: "4 \<le> n \<Longrightarrow> of_le32 (take n bs) = of_le32 bs"
  by (simp add: of_le32_def)

lemma of_le32_le32_append [simp]: "of_le32 (le32 w @ cs) = w"
  by simp

lemma of_le16_append [simp]: "2 \<le> length bs \<Longrightarrow> of_le16 (bs @ cs) = of_le16 bs"
  by (cases bs) (auto simp: of_le16_def nth_append)

lemma le32_of_le32: "length bs = 4 \<Longrightarrow> le32 (of_le32 bs) = bs"
proof -
  assume "length bs = 4"
  then obtain a b c d where bs: "bs = [a, b, c, d]"
    by (auto simp: length_Suc_conv numeral_eq_Suc)
  show ?thesis
    unfolding bs le32_def of_le32_def
    by (simp, intro conjI; (rule bit_word_eqI, auto simp: bit_simps dest: bit_imp_le_length))
qed

text \<open>A sequence of 32 bit words in a byte array, as \<open>uint addrs[]\<close> or \<open>int sector[]\<close>.\<close>

primrec words_le :: "u32 list \<Rightarrow> u8 list" where
  "words_le [] = []"
| "words_le (w # ws) = le32 w @ words_le ws"

primrec get_words :: "nat \<Rightarrow> u8 list \<Rightarrow> u32 list" where
  "get_words 0 bs = []"
| "get_words (Suc n) bs = of_le32 bs # get_words n (drop 4 bs)"

lemma length_words_le [simp]: "length (words_le ws) = 4 * length ws"
  by (induction ws) auto

lemma length_get_words [simp]: "length (get_words n bs) = n"
  by (induction n arbitrary: bs) auto

lemma get_words_words_le [simp]: "get_words (length ws) (words_le ws @ cs) = ws"
  by (induction ws) auto

lemma get_words_nth: "i < n \<Longrightarrow> get_words n bs ! i = of_le32 (drop (4 * i) bs)"
proof (induction n arbitrary: i bs)
  case 0
  then show ?case by simp
next
  case (Suc n)
  then show ?case by (cases i) (auto simp: add.commute)
qed

section \<open>Patching a slice\<close>

definition patch :: "nat \<Rightarrow> 'a list \<Rightarrow> 'a list \<Rightarrow> 'a list" where
  "patch off xs d = take off d @ xs @ drop (off + length xs) d"

definition slice :: "nat \<Rightarrow> nat \<Rightarrow> 'a list \<Rightarrow> 'a list" where
  "slice off n d = take n (drop off d)"

lemma length_patch [simp]: "off + length xs \<le> length d \<Longrightarrow> length (patch off xs d) = length d"
  by (simp add: patch_def)

lemma length_slice [simp]: "off + n \<le> length d \<Longrightarrow> length (slice off n d) = n"
  by (simp add: slice_def)

lemma slice_patch_same: "off + length xs \<le> length d \<Longrightarrow> slice off (length xs) (patch off xs d) = xs"
  by (simp add: slice_def patch_def)

lemma nth_patch:
  assumes "off + length xs \<le> length d" and "i < length d"
  shows "patch off xs d ! i = (if off \<le> i \<and> i < off + length xs then xs ! (i - off) else d ! i)"
  using assms by (auto simp: patch_def nth_append min_def)

lemma slice_patch_other:
  assumes "off + length xs \<le> length d" and "o' + n \<le> length d"
    and "o' + n \<le> off \<or> off + length xs \<le> o'"
  shows "slice o' n (patch off xs d) = slice o' n d"
proof (rule nth_equalityI)
  show "length (slice o' n (patch off xs d)) = length (slice o' n d)"
    using assms by simp
next
  fix i assume "i < length (slice o' n (patch off xs d))"
  with assms have "i < n" by simp
  with assms show "slice o' n (patch off xs d) ! i = slice o' n d ! i"
    by (auto simp: slice_def nth_patch)
qed

lemma patch_all [simp]: "length xs = length d \<Longrightarrow> patch 0 xs d = xs"
  by (simp add: patch_def)

section \<open>Searching a table\<close>

fun find_index :: "('a \<Rightarrow> bool) \<Rightarrow> 'a list \<Rightarrow> nat option" where
  "find_index p [] = None"
| "find_index p (x # xs) = (if p x then Some 0 else map_option Suc (find_index p xs))"

lemma find_index_None: "find_index p xs = None \<longleftrightarrow> (\<forall>x \<in> set xs. \<not> p x)"
  by (induction xs) auto

lemma find_index_Some:
  "find_index p xs = Some i \<longleftrightarrow> i < length xs \<and> p (xs ! i) \<and> (\<forall>j < i. \<not> p (xs ! j))"
proof (induction xs arbitrary: i)
  case Nil
  then show ?case by simp
next
  case (Cons x xs)
  show ?case
    by (cases i) (auto simp: Cons.IH nth_Cons' less_Suc_eq_0_disj)
qed

lemma find_index_SomeD:
  "find_index p xs = Some i \<Longrightarrow> i < length xs \<and> p (xs ! i)"
  by (simp add: find_index_Some)

lemma nth_upd: "j < length xs \<Longrightarrow> xs[i := x] ! j = (if i = j then x else xs ! j)"
  by (cases "i = j") simp_all

end
