(* ===== verification/CString.thy ===== *)
theory CString
  imports Bytes
begin

text \<open>
  string.c. The block operations (\<open>memset\<close>, \<open>memmove\<close>) act on a byte memory, since their
  contract depends on addresses (alignment, overlap); the string operations act on byte
  arrays, where reading or writing past the end of an array is \<open>None\<close>. The section ends with
  the long division the kernel uses in place of a divide instruction.
\<close>

section \<open>Byte memory\<close>

type_synonym mem = "u32 \<Rightarrow> u8"

definition load32 :: "mem \<Rightarrow> u32 \<Rightarrow> u32" where
  "load32 m a = of_le32 [m a, m (a + 1), m (a + 2), m (a + 3)]"

definition store32 :: "mem \<Rightarrow> u32 \<Rightarrow> u32 \<Rightarrow> mem" where
  "store32 m a w = m(a := ucast w, a + 1 := ucast (drop_bit 8 w),
     a + 2 := ucast (drop_bit 16 w), a + 3 := ucast (drop_bit 24 w))"

section \<open>memset\<close>

fun memsetw :: "mem \<Rightarrow> u32 \<Rightarrow> u32 \<Rightarrow> nat \<Rightarrow> mem" where
  "memsetw m p c 0 = m"
| "memsetw m p c (Suc rc) = memsetw (store32 m p c) (p + 4) c rc"

fun memsetb :: "mem \<Rightarrow> u32 \<Rightarrow> u32 \<Rightarrow> nat \<Rightarrow> mem" where
  "memsetb m p c 0 = m"
| "memsetb m p c (Suc rc) = memsetb (m(p := ucast c)) (p + 1) c rc"

definition memset :: "mem \<Rightarrow> u32 \<Rightarrow> u32 \<Rightarrow> u32 \<Rightarrow> mem" where
  "memset m dst c n =
     (if dst mod 4 = 0 \<and> n mod 4 = 0
      then let c = c AND 0xFF
           in memsetw m dst (push_bit 24 c OR push_bit 16 c OR push_bit 8 c OR c) (unat (n div 4))
      else memsetb m dst c (unat n))"

section \<open>memmove\<close>

text \<open>\<open>copy_up\<close> is the loop \<open>while(n-- > 0) *d++ = *s++\<close>, \<open>copy_down\<close> the loop
  \<open>while(n-- > 0) *--d = *--s\<close>.\<close>

fun copy_up :: "mem \<Rightarrow> u32 \<Rightarrow> u32 \<Rightarrow> nat \<Rightarrow> mem" where
  "copy_up m d s 0 = m"
| "copy_up m d s (Suc n) = copy_up (m(d := m s)) (d + 1) (s + 1) n"

fun copy_down :: "mem \<Rightarrow> u32 \<Rightarrow> u32 \<Rightarrow> nat \<Rightarrow> mem" where
  "copy_down m d s 0 = m"
| "copy_down m d s (Suc n) = copy_down (m(d - 1 := m (s - 1))) (d - 1) (s - 1) n"

definition memmove :: "mem \<Rightarrow> u32 \<Rightarrow> u32 \<Rightarrow> u32 \<Rightarrow> mem" where
  "memmove m dst src n =
     (if src < dst \<and> src + n > dst
      then copy_down m (dst + n) (src + n) (unat n)
      else copy_up m dst src (unat n))"

definition memcpy :: "mem \<Rightarrow> u32 \<Rightarrow> u32 \<Rightarrow> u32 \<Rightarrow> mem" where
  "memcpy m dst src n = memmove m dst src n"

section \<open>Strings in arrays\<close>

fun memcmp :: "u8 list \<Rightarrow> u8 list \<Rightarrow> nat \<Rightarrow> int option" where
  "memcmp s1 s2 0 = Some 0"
| "memcmp (x # s1) (y # s2) (Suc n) =
     (if x \<noteq> y then Some (uint x - uint y) else memcmp s1 s2 n)"
| "memcmp s1 s2 (Suc n) = None"

fun strncmp :: "u8 list \<Rightarrow> u8 list \<Rightarrow> nat \<Rightarrow> int option" where
  "strncmp p q 0 = Some 0"
| "strncmp (x # p) (y # q) (Suc n) =
     (if x \<noteq> 0 \<and> x = y then strncmp p q n else Some (uint x - uint y))"
| "strncmp p q (Suc n) = None"

fun zero_tail :: "u8 list \<Rightarrow> nat \<Rightarrow> u8 list option" where
  "zero_tail s 0 = Some s"
| "zero_tail (x # s) (Suc n) = map_option ((#) 0) (zero_tail s n)"
| "zero_tail [] (Suc n) = None"

fun strncpy :: "u8 list \<Rightarrow> u8 list \<Rightarrow> nat \<Rightarrow> u8 list option" where
  "strncpy s t 0 = Some s"
| "strncpy (x # s) (c # t) (Suc n) =
     (if c \<noteq> 0 then map_option ((#) c) (strncpy s t n)
      else map_option ((#) 0) (zero_tail s n))"
| "strncpy s t (Suc n) = None"

text \<open>\<open>safestrcpy\<close> leaves the array alone when \<open>n\<close> is 0 (or negative). After the copy loop
  it stores one more NUL at the current position, which is past the NUL it may have copied.\<close>

fun safestrcpy :: "u8 list \<Rightarrow> u8 list \<Rightarrow> nat \<Rightarrow> u8 list option" where
  "safestrcpy s t 0 = Some s"
| "safestrcpy (x # s) t (Suc 0) = Some (0 # s)"
| "safestrcpy (x # s) (c # t) (Suc (Suc n)) =
     (if c \<noteq> 0 then map_option ((#) c) (safestrcpy s t (Suc n))
      else (case s of [] \<Rightarrow> None | y # s' \<Rightarrow> Some (0 # 0 # s')))"
| "safestrcpy s t (Suc n) = None"

fun strlen :: "u8 list \<Rightarrow> nat option" where
  "strlen [] = None"
| "strlen (c # s) = (if c = 0 then Some 0 else map_option Suc (strlen s))"

section \<open>Long division\<close>

text \<open>The loop counter \<open>i\<close> runs from 31 down to 0; \<open>div_loop n d q r (Suc i)\<close> is the
  iteration for \<open>i\<close>.\<close>

fun div_loop :: "u32 \<Rightarrow> u32 \<Rightarrow> u32 \<Rightarrow> u32 \<Rightarrow> nat \<Rightarrow> u32" where
  "div_loop n d q r 0 = q"
| "div_loop n d q r (Suc i) =
     (let r = push_bit 1 r; r = r OR (drop_bit i n AND 1)
      in if r \<ge> d then div_loop n d (q OR push_bit i 1) (r - d) i else div_loop n d q r i)"

definition udiv :: "u32 \<Rightarrow> u32 \<Rightarrow> u32" where
  "udiv n d = div_loop n d 0 0 32"

section \<open>memset fills\<close>

definition fill :: "mem \<Rightarrow> u32 \<Rightarrow> u8 \<Rightarrow> nat \<Rightarrow> mem" where
  "fill m p c n = (\<lambda>a. if unat (a - p) < n then c else m a)"

lemma unat_lt32: "unat (w :: u32) < 2 ^ 32"
  using unsigned_less [of w] by simp

lemma unat_of_nat32: "n < 2 ^ 32 \<Longrightarrow> unat (of_nat n :: u32) = n"
  by (simp add: unsigned_of_nat take_bit_eq_mod)

lemma unat_sub_Suc:
  fixes a p :: u32
  shows "unat (a - p) < Suc n \<longleftrightarrow> a = p \<or> a \<noteq> p \<and> unat (a - (p + 1)) < n"
proof (cases "a = p")
  case True
  then show ?thesis by simp
next
  case False
  then have "unat (a - (p + 1)) = unat (a - p) - 1"
    using unat_minus_one [of "a - p"] by (simp add: diff_diff_eq)
  moreover have "unat (a - p) \<noteq> 0"
    using False by (simp add: unat_eq_0)
  ultimately show ?thesis using False by auto
qed

lemma fill_Suc:
  assumes "n < 2 ^ 32"
  shows "fill m p c (Suc n) = fill (m(p := c)) (p + 1) c n"
proof (rule ext)
  fix a
  have "unat (p - (p + 1)) = 2 ^ 32 - 1" by (simp add: unsigned_minus_1_eq_mask mask_eq_exp_minus_1)
  then show "fill m p c (Suc n) a = fill (m(p := c)) (p + 1) c n a"
    using assms unat_sub_Suc [of a p n] by (auto simp: fill_def)
qed

lemma memsetb_fill: "n \<le> 2 ^ 32 \<Longrightarrow> memsetb m p c n = fill m p (ucast c) n"
proof (induction n arbitrary: m p)
  case 0
  then show ?case by (simp add: fill_def)
next
  case (Suc n)
  then show ?case by (simp add: fill_Suc)
qed

lemma byte_pattern:
  fixes c x :: u32
  defines "w \<equiv> push_bit 24 x OR push_bit 16 x OR push_bit 8 x OR x"
  assumes x: "\<And>n. bit x n \<longleftrightarrow> n < 8 \<and> bit c n"
  shows "(ucast w :: u8) = ucast c" "(ucast (drop_bit 8 w) :: u8) = ucast c"
    "(ucast (drop_bit 16 w) :: u8) = ucast c" "(ucast (drop_bit 24 w) :: u8) = ucast c"
  by (rule bit_word_eqI, auto simp: w_def bit_simps x)+

lemma bit_low_byte: "bit ((c :: u32) AND 0xFF) n \<longleftrightarrow> n < 8 \<and> bit c n"
proof -
  have "(0xFF :: u32) = mask 8" by (simp add: mask_eq_exp_minus_1)
  then show ?thesis by (simp only: bit_and_iff bit_mask_iff) (auto dest: bit_imp_le_length)
qed

lemma store32_fill4:
  assumes n: "4 * n + 4 \<le> 2 ^ 32"
    and w: "(ucast w :: u8) = c" "(ucast (drop_bit 8 w) :: u8) = c"
    "(ucast (drop_bit 16 w) :: u8) = c" "(ucast (drop_bit 24 w) :: u8) = c"
  shows "fill m p c (4 * Suc n) = fill (store32 m p w) (p + 4) c (4 * n)"
proof -
  have "fill m p c (Suc (Suc (Suc (Suc (4 * n)))))
      = fill (m(p := c, p + 1 := c, p + 1 + 1 := c, p + 1 + 1 + 1 := c)) (p + 1 + 1 + 1 + 1) c (4 * n)"
    using n by (simp only: fill_Suc)
  moreover have "Suc (Suc (Suc (Suc (4 * n)))) = 4 * Suc n" by simp
  ultimately show ?thesis using w by (simp only: store32_def) (simp add: add.assoc)
qed

lemma memsetw_fill:
  assumes "(ucast w :: u8) = c" "(ucast (drop_bit 8 w) :: u8) = c"
    "(ucast (drop_bit 16 w) :: u8) = c" "(ucast (drop_bit 24 w) :: u8) = c"
  shows "4 * n \<le> 2 ^ 32 \<Longrightarrow> memsetw m p w n = fill m p c (4 * n)"
proof (induction n arbitrary: m p)
  case 0
  then show ?case by (simp add: fill_def)
next
  case (Suc n)
  then have "4 * n + 4 \<le> 2 ^ 32" by simp
  from store32_fill4 [OF this assms] Suc show ?case by simp
qed

text \<open>The word-at-a-time path and the byte-at-a-time path compute the same memory.\<close>

lemma memset_eq_fill: "memset m dst c n = fill m dst (ucast c) (unat n)"
proof (cases "dst mod 4 = 0 \<and> n mod 4 = 0")
  case True
  then have "unat (n mod 4) = 0" by simp
  then have "unat n mod 4 = 0" by (simp add: unat_mod_distrib)
  have "4 * unat (n div 4) = unat n"
    using \<open>unat n mod 4 = 0\<close> by (simp add: unat_div_distrib) presburger
  moreover have "4 * unat (n div 4) \<le> 2 ^ 32"
    using calculation unat_lt32 [of n] by simp
  ultimately show ?thesis
    using True memsetw_fill [OF byte_pattern [OF bit_low_byte], of "unat (n div 4)" m dst c]
    by (simp add: memset_def Let_def)
next
  case False
  have "unat n \<le> 2 ^ 32" using unat_lt32 [of n] by simp
  with False show ?thesis by (auto simp: memset_def memsetb_fill)
qed

section \<open>memmove copies, also when the blocks overlap\<close>

definition copied :: "mem \<Rightarrow> u32 \<Rightarrow> u32 \<Rightarrow> nat \<Rightarrow> mem" where
  "copied m d s n = (\<lambda>a. if unat (a - d) < n then m (s + (a - d)) else m a)"

lemma unat_sub_less_Suc:
  fixes a d :: u32
  assumes "n < 2 ^ 32"
  shows "unat (a - d) < Suc n \<longleftrightarrow> a = d + of_nat n \<or> unat (a - d) < n"
proof -
  have "of_nat (unat (a - d)) = a - d" by simp
  then have "unat (a - d) = n \<longleftrightarrow> a - d = of_nat n"
    using unat_of_nat32 [OF assms] by auto
  moreover have "a - d = of_nat n \<longleftrightarrow> a = d + of_nat n" by (auto simp: algebra_simps)
  ultimately show ?thesis by (auto simp: less_Suc_eq)
qed

lemma copy_up_copied:
  "n \<le> 2 ^ 32 - 1 \<Longrightarrow> d = s \<or> n \<le> unat (d - s) \<Longrightarrow> copy_up m d s n = copied m d s n"
proof (induction n arbitrary: m d s)
  case 0
  then show ?case by (simp add: copied_def)
next
  case (Suc n)
  have "copy_up (m(d := m s)) (d + 1) (s + 1) n = copied (m(d := m s)) (d + 1) (s + 1) n"
    using Suc by (intro Suc.IH) auto
  also have "\<dots> = copied m d s (Suc n)"
  proof (rule ext)
    fix a
    have "s + (a - d) = d \<Longrightarrow> unat (a - d) = unat (d - s)"
      by (metis add_diff_cancel_left')
    then have "unat (a - d) < Suc n \<Longrightarrow> s + (a - d) = d \<Longrightarrow> d = s" using Suc.prems(2) by auto
    moreover have "s + 1 + (a - (d + 1)) = s + (a - d)" by simp
    moreover have "unat (d - (d + 1)) = 2 ^ 32 - 1"
      by (simp add: unsigned_minus_1_eq_mask mask_eq_exp_minus_1)
    ultimately show "copied (m(d := m s)) (d + 1) (s + 1) n a = copied m d s (Suc n) a"
      using Suc.prems(1) unat_sub_Suc [of a d n] by (auto simp: copied_def)
  qed
  finally show ?case by simp
qed

lemma copy_down_copied:
  "n \<le> 2 ^ 32 - 1 \<Longrightarrow> d = s \<or> n \<le> unat (s - d) \<Longrightarrow>
   copy_down m (d + of_nat n) (s + of_nat n) n = copied m d s n"
proof (induction n arbitrary: m)
  case 0
  then show ?case by (simp add: copied_def)
next
  case (Suc n)
  let ?m = "m(d + of_nat n := m (s + of_nat n))"
  have "copy_down m (d + of_nat (Suc n)) (s + of_nat (Suc n)) (Suc n)
      = copy_down ?m (d + of_nat n) (s + of_nat n) n"
    by (simp add: algebra_simps)
  also have "\<dots> = copied ?m d s n"
    using Suc by (intro Suc.IH) auto
  also have "\<dots> = copied m d s (Suc n)"
  proof (rule ext)
    fix a
    have "s = d" if "s + (a - d) = d + of_nat n" and less: "unat (a - d) < n"
    proof -
      from that(1) have eq: "s - d = of_nat n - (a - d)" by (simp add: algebra_simps)
      have "of_nat n - (a - d) = of_nat (n - unat (a - d))"
        using less by (simp add: of_nat_diff)
      moreover have "unat (of_nat (n - unat (a - d)) :: u32) = n - unat (a - d)"
        using Suc.prems(1) by (intro unat_of_nat32) simp
      ultimately have "unat (s - d) < Suc n" using eq by simp
      with Suc.prems(2) show ?thesis by auto
    qed
    moreover have "unat ((d + of_nat n) - d) = n"
      using Suc.prems(1) by (simp add: unat_of_nat32)
    ultimately show "copied ?m d s n a = copied m d s (Suc n) a"
      using Suc.prems(1) unat_sub_less_Suc [of n a d] by (auto simp: copied_def)
  qed
  finally show ?case .
qed

lemma memmove_eq_copied:
  assumes "unat src + unat n < 2 ^ 32" and "unat dst + unat n < 2 ^ 32"
  shows "memmove m dst src n = copied m dst src (unat n)"
proof -
  have n: "unat n \<le> 2 ^ 32 - 1" using unat_lt32 [of n] by simp
  have sum: "unat (src + n) = unat src + unat n"
    using assms by (simp add: unat_word_ariths)
  show ?thesis
  proof (cases "src < dst \<and> src + n > dst")
    case True
    then have "unat (src - dst) = 2 ^ 32 - (unat dst - unat src)"
      using unat_lt32 [of dst] by (simp add: unat_sub_if' word_less_nat_alt)
    then have "unat n \<le> unat (src - dst)" using assms by simp
    with True n copy_down_copied [of "unat n" dst src m] show ?thesis
      by (simp add: memmove_def)
  next
    case False
    have "dst = src \<or> unat n \<le> unat (dst - src)"
    proof (cases "dst \<le> src")
      case True
      show ?thesis
      proof (cases "dst = src")
        case False
        with True have "unat dst < unat src"
          by (simp add: word_less_nat_alt [symmetric])
        then have "unat (dst - src) = 2 ^ 32 - (unat src - unat dst)"
          using unat_lt32 [of src] by (simp add: unat_sub_if')
        then show ?thesis using assms by (intro disjI2) linarith
      qed simp
    next
      case False': False
      with False have "unat src + unat n \<le> unat dst"
        using sum by (simp add: word_less_nat_alt word_le_nat_alt)
      then show ?thesis by (auto simp: unat_sub_if')
    qed
    with False n copy_up_copied [of "unat n" dst src m] show ?thesis
      by (auto simp: memmove_def)
  qed
qed

section \<open>The long division divides\<close>

lemma bit_or_shift: "unat ((push_bit 1 r OR (drop_bit i n AND 1)) :: u32) = 2 * unat r + (unat n div 2 ^ i) mod 2"
  if "2 * unat r + 1 < 2 ^ 32"
proof -
  have a: "unat (drop_bit i n AND 1) = (unat n div 2 ^ i) mod 2"
    by (simp add: and_one_eq unat_mod_distrib unat_drop_bit_eq) (simp add: drop_bit_eq_div)
  have "push_bit 1 r OR (drop_bit i n AND 1) = push_bit 1 r + (drop_bit i n AND 1)"
    by (rule disjunctive_add_eq_or [symmetric]) 
       (rule bit_word_eqI, simp only: bit_and_iff bit_push_bit_iff bit_1_iff, auto)
  moreover have "unat (push_bit 1 r) = 2 * unat r"
    using that by (simp add: push_bit_eq_mult unat_word_ariths)
  ultimately show ?thesis
    using a that by (simp add: unat_word_ariths)
qed

lemma shifted_in:
  fixes r n :: u32
  assumes "unat r \<le> unat n div 2 ^ Suc i"
  shows "unat (push_bit 1 r OR (drop_bit i n AND 1)) = 2 * unat r + (unat n div 2 ^ i) mod 2"
    and "2 * unat r + (unat n div 2 ^ i) mod 2 \<le> unat n div 2 ^ i"
proof -
  have half: "unat n div 2 ^ Suc i = unat n div 2 ^ i div 2"
    by (metis div_mult2_eq mult.commute power_Suc)
  have "unat n div 2 ^ i \<le> unat n" by simp
  then have "unat n div 2 ^ i < 2 ^ 32" using unat_lt32 [of n] by linarith
  moreover have "r' \<le> N div 2 \<Longrightarrow> N < 2 ^ 32 \<Longrightarrow> 2 * r' + 1 < 2 ^ 32" for r' N :: nat
    by simp presburger
  ultimately have small: "2 * unat r + 1 < 2 ^ 32" using assms half by simp
  show "unat (push_bit 1 r OR (drop_bit i n AND 1)) = 2 * unat r + (unat n div 2 ^ i) mod 2"
    by (rule bit_or_shift [OF small])
  show "2 * unat r + (unat n div 2 ^ i) mod 2 \<le> unat n div 2 ^ i"
  proof -
    have "r' \<le> N div 2 \<Longrightarrow> 2 * r' + N mod 2 \<le> N" for r' N :: nat by presburger
    with assms half show ?thesis by simp
  qed
qed

lemma div_mod_step:
  fixes M D b :: nat
  assumes "0 < D" and "b < 2"
  defines "x \<equiv> 2 * (M mod D) + b"
  shows "(2 * M + b) div D = 2 * (M div D) + (if D \<le> x then 1 else 0)"
    and "(2 * M + b) mod D = (if D \<le> x then x - D else x)"
proof -
  have eq: "2 * M + b = x + D * (2 * (M div D))"
    using arg_cong [OF mult_div_mod_eq [of D M], of "(*) 2"] unfolding x_def
    by (simp only: distrib_left)
  have "x < 2 * D" using assms(1,2) mod_less_divisor [of D M] unfolding x_def by linarith
  then have "x div D = (if D \<le> x then 1 else 0)" and "x mod D = (if D \<le> x then x - D else x)"
    using assms(1) by (auto simp: div_if mod_if)
  then show "(2 * M + b) div D = 2 * (M div D) + (if D \<le> x then 1 else 0)"
    and "(2 * M + b) mod D = (if D \<le> x then x - D else x)"
    using assms(1) by (simp_all add: eq)
qed

lemma set_clear_bit:
  fixes q :: u32
  assumes "unat q = k * 2 ^ Suc i" and "i < 32"
  shows "unat (q OR push_bit i 1) = unat q + 2 ^ i"
proof -
  have "\<not> bit (unat q) i" using assms(1) by (subst bit_iff_odd) simp
  then have "\<not> bit q i" by (simp add: bit_unsigned_iff)
  then have "push_bit i 1 + q = push_bit i 1 OR q"
    by (intro disjunctive_add_eq_or bit_word_eqI)
      (auto simp: bit_simps)
  then have "q OR push_bit i 1 = q + push_bit i 1" by (simp add: ac_simps or.commute)
  moreover have "unat q + 2 ^ i < 2 ^ 32"
  proof -
    have "k * 2 ^ Suc i < 2 ^ Suc i * 2 ^ (31 - i)"
      using assms unat_lt32 [of q] by (simp flip: power_add)
    then have "Suc k \<le> 2 ^ (31 - i)" by (simp add: mult.commute)
    then have "Suc k * 2 ^ Suc i \<le> 2 ^ (31 - i) * 2 ^ Suc i" by (rule mult_le_mono1)
    also have "\<dots> = 2 ^ 32" using assms(2) by (simp flip: power_add)
    finally have "k * 2 ^ Suc i + 2 ^ Suc i \<le> 2 ^ 32" by simp
    moreover have "2 ^ i < (2 :: nat) ^ Suc i" by simp
    ultimately show ?thesis using assms(1) by linarith
  qed
  moreover have "unat (2 ^ i :: u32) = 2 ^ i"
    using unat_of_nat32 [of "2 ^ i"] power_strict_increasing [OF assms(2), of "2 :: nat"] by simp
  ultimately show ?thesis by (simp add: unat_word_ariths)
qed

text \<open>
  The loop invariant: after the iterations down to \<open>i\<close>, \<open>q\<close> holds the quotient bits above
  \<open>i\<close> and \<open>r\<close> the remainder of the dividend's bits above \<open>i\<close>.
\<close>

lemma div_loop_eq:
  assumes "d \<noteq> 0" and "i \<le> 32"
    and "unat q = unat n div 2 ^ i div unat d * 2 ^ i"
    and "unat r = unat n div 2 ^ i mod unat d"
  shows "unat (div_loop n d q r i) = unat n div unat d"
  using assms(2-)
proof (induction i arbitrary: q r)
  case 0
  then show ?case by simp
next
  case (Suc i)
  let ?N = "unat n div 2 ^ i" and ?M = "unat n div 2 ^ Suc i" and ?D = "unat d"
  let ?r = "push_bit 1 r OR (drop_bit i n AND 1)" and ?q = "q OR push_bit i 1"
  have D: "0 < ?D" using assms(1) by (simp add: unat_gt_0)
  have "?M = ?N div 2" by (metis div_mult2_eq mult.commute power_Suc)
  then have N: "?N = 2 * ?M + ?N mod 2" by simp
  have b: "?N mod 2 < 2" by simp
  have "unat r \<le> ?M" using Suc.prems(3) mod_less_eq_dividend by simp
  then have r: "unat ?r = 2 * (?M mod ?D) + ?N mod 2"
    using shifted_in(1) [of r n i] Suc.prems(3) by simp
  note step = div_mod_step [OF D b, of ?M, folded N r]
  have q: "unat ?q = unat q + 2 ^ i"
    using set_clear_bit [OF Suc.prems(2)] Suc.prems(1) by simp
  have qs: "unat q = 2 * (?M div ?D) * 2 ^ i" using Suc.prems(2) by simp
  show ?case
  proof (cases "d \<le> ?r")
    case True
    then have le: "?D \<le> unat ?r" by (simp add: word_le_nat_alt)
    have "unat (div_loop n d ?q (?r - d) i) = unat n div ?D"
      using Suc.prems(1) le True step q qs
      by (intro Suc.IH) (simp_all add: unat_sub algebra_simps)
    with True show ?thesis by (simp add: Let_def)
  next
    case False
    then have gt: "\<not> ?D \<le> unat ?r" by (simp add: word_le_nat_alt)
    have "unat (div_loop n d q ?r i) = unat n div ?D"
      using Suc.prems(1) gt step qs by (intro Suc.IH) simp_all
    with False show ?thesis by (simp add: Let_def)
  qed
qed

lemma udiv_eq: "d \<noteq> 0 \<Longrightarrow> udiv n d = n div d"
proof -
  assume d: "d \<noteq> 0"
  have "unat n div 2 ^ 32 = 0" using unat_lt32 [of n] by simp
  then have "unat (udiv n d) = unat n div unat d"
    unfolding udiv_def by (intro div_loop_eq d) simp_all
  then show ?thesis by (metis unat_div_distrib word_eq_iff_unsigned)
qed

section \<open>Fixed-width names\<close>

text \<open>The string a fixed-width character array holds: its bytes up to a NUL or the end.\<close>

definition cstr :: "nat \<Rightarrow> u8 list \<Rightarrow> u8 list" where
  "cstr n bs = takeWhile (\<lambda>c. c \<noteq> 0) (take n bs)"

lemma cstr_simps [simp]:
  "cstr 0 bs = []"
  "cstr n [] = []"
  "cstr (Suc n) (c # bs) = (if c = 0 then [] else c # cstr n bs)"
  by (simp_all add: cstr_def)

lemma length_cstr: "length (cstr n bs) \<le> n"
  using length_takeWhile_le [of "\<lambda>c. c \<noteq> 0" "take n bs"] by (simp add: cstr_def)

lemma cstr_nonzero: "0 \<notin> set (cstr n bs)"
  by (auto simp: cstr_def dest: set_takeWhileD)

text \<open>\<open>enough n t\<close>: \<open>n\<close> steps through \<open>t\<close> that stop at a NUL stay inside the array.\<close>

definition enough :: "nat \<Rightarrow> u8 list \<Rightarrow> bool" where
  "enough n t \<longleftrightarrow> n \<le> length t \<or> 0 \<in> set t"

lemma enough_simps [simp]:
  "enough 0 t"
  "\<not> enough (Suc n) []"
  "enough (Suc n) (c # t) \<longleftrightarrow> c = 0 \<or> enough n t"
  by (auto simp: enough_def)

lemma strncmp_decides:
  "enough n p \<Longrightarrow> enough n q \<Longrightarrow> \<exists>v. strncmp p q n = Some v \<and> (v = 0 \<longleftrightarrow> cstr n p = cstr n q)"
proof (induction p q n rule: strncmp.induct)
  case (2 x p y q n)
  show ?case
  proof (cases "x \<noteq> 0 \<and> x = y")
    case True
    with 2 show ?thesis by auto
  next
    case False
    then show ?thesis by (auto simp: word_uint_eq_iff)
  qed
qed auto

lemma zero_tail_replicate:
  "n \<le> length s \<Longrightarrow> zero_tail s n = Some (replicate n 0 @ drop n s)"
  by (induction s n rule: zero_tail.induct) auto

lemma cstr_zeros: "cstr n (replicate n 0 @ s) = []"
  by (cases n) auto

lemma strncpy_copies:
  "n \<le> length s \<Longrightarrow> enough n t \<Longrightarrow>
   \<exists>r. strncpy s t n = Some r \<and> length r = length s \<and> cstr n r = cstr n t"
proof (induction s t n rule: strncpy.induct)
  case (2 x s c t n)
  then show ?case by (auto simp: zero_tail_replicate)
qed auto

lemma safestrcpy_copies:
  "n \<le> length s \<Longrightarrow> 0 < n \<Longrightarrow> enough n t \<Longrightarrow>
   \<exists>r. safestrcpy s t n = Some r \<and> length r = length s
      \<and> cstr (length s) r = cstr (n - 1) t \<and> 0 \<in> set (take n r)"
proof (induction s t n rule: safestrcpy.induct)
  case (3 x s c t n)
  show ?case
  proof (cases "c = 0")
    case True
    with 3 show ?thesis by (cases s) auto
  next
    case False
    with 3 show ?thesis by auto
  qed
qed auto

section \<open>Properties\<close>

text \<open>memset writes the low byte of its argument to exactly the \<open>n\<close> bytes from \<open>dst\<close>,
  on the word-at-a-time path and on the byte-at-a-time path alike.\<close>

theorem memset_fills:
  "memset m dst c n a = (if unat (a - dst) < unat n then ucast c else m a)"
  by (simp add: memset_eq_fill fill_def)

text \<open>C23: memmove copies \<open>n\<close> bytes from the original contents of \<open>src\<close> to \<open>dst\<close> and changes
  nothing else, however the two blocks overlap, as long as neither wraps round the address
  space.\<close>

theorem memmove_copies:
  assumes "unat src + unat n < 2 ^ 32" and "unat dst + unat n < 2 ^ 32"
  shows "memmove m dst src n a = (if unat (a - dst) < unat n then m (src + (a - dst)) else m a)"
  by (simp only: memmove_eq_copied [OF assms] copied_def)

theorem memmove_copies_witness:
  "memmove (\<lambda>a. if a = 10 then 7 else if a = 11 then 8 else 0) 11 10 2 12 = 8"
  using memmove_copies [of 10 2 11 "\<lambda>a. if a = 10 then 7 else if a = 11 then 8 else 0" 12]
  by simp

text \<open>C24: the shift-and-subtract long division computes the unsigned quotient for every
  dividend and every nonzero divisor, including divisors with the top bit set.\<close>

theorem udiv_correct:
  assumes "d \<noteq> 0"
  shows "udiv n d = n div d"
  using assms by (rule udiv_eq)

theorem udiv_correct_witness: "udiv 0xFFFFFFFF 0x80000001 = 1"
  using udiv_correct [of "0x80000001" "0xFFFFFFFF"] by simp

text \<open>A name stored with strncpy into a fixed-width array is found again by strncmp: the
  copy stays inside the array and comparing it with any string decides whether the two agree
  in their first \<open>n\<close> bytes.\<close>

theorem strncpy_strncmp:
  assumes "n \<le> length s" and "enough n t" and "enough n u"
  shows "\<exists>r v. strncpy s t n = Some r \<and> length r = length s
    \<and> strncmp u r n = Some v \<and> (v = 0 \<longleftrightarrow> cstr n u = cstr n t)"
proof -
  obtain r where r: "strncpy s t n = Some r" "length r = length s" "cstr n r = cstr n t"
    using strncpy_copies [OF assms(1,2)] by blast
  then have "enough n r" using assms(1) by (simp add: enough_def)
  from strncmp_decides [OF assms(3) this] r show ?thesis by auto
qed

theorem strncpy_strncmp_witness:
  "\<exists>r. strncpy [9, 9, 9] [97, 0] 3 = Some r \<and> strncmp [97, 0, 5] r 3 = Some 0"
proof -
  have "3 \<le> length [9, 9, 9 :: u8]" and "enough 3 [97, 0]" and "enough 3 [97, 0, 5]"
    by (simp_all add: enough_def)
  from strncpy_strncmp [OF this] show ?thesis by (auto simp: cstr_def)
qed

end
