(* ===== verification/Memlayout.thy ===== *)
theory Memlayout
  imports CString
begin

text \<open>
  The address arithmetic of mmu.h and memlayout.h: pages, page directory and page table
  indices, and the fixed offset between kernel virtual and physical addresses.
\<close>

section \<open>Constants and macros\<close>

definition PGSIZE :: u32 where "PGSIZE = 4096"
definition MBYTE :: u32 where "MBYTE = 0x100000"
definition KERNBASE :: u32 where "KERNBASE = 0x80000000"
definition PHYSTOP :: u32 where "PHYSTOP = 0xC000000"
definition USERBOUND :: u32 where "USERBOUND = 0x40000000"

definition v2p :: "u32 \<Rightarrow> u32" where "v2p a = a - KERNBASE"
definition p2v :: "u32 \<Rightarrow> u32" where "p2v a = a + KERNBASE"

definition PGROUNDUP :: "u32 \<Rightarrow> u32" where "PGROUNDUP sz = (sz + PGSIZE - 1) AND NOT (PGSIZE - 1)"
definition PGROUNDDOWN :: "u32 \<Rightarrow> u32" where "PGROUNDDOWN a = a AND NOT (PGSIZE - 1)"

definition PDX :: "u32 \<Rightarrow> u32" where "PDX va = drop_bit 20 va AND 0xFFF"
definition PTX :: "u32 \<Rightarrow> u32" where "PTX va = drop_bit 12 va AND 0xFF"
definition PTE_ADDR :: "u32 \<Rightarrow> u32" where "PTE_ADDR pte = pte AND NOT 0xFFF"
definition PTE_FLAGS :: "u32 \<Rightarrow> u32" where "PTE_FLAGS pte = pte AND 0xFFF"

lemmas layout_defs = PGSIZE_def KERNBASE_def PHYSTOP_def USERBOUND_def MBYTE_def

lemma v2p_p2v [simp]: "v2p (p2v a) = a" and p2v_v2p [simp]: "p2v (v2p a) = a"
  by (simp_all add: v2p_def p2v_def)

section \<open>Pages\<close>

definition page_aligned :: "u32 \<Rightarrow> bool" where
  "page_aligned a \<longleftrightarrow> a mod 4096 = 0"

definition page_of :: "u32 \<Rightarrow> u32" where
  "page_of a = a div 4096"

lemma unat_page_of: "unat (page_of a) = unat a div 4096"
  by (simp add: page_of_def unat_div_distrib)

lemma page_aligned_unat: "page_aligned a \<longleftrightarrow> unat a mod 4096 = 0"
proof -
  have "unat (a mod 4096) = unat a mod 4096" by (simp add: unat_mod_distrib)
  then show ?thesis by (metis page_aligned_def unat_0 unat_eq_0)
qed

lemma page_of_eq_iff: "page_of a = page_of b \<longleftrightarrow> unat a div 4096 = unat b div 4096"
  by (metis unat_page_of word_eq_iff_unsigned)

lemma aligned_page_of_inj: "page_aligned a \<Longrightarrow> page_aligned b \<Longrightarrow> page_of a = page_of b \<Longrightarrow> a = b"
proof -
  assume "page_aligned a" "page_aligned b" "page_of a = page_of b"
  then have "unat a = unat b"
    unfolding page_aligned_unat page_of_eq_iff by (metis add_0_right mult_div_mod_eq)
  then show "a = b" by (simp add: word_unat_eq_iff)
qed

lemma aligned_div: "page_aligned a \<Longrightarrow> 4096 * (unat a div 4096) = unat a"
  unfolding page_aligned_unat by (metis add_0_right mult_div_mod_eq)

lemma unat_add_in_page:
  assumes "page_aligned v" and "unat k < 4096"
  shows "unat (v + k) = unat v + unat k"
proof -
  have "4096 * (unat v div 4096) < 4096 * 2 ^ 20"
    using aligned_div [OF assms(1)] unat_lt32 [of v] by simp
  then have "Suc (unat v div 4096) \<le> 2 ^ 20" by simp
  then have "4096 * (unat v div 4096) + 4096 \<le> 2 ^ 32" by simp
  then have "unat v + unat k < 2 ^ 32"
    using assms(2) unfolding aligned_div [OF assms(1)] by simp
  then show ?thesis by (simp add: unat_word_ariths)
qed

lemma page_of_add [simp]:
  assumes "page_aligned v" and "unat k < 4096"
  shows "page_of (v + k) = page_of v"
proof -
  have "(4096 * q + r) div 4096 = q" if "r < 4096" for q r :: nat
    using that by simp
  from this [OF assms(2), of "unat v div 4096"] show ?thesis
    unfolding page_of_eq_iff unat_add_in_page [OF assms] aligned_div [OF assms(1)] .
qed

lemma in_page_iff:
  assumes "page_aligned v"
  shows "unat (a - v) < 4096 \<longleftrightarrow> page_of a = page_of v"
proof
  assume k: "unat (a - v) < 4096"
  have "v + (a - v) = a" by simp
  with page_of_add [OF assms k] show "page_of a = page_of v" by simp
next
  assume "page_of a = page_of v"
  then have eq: "unat a div 4096 = unat v div 4096" by (simp add: page_of_eq_iff)
  then have a: "unat a = unat v + unat a mod 4096"
    using mult_div_mod_eq [of 4096 "unat a"] aligned_div [OF assms] by simp
  then have "unat v \<le> unat a" by linarith
  then have "unat (a - v) = unat a - unat v" by (simp add: unat_sub_if')
  also have "\<dots> = unat a mod 4096" using a by linarith
  finally show "unat (a - v) < 4096" by simp
qed

text \<open>Writes to one page are not seen in another.\<close>

definition same_page :: "mem \<Rightarrow> mem \<Rightarrow> u32 \<Rightarrow> bool" where
  "same_page m n p \<longleftrightarrow> (\<forall>a. page_of a = page_of p \<longrightarrow> m a = n a)"

lemma same_page_refl [simp]: "same_page m m p"
  by (simp add: same_page_def)

lemma same_page_trans: "same_page m n p \<Longrightarrow> same_page n o' p \<Longrightarrow> same_page m o' p"
  by (simp add: same_page_def)

lemma load32_same_page:
  "same_page m n p \<Longrightarrow> page_aligned p \<Longrightarrow> unat k < 4093 \<Longrightarrow> load32 m (p + k) = load32 n (p + k)"
proof -
  assume *: "same_page m n p" "page_aligned p" "unat k < 4093"
  have "unat (k + j) < 4096" if "unat j < 4" for j
    using *(3) that by (simp add: unat_word_ariths)
  from this [of 1] this [of 2] this [of 3] this [of 0] * show ?thesis
    by (simp add: load32_def same_page_def add.assoc)
qed

lemma load32_same_page0:
  "same_page m n p \<Longrightarrow> page_aligned p \<Longrightarrow> load32 m p = load32 n p"
  using load32_same_page [of m n p 0] by simp

lemma same_page_store32:
  assumes "page_aligned v" and "page_aligned p" and "v \<noteq> p" and "unat k < 4093"
  shows "same_page (store32 m (v + k) w) m p"
proof -
  have "unat (k + j) < 4096" if "unat j < 4" for j
    using assms(4) that by (simp add: unat_word_ariths)
  from this [of 0] this [of 1] this [of 2] this [of 3]
  have "page_of (v + k) = page_of v" "page_of (v + k + 1) = page_of v"
    "page_of (v + k + 2) = page_of v" "page_of (v + k + 3) = page_of v"
    using assms(1) by (simp_all add: add.assoc)
  moreover have "page_of v \<noteq> page_of p" using assms aligned_page_of_inj by blast
  ultimately show ?thesis by (auto simp: same_page_def store32_def)
qed

lemma same_page_memset:
  assumes "page_aligned v" and "page_aligned p" and "v \<noteq> p"
  shows "same_page (memset m v c PGSIZE) m p"
proof -
  have "page_of v \<noteq> page_of p" using assms aligned_page_of_inj by blast
  then show ?thesis
    using in_page_iff [OF assms(1)]
    by (auto simp: same_page_def memset_eq_fill fill_def PGSIZE_def)
qed

lemma load32_store32 [simp]: "load32 (store32 m a w) a = w"
proof -
  have "a + 1 \<noteq> a" "a + 2 \<noteq> a" "a + 3 \<noteq> a" "a + 2 \<noteq> a + 1" "a + 3 \<noteq> a + 1" "a + 3 \<noteq> a + 2"
    by simp_all
  then have "[store32 m a w a, store32 m a w (a + 1), store32 m a w (a + 2), store32 m a w (a + 3)]
      = le32 w"
    by (simp add: store32_def le32_def)
  then show ?thesis unfolding load32_def by (simp only: of_le32_le32)
qed

lemma bit_page_mask: "bit (- 4096 :: u32) n \<longleftrightarrow> 12 \<le> n \<and> n < 32"
proof -
  have "(- 4096 :: u32) = NOT (mask 12)" by (simp add: mask_eq_exp_minus_1)
  then show ?thesis by (simp only: bit_not_iff bit_mask_iff) auto
qed

lemma round_down: "unat ((a :: u32) AND - 4096) = 4096 * (unat a div 4096)"
proof -
  have "a AND - 4096 = push_bit 12 (drop_bit 12 a)"
    by (rule bit_word_eqI)
      (simp only: bit_and_iff bit_page_mask bit_push_bit_iff bit_drop_bit_eq, auto)
  moreover have "unat (drop_bit 12 a) = unat a div 4096"
    by (simp add: unat_drop_bit_eq) (simp add: drop_bit_eq_div)
  moreover have "4096 * (unat a div 4096) < 2 ^ 32"
    using unat_lt32 [of a] mult_div_mod_eq [of 4096 "unat a"] by linarith
  ultimately show ?thesis by (simp add: push_bit_eq_mult unat_word_ariths)
qed

lemma page_aligned_round_down [simp]: "page_aligned (a AND - 4096)"
  by (simp only: page_aligned_unat round_down) simp

lemma PTE_ADDR_aligned [simp]: "page_aligned (PTE_ADDR a)"
  unfolding PTE_ADDR_def by simp

lemma PGROUNDUP_aligned [simp]: "page_aligned (PGROUNDUP a)"
  by (simp add: PGROUNDUP_def PGSIZE_def)

text \<open>PGROUNDUP is the least page boundary not below its argument, unless it overflows.\<close>

lemma unat_PGROUNDUP:
  assumes "unat a + 4095 < 2 ^ 32"
  shows "unat (PGROUNDUP a) = 4096 * ((unat a + 4095) div 4096)"
proof -
  have "unat (a + 4095) = unat a + 4095" using assms by (simp add: unat_word_ariths)
  then show ?thesis by (simp add: PGROUNDUP_def PGSIZE_def round_down add.commute)
qed

lemma PTE_ADDR_id: "page_aligned a \<Longrightarrow> PTE_ADDR a = a"
  by (simp add: word_unat_eq_iff PTE_ADDR_def round_down aligned_div)

end
