(* ===== verification/Spinlock.thy ===== *)
theory Spinlock
  imports Prelude
begin

text \<open>
  spinlock.c on the one processor of the port: the interrupt mask, the nesting counter of
  \<open>pushcli\<close>, and the kernel's spin locks. \<open>cpu\<close> is the bottom layer of the kernel state; every
  other layer extends this record.
\<close>

section \<open>State\<close>

text \<open>The kernel's locks: one per lock variable of the source, and one per pipe (by the
  address of the page that holds the pipe).\<close>

datatype lockid =
    KmemLock | PtableLock | BcacheLock | LogLock | IcacheLock | FtableLock
  | TicksLock | InputLock | ConsLock | PipeLock u32

text \<open>struct spinlock: \<open>locked\<close>, and whether \<open>lk->cpu\<close> points at this cpu (it is a null pointer
  otherwise). The name and the recorded call stack are debugging aids no code reads.\<close>

record spinlock =
  locked :: bool
  on_cpu :: bool

text \<open>\<open>irq_off\<close> is the bit PSR_DISABLE_IRQ of the CPSR, which \<open>cli\<close> sets and \<open>sti\<close> clears;
  \<open>ncli\<close> and \<open>intena\<close> are the fields of struct cpu.\<close>

record cpu =
  irq_off :: bool
  ncli :: int
  intena :: bool
  locks :: "lockid \<Rightarrow> spinlock"

section \<open>Operations\<close>

definition cli :: "('z cpu_scheme, unit) kern" where
  "cli = modify (\<lambda>s. s\<lparr>irq_off := True\<rparr>)"

definition sti :: "('z cpu_scheme, unit) kern" where
  "sti = modify (\<lambda>s. s\<lparr>irq_off := False\<rparr>)"

definition initlock :: "lockid \<Rightarrow> ('z cpu_scheme, unit) kern" where
  "initlock l = modify (\<lambda>s. s\<lparr>locks := (locks s)(l := \<lparr>locked = False, on_cpu = False\<rparr>)\<rparr>)"

definition holding :: "lockid \<Rightarrow> 'z cpu_scheme \<Rightarrow> bool" where
  "holding l s \<longleftrightarrow> locked (locks s l) \<and> on_cpu (locks s l)"

definition pushcli :: "('z cpu_scheme, unit) kern" where
  "pushcli =
     call (reads irq_off) (\<lambda>cpsr.
     andthen cli
     (call (reads ncli) (\<lambda>n.
      andthen (modify (\<lambda>s. s\<lparr>ncli := n + 1\<rparr>))
      (if n = 0 then modify (\<lambda>s. s\<lparr>intena := \<not> cpsr\<rparr>) else return ()))))"

definition popcli :: "('z cpu_scheme, unit) kern" where
  "popcli =
     call (reads irq_off) (\<lambda>cpsr.
     andthen (panic_if (\<not> cpsr) ''popcli - interruptible'')
     (andthen (modify (\<lambda>s. s\<lparr>ncli := ncli s - 1\<rparr>))
     (call (reads (\<lambda>s. s)) (\<lambda>s.
      andthen (panic_if (ncli s < 0) ''popcli'')
      (if ncli s = 0 \<and> intena s then sti else return ())))))"

definition acquire :: "lockid \<Rightarrow> ('z cpu_scheme, unit) kern" where
  "acquire l =
     andthen pushcli
     (call (reads (holding l)) (\<lambda>h.
      andthen (panic_if h ''acquire'')
      (modify (\<lambda>s. s\<lparr>locks := (locks s)(l := \<lparr>locked = True, on_cpu = True\<rparr>)\<rparr>))))"

definition release :: "lockid \<Rightarrow> ('z cpu_scheme, unit) kern" where
  "release l =
     call (reads (holding l)) (\<lambda>h.
     andthen (panic_if (\<not> h) ''release'')
     (andthen (modify (\<lambda>s. s\<lparr>locks := (locks s)(l := \<lparr>locked = False, on_cpu = False\<rparr>)\<rparr>))
      popcli))"

text \<open>The bracket \<open>acquire(l); body; release(l)\<close>, for the handlers that release on every path
  they return by.\<close>

definition locked_section :: "lockid \<Rightarrow> ('z cpu_scheme, 'a) kern \<Rightarrow> ('z cpu_scheme, 'a) kern" where
  "locked_section l body =
     andthen (acquire l) (call body (\<lambda>r. andthen (release l) (return r)))"

section \<open>What a bracket does\<close>

text \<open>
  \<open>cli_ok\<close> is what every kernel function keeps between its calls: the nesting counter is not
  negative, and interrupts are masked while it is positive. \<open>balanced s t\<close> says that the
  processor's part of \<open>t\<close> is that of \<open>s\<close>, as after any sequence of matched brackets; the
  saved interrupt flag is overwritten by the outermost one.
\<close>

definition cli_ok :: "'z cpu_scheme \<Rightarrow> bool" where
  "cli_ok s \<longleftrightarrow> 0 \<le> ncli s \<and> (0 < ncli s \<longrightarrow> irq_off s)"

definition balanced :: "'z cpu_scheme \<Rightarrow> 'z cpu_scheme \<Rightarrow> bool" where
  "balanced s t \<longleftrightarrow> irq_off t = irq_off s \<and> ncli t = ncli s
     \<and> (0 < ncli s \<longrightarrow> intena t = intena s) \<and> (\<forall>l. holding l t = holding l s)"

text \<open>The state inside the outermost critical section, and after it.\<close>

definition entered :: "lockid \<Rightarrow> 'z cpu_scheme \<Rightarrow> 'z cpu_scheme" where
  "entered l s = s\<lparr>irq_off := True, ncli := ncli s + 1,
     intena := (if ncli s = 0 then \<not> irq_off s else intena s),
     locks := (locks s)(l := \<lparr>locked = True, on_cpu = True\<rparr>)\<rparr>"

definition left :: "lockid \<Rightarrow> 'z cpu_scheme \<Rightarrow> 'z cpu_scheme" where
  "left l s = s\<lparr>irq_off := \<not> (ncli s = 1 \<and> intena s), ncli := ncli s - 1,
     locks := (locks s)(l := \<lparr>locked = False, on_cpu = False\<rparr>)\<rparr>"

lemma pushcli_eq:
  "pushcli s = Ret () (s\<lparr>irq_off := True, ncli := ncli s + 1,
     intena := (if ncli s = 0 then \<not> irq_off s else intena s)\<rparr>)"
  by (simp add: pushcli_def cli_def kern_defs)

lemma popcli_eq:
  "popcli s = (if \<not> irq_off s then Panic ''popcli - interruptible''
     else if ncli s < 1 then Panic ''popcli''
     else Ret () (s\<lparr>irq_off := \<not> (ncli s = 1 \<and> intena s), ncli := ncli s - 1\<rparr>))"
  by (auto simp: popcli_def sti_def kern_defs)

lemma acquire_eq:
  "acquire l s = (if holding l s then Panic ''acquire'' else Ret () (entered l s))"
  by (simp add: acquire_def andthen_def call_app pushcli_eq entered_def holding_def)
    (simp add: kern_defs holding_def)

lemma release_eq:
  "release l s = (if \<not> holding l s then Panic ''release''
     else if \<not> irq_off s then Panic ''popcli - interruptible''
     else if ncli s < 1 then Panic ''popcli''
     else Ret () (left l s))"
  by (simp add: release_def andthen_def call_app reads_def modify_def panic_if_def panic_def
      return_def popcli_eq left_def)

lemma holding_entered [simp]: "holding k (entered l s) \<longleftrightarrow> k = l \<or> holding k s"
  by (simp add: entered_def holding_def)

lemma holding_left [simp]: "holding k (left l s) \<longleftrightarrow> k \<noteq> l \<and> holding k s"
  by (simp add: left_def holding_def)

lemma runs_acquire: "\<not> holding l s \<Longrightarrow> Q () (entered l s) \<Longrightarrow> runs (acquire l) s Q"
  by (simp add: runs_def acquire_eq)

lemma runs_release:
  "holding l s \<Longrightarrow> irq_off s \<Longrightarrow> 0 < ncli s \<Longrightarrow> Q () (left l s) \<Longrightarrow> runs (release l) s Q"
  by (simp add: runs_def release_eq)

lemma balanced_refl [simp, intro]: "balanced s s"
  by (simp add: balanced_def)

lemma balanced_trans [trans]: "balanced s t \<Longrightarrow> balanced t u \<Longrightarrow> balanced s u"
  by (simp add: balanced_def)

lemma balanced_cli_ok: "balanced s t \<Longrightarrow> cli_ok t = cli_ok s"
  by (simp add: balanced_def cli_ok_def)

lemma balanced_holding: "balanced s t \<Longrightarrow> holding l t = holding l s"
  by (simp add: balanced_def)

lemma balanced_left:
  assumes "balanced (entered l s) t" and "\<not> holding l s" and "cli_ok s"
  shows "balanced s (left l t)"
  using assms by (auto simp: balanced_def cli_ok_def) (auto simp: entered_def left_def split: if_splits)

lemma cli_ok_entered [simp]: "cli_ok s \<Longrightarrow> cli_ok (entered l s)"
  by (simp add: cli_ok_def entered_def)

lemma runs_locked_section [runs_rules]:
  assumes "\<not> holding l s" and "cli_ok s"
    and body: "runs body (entered l s) (\<lambda>r t. balanced (entered l s) t \<and> Q r (left l t))"
  shows "runs (locked_section l body) s Q"
proof -
  have "runs (release l) t (\<lambda>_ u. Q r u)" if "balanced (entered l s) t" "Q r (left l t)" for r t
    using that assms(2) by (intro runs_release)
      (auto simp: balanced_def cli_ok_def, auto simp: entered_def)
  then show ?thesis
    unfolding locked_section_def using assms(1)
    by (auto intro!: runs_acquire intro: runs_mono [OF body])
qed

text \<open>What a bracket that returns has done.\<close>

lemma locked_section_eq:
  assumes "\<not> holding l s" and "cli_ok s"
    and "body (entered l s) = Ret r t" and "balanced (entered l s) t"
  shows "locked_section l body s = Ret r (left l t)"
proof -
  have "0 < ncli t" "irq_off t" "holding l t"
    using assms(2,4) by (auto simp: balanced_def cli_ok_def) (auto simp: entered_def)
  then show ?thesis
    using assms(1,3)
    by (simp add: locked_section_def andthen_def call_app acquire_eq release_eq)
qed

lemma locked_section_RetD:
  "locked_section l body s = Ret r t \<Longrightarrow> \<exists>u. body (entered l s) = Ret r u \<and> t = left l u"
  by (auto simp: locked_section_def andthen_def call_eq_Ret acquire_eq release_eq return_def
      split: if_splits)

section \<open>Interruptions\<close>

text \<open>
  The calls of a function one after the other, with an interruption before any of them, as long as
  interrupts are not masked. What happens in an interruption, from the interrupt to the moment the
  processor is back, is the relation \<open>E\<close>: the handler may have given the processor to any other
  process. A masked processor is not interrupted, and there is only one. \<open>n\<close> counts the interruptions.
\<close>

primrec in_order :: "('s, unit) kern list \<Rightarrow> ('s, 'a) kern \<Rightarrow> ('s, 'a) kern" where
  "in_order [] k = k"
| "in_order (m # ms) k = andthen m (in_order ms k)"

inductive interruptible :: "('z cpu_scheme \<Rightarrow> 'z cpu_scheme \<Rightarrow> bool) \<Rightarrow> ('z cpu_scheme, unit) kern list \<Rightarrow>
    ('z cpu_scheme, 'a) kern \<Rightarrow> 'z cpu_scheme \<Rightarrow> nat \<Rightarrow> ('z cpu_scheme, 'a) result \<Rightarrow> bool" for E where
  last_call: "interruptible E [] k s 0 (k s)"
| next_call: "m s = Ret () t \<Longrightarrow> interruptible E ms k t n r \<Longrightarrow> interruptible E (m # ms) k s n r"
| panics: "m s = Panic e \<Longrightarrow> interruptible E (m # ms) k s 0 (Panic e)"
| undefined_call: "m s = Undef e \<Longrightarrow> interruptible E (m # ms) k s 0 (Undef e)"
| switches: "m s = Switch t \<Longrightarrow> interruptible E (m # ms) k s 0 (Switch t)"
| interrupt: "\<not> irq_off s \<Longrightarrow> E s t \<Longrightarrow> interruptible E ms k t n r \<Longrightarrow> interruptible E ms k s (Suc n) r"

inductive_cases last_callE: "interruptible E [] k s n r"
inductive_cases next_callE: "interruptible E (m # ms) k s n r"

lemma interruptible_last: "irq_off s \<Longrightarrow> interruptible E [] k s n r \<Longrightarrow> n = 0 \<and> r = k s"
  by (erule last_callE) simp_all

lemma interruptible_next:
  "irq_off s \<Longrightarrow> m s = Ret () t \<Longrightarrow> interruptible E (m # ms) k s n r \<Longrightarrow> interruptible E ms k t n r"
  by (erule next_callE) simp_all

text \<open>Without interruptions it is the function as the other theories run it.\<close>

lemma interruptible_in_order: "interruptible E ms k s 0 (in_order ms k s)"
proof (induction ms arbitrary: s)
  case (Cons m ms)
  then show ?case by (cases "m s") (auto simp: andthen_def call_def intro: interruptible.intros)
qed (simp add: last_call)

section \<open>Interrupts are off while a lock is held\<close>

text \<open>
  What the kernel does to the processor state, one call at a time, with the number of calls of
  \<open>pushcli\<close> outside \<open>acquire\<close> that no \<open>popcli\<close> has undone yet.
\<close>

inductive cpu_reach :: "'z cpu_scheme \<Rightarrow> 'z cpu_scheme \<Rightarrow> nat \<Rightarrow> bool" for s0 where
  start: "cpu_reach s0 s0 0"
| acq: "cpu_reach s0 s n \<Longrightarrow> acquire l s = Ret () t \<Longrightarrow> cpu_reach s0 t n"
| rel: "cpu_reach s0 s n \<Longrightarrow> release l s = Ret () t \<Longrightarrow> cpu_reach s0 t n"
| push: "cpu_reach s0 s n \<Longrightarrow> pushcli s = Ret () t \<Longrightarrow> cpu_reach s0 t (Suc n)"
| pop: "cpu_reach s0 s (Suc n) \<Longrightarrow> popcli s = Ret () t \<Longrightarrow> cpu_reach s0 t n"

definition cpu_inv :: "'z cpu_scheme \<Rightarrow> nat \<Rightarrow> bool" where
  "cpu_inv s n \<longleftrightarrow> cli_ok s \<and> finite {l. holding l s} \<and> ncli s = int (card {l. holding l s}) + int n"

lemma holding_entered_set: "{k. holding k (entered l s)} = insert l {k. holding k s}"
  by auto

lemma holding_left_set: "{k. holding k (left l s)} = {k. holding k s} - {l}"
  by auto

lemma cpu_reach_inv:
  assumes "cpu_reach s0 s n" and "cpu_inv s0 0"
  shows "cpu_inv s n"
  using assms(1)
proof induction
  case (acq s n l t)
  then have t: "t = entered l s" and "\<not> holding l s" by (auto simp: acquire_eq split: if_splits)
  with acq.IH show ?case
    unfolding t cpu_inv_def holding_entered_set by (simp add: cli_ok_def) (simp add: entered_def)
next
  case (rel s n l t)
  then have t: "t = left l s" and h: "holding l s" and pos: "1 \<le> ncli s"
    by (auto simp: release_eq split: if_splits)
  have "Suc (card ({k. holding k s} - {l})) = card {k. holding k s}"
    using rel.IH h by (intro card_Suc_Diff1) (auto simp: cpu_inv_def)
  then have "int (card ({k. holding k s} - {l})) + int n = ncli s - 1"
    using rel.IH unfolding cpu_inv_def by linarith
  with rel.IH pos show ?case
    unfolding t cpu_inv_def holding_left_set cli_ok_def by (auto simp: left_def)
next
  case (push s n t)
  then show ?case by (auto simp: pushcli_eq cpu_inv_def cli_ok_def holding_def)
next
  case (pop s n t)
  then show ?case by (auto simp: popcli_eq cpu_inv_def cli_ok_def holding_def split: if_splits)
qed (rule assms(2))

section \<open>Properties\<close>

text \<open>A processor as the kernel starts: no lock held, no nesting.\<close>

definition cpu_start :: cpu where
  "cpu_start = \<lparr>irq_off = False, ncli = 0, intena = False,
     locks = (\<lambda>_. \<lparr>locked = False, on_cpu = False\<rparr>)\<rparr>"

lemma cpu_start_inv: "cpu_inv cpu_start 0"
  by (simp add: cpu_inv_def cpu_start_def cli_ok_def holding_def)

text \<open>C22: in every state the kernel reaches by acquiring and releasing locks and by matched
  pushcli and popcli, the nesting counter is exactly the number of locks held plus the number of open
  pushcli, and interrupts are masked as long as a spin lock is held or a pushcli is open, so no handler
  can run inside a critical section.\<close>

theorem irq_off_while_locked:
  assumes "cpu_reach cpu_start s n"
  shows "ncli s = int (card {l. holding l s}) + int n \<and> finite {l. holding l s}
    \<and> ((\<exists>l. holding l s) \<or> 0 < n \<longrightarrow> irq_off s)"
proof -
  have inv: "cpu_inv s n" using assms cpu_start_inv by (rule cpu_reach_inv)
  then have "holding l s \<Longrightarrow> 0 < card {l. holding l s}" for l by (auto simp: cpu_inv_def card_gt_0_iff)
  with inv show ?thesis by (fastforce simp: cpu_inv_def cli_ok_def)
qed

theorem irq_off_while_locked_witness:
  "irq_off (entered KmemLock cpu_start) \<and> card {l. holding l (entered KmemLock cpu_start)} = 1"
proof -
  let ?s = "entered KmemLock cpu_start"
  have "acquire KmemLock cpu_start = Ret () ?s" by (simp add: acquire_eq cpu_start_def holding_def)
  then have "cpu_reach cpu_start ?s 0" by (blast intro: cpu_reach.intros)
  from irq_off_while_locked [OF this] have "irq_off ?s" "ncli ?s = int (card {l. holding l ?s})"
    using holding_entered [of KmemLock KmemLock cpu_start] by auto
  moreover have "ncli ?s = 1" by (simp add: entered_def cpu_start_def)
  ultimately show ?thesis by simp
qed

text \<open>Acquiring a free lock returns with the lock held and interrupts masked; acquiring it
  again panics; releasing it restores the interrupt mask, the nesting depth and the set of
  held locks.\<close>

theorem acquire_release:
  assumes "cli_ok s" and "\<not> holding l s"
  shows "\<exists>t u. acquire l s = Ret () t \<and> holding l t \<and> irq_off t
    \<and> acquire l t = Panic ''acquire'' \<and> release l t = Ret () u \<and> balanced s u"
proof -
  let ?t = "entered l s"
  have "release l ?t = Ret () (left l ?t)"
    using assms(1) by (simp add: release_eq) (simp add: entered_def cli_ok_def)
  moreover have "balanced s (left l ?t)" using assms by (intro balanced_left) simp_all
  ultimately show ?thesis using assms(2) by (auto simp: acquire_eq) (simp_all add: entered_def)
qed

theorem acquire_release_witness:
  "\<exists>t u. acquire LogLock cpu_start = Ret () t \<and> release LogLock t = Ret () u
    \<and> irq_off u = False"
  using acquire_release [of cpu_start LogLock]
  by (auto simp: cli_ok_def holding_def cpu_start_def balanced_def)

end
