(* ===== verification/Kalloc.thy ===== *)
theory Kalloc
  imports Memlayout Spinlock
begin

text \<open>
  kalloc.c: the allocator of 4096-byte physical pages. The free list is threaded through the
  free pages themselves (struct run is one pointer at the start of the page), so the model
  keeps the byte memory of the kernel and the address of the first free page.
\<close>

section \<open>State\<close>

text \<open>\<open>kend\<close> is the linker's symbol \<open>end\<close>, the first address after the kernel.\<close>

record kmem = cpu +
  mem :: mem
  freelist :: u32
  use_lock :: bool
  kend :: u32

section \<open>Operations\<close>

text \<open>\<open>if(kmem.use_lock) acquire(..); body; if(kmem.use_lock) release(..);\<close>\<close>

definition locked_if :: "bool \<Rightarrow> lockid \<Rightarrow> ('z cpu_scheme, 'a) kern \<Rightarrow> ('z cpu_scheme, 'a) kern" where
  "locked_if b l body =
     andthen (if b then acquire l else return ())
     (call body (\<lambda>r. andthen (if b then release l else return ()) (return r)))"

definition kfree_bad :: "u32 \<Rightarrow> 'z kmem_scheme \<Rightarrow> bool" where
  "kfree_bad v s \<longleftrightarrow> v mod PGSIZE \<noteq> 0 \<or> v < kend s \<or> v2p v \<ge> PHYSTOP"

definition kfree :: "u32 \<Rightarrow> ('z kmem_scheme, unit) kern" where
  "kfree v =
     call (reads (kfree_bad v)) (\<lambda>bad.
     andthen (panic_if bad ''kfree'')
     (andthen (modify (\<lambda>s. s\<lparr>mem := memset (mem s) v 1 PGSIZE\<rparr>))
     (call (reads use_lock) (\<lambda>ul.
      locked_if ul KmemLock
        (modify (\<lambda>s. s\<lparr>mem := store32 (mem s) v (freelist s), freelist := v\<rparr>))))))"

definition kalloc :: "('z kmem_scheme, u32) kern" where
  "kalloc =
     call (reads use_lock) (\<lambda>ul.
     locked_if ul KmemLock
       (call (reads freelist) (\<lambda>r.
        andthen (if r \<noteq> 0 then modify (\<lambda>s. s\<lparr>freelist := load32 (mem s) r\<rparr>) else return ())
        (return r))))"

text \<open>
  The loop of \<open>freerange\<close>. There are \<open>2 ^ 20\<close> page addresses, so that many iterations are
  enough: before the address could wrap round, \<open>kfree\<close> panics on a page above PHYSTOP.
\<close>

fun freerange_loop :: "nat \<Rightarrow> u32 \<Rightarrow> u32 \<Rightarrow> ('z kmem_scheme, unit) kern" where
  "freerange_loop 0 p vend = undef ''freerange: out of iterations''"
| "freerange_loop (Suc n) p vend =
     (if p + PGSIZE \<le> vend then andthen (kfree p) (freerange_loop n (p + PGSIZE) vend)
      else return ())"

definition freerange :: "u32 \<Rightarrow> u32 \<Rightarrow> ('z kmem_scheme, unit) kern" where
  "freerange vstart vend = freerange_loop (2 ^ 20 + 1) (PGROUNDUP vstart) vend"

definition kinit1 :: "u32 \<Rightarrow> u32 \<Rightarrow> ('z kmem_scheme, unit) kern" where
  "kinit1 vstart vend =
     andthen (initlock KmemLock)
     (andthen (modify (\<lambda>s. s\<lparr>use_lock := False, freelist := 0\<rparr>))
     (freerange vstart vend))"

definition kinit2 :: "u32 \<Rightarrow> u32 \<Rightarrow> ('z kmem_scheme, unit) kern" where
  "kinit2 vstart vend =
     andthen (freerange vstart vend) (modify (\<lambda>s. s\<lparr>use_lock := True\<rparr>))"

section \<open>The free list\<close>

text \<open>\<open>flist m p ps\<close>: from \<open>p\<close>, the links stored in memory visit exactly the pages \<open>ps\<close>.\<close>

fun flist :: "mem \<Rightarrow> u32 \<Rightarrow> u32 list \<Rightarrow> bool" where
  "flist m p [] \<longleftrightarrow> p = 0"
| "flist m p (q # qs) \<longleftrightarrow> p = q \<and> q \<noteq> 0 \<and> flist m (load32 m q) qs"

definition page_ok :: "'z kmem_scheme \<Rightarrow> u32 \<Rightarrow> bool" where
  "page_ok s p \<longleftrightarrow> p \<noteq> 0 \<and> \<not> kfree_bad p s"

definition kmem_inv :: "'z kmem_scheme \<Rightarrow> u32 list \<Rightarrow> bool" where
  "kmem_inv s ps \<longleftrightarrow> flist (mem s) (freelist s) ps \<and> distinct ps \<and> (\<forall>p \<in> set ps. page_ok s p)"

lemma page_ok_aligned: "page_ok s p \<Longrightarrow> page_aligned p"
  by (simp add: page_ok_def kfree_bad_def page_aligned_def PGSIZE_def)

lemma flist_det: "flist m p ps \<Longrightarrow> flist m p qs \<Longrightarrow> ps = qs"
proof (induction ps arbitrary: p qs)
  case Nil
  then show ?case by (cases qs) auto
next
  case (Cons a ps)
  then show ?case by (cases qs) auto
qed

lemma flist_frame:
  "flist m p ps \<Longrightarrow> (\<And>q. q \<in> set ps \<Longrightarrow> page_aligned q \<and> same_page n m q) \<Longrightarrow> flist n p ps"
proof (induction ps arbitrary: p)
  case Nil
  then show ?case by simp
next
  case (Cons q ps)
  then have "load32 n q = load32 m q" by (simp add: load32_same_page0)
  with Cons show ?case by simp
qed

definition lock_free :: "lockid \<Rightarrow> 'z cpu_scheme \<Rightarrow> bool" where
  "lock_free l s \<longleftrightarrow> cli_ok s \<and> \<not> holding l s"

lemma balanced_lock_free: "balanced s t \<Longrightarrow> lock_free l t = lock_free l s"
  by (simp add: lock_free_def balanced_cli_ok balanced_holding)

text \<open>What the allocator may change: the processor fields, memory and the list head.\<close>

definition kmem_frame :: "'z kmem_scheme \<Rightarrow> 'z kmem_scheme \<Rightarrow> bool" where
  "kmem_frame s t \<longleftrightarrow> t = s\<lparr>irq_off := irq_off t, ncli := ncli t, intena := intena t,
     locks := locks t, mem := mem t, freelist := freelist t\<rparr>"

lemma kmem_frame_iff:
  "kmem_frame s t \<longleftrightarrow> use_lock t = use_lock s \<and> kend t = kend s \<and> kmem.more t = kmem.more s"
  by (cases s; cases t) (auto simp: kmem_frame_def)

lemma kmem_frame_trans [trans]: "kmem_frame s t \<Longrightarrow> kmem_frame t u \<Longrightarrow> kmem_frame s u"
  by (simp add: kmem_frame_iff)

lemma page_ok_frame: "kmem_frame s t \<Longrightarrow> page_ok t p = page_ok s p"
  by (simp add: kmem_frame_iff page_ok_def kfree_bad_def)

lemma runs_locked_if [runs_rules]:
  assumes "lock_free l s" and "\<not> b \<Longrightarrow> runs body s Q"
    and "b \<Longrightarrow> runs body (entered l s) (\<lambda>r t. balanced (entered l s) t \<and> Q r (left l t))"
  shows "runs (locked_if b l body) s Q"
proof (cases b)
  case True
  then show ?thesis
    using runs_locked_section [of l s body Q] assms(1,3)
    by (simp add: locked_if_def locked_section_def lock_free_def)
qed (use assms in \<open>simp add: locked_if_def\<close>)

lemma kmem_upd_simps [simp]:
  "balanced s (s\<lparr>mem := m\<rparr>)" "balanced s (s\<lparr>freelist := p\<rparr>)"
  "balanced s (s\<lparr>mem := m, freelist := p\<rparr>)"
  "kmem_frame s (s\<lparr>mem := m\<rparr>)" "kmem_frame s (s\<lparr>freelist := p\<rparr>)"
  "kmem_frame s (s\<lparr>mem := m, freelist := p\<rparr>)"
  "kmem_frame s (entered l s)" "kmem_frame s (left l s)" "kmem_frame s s"
  by (simp_all add: balanced_def holding_def kmem_frame_iff entered_def left_def)

lemma kmem_entered_simps [simp]:
  "mem (entered l s) = mem s" "freelist (entered l s) = freelist s"
  "use_lock (entered l s) = use_lock s" "kend (entered l s) = kend s"
  "mem (left l s) = mem s" "freelist (left l s) = freelist s"
  "use_lock (left l s) = use_lock s" "kend (left l s) = kend s"
  "kmem.more (entered l s) = kmem.more s" "kmem.more (left l s) = kmem.more s"
  by (simp_all add: entered_def left_def)

text \<open>A bracket around an update that leaves the processor alone is balanced.\<close>

lemma bracket_balanced:
  "lock_free l s \<Longrightarrow> balanced (entered l s) t \<Longrightarrow> balanced s (left l t)"
  by (rule balanced_left) (simp_all add: lock_free_def)

lemma bracket_frame:
  "kmem_frame (entered l s) t \<Longrightarrow> kmem_frame s (left l t)"
  by (simp add: kmem_frame_iff)

lemma kalloc_frame: "kalloc s = Ret r t \<Longrightarrow> kmem_frame s t"
  by (auto simp: kalloc_def locked_if_def andthen_def call_eq_Ret acquire_eq release_eq return_def
      reads_def modify_def kmem_frame_iff split: if_splits)

lemma runs_kalloc:
  assumes lf: "lock_free KmemLock s" and inv: "kmem_inv s ps"
  shows "runs kalloc s (\<lambda>r t. balanced s t \<and> kmem_frame s t \<and> mem t = mem s \<and> kmem_inv t (tl ps)
    \<and> r = (if ps = [] then 0 else hd ps))"
proof (cases ps)
  case Nil
  with inv have "freelist s = 0" by (simp add: kmem_inv_def)
  with Nil inv lf show ?thesis
    unfolding kalloc_def
    by (auto simp: kmem_inv_def page_ok_frame intro!: runs_locked_if bracket_balanced bracket_frame)
next
  case (Cons q qs)
  with inv have q: "freelist s = q" "q \<noteq> 0" "flist (mem s) (load32 (mem s) q) qs" "distinct qs"
    "\<forall>p \<in> set qs. page_ok s p"
    by (simp_all add: kmem_inv_def)
  have inv': "kmem_inv t qs" if "kmem_frame s t" "mem t = mem s" "freelist t = load32 (mem s) q" for t
    using that q by (simp add: kmem_inv_def page_ok_frame)
  with q Cons lf show ?thesis
    unfolding kalloc_def
    by (auto simp: kmem_frame_iff intro!: runs_locked_if bracket_balanced inv')
qed

lemma runs_kfree:
  assumes lf: "lock_free KmemLock s" and inv: "kmem_inv s ps" and v: "page_ok s v" "v \<notin> set ps"
  shows "runs (kfree v) s (\<lambda>_ t. balanced s t \<and> kmem_frame s t \<and> kmem_inv t (v # ps)
    \<and> mem t = store32 (memset (mem s) v 1 PGSIZE) v (freelist s))"
proof -
  let ?m1 = "memset (mem s) v 1 PGSIZE"
  let ?m2 = "store32 ?m1 v (freelist s)" and ?s1 = "s\<lparr>mem := ?m1\<rparr>"
  have al: "page_aligned v" using v(1) by (rule page_ok_aligned)
  have same: "page_aligned q \<and> same_page ?m2 (mem s) q" if "q \<in> set ps" for q
  proof -
    have q: "page_aligned q" "v \<noteq> q"
      using inv that v(2) by (auto simp: kmem_inv_def intro: page_ok_aligned)
    have "same_page ?m2 ?m1 q" using same_page_store32 [OF al q, of 0] by simp
    with same_page_memset [OF al q] q(1) show ?thesis by (blast intro: same_page_trans)
  qed
  have "flist ?m2 (freelist s) ps"
    using inv by (intro flist_frame [OF _ same]) (simp_all add: kmem_inv_def)
  then have list: "flist ?m2 v (v # ps)" using v(1) by (simp add: page_ok_def)
  have inv': "kmem_inv t (v # ps)" if "kmem_frame s t" "mem t = ?m2" "freelist t = v" for t
    using that list v inv by (simp add: kmem_inv_def page_ok_frame)
  have lf1: "lock_free KmemLock ?s1" using lf balanced_lock_free [OF kmem_upd_simps(1)] by blast
  have bal: "balanced s t" if "balanced ?s1 t" for t
    using that by (rule balanced_trans [rotated]) simp
  show ?thesis
    unfolding kfree_def using v(1)
    by (auto simp: page_ok_def kmem_frame_iff intro!: runs_locked_if lf1 bal inv' bracket_balanced)
qed

section \<open>The interface of a page pool\<close>

text \<open>
  What the callers of the allocator rely on, with \<open>pool s ps\<close> saying that the free pages of
  \<open>s\<close> are \<open>ps\<close>, next one first, and \<open>valid s p\<close> that \<open>p\<close> is a page the pool may hold.
\<close>

fun repeat_kern :: "nat \<Rightarrow> ('s, 'a) kern \<Rightarrow> ('s, 'a list) kern" where
  "repeat_kern 0 m = return []"
| "repeat_kern (Suc n) m = call m (\<lambda>x. call (repeat_kern n m) (\<lambda>xs. return (x # xs)))"

fun for_each :: "'b list \<Rightarrow> ('b \<Rightarrow> ('s, 'a) kern) \<Rightarrow> ('s, unit) kern" where
  "for_each [] f = return ()"
| "for_each (x # xs) f = andthen (f x) (for_each xs f)"

locale page_pool =
  fixes alloc :: "('s, u32) kern"
    and free :: "u32 \<Rightarrow> ('s, unit) kern"
    and pool :: "'s \<Rightarrow> u32 list \<Rightarrow> bool"
    and ready :: "'s \<Rightarrow> bool"
    and valid :: "'s \<Rightarrow> u32 \<Rightarrow> bool"
  assumes alloc: "ready s \<Longrightarrow> pool s ps \<Longrightarrow> runs alloc s (\<lambda>r t. ready t \<and> pool t (tl ps)
      \<and> valid t = valid s \<and> r = (if ps = [] then 0 else hd ps))"
    and free: "ready s \<Longrightarrow> pool s ps \<Longrightarrow> valid s p \<Longrightarrow> p \<notin> set ps \<Longrightarrow>
      runs (free p) s (\<lambda>_ t. ready t \<and> pool t (p # ps) \<and> valid t = valid s)"
    and pool_distinct: "pool s ps \<Longrightarrow> distinct ps"
    and pool_valid: "pool s ps \<Longrightarrow> p \<in> set ps \<Longrightarrow> valid s p \<and> p \<noteq> 0"
begin

lemma alloc_many:
  "ready s \<Longrightarrow> pool s ps \<Longrightarrow>
   runs (repeat_kern n alloc) s (\<lambda>rs t. ready t \<and> pool t (drop n ps) \<and> valid t = valid s
     \<and> rs = take n ps @ replicate (n - length ps) 0)"
proof (induction n arbitrary: s ps)
  case 0
  then show ?case by simp
next
  case (Suc n)
  have "runs (call alloc (\<lambda>x. call (repeat_kern n alloc) (\<lambda>xs. return (x # xs)))) s
     (\<lambda>rs t. ready t \<and> pool t (drop (Suc n) ps) \<and> valid t = valid s \<and> rs = take (Suc n) ps @ replicate (Suc n - length ps) 0)"
  proof (rule runs_call_mono [OF alloc [OF Suc.prems]])
    fix a t
    assume a: "ready t \<and> pool t (tl ps) \<and> valid t = valid s \<and> a = (if ps = [] then 0 else hd ps)"
    then have "runs (repeat_kern n alloc) t
      (\<lambda>rs u. ready u \<and> pool u (drop n (tl ps)) \<and> valid u = valid t \<and> rs = take n (tl ps) @ replicate (n - length (tl ps)) 0)"
      by (intro Suc.IH) auto
    then show "runs (call (repeat_kern n alloc) (\<lambda>xs. return (a # xs))) t
       (\<lambda>rs t. ready t \<and> pool t (drop (Suc n) ps) \<and> valid t = valid s \<and> rs = take (Suc n) ps @ replicate (Suc n - length ps) 0)"
      by (rule runs_call_mono) (use a in \<open>cases ps; simp\<close>)
  qed
  then show ?case by simp
qed

lemma alloc_many_distinct:
  assumes "ready s" and "pool s ps"
  shows "runs (repeat_kern n alloc) s (\<lambda>rs t. rs = take n ps @ replicate (n - length ps) 0 \<and> distinct (take n ps)
    \<and> set (take n ps) \<inter> set (drop n ps) = {} \<and> pool t (drop n ps))"
proof -
  have "distinct ps" using assms(2) by (rule pool_distinct)
  then have "set (take n ps) \<inter> set (drop n ps) = {}"
    by (metis append_take_drop_id distinct_append)
  then show ?thesis using \<open>distinct ps\<close> by (auto intro: runs_mono [OF alloc_many [OF assms]])
qed

lemma free_many:
  "ready s \<Longrightarrow> pool s ps \<Longrightarrow> distinct qs \<Longrightarrow> set qs \<inter> set ps = {} \<Longrightarrow>
   (\<forall>q \<in> set qs. valid s q) \<Longrightarrow>
   runs (for_each qs free) s (\<lambda>_ t. ready t \<and> pool t (rev qs @ ps) \<and> valid t = valid s)"
proof (induction qs arbitrary: s ps)
  case Nil
  then show ?case by simp
next
  case (Cons q qs)
  have "runs (free q) s (\<lambda>_ t. ready t \<and> pool t (q # ps) \<and> valid t = valid s)"
    using Cons.prems by (intro free) auto
  then have "runs (call (free q) (\<lambda>_. for_each qs free)) s
    (\<lambda>_ t. ready t \<and> pool t (rev (q # qs) @ ps) \<and> valid t = valid s)"
  proof (rule runs_call_mono)
    fix t assume t: "ready t \<and> pool t (q # ps) \<and> valid t = valid s"
    then have "runs (for_each qs free) t
        (\<lambda>_ u. ready u \<and> pool u (rev qs @ q # ps) \<and> valid u = valid t)"
      using Cons.prems by (intro Cons.IH) auto
    then show "runs (for_each qs free) t
        (\<lambda>_ t. ready t \<and> pool t (rev (q # qs) @ ps) \<and> valid t = valid s)"
      by (rule runs_mono) (use t in simp)
  qed
  then show ?case by (simp add: andthen_def)
qed

lemma free_then_alloc:
  assumes "ready s" and "pool s ps" and "valid s p" and "p \<notin> set ps"
  shows "runs (andthen (free p) alloc) s (\<lambda>r t. r = p \<and> pool t ps)"
  unfolding andthen_def
proof (rule runs_call_mono [OF free [OF assms]])
  fix t assume "ready t \<and> pool t (p # ps) \<and> valid t = valid s"
  then have "ready t" and "pool t (p # ps)" by simp_all
  from alloc [OF this] show "runs alloc t (\<lambda>r t. r = p \<and> pool t ps)"
    by (rule runs_mono) simp
qed

end

lemma page_ok_frame_fun: "kmem_frame s t \<Longrightarrow> page_ok t = page_ok s"
  by (rule ext) (rule page_ok_frame)

interpretation kpool: page_pool kalloc kfree kmem_inv "lock_free KmemLock" page_ok
proof
  fix s :: "'a kmem_scheme" and ps p
  assume lf: "lock_free KmemLock s" and inv: "kmem_inv s ps"
  show "runs kalloc s (\<lambda>r t. lock_free KmemLock t \<and> kmem_inv t (tl ps) \<and> page_ok t = page_ok s
      \<and> r = (if ps = [] then 0 else hd ps))"
    by (rule runs_mono [OF runs_kalloc [OF lf inv]])
      (use lf in \<open>auto simp: balanced_lock_free page_ok_frame_fun\<close>)
  assume "page_ok s p" and "p \<notin> set ps"
  then show "runs (kfree p) s (\<lambda>_ t. lock_free KmemLock t \<and> kmem_inv t (p # ps)
      \<and> page_ok t = page_ok s)"
    by (rule runs_mono [OF runs_kfree [OF lf inv]])
      (use lf in \<open>auto simp: balanced_lock_free page_ok_frame_fun\<close>)
qed (auto simp: kmem_inv_def page_ok_def)

section \<open>Filling the pool\<close>

fun pages_from :: "u32 \<Rightarrow> nat \<Rightarrow> u32 list" where
  "pages_from p 0 = []"
| "pages_from p (Suc k) = p # pages_from (p + PGSIZE) k"

lemma pages_from_numeral [simp]:
  "pages_from p (numeral k) = p # pages_from (p + PGSIZE) (pred_numeral k)"
  by (simp add: numeral_eq_Suc)

lemma freerange_loop_for_each:
  assumes "unat p + 4096 < 2 ^ 32"
  shows "unat p \<le> unat vend \<Longrightarrow> unat vend + 4096 < 2 ^ 32 \<Longrightarrow> k = (unat vend - unat p) div 4096 \<Longrightarrow>
   k < fuel \<Longrightarrow> freerange_loop fuel p vend = for_each (pages_from p k) kfree"
  using assms
proof (induction fuel arbitrary: p k)
  case 0
  then show ?case by simp
next
  case (Suc fuel)
  have pl: "unat (p + PGSIZE) = unat p + 4096"
    using Suc.prems(5) by (simp add: PGSIZE_def unat_word_ariths)
  then have iff: "p + PGSIZE \<le> vend \<longleftrightarrow> 4096 \<le> unat vend - unat p"
    using Suc.prems(1) by (simp add: word_le_nat_alt) linarith
  show ?case
  proof (cases "4096 \<le> unat vend - unat p")
    case False
    then have "k = 0" using Suc.prems(3) by simp
    with False show ?thesis by (simp add: iff)
  next
    case True
    then have le: "p + PGSIZE \<le> vend" and k: "k = Suc ((unat vend - unat (p + PGSIZE)) div 4096)"
      unfolding iff pl Suc.prems(3) using le_div_geq [of 4096 "unat vend - unat p"] by simp_all
    have "unat (p + PGSIZE) \<le> unat vend" using le by (simp only: word_le_nat_alt)
    moreover from this have "unat (p + PGSIZE) + 4096 < 2 ^ 32" using Suc.prems(2) by linarith
    moreover note Suc.IH [OF _ Suc.prems(2) refl, of "p + PGSIZE"]
    ultimately show ?thesis using le k Suc.prems(4) by simp
  qed
qed

lemma PGSIZE_not_zero [simp]: "PGSIZE \<noteq> 0" "unat PGSIZE = 4096"
  by (simp_all add: PGSIZE_def)

lemma pages_from_props:
  assumes "page_aligned p"
  shows "unat p + 4096 * k < 2 ^ 32 \<Longrightarrow>
    distinct (pages_from p k) \<and> length (pages_from p k) = k
    \<and> (\<forall>q \<in> set (pages_from p k). page_aligned q \<and> unat p \<le> unat q \<and> unat q < unat p + 4096 * k)"
  using assms
proof (induction k arbitrary: p)
  case 0
  then show ?case by simp
next
  case (Suc k)
  have pl: "unat (p + PGSIZE) = unat p + 4096"
    using Suc.prems(1) by (simp add: PGSIZE_def unat_word_ariths)
  have "page_aligned (p + PGSIZE)"
    using Suc.prems(2) by (simp add: page_aligned_unat pl)
  with Suc.IH [of "p + PGSIZE"] Suc.prems show ?case
    unfolding pl by (auto simp: pl)
qed

lemma page_ok_iff:
  assumes "KERNBASE \<le> kend s"
  shows "page_ok s p \<longleftrightarrow> page_aligned p \<and> unat (kend s) \<le> unat p \<and> unat p < 0x8C000000"
proof -
  have "v2p p < PHYSTOP \<longleftrightarrow> unat p < 0x8C000000" if "KERNBASE \<le> p"
  proof -
    have "unat (p - KERNBASE) = unat p - 0x80000000"
      using that by (simp add: unat_sub_if' KERNBASE_def word_le_nat_alt)
    then show ?thesis using that
      by (auto simp: v2p_def word_less_nat_alt word_le_nat_alt PHYSTOP_def KERNBASE_def)
  qed
  moreover have "p \<noteq> 0" if "kend s \<le> p"
    using that assms by (auto simp: KERNBASE_def word_le_nat_alt)
  moreover have "kend s \<le> p \<Longrightarrow> KERNBASE \<le> p" using assms by (rule order_trans)
  moreover have "p mod PGSIZE = 0 \<longleftrightarrow> page_aligned p"
    by (simp only: page_aligned_def PGSIZE_def)
  ultimately show ?thesis
    unfolding page_ok_def kfree_bad_def
    by (auto simp: not_le not_less word_le_nat_alt [symmetric])
qed

lemma lock_free_initlock:
  "cli_ok s \<Longrightarrow> lock_free l (s\<lparr>locks := (locks s)(l := \<lparr>locked = False, on_cpu = False\<rparr>)\<rparr>)"
  by (simp add: lock_free_def cli_ok_def holding_def)

text \<open>Freeing a range hands out, for a range of kernel memory below PHYSTOP, every page that
  lies in it whole; the last page freed is the next one allocated.\<close>

lemma runs_freerange:
  assumes lf: "lock_free KmemLock s" and inv: "kmem_inv s ps"
    and kend: "KERNBASE \<le> kend s" "kend s \<le> vstart" "vstart \<le> vend" "unat vend \<le> 0x8C000000"
    and up: "PGROUNDUP vstart \<le> vend"
    and sep: "\<forall>q \<in> set ps. unat q < unat (PGROUNDUP vstart) \<or> unat vend \<le> unat q"
  defines "k \<equiv> (unat vend - unat (PGROUNDUP vstart)) div 4096"
  shows "runs (freerange vstart vend) s
    (\<lambda>_ t. lock_free KmemLock t \<and> kmem_inv t (rev (pages_from (PGROUNDUP vstart) k) @ ps))"
proof -
  let ?p = "PGROUNDUP vstart"
  have pv: "unat ?p \<le> unat vend" using up by (simp add: word_le_nat_alt)
  have vs: "unat vstart + 4095 < 2 ^ 32"
    using kend(3,4) by (simp add: word_le_nat_alt)
  have ge: "unat vstart \<le> unat ?p" unfolding unat_PGROUNDUP [OF vs] by linarith
  have k4: "unat ?p + 4096 * k \<le> unat vend" unfolding k_def using pv by (simp add: div_times_less_eq_dividend)
  have "k < 2 ^ 20 + 1" unfolding k_def using kend(4) by simp
  then have loop: "freerange vstart vend = for_each (pages_from ?p k) kfree"
    unfolding freerange_def using pv kend(4)
    by (intro freerange_loop_for_each) (simp_all add: k_def)
  have "unat ?p + 4096 * k < 2 ^ 32" using k4 kend(4) by simp
  note pf = pages_from_props [OF PGROUNDUP_aligned this]
  have valid: "page_ok s q" if "q \<in> set (pages_from ?p k)" for q
    using pf that k4 kend ge by (force simp: page_ok_iff word_le_nat_alt)
  have "set (pages_from ?p k) \<inter> set ps = {}" using pf sep k4 by force
  then show ?thesis
    unfolding loop using pf valid
    by (intro runs_mono [OF kpool.free_many [OF lf inv]]) auto
qed

section \<open>Properties\<close>

text \<open>C19: \<open>n\<close> calls of kalloc return the first pages of the free list, all different, none of them null, page
  aligned and inside the memory that kinit handed to the allocator, none of which stays on the list; once the list
  is empty every further call returns the null pointer.\<close>

theorem kalloc_distinct:
  assumes "lock_free KmemLock s" and "kmem_inv s ps"
  shows "runs (repeat_kern n kalloc) s (\<lambda>rs t. let taken = take n ps; rest = drop n ps in
    rs = taken @ replicate (n - length ps) 0 \<and> distinct taken \<and> set taken \<inter> set rest = {}
    \<and> (\<forall>p \<in> set taken. p \<noteq> 0 \<and> page_aligned p \<and> kend s \<le> p \<and> v2p p < PHYSTOP) \<and> kmem_inv t rest)"
proof (rule runs_mono [OF kpool.alloc_many_distinct [OF assms]])
  have ok: "\<forall>p \<in> set ps. p \<noteq> 0 \<and> page_aligned p \<and> kend s \<le> p \<and> v2p p < PHYSTOP"
    using assms(2) page_ok_aligned by (auto simp: kmem_inv_def page_ok_def kfree_bad_def)
  fix rs t assume "rs = take n ps @ replicate (n - length ps) 0 \<and> distinct (take n ps) \<and> set (take n ps) \<inter> set (drop n ps) = {}
    \<and> kmem_inv t (drop n ps)"
  then show "let taken = take n ps; rest = drop n ps in
    rs = taken @ replicate (n - length ps) 0 \<and> distinct taken \<and> set taken \<inter> set rest = {}
    \<and> (\<forall>p \<in> set taken. p \<noteq> 0 \<and> page_aligned p \<and> kend s \<le> p \<and> v2p p < PHYSTOP) \<and> kmem_inv t rest"
    using ok set_take_subset [of n ps] by (auto simp: Let_def)
qed

text \<open>A pool of one page, at a kernel address the allocator accepts.\<close>

definition kmem_one :: kmem where
  "kmem_one = \<lparr>irq_off = False, ncli = 0, intena = False,
     locks = (\<lambda>_. \<lparr>locked = False, on_cpu = False\<rparr>),
     mem = (\<lambda>_. 0), freelist = 0x80100000, use_lock = True, kend = 0x80008000\<rparr>"

lemma kmem_one_facts:
  "lock_free l kmem_one" "kmem_inv kmem_one [0x80100000]" "page_ok kmem_one 0x80101000"
  by (simp_all add: kmem_one_def lock_free_def cli_ok_def holding_def kmem_inv_def page_ok_def
      kfree_bad_def load32_def of_le32_def layout_defs v2p_def)

theorem kalloc_distinct_witness:
  "runs (repeat_kern 3 kalloc) kmem_one (\<lambda>rs t. rs = [0x80100000, 0, 0] \<and> kmem_inv t [])"
  by (rule runs_mono [OF kalloc_distinct [OF kmem_one_facts(1,2)]]) (simp add: numeral_2_eq_2)

text \<open>A page given back with kfree is the page the next kalloc returns, and the rest of the
  free list, whose links lie in other pages, survives the junk kfree writes.\<close>

theorem kfree_then_kalloc:
  assumes "lock_free KmemLock s" and "kmem_inv s ps" and "page_ok s p" and "p \<notin> set ps"
  shows "runs (andthen (kfree p) kalloc) s (\<lambda>r t. r = p \<and> kmem_inv t ps)"
  using assms by (rule kpool.free_then_alloc)

theorem kfree_then_kalloc_witness:
  "runs (andthen (kfree 0x80101000) kalloc) kmem_one
     (\<lambda>r t. r = 0x80101000 \<and> kmem_inv t [0x80100000])"
  by (rule kfree_then_kalloc [OF kmem_one_facts]) simp

text \<open>Kinit1 builds the free list of exactly the whole pages between its arguments, for any
  range of kernel memory above the kernel image and below PHYSTOP.\<close>

theorem kinit1_fills:
  assumes "cli_ok s" and "KERNBASE \<le> kend s" and "kend s \<le> vstart" and "vstart \<le> vend"
    and "unat vend \<le> 0x8C000000" and "PGROUNDUP vstart \<le> vend"
  shows "runs (kinit1 vstart vend) s (\<lambda>_ t. kmem_inv t
    (rev (pages_from (PGROUNDUP vstart) ((unat vend - unat (PGROUNDUP vstart)) div 4096))))"
proof -
  let ?s = "s\<lparr>locks := (locks s)(KmemLock := \<lparr>locked = False, on_cpu = False\<rparr>),
    use_lock := False, freelist := 0\<rparr>"
  have "lock_free KmemLock ?s" using assms(1) by (simp add: lock_free_def cli_ok_def holding_def)
  moreover have "kmem_inv ?s []" by (simp add: kmem_inv_def)
  ultimately have "runs (freerange vstart vend) ?s (\<lambda>_ t. lock_free KmemLock t \<and> kmem_inv t
    (rev (pages_from (PGROUNDUP vstart) ((unat vend - unat (PGROUNDUP vstart)) div 4096)) @ []))"
    using assms by (intro runs_freerange) simp_all
  then show ?thesis by (simp add: kinit1_def initlock_def) (erule runs_mono, simp)
qed

theorem kinit1_fills_witness:
  "runs (kinit1 0x80008001 0x8000B000) kmem_one
    (\<lambda>_ t. kmem_inv t [0x8000A000, 0x80009000])"
proof -
  have "PGROUNDUP 0x80008001 = 0x80009000" by (simp add: PGROUNDUP_def PGSIZE_def)
  moreover have "cli_ok kmem_one" by (simp add: kmem_one_def cli_ok_def)
  ultimately show ?thesis
    using kinit1_fills [of kmem_one "0x80008001" "0x8000B000"]
    by (simp add: kmem_one_def layout_defs)
qed

end
