(* ===== verification/Vm.thy ===== *)
theory Vm
  imports Kalloc
begin

text \<open>
  vm.c: two-level page tables in kernel memory. A page directory is one page of 1024 entries
  (so user space ends at USERBOUND, 1 GB); an entry covers 1 MB and points to a page table of
  256 entries. Functions that return a pointer return its address, 0 for the null pointer.
  Cache and TLB maintenance has no effect on the modelled state.
\<close>

section \<open>State and constants\<close>

text \<open>\<open>kpgdir\<close> is the kernel's page directory, which also serves the running process.\<close>

record vmstate = kmem +
  kpgdir :: u32

definition COARSE :: u32 where "COARSE = 1"
definition SECTION :: u32 where "SECTION = 2"
definition SMALL :: u32 where "SMALL = 2"
definition BUFFERED :: u32 where "BUFFERED = 4"
definition CACHED :: u32 where "CACHED = 8"
definition K_RW :: u32 where "K_RW = 1"
definition U_AP :: u32 where "U_AP = 2"
definition U_RW :: u32 where "U_RW = 3"
definition DEVSPACE :: u32 where "DEVSPACE = 0xFE000000"
definition HVECTORS :: u32 where "HVECTORS = 0xFFFF0000"
definition PHYSIO :: u32 where "PHYSIO = 0x20000000"
definition IOSIZE :: u32 where "IOSIZE = 16 * MBYTE"
definition NPDENTRIES :: nat where "NPDENTRIES = 1024"
definition NPTENTRIES :: u32 where "NPTENTRIES = 1024"

definition ACCESS_PERM :: "nat \<Rightarrow> u32 \<Rightarrow> u32" where
  "ACCESS_PERM n v = push_bit (n * 2 + 4) (v AND 3)"

definition PDX_AP :: "u32 \<Rightarrow> u32" where
  "PDX_AP ap = ACCESS_PERM 3 ap"

definition PTX_AP :: "u32 \<Rightarrow> u32" where
  "PTX_AP ap = ACCESS_PERM 3 ap OR ACCESS_PERM 2 ap OR ACCESS_PERM 1 ap OR ACCESS_PERM 0 ap"

definition UVMPDXATTR :: u32 where "UVMPDXATTR = COARSE"
definition UVMPTXATTR :: u32 where "UVMPTXATTR = PTX_AP U_RW OR CACHED OR BUFFERED OR SMALL"

lemmas vm_consts = COARSE_def SECTION_def SMALL_def BUFFERED_def CACHED_def K_RW_def U_AP_def
  U_RW_def DEVSPACE_def HVECTORS_def PHYSIO_def IOSIZE_def NPDENTRIES_def NPTENTRIES_def
  ACCESS_PERM_def PDX_AP_def PTX_AP_def UVMPDXATTR_def UVMPTXATTR_def

definition put32 :: "u32 \<Rightarrow> u32 \<Rightarrow> ('z kmem_scheme, unit) kern" where
  "put32 a w = modify (\<lambda>s. s\<lparr>mem := store32 (mem s) a w\<rparr>)"

definition get32 :: "u32 \<Rightarrow> ('z kmem_scheme, u32) kern" where
  "get32 a = reads (\<lambda>s. load32 (mem s) a)"

definition set_mem :: "u32 \<Rightarrow> u32 \<Rightarrow> u32 \<Rightarrow> ('z kmem_scheme, unit) kern" where
  "set_mem dst c n = modify (\<lambda>s. s\<lparr>mem := memset (mem s) dst c n\<rparr>)"

definition move_mem :: "u32 \<Rightarrow> u32 \<Rightarrow> u32 \<Rightarrow> ('z kmem_scheme, unit) kern" where
  "move_mem dst src n = modify (\<lambda>s. s\<lparr>mem := memmove (mem s) dst src n\<rparr>)"

section \<open>Walking and building page tables\<close>

definition walkpgdir :: "u32 \<Rightarrow> u32 \<Rightarrow> u32 \<Rightarrow> bool \<Rightarrow> ('z kmem_scheme, u32) kern" where
  "walkpgdir pgdir va l1attr alloc =
     call (get32 (pgdir + 4 * PDX va)) (\<lambda>pde.
     if pde \<noteq> 0 then return (p2v (PTE_ADDR pde) + 4 * PTX va)
     else if \<not> alloc then return 0
     else call kalloc (\<lambda>pgtab.
       if pgtab = 0 then return 0
       else andthen (set_mem pgtab 0 PGSIZE)
         (andthen (put32 (pgdir + 4 * PDX va) (v2p pgtab OR l1attr))
         (return (pgtab + 4 * PTX va)))))"

text \<open>The two loops of \<open>mappages\<close>. Neither can run longer than the number of entries it can
  fill: a wrapped address meets an entry already set and panics.\<close>

fun map_sections :: "nat \<Rightarrow> u32 \<Rightarrow> u32 \<Rightarrow> u32 \<Rightarrow> u32 \<Rightarrow> u32 \<Rightarrow> ('z kmem_scheme, int) kern" where
  "map_sections 0 pgdir a lst pa l1attr = undef ''mappages: out of iterations''"
| "map_sections (Suc n) pgdir a lst pa l1attr =
     (if a > lst then return 0
      else call (get32 (pgdir + 4 * PDX a)) (\<lambda>pde.
        andthen (panic_if (pde \<noteq> 0) ''remap'')
        (andthen (put32 (pgdir + 4 * PDX a) (pa OR l1attr))
        (map_sections n pgdir (a + MBYTE) lst (pa + MBYTE) l1attr))))"

fun map_small :: "nat \<Rightarrow> u32 \<Rightarrow> u32 \<Rightarrow> u32 \<Rightarrow> u32 \<Rightarrow> u32 \<Rightarrow> u32 \<Rightarrow> ('z kmem_scheme, int) kern" where
  "map_small 0 pgdir a lst pa l1attr l2attr = undef ''mappages: out of iterations''"
| "map_small (Suc n) pgdir a lst pa l1attr l2attr =
     call (walkpgdir pgdir a l1attr True) (\<lambda>pte.
     if pte = 0 then return (- 1)
     else call (get32 pte) (\<lambda>old.
       andthen (panic_if (old \<noteq> 0) ''remap'')
       (andthen (put32 pte (pa OR l2attr))
       (if a = lst then return 0
        else map_small n pgdir (a + PGSIZE) lst (pa + PGSIZE) l1attr l2attr))))"

definition mappages :: "u32 \<Rightarrow> u32 \<Rightarrow> u32 \<Rightarrow> u32 \<Rightarrow> u32 \<Rightarrow> u32 \<Rightarrow> ('z kmem_scheme, int) kern" where
  "mappages pgdir va sz pa l1attr l2attr =
     (let a = PGROUNDDOWN va; lst = PGROUNDDOWN (va + sz - 1)
      in if SECTION AND l1attr \<noteq> 0 then map_sections 4098 pgdir a lst pa l1attr
         else if COARSE AND l1attr \<noteq> 0 then map_small (2 ^ 20 + 1) pgdir a lst pa l1attr l2attr
         else panic ''Unknown page attribute'')"

definition setupkvm :: "('z kmem_scheme, u32) kern" where
  "setupkvm =
     call kalloc (\<lambda>pgdir.
     if pgdir = 0 then return 0 else andthen (set_mem pgdir 0 PGSIZE) (return pgdir))"

text \<open>The table \<open>kmap\<close>: virtual start, physical start and end, and the two attributes.\<close>

definition kmap :: "(u32 \<times> u32 \<times> u32 \<times> u32 \<times> u32) list" where
  "kmap =
    [(KERNBASE, 0, PHYSTOP, PDX_AP U_RW OR SECTION OR CACHED OR BUFFERED, 0),
     (DEVSPACE, PHYSIO, PHYSIO + IOSIZE, PDX_AP U_RW OR SECTION, 0),
     (HVECTORS, 0, 0x1000, COARSE, PTX_AP K_RW OR SMALL)]"

fun map_kernel :: "u32 \<Rightarrow> (u32 \<times> u32 \<times> u32 \<times> u32 \<times> u32) list \<Rightarrow> ('z kmem_scheme, u32) kern" where
  "map_kernel pgdir [] = return pgdir"
| "map_kernel pgdir ((virt, pstart, pend, l1attr, l2attr) # ks) =
     call (mappages pgdir virt (pend - pstart) pstart l1attr l2attr) (\<lambda>r.
     if r < 0 then return 0 else map_kernel pgdir ks)"

definition setupkvm_new :: "('z vmstate_scheme, u32) kern" where
  "setupkvm_new =
     call (reads kpgdir) (\<lambda>pgdir.
     andthen (set_mem pgdir 0 (4 * PGSIZE))
     (andthen (panic_if (p2v PHYSTOP > DEVSPACE) ''PHYSTOP too high'')
     (map_kernel pgdir kmap)))"

definition kvmalloc :: "('z vmstate_scheme, unit) kern" where
  "kvmalloc = call setupkvm_new (\<lambda>d. modify (\<lambda>s. s\<lparr>kpgdir := d\<rparr>))"

text \<open>\<open>switchuvm\<close>, given the field \<open>pgdir\<close> of its process.\<close>

definition switchuvm :: "u32 \<Rightarrow> ('z vmstate_scheme, unit) kern" where
  "switchuvm pgdir =
     andthen pushcli
     (andthen (panic_if (pgdir = 0) ''switchuvm: no pgdir'')
     (call (reads kpgdir) (\<lambda>k.
      andthen (move_mem k pgdir PGSIZE) popcli)))"

section \<open>User memory\<close>

definition store_bytes :: "u32 \<Rightarrow> u8 list \<Rightarrow> mem \<Rightarrow> mem" where
  "store_bytes a bs m = (\<lambda>x. if unat (x - a) < length bs then bs ! unat (x - a) else m x)"

definition load_bytes :: "u32 \<Rightarrow> nat \<Rightarrow> mem \<Rightarrow> u8 list" where
  "load_bytes a n m = map (\<lambda>i. m (a + of_nat i)) [0..<n]"

text \<open>\<open>init\<close> is the initial program, which the build links into the kernel.\<close>

definition inituvm :: "u32 \<Rightarrow> u8 list \<Rightarrow> ('z kmem_scheme, unit) kern" where
  "inituvm pgdir init =
     andthen (panic_if (length init \<ge> 4096) ''inituvm: more than a page'')
     (call kalloc (\<lambda>pg.
      andthen (set_mem pg 0 PGSIZE)
      (call (mappages pgdir 0 PGSIZE (v2p pg) UVMPDXATTR UVMPTXATTR) (\<lambda>_.
       modify (\<lambda>s. s\<lparr>mem := store_bytes pg init (mem s)\<rparr>)))))"

fun dealloc_loop :: "nat \<Rightarrow> u32 \<Rightarrow> u32 \<Rightarrow> u32 \<Rightarrow> ('z kmem_scheme, unit) kern" where
  "dealloc_loop 0 pgdir a oldsz = undef ''deallocuvm: out of iterations''"
| "dealloc_loop (Suc n) pgdir a oldsz =
     (if a < oldsz then
        call (walkpgdir pgdir a UVMPDXATTR False) (\<lambda>pte.
        if pte = 0 then dealloc_loop n pgdir (a + (NPTENTRIES - 1) * PGSIZE + PGSIZE) oldsz
        else call (get32 pte) (\<lambda>e.
          if e \<noteq> 0 then
            andthen (panic_if (PTE_ADDR e = 0) ''kfree'')
            (andthen (kfree (p2v (PTE_ADDR e)))
            (andthen (put32 pte 0)
            (dealloc_loop n pgdir (a + PGSIZE) oldsz)))
          else dealloc_loop n pgdir (a + PGSIZE) oldsz))
      else return ())"

definition deallocuvm :: "u32 \<Rightarrow> u32 \<Rightarrow> u32 \<Rightarrow> ('z kmem_scheme, u32) kern" where
  "deallocuvm pgdir oldsz newsz =
     (if newsz \<ge> oldsz then return oldsz
      else andthen (dealloc_loop (2 ^ 20 + 1) pgdir (PGROUNDUP newsz) oldsz) (return newsz))"

fun alloc_loop :: "nat \<Rightarrow> u32 \<Rightarrow> u32 \<Rightarrow> u32 \<Rightarrow> u32 \<Rightarrow> ('z kmem_scheme, u32) kern" where
  "alloc_loop 0 pgdir a oldsz newsz = undef ''allocuvm: out of iterations''"
| "alloc_loop (Suc n) pgdir a oldsz newsz =
     (if a < newsz then
        call kalloc (\<lambda>pg.
        if pg = 0 then call (deallocuvm pgdir newsz oldsz) (\<lambda>_. return 0)
        else andthen (set_mem pg 0 PGSIZE)
          (call (mappages pgdir a PGSIZE (v2p pg) UVMPDXATTR UVMPTXATTR) (\<lambda>_.
           alloc_loop n pgdir (a + PGSIZE) oldsz newsz)))
      else return newsz)"

definition allocuvm :: "u32 \<Rightarrow> u32 \<Rightarrow> u32 \<Rightarrow> ('z kmem_scheme, u32) kern" where
  "allocuvm pgdir oldsz newsz =
     (if newsz \<ge> USERBOUND then return 0
      else if newsz < oldsz then return oldsz
      else alloc_loop (2 ^ 18 + 1) pgdir (PGROUNDUP oldsz) oldsz newsz)"

definition free_pde :: "u32 \<Rightarrow> nat \<Rightarrow> ('z kmem_scheme, unit) kern" where
  "free_pde pgdir i =
     call (get32 (pgdir + 4 * of_nat i)) (\<lambda>e.
     if e \<noteq> 0 then kfree (p2v (PTE_ADDR e)) else return ())"

definition freevm :: "u32 \<Rightarrow> ('z kmem_scheme, unit) kern" where
  "freevm pgdir =
     andthen (panic_if (pgdir = 0) ''freevm: no pgdir'')
     (call (deallocuvm pgdir USERBOUND 0) (\<lambda>_.
      andthen (for_each [0..<NPDENTRIES] (free_pde pgdir)) (kfree pgdir)))"

definition clearpteu :: "u32 \<Rightarrow> u32 \<Rightarrow> ('z kmem_scheme, unit) kern" where
  "clearpteu pgdir uva =
     call (walkpgdir pgdir uva UVMPDXATTR False) (\<lambda>pte.
     andthen (panic_if (pte = 0) ''clearpteu'')
     (call (get32 pte) (\<lambda>e. put32 pte (e AND NOT (PTX_AP U_AP)))))"

fun copyuvm_loop :: "nat \<Rightarrow> u32 \<Rightarrow> u32 \<Rightarrow> u32 \<Rightarrow> u32 \<Rightarrow> ('z kmem_scheme, u32) kern" where
  "copyuvm_loop 0 pgdir d i sz = undef ''copyuvm: out of iterations''"
| "copyuvm_loop (Suc n) pgdir d i sz =
     (if i < sz then
        call (walkpgdir pgdir i UVMPDXATTR False) (\<lambda>pte.
        andthen (panic_if (pte = 0) ''copyuvm: pte should exist'')
        (call (get32 pte) (\<lambda>e.
         andthen (panic_if (e = 0) ''copyuvm: page not present'')
         (call kalloc (\<lambda>pg.
          if pg = 0 then andthen (freevm d) (return 0)
          else andthen (move_mem pg (p2v (PTE_ADDR e)) PGSIZE)
            (call (mappages d i PGSIZE (v2p pg) UVMPDXATTR (PTE_FLAGS e)) (\<lambda>r.
             if r < 0 then andthen (freevm d) (return 0)
             else copyuvm_loop n pgdir d (i + PGSIZE) sz)))))))
      else return d)"

definition copyuvm :: "u32 \<Rightarrow> u32 \<Rightarrow> ('z kmem_scheme, u32) kern" where
  "copyuvm pgdir sz =
     call setupkvm (\<lambda>d.
     if d = 0 then return 0 else copyuvm_loop (2 ^ 20 + 1) pgdir d 0 sz)"

definition uva2ka :: "u32 \<Rightarrow> u32 \<Rightarrow> ('z kmem_scheme, u32) kern" where
  "uva2ka pgdir uva =
     call (walkpgdir pgdir uva UVMPDXATTR False) (\<lambda>pte.
     if pte = 0 then undef ''uva2ka: null pte''
     else call (get32 pte) (\<lambda>e.
       if e = 0 then return 0
       else if e AND PTX_AP U_AP = 0 then return 0
       else return (p2v (PTE_ADDR e))))"

text \<open>\<open>copyout\<close> and \<open>copyin\<close> advance at least one byte per iteration, so one more iteration
  than there are bytes is enough.\<close>

fun copyout_loop :: "nat \<Rightarrow> u32 \<Rightarrow> u32 \<Rightarrow> u8 list \<Rightarrow> ('z kmem_scheme, int) kern" where
  "copyout_loop 0 pgdir va buf = undef ''copyout: out of iterations''"
| "copyout_loop (Suc k) pgdir va buf =
     (if buf = [] then return 0
      else let va0 = PGROUNDDOWN va
        in call (uva2ka pgdir va0) (\<lambda>pa0.
           if pa0 = 0 then return (- 1)
           else let n = min (4096 - unat (va - va0)) (length buf)
             in andthen (modify (\<lambda>s. s\<lparr>mem := store_bytes (pa0 + (va - va0)) (take n buf) (mem s)\<rparr>))
                (copyout_loop k pgdir (va0 + PGSIZE) (drop n buf))))"

definition copyout :: "u32 \<Rightarrow> u32 \<Rightarrow> u8 list \<Rightarrow> ('z kmem_scheme, int) kern" where
  "copyout pgdir va buf = copyout_loop (Suc (length buf)) pgdir va buf"

fun copyin_loop :: "nat \<Rightarrow> u32 \<Rightarrow> u32 \<Rightarrow> nat \<Rightarrow> u8 list \<Rightarrow> ('z kmem_scheme, u8 list option) kern" where
  "copyin_loop 0 pgdir va len acc = undef ''copyin: out of iterations''"
| "copyin_loop (Suc k) pgdir va len acc =
     (if len = 0 then return (Some acc)
      else let va0 = PGROUNDDOWN va
        in call (uva2ka pgdir va0) (\<lambda>pa0.
           if pa0 = 0 then return None
           else let n = min (4096 - unat (va - va0)) len
             in call (reads (\<lambda>s. load_bytes (pa0 + (va - va0)) n (mem s))) (\<lambda>bs.
                copyin_loop k pgdir (va0 + PGSIZE) (len - n) (acc @ bs))))"

definition copyin :: "u32 \<Rightarrow> u32 \<Rightarrow> nat \<Rightarrow> ('z kmem_scheme, u8 list option) kern" where
  "copyin pgdir va len = copyin_loop (Suc len) pgdir va len []"

end
