(* ===== verification/Proc.thy ===== *)
theory Proc
  imports Vm
begin

text \<open>
  The process table and the scheduler interface of proc.c: allocating a table entry, sleeping
  and waking up, yielding, killing, and the dispatch step of the scheduler. What concerns open
  files and directories (fork, exit, wait) comes after the file system, in theory Process.
\<close>

section \<open>State\<close>

text \<open>enum procstate.\<close>

datatype procstate = UNUSED | EMBRYO | SLEEPING | RUNNABLE | RUNNING | ZOMBIE

text \<open>What a process can sleep on. The source uses the address of a field or of a structure:
  the two counters of a pipe, a buffer, an inode, the log, a process, the tick counter, and
  the read index of the keyboard buffer.\<close>

datatype chan =
    PipeNread u32 | PipeNwrite u32 | BufChan nat | InodeChan nat | LogChan
  | ProcChan nat | TicksChan | InputChan

text \<open>struct trapframe, the registers saved on a trap.\<close>

record trapframe =
  tf_sp :: u32
  tf_r0 :: u32
  tf_r1 :: u32
  tf_regs :: "u32 list"  \<comment> \<open>r2 to r14\<close>
  tf_trapno :: u32
  tf_ifar :: u32
  tf_cpsr :: u32
  tf_spsr :: u32
  tf_pc :: u32

text \<open>struct context: r4 to r12, and the addresses at which \<open>swtch\<close> resumes.\<close>

datatype code_addr = NoCode | Forkret | Trapret | Swtch_caller

record kcontext =
  ctx_regs :: "u32 list"
  ctx_lr :: code_addr
  ctx_pc :: code_addr

text \<open>struct proc. Pointers to a process, an open file or an inode are indices into the
  respective table.\<close>

record proc =
  sz :: u32
  pgdir :: u32
  kstack :: u32
  pstate :: procstate
  pid :: int
  parent :: "nat option"
  tf :: trapframe
  ctx :: kcontext
  chan :: "chan option"
  killed :: bool
  ofile :: "nat option list"
  cwd :: "nat option"
  pname :: "u8 list"

definition NPROC :: nat where "NPROC = 64"
definition NOFILE :: nat where "NOFILE = 16"
definition KSTACKSIZE :: u32 where "KSTACKSIZE = 4096"

definition tf0 :: trapframe where
  "tf0 = \<lparr>tf_sp = 0, tf_r0 = 0, tf_r1 = 0, tf_regs = replicate 13 0, tf_trapno = 0,
     tf_ifar = 0, tf_cpsr = 0, tf_spsr = 0, tf_pc = 0\<rparr>"

definition ctx0 :: kcontext where
  "ctx0 = \<lparr>ctx_regs = replicate 9 0, ctx_lr = NoCode, ctx_pc = NoCode\<rparr>"

definition proc0 :: proc where
  "proc0 = \<lparr>sz = 0, pgdir = 0, kstack = 0, pstate = UNUSED, pid = 0, parent = None, tf = tf0,
     ctx = ctx0, chan = None, killed = False, ofile = replicate NOFILE None, cwd = None,
     pname = replicate 16 0\<rparr>"

text \<open>The table, the running process (\<open>curr_proc\<close>, null in the scheduler), the next process
  identifier, the first process, and the tick counter of trap.c.\<close>

record ptable = vmstate +
  procs :: "proc list"
  curr :: "nat option"
  nextpid :: int
  initproc :: "nat option"
  ticks :: u32
  first_sched :: bool

section \<open>Access to the table\<close>

definition upd_proc :: "nat \<Rightarrow> (proc \<Rightarrow> proc) \<Rightarrow> ('z ptable_scheme, unit) kern" where
  "upd_proc i f = modify (\<lambda>s. s\<lparr>procs := (procs s)[i := f (procs s ! i)]\<rparr>)"

text \<open>\<open>curr_proc\<close> where it is dereferenced.\<close>

definition curr_proc :: "('z ptable_scheme, nat) kern" where
  "curr_proc = (\<lambda>s. case curr s of
      None \<Rightarrow> Undef ''null curr_proc''
    | Some i \<Rightarrow> if i < length (procs s) then Ret i s else Undef ''curr_proc outside ptable'')"

definition get_curr :: "(proc \<Rightarrow> 'a) \<Rightarrow> ('z ptable_scheme, 'a) kern" where
  "get_curr f = call curr_proc (\<lambda>i. reads (\<lambda>s. f (procs s ! i)))"

definition upd_curr :: "(proc \<Rightarrow> proc) \<Rightarrow> ('z ptable_scheme, unit) kern" where
  "upd_curr f = call curr_proc (\<lambda>i. upd_proc i f)"

section \<open>Operations\<close>

definition pinit :: "('z ptable_scheme, unit) kern" where
  "pinit = andthen (modify (\<lambda>s. s\<lparr>procs := replicate NPROC proc0\<rparr>)) (initlock PtableLock)"

text \<open>\<open>nextpid++\<close> is a signed increment, so it is undefined at INT_MAX.\<close>

definition take_pid :: "nat \<Rightarrow> ('z ptable_scheme, unit) kern" where
  "take_pid i =
     call (reads nextpid) (\<lambda>n.
     if n \<ge> 0x7FFFFFFF then undef ''nextpid overflow''
     else andthen (upd_proc i (\<lambda>p. p\<lparr>pstate := EMBRYO, pid := n\<rparr>))
       (modify (\<lambda>s. s\<lparr>nextpid := n + 1\<rparr>)))"

text \<open>\<open>allocproc\<close>: the new kernel stack is cleared, so the trap frame at its top is zero; the
  context below it resumes at \<open>forkret\<close>, which returns to \<open>trapret\<close>.\<close>

definition find_unused :: "('z ptable_scheme, nat option) kern" where
  "find_unused =
     call (reads (\<lambda>s. find_index (\<lambda>p. pstate p = UNUSED) (procs s))) (\<lambda>found.
     case found of
       None \<Rightarrow> return None
     | Some i \<Rightarrow>
         andthen (take_pid i) (return (Some i)))"

definition allocproc :: "('z ptable_scheme, nat option) kern" where
  "allocproc =
     call (locked_section PtableLock find_unused) (\<lambda>found.
     case found of
       None \<Rightarrow> return None
     | Some i \<Rightarrow>
         call kalloc (\<lambda>k.
         andthen (upd_proc i (\<lambda>p. p\<lparr>kstack := k\<rparr>))
         (if k = 0 then andthen (upd_proc i (\<lambda>p. p\<lparr>pstate := UNUSED\<rparr>)) (return None)
          else andthen (set_mem k 0 PGSIZE)
            (andthen (upd_proc i (\<lambda>p. p\<lparr>tf := tf0,
                ctx := ctx0\<lparr>ctx_pc := Forkret, ctx_lr := Trapret\<rparr>\<rparr>))
            (return (Some i))))))"

definition wakeup1 :: "chan \<Rightarrow> ('z ptable_scheme, unit) kern" where
  "wakeup1 ch = modify (\<lambda>s. s\<lparr>procs := map (\<lambda>p.
     if pstate p = SLEEPING \<and> chan p = Some ch then p\<lparr>pstate := RUNNABLE\<rparr> else p) (procs s)\<rparr>)"

definition wakeup :: "chan \<Rightarrow> ('z ptable_scheme, unit) kern" where
  "wakeup ch = locked_section PtableLock (wakeup1 ch)"

text \<open>\<open>sched\<close> up to the context switch; \<open>sched_return\<close> is what follows when the process is
  next dispatched, with the flag it saved before the switch.\<close>

definition sched :: "('z ptable_scheme, 'a) kern" where
  "sched =
     call (reads (holding PtableLock)) (\<lambda>h.
     andthen (panic_if (\<not> h) ''sched ptable.lock'')
     (call (reads ncli) (\<lambda>n.
     andthen (panic_if (n \<noteq> 1) ''sched locks'')
     (call (get_curr pstate) (\<lambda>st.
     andthen (panic_if (st = RUNNING) ''sched running'')
     (call (reads irq_off) (\<lambda>off.
     andthen (panic_if (\<not> off) ''sched interruptible'')
     (\<lambda>s. Switch s))))))))"

definition sched_return :: "bool \<Rightarrow> ('z ptable_scheme, unit) kern" where
  "sched_return saved = modify (\<lambda>s. s\<lparr>intena := saved\<rparr>)"

definition yield :: "('z ptable_scheme, 'a) kern" where
  "yield =
     andthen (acquire PtableLock)
     (andthen (upd_curr (\<lambda>p. p\<lparr>pstate := RUNNABLE\<rparr>)) sched)"

definition yield_return :: "bool \<Rightarrow> ('z ptable_scheme, unit) kern" where
  "yield_return saved = andthen (sched_return saved) (release PtableLock)"

text \<open>\<open>sleep\<close> up to the switch, as the list of its calls and assignments, between which an interrupt can
  come when interrupts are not masked, and \<open>sleep_return\<close>, its part after the switch.\<close>

definition sleep_locks :: "lockid \<Rightarrow> ('z ptable_scheme, unit) kern list" where
  "sleep_locks lk = (if lk \<noteq> PtableLock then [acquire PtableLock, release lk] else [])"

definition sleep_marks :: "chan \<Rightarrow> ('z ptable_scheme, unit) kern list" where
  "sleep_marks ch = [upd_curr (\<lambda>p. p\<lparr>chan := Some ch\<rparr>), upd_curr (\<lambda>p. p\<lparr>pstate := SLEEPING\<rparr>)]"

definition sleep_calls :: "chan \<Rightarrow> lockid \<Rightarrow> ('z ptable_scheme, unit) kern list" where
  "sleep_calls ch lk =
     [call (reads curr) (\<lambda>c. panic_if (c = None) ''sleep'')] @ sleep_locks lk @ sleep_marks ch"

definition sleep :: "chan \<Rightarrow> lockid \<Rightarrow> ('z ptable_scheme, 'a) kern" where
  "sleep ch lk = in_order (sleep_calls ch lk) sched"

definition sleep_return :: "bool \<Rightarrow> lockid \<Rightarrow> ('z ptable_scheme, unit) kern" where
  "sleep_return saved lk =
     andthen (sched_return saved)
     (andthen (upd_curr (\<lambda>p. p\<lparr>chan := None\<rparr>))
     (if lk \<noteq> PtableLock then andthen (release PtableLock) (acquire lk) else return ()))"

definition kill_body :: "int \<Rightarrow> ('z ptable_scheme, int) kern" where
  "kill_body n =
     call (reads (\<lambda>s. find_index (\<lambda>p. pid p = n) (procs s))) (\<lambda>found.
     case found of
       None \<Rightarrow> return (- 1)
     | Some i \<Rightarrow>
         andthen (upd_proc i (\<lambda>p. p\<lparr>killed := True,
           pstate := (if pstate p = SLEEPING then RUNNABLE else pstate p)\<rparr>))
         (return 0))"

definition kill :: "int \<Rightarrow> ('z ptable_scheme, int) kern" where
  "kill n = locked_section PtableLock (kill_body n)"

text \<open>
  The body of the scheduler's inner loop for table entry \<open>i\<close>, with ptable.lock held: nothing if
  the entry is not runnable, otherwise up to the switch into the process. When the process
  gives the processor back, \<open>dispatch_return\<close> runs and the loop goes on with the next entry.
\<close>

definition dispatch :: "nat \<Rightarrow> ('z ptable_scheme, unit) kern" where
  "dispatch i =
     call (reads (\<lambda>s. procs s ! i)) (\<lambda>p.
     if pstate p \<noteq> RUNNABLE then return ()
     else andthen (modify (\<lambda>s. s\<lparr>curr := Some i\<rparr>))
       (andthen (switchuvm (pgdir p))
       (andthen (upd_proc i (\<lambda>p. p\<lparr>pstate := RUNNING\<rparr>))
        (\<lambda>s. Switch s))))"

definition dispatch_return :: "('z ptable_scheme, unit) kern" where
  "dispatch_return = modify (\<lambda>s. s\<lparr>curr := None\<rparr>)"

text \<open>The outer loop between two passes over the table: interrupts are enabled, except before
  the first pass, and the lock is taken.\<close>

definition sched_pass :: "('z ptable_scheme, unit) kern" where
  "sched_pass =
     call (reads first_sched) (\<lambda>f.
     andthen (if f then modify (\<lambda>s. s\<lparr>first_sched := False\<rparr>) else sti)
     (acquire PtableLock))"

definition forkret_unlock :: "('z ptable_scheme, unit) kern" where
  "forkret_unlock = release PtableLock"

section \<open>Waking\<close>

definition proc_frame :: "'z ptable_scheme \<Rightarrow> 'z ptable_scheme \<Rightarrow> bool" where
  "proc_frame s t \<longleftrightarrow> t = s\<lparr>irq_off := irq_off t, ncli := ncli t, intena := intena t,
     locks := locks t, procs := procs t\<rparr>"

definition wake :: "chan \<Rightarrow> proc \<Rightarrow> proc" where
  "wake ch p = (if pstate p = SLEEPING \<and> chan p = Some ch then p\<lparr>pstate := RUNNABLE\<rparr> else p)"

lemma proc_frame_refl [simp]: "proc_frame s s"
  by (simp add: proc_frame_def)

lemma proc_frame_iff:
  "proc_frame s t \<longleftrightarrow> mem t = mem s \<and> freelist t = freelist s \<and> use_lock t = use_lock s
     \<and> kend t = kend s \<and> kpgdir t = kpgdir s \<and> curr t = curr s \<and> nextpid t = nextpid s
     \<and> initproc t = initproc s \<and> ticks t = ticks s \<and> first_sched t = first_sched s
     \<and> ptable.more t = ptable.more s"
  by (cases s; cases t) (auto simp: proc_frame_def)

lemma proc_frame_trans: "proc_frame s t \<Longrightarrow> proc_frame t u \<Longrightarrow> proc_frame s u"
  by (simp add: proc_frame_iff)

lemma proc_frame_entered [simp]: "proc_frame s (entered l s)"
  and proc_frame_left [simp]: "proc_frame s (left l s)"
  and proc_frame_procs [simp]: "proc_frame s (s\<lparr>procs := ps\<rparr>)"
  by (simp_all add: proc_frame_iff entered_def left_def)

lemma proc_entered_simps [simp]:
  "procs (entered l s) = procs s" "curr (entered l s) = curr s"
  "nextpid (entered l s) = nextpid s" "initproc (entered l s) = initproc s"
  "procs (left l s) = procs s" "curr (left l s) = curr s"
  "nextpid (left l s) = nextpid s" "initproc (left l s) = initproc s"
  "ptable.more (entered l s) = ptable.more s" "ptable.more (left l s) = ptable.more s"
  by (simp_all add: entered_def left_def)

lemma balanced_procs [simp]: "balanced s (s\<lparr>procs := ps\<rparr>)"
  by (simp add: balanced_def holding_def)

lemma cpu_procs_simps [simp]:
  "holding l (s\<lparr>procs := ps\<rparr>) = holding l s"
  "cli_ok (s\<lparr>procs := ps\<rparr>) = cli_ok s"
  "left l (s\<lparr>procs := ps\<rparr>) = (left l s)\<lparr>procs := ps\<rparr>"
  by (simp_all add: holding_def cli_ok_def left_def)

lemma wakeup1_eq: "wakeup1 ch = modify (\<lambda>s. s\<lparr>procs := map (wake ch) (procs s)\<rparr>)"
  by (simp add: wakeup1_def wake_def [abs_def])

lemma runs_wakeup [runs_rules]:
  assumes "lock_free PtableLock s"
  shows "runs (wakeup ch) s (\<lambda>_ t. balanced s t \<and> proc_frame s t \<and> procs t = map (wake ch) (procs s))"
proof -
  let ?e = "entered PtableLock s"
  have "balanced s (left PtableLock (?e\<lparr>procs := map (wake ch) (procs s)\<rparr>))"
    using assms by (intro bracket_balanced) simp_all
  moreover have "proc_frame s (left PtableLock (?e\<lparr>procs := map (wake ch) (procs s)\<rparr>))"
    by (simp add: proc_frame_iff entered_def left_def)
  ultimately show ?thesis
    unfolding wakeup_def wakeup1_eq using assms
    by (intro runs_locked_section) (simp_all add: lock_free_def)
qed

section \<open>Switching\<close>

lemma sched_eq:
  assumes "curr s = Some i" and "i < length (procs s)"
  shows "sched s = (if \<not> holding PtableLock s then Panic ''sched ptable.lock''
    else if ncli s \<noteq> 1 then Panic ''sched locks''
    else if pstate (procs s ! i) = RUNNING then Panic ''sched running''
    else if \<not> irq_off s then Panic ''sched interruptible''
    else Switch s)"
  using assms
  by (simp add: sched_def get_curr_def curr_proc_def call_app andthen_def reads_def panic_if_def
      panic_def return_def)

lemma upd_curr_eq:
  "curr s = Some i \<Longrightarrow> i < length (procs s) \<Longrightarrow>
   upd_curr f s = Ret () (s\<lparr>procs := (procs s)[i := f (procs s ! i)]\<rparr>)"
  by (simp add: upd_curr_def curr_proc_def call_app upd_proc_def modify_def)

lemma yield_eq:
  assumes "curr s = Some i" and "i < length (procs s)"
    and "\<not> holding PtableLock s" and "ncli s = 0"
  shows "yield s = Switch ((entered PtableLock s)\<lparr>procs :=
    (procs s)[i := (procs s ! i)\<lparr>pstate := RUNNABLE\<rparr>]\<rparr>)"
  using assms
  by (simp add: yield_def andthen_def call_app acquire_eq upd_curr_eq [where i = i] sched_eq [where i = i])
    (simp add: entered_def)

lemma sleep_eq:
  assumes "curr s = Some i" and "i < length (procs s)"
    and "lk \<noteq> PtableLock" and "holding lk s" and "\<not> holding PtableLock s" and "ncli s = 1" and "irq_off s"
  shows "sleep ch lk s = Switch ((left lk (entered PtableLock s))\<lparr>procs :=
    (procs s)[i := (procs s ! i)\<lparr>chan := Some ch, pstate := SLEEPING\<rparr>]\<rparr>)"
proof -
  let ?e = "entered PtableLock s"
  have "ncli ?e = 2" "irq_off ?e" using assms by (simp_all add: entered_def)
  moreover have "ncli (left lk ?e) = 1" "irq_off (left lk ?e)"
    using assms by (simp_all add: entered_def left_def)
  ultimately show ?thesis
    using assms
    by (simp add: sleep_def sleep_calls_def sleep_locks_def sleep_marks_def andthen_def call_app reads_def panic_if_def
        return_def acquire_eq release_eq upd_curr_eq [where i = i] sched_eq [where i = i])
qed

text \<open>Interrupts stay masked from the test of the condition to the switch.\<close>

lemma sleep_uninterrupted:
  assumes "curr s = Some i" and "i < length (procs s)"
    and "lk \<noteq> PtableLock" and "holding lk s" and "\<not> holding PtableLock s" and "ncli s = 1" and "irq_off s"
    and run: "interruptible E (sleep_calls ch lk) (sched :: ('z ptable_scheme, 'a) kern) s n r"
  shows "n = 0 \<and> r = sleep ch lk s"
proof -
  let ?e = "entered PtableLock s" and ?l = "left lk (entered PtableLock s)"
  let ?c = "?l\<lparr>procs := (procs s)[i := (procs s ! i)\<lparr>chan := Some ch\<rparr>]\<rparr>"
  let ?u = "?l\<lparr>procs := (procs s)[i := (procs s ! i)\<lparr>chan := Some ch, pstate := SLEEPING\<rparr>]\<rparr>"
  have off: "irq_off ?e" "irq_off ?l" "irq_off ?c" "irq_off ?u" and n: "ncli ?e = 2"
    using assms by (simp_all add: entered_def left_def)
  have calls: "sleep_calls ch lk = [call (reads curr) (\<lambda>c. panic_if (c = None) ''sleep''), acquire PtableLock, release lk,
      upd_curr (\<lambda>p. p\<lparr>chan := Some ch\<rparr>), upd_curr (\<lambda>p. p\<lparr>pstate := SLEEPING\<rparr>)]"
    using assms(3) by (simp add: sleep_calls_def sleep_locks_def sleep_marks_def)
  have 1: "call (reads curr) (\<lambda>c. panic_if (c = None) ''sleep'') s = Ret () s"
    using assms(1) by (simp add: call_app reads_def panic_if_def return_def)
  have 2: "acquire PtableLock s = Ret () ?e" using assms(5) by (simp add: acquire_eq)
  have 3: "release lk ?e = Ret () ?l" using assms(4) off n by (simp add: release_eq)
  have 4: "upd_curr (\<lambda>p. p\<lparr>chan := Some ch\<rparr>) ?l = Ret () ?c" using assms(1,2) by (simp add: upd_curr_eq [where i = i])
  have 5: "upd_curr (\<lambda>p. p\<lparr>pstate := SLEEPING\<rparr>) ?c = Ret () ?u" using assms(1,2) by (simp add: upd_curr_eq [where i = i])
  note run [unfolded calls]
  note interruptible_next [OF assms(7) 1 this] note interruptible_next [OF assms(7) 2 this]
  note interruptible_next [OF off(1) 3 this] note interruptible_next [OF off(2) 4 this]
  note interruptible_next [OF off(3) 5 this] note interruptible_last [OF off(4) this]
  moreover have "sleep ch lk s = (sched :: ('z ptable_scheme, 'a) kern) ?u"
    unfolding sleep_def calls by (simp add: andthen_def 1 2 3 4 5)
  ultimately show ?thesis by simp
qed

section \<open>The process state machine\<close>

text \<open>
  One step of the system, seen at the process table: the scheduler dispatches an entry; the
  running process gives the processor back (yield, sleep, exit) and the scheduler takes over;
  a process comes out of the switch; or kernel code run by anyone wakes sleepers, kills,
  allocates an entry, fills in an allocated one and makes it runnable or gives it up (fork, userinit),
  clears a zombie (wait) or does anything that leaves the states and identifiers of the entries
  alone. Locks come and go between the steps.
\<close>

definition same_states :: "proc list \<Rightarrow> proc list \<Rightarrow> bool" where
  "same_states = list_all2 (\<lambda>p q. pid q = pid p \<and> pstate q = pstate p)"

inductive proc_step :: "'z ptable_scheme \<Rightarrow> 'z ptable_scheme \<Rightarrow> bool" where
  dispatched: "curr s = None \<Longrightarrow> i < length (procs s) \<Longrightarrow> dispatch i s = Switch t \<Longrightarrow> proc_step s t"
| yielded: "(yield :: ('z ptable_scheme, unit) kern) s = Switch u \<Longrightarrow>
    dispatch_return u = Ret () t \<Longrightarrow> proc_step s t"
| slept: "(sleep ch lk :: ('z ptable_scheme, unit) kern) s = Switch u \<Longrightarrow>
    dispatch_return u = Ret () t \<Longrightarrow> proc_step s t"
| exited: "andthen (upd_curr (\<lambda>p. p\<lparr>pstate := ZOMBIE\<rparr>)) (sched :: ('z ptable_scheme, unit) kern) s
    = Switch u \<Longrightarrow> dispatch_return u = Ret () t \<Longrightarrow> proc_step s t"
| back_from_yield: "yield_return b s = Ret () t \<Longrightarrow> proc_step s t"
| back_from_sleep: "sleep_return b lk s = Ret () t \<Longrightarrow> proc_step s t"
| pass: "sched_pass s = Ret () t \<Longrightarrow> proc_step s t"
| woken: "wakeup ch s = Ret () t \<Longrightarrow> proc_step s t"
| kill: "kill n s = Ret r t \<Longrightarrow> proc_step s t"
| allocated: "allocproc s = Ret r t \<Longrightarrow> proc_step s t"
| readied: "i < length (procs s) \<Longrightarrow> pstate (procs s ! i) = EMBRYO \<Longrightarrow>
    pid q = pid (procs s ! i) \<Longrightarrow> pstate q \<in> {EMBRYO, RUNNABLE, UNUSED} \<Longrightarrow>
    upd_proc i (\<lambda>_. q) s = Ret () t \<Longrightarrow> proc_step s t"
| reaped: "i < length (procs s) \<Longrightarrow> pstate (procs s ! i) = ZOMBIE \<Longrightarrow>
    upd_proc i (\<lambda>p. p\<lparr>kstack := 0, pstate := UNUSED, pid := 0, parent := None, killed := False\<rparr>) s
      = Ret () t \<Longrightarrow> proc_step s t"
| lock: "acquire l s = Ret () t \<Longrightarrow> proc_step s t"
| unlock: "release l s = Ret () t \<Longrightarrow> proc_step s t"
| other: "same_states (procs s) (procs t) \<Longrightarrow> curr t = curr s \<Longrightarrow> nextpid t = nextpid s \<Longrightarrow> proc_step s t"

inductive proc_reach :: "'z ptable_scheme \<Rightarrow> 'z ptable_scheme \<Rightarrow> bool" for s0 where
  start: "proc_reach s0 s0"
| step: "proc_reach s0 s \<Longrightarrow> proc_step s t \<Longrightarrow> proc_reach s0 t"

text \<open>Exactly the process \<open>curr\<close> points to is RUNNING.\<close>

definition run_inv :: "proc list \<Rightarrow> nat option \<Rightarrow> bool" where
  "run_inv ps c \<longleftrightarrow> (\<forall>i < length ps. pstate (ps ! i) = RUNNING \<longleftrightarrow> c = Some i)
     \<and> (\<forall>i. c = Some i \<longrightarrow> i < length ps)"

text \<open>The identifiers of the entries in use are different, and below the next one.\<close>

definition pid_inv :: "proc list \<Rightarrow> int \<Rightarrow> bool" where
  "pid_inv ps n \<longleftrightarrow>
     (\<forall>i < length ps. pstate (ps ! i) \<noteq> UNUSED \<longrightarrow> pid (ps ! i) < n)
   \<and> (\<forall>i < length ps. \<forall>j < length ps. i \<noteq> j \<longrightarrow> pstate (ps ! i) \<noteq> UNUSED \<longrightarrow>
        pstate (ps ! j) \<noteq> UNUSED \<longrightarrow> pid (ps ! i) \<noteq> pid (ps ! j))"

definition pt_inv :: "'z ptable_scheme \<Rightarrow> bool" where
  "pt_inv s \<longleftrightarrow> run_inv (procs s) (curr s) \<and> pid_inv (procs s) (nextpid s)"

lemma run_inv_update:
  assumes "run_inv ps c" and "pstate p \<noteq> RUNNING" and "c \<noteq> Some i"
  shows "run_inv (ps[i := p]) c"
  using assms by (auto simp: run_inv_def nth_upd)

lemma run_inv_leave:
  assumes "run_inv ps (Some i)" and "pstate p \<noteq> RUNNING"
  shows "run_inv (ps[i := p]) None"
  using assms by (auto simp: run_inv_def nth_upd)

lemma run_inv_enter:
  assumes "run_inv ps None" and "pstate p = RUNNING" and "i < length ps"
  shows "run_inv (ps[i := p]) (Some i)"
  using assms by (auto simp: run_inv_def nth_upd)

text \<open>Changes that keep every state, or only turn sleepers runnable.\<close>

definition mild :: "proc \<Rightarrow> proc \<Rightarrow> bool" where
  "mild p q \<longleftrightarrow> pid q = pid p \<and> (pstate q = pstate p \<or> pstate p \<noteq> UNUSED \<and> pstate p \<noteq> RUNNING
     \<and> pstate q \<noteq> RUNNING)"

lemma pid_inv_mild:
  assumes "pid_inv ps n" and "list_all2 mild ps qs"
  shows "pid_inv qs n"
proof -
  have "pstate (ps ! i) \<noteq> UNUSED \<and> pid (ps ! i) = pid (qs ! i)"
    if "i < length qs" "pstate (qs ! i) \<noteq> UNUSED" for i
    using assms(2) that by (auto simp: list_all2_conv_all_nth mild_def)
  moreover have "length qs = length ps" using assms(2) by (simp add: list_all2_lengthD)
  ultimately show ?thesis using assms(1) unfolding pid_inv_def by metis
qed

lemma run_inv_mild: "run_inv ps c \<Longrightarrow> list_all2 mild ps qs \<Longrightarrow> run_inv qs c"
  by (auto simp: run_inv_def list_all2_conv_all_nth mild_def)

lemma mild_update:
  "i < length ps \<Longrightarrow> mild (ps ! i) p \<Longrightarrow> list_all2 mild ps (ps[i := p])"
  by (auto simp: list_all2_conv_all_nth nth_upd mild_def)

lemma mild_map: "(\<And>p. mild p (f p)) \<Longrightarrow> list_all2 mild ps (map f ps)"
  by (simp add: list_all2_conv_all_nth)

lemma mild_wake: "mild p (wake ch p)"
  by (simp add: mild_def wake_def)

lemma pid_inv_fresh:
  assumes "pid_inv ps n" and "pid p = n"
  shows "pid_inv (ps[i := p]) (n + 1)"
proof -
  have "pid (ps ! j) < n" if "j < length ps" "pstate (ps ! j) \<noteq> UNUSED" for j
    using assms(1) that by (simp add: pid_inv_def)
  then have *: "pid (ps ! j) < n + 1 \<and> pid (ps ! j) \<noteq> n" if "j < length ps" "pstate (ps ! j) \<noteq> UNUSED" for j
    using that by force
  with assms show ?thesis by (auto simp: pid_inv_def nth_upd dest!: *)
qed

lemma pid_inv_free:
  assumes "pid_inv ps n" and "pstate p = UNUSED"
  shows "pid_inv (ps[i := p]) n"
  using assms by (auto simp: pid_inv_def nth_upd)

lemma pid_inv_same:
  assumes "pid_inv ps n" and "pid p = pid (ps ! i)" and "pstate (ps ! i) \<noteq> UNUSED"
  shows "pid_inv (ps[i := p]) n"
  using assms by (auto simp: pid_inv_def nth_upd)

lemma switchuvm_frame: "switchuvm d s = Ret r t \<Longrightarrow>
    procs t = procs s \<and> curr t = curr s \<and> nextpid t = nextpid s"
  by (auto simp: switchuvm_def andthen_def call_eq_Ret pushcli_eq popcli_eq panic_if_def panic_def
      return_def reads_def modify_def move_mem_def split: if_splits)

lemma switchuvm_returns: "switchuvm d s \<noteq> Switch t"
  by (auto simp: switchuvm_def andthen_def call_eq_Switch pushcli_eq popcli_eq panic_if_def panic_def
      return_def reads_def modify_def move_mem_def split: if_splits)

lemma allocproc_effect:
  assumes "allocproc s = Ret r t"
  shows "curr t = curr s \<and>
    (procs t = procs s \<and> nextpid t = nextpid s
     \<or> (\<exists>i p. i < length (procs s) \<and> pstate (procs s ! i) = UNUSED \<and> procs t = (procs s)[i := p]
          \<and> pid p = nextpid s \<and> nextpid t = nextpid s + 1 \<and> pstate p \<in> {EMBRYO, UNUSED}
          \<and> killed p = killed (procs s ! i) \<and> (\<forall>j. r = Some j \<longrightarrow> j = i \<and> pstate p = EMBRYO)))"
proof -
  have kf: "procs v = procs u \<and> curr v = curr u \<and> nextpid v = nextpid u" if "kalloc u = Ret k v"
    for u v :: "'a ptable_scheme" and k
    using kalloc_frame [OF that] unfolding kmem_frame_def by (rule ssubst) simp
  from assms obtain f u where u: "locked_section PtableLock find_unused s = Ret f u"
    and rest: "(case f of None \<Rightarrow> return None
     | Some i \<Rightarrow>
         call kalloc (\<lambda>k.
         andthen (upd_proc i (\<lambda>p. p\<lparr>kstack := k\<rparr>))
         (if k = 0 then andthen (upd_proc i (\<lambda>p. p\<lparr>pstate := UNUSED\<rparr>)) (return None)
          else andthen (set_mem k 0 PGSIZE)
            (andthen (upd_proc i (\<lambda>p. p\<lparr>tf := tf0,
                ctx := ctx0\<lparr>ctx_pc := Forkret, ctx_lr := Trapret\<rparr>\<rparr>))
            (return (Some i)))))) u = Ret r t"
    by (auto simp: allocproc_def call_eq_Ret)
  from locked_section_RetD [OF u] obtain v
    where v: "find_unused (entered PtableLock s) = Ret f v" "u = left PtableLock v" by blast
  show ?thesis
  proof (cases f)
    case None
    with v rest show ?thesis
      by (auto simp: find_unused_def take_pid_def andthen_def call_eq_Ret reads_def return_def undef_def
          upd_proc_def modify_def split: option.splits if_splits)
  next
    case (Some i)
    with v have u': "procs u = (procs s)[i := (procs s ! i)\<lparr>pstate := EMBRYO, pid := nextpid s\<rparr>]"
      "curr u = curr s" "nextpid u = nextpid s + 1"
      and i: "i < length (procs s)" "pstate (procs s ! i) = UNUSED"
      by (auto simp: find_unused_def take_pid_def andthen_def call_eq_Ret reads_def return_def undef_def
          upd_proc_def modify_def find_index_Some split: option.splits if_splits)
    from rest Some show ?thesis
      using i by (auto simp: andthen_def call_eq_Ret reads_def return_def upd_proc_def modify_def
          set_mem_def u' dest!: kf split: if_splits intro!: exI [where x = i])
  qed
qed

lemma dispatch_effect:
  assumes "dispatch i s = Switch t"
  shows "pstate (procs s ! i) = RUNNABLE \<and> curr t = Some i \<and> nextpid t = nextpid s
    \<and> procs t = (procs s)[i := (procs s ! i)\<lparr>pstate := RUNNING\<rparr>]"
  using assms
  by (auto simp: dispatch_def andthen_def call_eq_Switch reads_def modify_def upd_proc_def return_def
      switchuvm_returns dest!: switchuvm_frame split: if_splits)

lemma switch_effect:
  assumes "andthen (upd_curr f) (sched :: ('z ptable_scheme, unit) kern) s = Switch u"
  shows "\<exists>i. curr s = Some i \<and> i < length (procs s) \<and> nextpid u = nextpid s
    \<and> procs u = (procs s)[i := f (procs s ! i)] \<and> pstate (f (procs s ! i)) \<noteq> RUNNING"
proof -
  from assms obtain i where i: "curr s = Some i" "i < length (procs s)"
    by (auto simp: andthen_def call_app upd_curr_def curr_proc_def split: result.splits option.splits if_splits)
  with assms show ?thesis
    by (auto simp: andthen_def call_app upd_curr_eq [OF i] sched_eq [where i = i] split: if_splits)
qed

lemma in_order_append: "in_order (ms @ ns) k = in_order ms (in_order ns k)"
  by (induction ms) simp_all

lemma sleep_marks_eq:
  "in_order (sleep_marks ch) k = andthen (upd_curr (\<lambda>p. p\<lparr>chan := Some ch, pstate := SLEEPING\<rparr>)) k"
  by (rule ext) (simp add: sleep_marks_def andthen_def call_app upd_curr_def curr_proc_def upd_proc_def modify_def
      split: option.split)

lemma sleep_Switch:
  assumes "(sleep ch lk :: ('z ptable_scheme, 'a) kern) s = Switch u"
  shows "\<exists>v. in_order (sleep_locks lk) (return ()) s = Ret () v
    \<and> andthen (upd_curr (\<lambda>p. p\<lparr>chan := Some ch, pstate := SLEEPING\<rparr>)) (sched :: ('z ptable_scheme, 'a) kern) v = Switch u"
proof -
  let ?n = "andthen (upd_curr (\<lambda>p. p\<lparr>chan := Some ch, pstate := SLEEPING\<rparr>)) (sched :: ('z ptable_scheme, 'a) kern)"
  from assms have "in_order (sleep_locks lk) ?n s = Switch u"
    by (simp add: sleep_def sleep_calls_def in_order_append sleep_marks_eq reads_def call_app panic_if_def panic_def return_def
        andthen_def [of "call _ _"] split: if_splits)
  then show ?thesis
    by (auto simp: sleep_locks_def andthen_def call_eq_Switch call_app acquire_eq release_eq return_def
        split: if_splits result.splits)
qed

lemma procs_release: "release l s = Ret () t \<Longrightarrow>
    procs t = procs s \<and> curr t = curr s \<and> nextpid t = nextpid s"
  by (auto simp: release_eq split: if_splits)

lemma procs_acquire: "acquire l s = Ret () t \<Longrightarrow>
    procs t = procs s \<and> curr t = curr s \<and> nextpid t = nextpid s"
  by (auto simp: acquire_eq split: if_splits)

lemma sleep_locks_effect: "in_order (sleep_locks lk) (return ()) s = Ret () t \<Longrightarrow>
    procs t = procs s \<and> curr t = curr s \<and> nextpid t = nextpid s"
  by (auto simp: sleep_locks_def andthen_def call_eq_Ret return_def
      dest!: procs_acquire procs_release split: if_splits)

text \<open>Giving the processor back: one entry leaves RUNNING and the scheduler has no process.\<close>

lemma leave_inv:
  assumes inv: "run_inv (procs s) (curr s)" "pid_inv (procs s) (nextpid s)"
    and c: "curr s = Some i" "i < length (procs s)"
    and f: "pstate p \<noteq> RUNNING" "pid p = pid (procs s ! i)"
  shows "run_inv ((procs s)[i := p]) None \<and> pid_inv ((procs s)[i := p]) (nextpid s)"
proof -
  have "pstate (procs s ! i) = RUNNING" using inv(1) c by (simp add: run_inv_def)
  then show ?thesis
    using run_inv_leave [of "procs s" i p] pid_inv_same [OF inv(2) f(2)] inv(1) c f by simp
qed

lemma proc_step_inv:
  assumes "proc_step s t" and "pt_inv s"
  shows "pt_inv t"
proof -
  have inv: "run_inv (procs s) (curr s)" "pid_inv (procs s) (nextpid s)"
    using assms(2) by (simp_all add: pt_inv_def)
  from assms(1) show ?thesis
  proof cases
    case (dispatched i)
    from dispatch_effect [OF this(3)] dispatched inv show ?thesis
      by (auto simp: pt_inv_def intro!: run_inv_enter pid_inv_same)
  next
    case (yielded u)
    then have "andthen (acquire PtableLock)
        (andthen (upd_curr (\<lambda>p. p\<lparr>pstate := RUNNABLE\<rparr>)) (sched :: ('a ptable_scheme, unit) kern)) s = Switch u"
      by (simp add: yield_def)
    then obtain v where v: "acquire PtableLock s = Ret () v" and
      sw: "andthen (upd_curr (\<lambda>p. p\<lparr>pstate := RUNNABLE\<rparr>)) (sched :: ('a ptable_scheme, unit) kern) v = Switch u"
      by (auto simp: andthen_def call_app acquire_eq split: result.splits if_splits)
    from switch_effect [OF sw] procs_acquire [OF v] leave_inv [OF inv] yielded(2) show ?thesis
      by (auto simp: pt_inv_def dispatch_return_def modify_def)
  next
    case (slept ch lk u)
    let ?sw = "andthen (upd_curr (\<lambda>p. p\<lparr>chan := Some ch, pstate := SLEEPING\<rparr>)) (sched :: ('a ptable_scheme, unit) kern)"
    from sleep_Switch [OF slept(1)] obtain v where "in_order (sleep_locks lk) (return ()) s = Ret () v" and sw: "?sw v = Switch u"
      by blast
    from sleep_locks_effect [OF this(1)]
    have v: "procs v = procs s" "curr v = curr s" "nextpid v = nextpid s" by simp_all
    from switch_effect [OF sw] v leave_inv [OF inv] slept(2) show ?thesis
      by (auto simp: pt_inv_def dispatch_return_def modify_def)
  next
    case (exited u)
    from switch_effect [OF this(1)] leave_inv [OF inv] exited(2) show ?thesis
      by (auto simp: pt_inv_def dispatch_return_def modify_def)
  next
    case (back_from_yield b)
    with inv show ?thesis
      by (auto simp: pt_inv_def yield_return_def sched_return_def andthen_def call_eq_Ret modify_def
          dest!: procs_release)
  next
    case (back_from_sleep b lk)
    then obtain i u where i: "curr s = Some i" "i < length (procs s)"
      and t: "curr t = curr s" "nextpid t = nextpid s"
        "procs t = (procs s)[i := (procs s ! i)\<lparr>chan := None\<rparr>]"
      by (auto simp: sleep_return_def sched_return_def andthen_def call_eq_Ret modify_def return_def
          upd_curr_def curr_proc_def upd_proc_def dest!: procs_release procs_acquire
          split: option.splits if_splits)
    have "list_all2 mild (procs s) (procs t)"
      unfolding t(3) using i by (intro mild_update) (simp_all add: mild_def)
    with inv t show ?thesis
      by (auto simp: pt_inv_def intro: run_inv_mild pid_inv_mild)
  next
    case pass
    with inv show ?thesis
      by (auto simp: pt_inv_def sched_pass_def andthen_def call_eq_Ret reads_def modify_def sti_def
          dest!: procs_acquire split: if_splits)
  next
    case (woken ch)
    then have "procs t = map (wake ch) (procs s)" "curr t = curr s" "nextpid t = nextpid s"
      unfolding wakeup_def by (auto dest!: locked_section_RetD simp: wakeup1_eq modify_def)
    with inv show ?thesis
      using mild_map [where f = "wake ch", OF mild_wake]
      by (auto simp: pt_inv_def intro: run_inv_mild pid_inv_mild)
  next
    case (kill n r)
    then have t: "curr t = curr s" "nextpid t = nextpid s" "list_all2 mild (procs s) (procs t)"
      unfolding kill_def
      by (auto dest!: locked_section_RetD simp: kill_body_def call_eq_Ret reads_def andthen_def
          upd_proc_def modify_def return_def mild_def list.rel_refl find_index_Some
          intro!: mild_update list.rel_refl split: option.splits)
    with inv show ?thesis by (auto simp: pt_inv_def intro: run_inv_mild pid_inv_mild)
  next
    case (allocated r)
    from allocproc_effect [OF this] show ?thesis
    proof (elim conjE disjE exE)
      fix i p
      assume *: "i < length (procs s)" "pstate (procs s ! i) = UNUSED" "procs t = (procs s)[i := p]"
        "pid p = nextpid s" "nextpid t = nextpid s + 1" "pstate p \<in> {EMBRYO, UNUSED}" "curr t = curr s"
      then have "curr s \<noteq> Some i" using inv(1) by (auto simp: run_inv_def)
      with * inv show ?thesis
        by (auto simp: pt_inv_def intro!: run_inv_update pid_inv_fresh)
    qed (use inv in \<open>simp add: pt_inv_def\<close>)
  next
    case (readied i q)
    then have "curr s \<noteq> Some i" using inv(1) by (auto simp: run_inv_def)
    with readied inv show ?thesis
      by (auto simp: pt_inv_def upd_proc_def modify_def intro!: run_inv_update pid_inv_same)
  next
    case (reaped i)
    then have "curr s \<noteq> Some i" using inv(1) by (auto simp: run_inv_def)
    with reaped inv show ?thesis
      by (auto simp: pt_inv_def upd_proc_def modify_def intro!: run_inv_update pid_inv_free)
  next
    case lock
    with inv show ?thesis by (auto simp: pt_inv_def dest!: procs_acquire)
  next
    case unlock
    with inv show ?thesis by (auto simp: pt_inv_def dest!: procs_release)
  next
    case other
    then have "list_all2 mild (procs s) (procs t)"
      by (auto simp: same_states_def list_all2_conv_all_nth mild_def)
    with inv other show ?thesis by (auto simp: pt_inv_def intro: run_inv_mild pid_inv_mild)
  qed
qed

lemma proc_reach_inv: "proc_reach s0 s \<Longrightarrow> pt_inv s0 \<Longrightarrow> pt_inv s"
  by (induction rule: proc_reach.induct) (auto intro: proc_step_inv)

section \<open>Allocating an entry\<close>

lemma pt_inv_start: "pt_inv s" if "procs s = replicate NPROC proc0" "curr s = None"
  using that by (simp add: pt_inv_def run_inv_def pid_inv_def proc0_def)

lemma kmem_inv_upd [simp]: "kmem_inv (s\<lparr>procs := ps\<rparr>) qs = kmem_inv s qs"
  "kmem_inv (s\<lparr>nextpid := n\<rparr>) qs = kmem_inv s qs"
  by (simp_all add: kmem_inv_def page_ok_def [abs_def] kfree_bad_def)

lemma kmem_inv_memset:
  assumes "kmem_inv s ps" and "page_ok s p" and "p \<notin> set ps"
  shows "kmem_inv (s\<lparr>mem := memset (mem s) p c PGSIZE\<rparr>) ps"
proof -
  let ?m = "memset (mem s) p c PGSIZE"
  have same: "page_aligned q \<and> same_page ?m (mem s) q" if "q \<in> set ps" for q
  proof -
    have "page_aligned q" "p \<noteq> q"
      using assms that by (auto simp: kmem_inv_def intro: page_ok_aligned)
    with same_page_memset [OF page_ok_aligned [OF assms(2)] this] show ?thesis by blast
  qed
  have "flist (mem s) (freelist s) ps" using assms(1) by (simp add: kmem_inv_def)
  then have "flist ?m (freelist s) ps" by (rule flist_frame) (rule same)
  with assms(1) show ?thesis by (simp add: kmem_inv_def page_ok_def kfree_bad_def)
qed

lemma lock_free_upd [simp]:
  "lock_free l (s\<lparr>procs := ps\<rparr>) = lock_free l s" "lock_free l (s\<lparr>nextpid := n\<rparr>) = lock_free l s"
  by (simp_all add: lock_free_def cli_ok_def holding_def)

definition newborn :: "u32 \<Rightarrow> int \<Rightarrow> proc \<Rightarrow> proc" where
  "newborn k n p = p\<lparr>pstate := EMBRYO, pid := n, kstack := k, tf := tf0,
     ctx := ctx0\<lparr>ctx_pc := Forkret, ctx_lr := Trapret\<rparr>\<rparr>"

lemma kmem_inv_eq:
  "mem t = mem s \<Longrightarrow> freelist t = freelist s \<Longrightarrow> kend t = kend s \<Longrightarrow> kmem_inv t ps = kmem_inv s ps"
  by (simp add: kmem_inv_def page_ok_def kfree_bad_def)

lemma runs_upd_proc [simp]:
  "runs (upd_proc i f) s Q \<longleftrightarrow> Q () (s\<lparr>procs := (procs s)[i := f (procs s ! i)]\<rparr>)"
  by (simp add: upd_proc_def)

lemma runs_set_mem [simp]:
  "runs (set_mem p c n) s Q \<longleftrightarrow> Q () (s\<lparr>mem := memset (mem s) p c n\<rparr>)"
  by (simp add: set_mem_def)

lemma find_unused_eq:
  assumes "find_index (\<lambda>p. pstate p = UNUSED) (procs s) = Some i" and "nextpid s < 0x7FFFFFFF"
  shows "find_unused s = Ret (Some i)
    (s\<lparr>procs := (procs s)[i := (procs s ! i)\<lparr>pstate := EMBRYO, pid := nextpid s\<rparr>],
       nextpid := nextpid s + 1\<rparr>)"
  using assms
  by (simp add: find_unused_def take_pid_def andthen_def call_app reads_def upd_proc_def modify_def
      return_def)

lemma runs_find_unused:
  assumes lf: "lock_free PtableLock s"
    and "find_index (\<lambda>p. pstate p = UNUSED) (procs s) = Some i"
    and "nextpid s < 0x7FFFFFFF"
  shows "runs (locked_section PtableLock find_unused) s (\<lambda>r t. r = Some i
    \<and> procs t = (procs s)[i := (procs s ! i)\<lparr>pstate := EMBRYO, pid := nextpid s\<rparr>]
    \<and> curr t = curr s \<and> nextpid t = nextpid s + 1 \<and> balanced s t \<and> mem t = mem s
    \<and> freelist t = freelist s \<and> kend t = kend s \<and> ptable.more t = ptable.more s)"
proof -
  let ?e = "(entered PtableLock s)\<lparr>procs := (procs s)[i := (procs s ! i)\<lparr>pstate := EMBRYO, pid := nextpid s\<rparr>],
    nextpid := nextpid s + 1\<rparr>"
  have "find_unused (entered PtableLock s) = Ret (Some i) ?e"
    using find_unused_eq [of "entered PtableLock s" i] assms(2,3) by simp
  moreover have bal: "balanced (entered PtableLock s) ?e" by (simp add: balanced_def holding_def)
  ultimately have "locked_section PtableLock find_unused s = Ret (Some i) (left PtableLock ?e)"
    using lf by (intro locked_section_eq) (simp_all add: lock_free_def)
  then show ?thesis
    using bracket_balanced [OF lf bal] by (intro runsI conjI) (assumption | simp)+
qed

lemma runs_allocproc:
  assumes lf: "lock_free PtableLock s" "lock_free KmemLock s" and inv: "kmem_inv s (k # ks)"
    and i: "find_index (\<lambda>p. pstate p = UNUSED) (procs s) = Some i" and n: "nextpid s < 0x7FFFFFFF"
  shows "runs allocproc s (\<lambda>r t. r = Some i \<and> nextpid t = nextpid s + 1 \<and> kmem_inv t ks
    \<and> balanced s t \<and> curr t = curr s \<and> procs t = (procs s)[i := newborn k (nextpid s) (procs s ! i)]
    \<and> kend t = kend s \<and> mem t = memset (mem s) k 0 PGSIZE \<and> ptable.more t = ptable.more s)"
  unfolding allocproc_def
proof (rule runs_call_mono [OF runs_find_unused [OF lf(1) i n]], elim conjE)
  fix r and t :: "'a ptable_scheme"
  assume r: "r = Some i" and t: "procs t = (procs s)[i := (procs s ! i)\<lparr>pstate := EMBRYO, pid := nextpid s\<rparr>]"
    "curr t = curr s" "nextpid t = nextpid s + 1" "balanced s t" and
    mt: "mem t = mem s" "freelist t = freelist s" "kend t = kend s" "ptable.more t = ptable.more s"
  have il: "i < length (procs s)" using i by (simp add: find_index_Some)
  have lf': "lock_free KmemLock t" using t(4) lf(2) by (simp add: balanced_lock_free)
  have inv': "kmem_inv t (k # ks)" using inv kmem_inv_eq [OF mt(1-3)] by simp
  show "runs (case r of None \<Rightarrow> return None
     | Some i \<Rightarrow> call kalloc (\<lambda>k. andthen (upd_proc i (\<lambda>p. p\<lparr>kstack := k\<rparr>))
         (if k = 0 then andthen (upd_proc i (\<lambda>p. p\<lparr>pstate := UNUSED\<rparr>)) (return None)
          else andthen (set_mem k 0 PGSIZE) (andthen (upd_proc i (\<lambda>p. p\<lparr>tf := tf0,
                ctx := ctx0\<lparr>ctx_pc := Forkret, ctx_lr := Trapret\<rparr>\<rparr>)) (return (Some i)))))) t
    (\<lambda>r t. r = Some i \<and> nextpid t = nextpid s + 1 \<and> kmem_inv t ks
    \<and> balanced s t \<and> curr t = curr s \<and> procs t = (procs s)[i := newborn k (nextpid s) (procs s ! i)]
    \<and> kend t = kend s \<and> mem t = memset (mem s) k 0 PGSIZE \<and> ptable.more t = ptable.more s)"
    unfolding r option.case
  proof (rule runs_call_mono [OF runs_kalloc [OF lf' inv']], elim conjE)
    fix q and u :: "'a ptable_scheme"
    assume u: "kmem_frame t u" "mem u = mem t" "kmem_inv u (tl (k # ks))"
      "q = (if k # ks = [] then 0 else hd (k # ks))" "balanced t u"
    have "procs u = procs t \<and> curr u = curr t \<and> nextpid u = nextpid t \<and> ptable.more u = ptable.more t \<and> kend u = kend t"
      using u(1) unfolding kmem_frame_def by (rule ssubst) simp
    then have pu: "procs u = procs t" "curr u = curr t" "nextpid u = nextpid t" "ptable.more u = ptable.more t" "kend u = kend t"
      "mem u = mem t" using u(2) by simp_all
    have kt: "page_ok t k" "k \<notin> set ks" using inv' by (auto simp: kmem_inv_def)
    then have k: "page_ok u k" "k \<notin> set ks" "k \<noteq> 0"
      by (simp_all add: page_ok_frame [OF u(1)]) (simp add: page_ok_def)
    have km: "kmem_inv (u\<lparr>procs := ps, mem := memset (mem u) k 0 PGSIZE\<rparr>) ks" for ps
      by (rule iffD2 [OF kmem_inv_eq kmem_inv_memset [OF u(3) [simplified] k(1,2), of 0]]) simp_all
    have "balanced s u" using t(4) u(5) by (rule balanced_trans)
    then have bal: "balanced s (u\<lparr>mem := m, procs := ps\<rparr>)" for m ps
      by (rule balanced_trans) (simp add: balanced_def holding_def)
    let ?f = "\<lambda>p. p\<lparr>tf := tf0, ctx := ctx0\<lparr>ctx_pc := Forkret, ctx_lr := Trapret\<rparr>\<rparr>"
    have pe: "(procs u)[i := (procs u ! i)\<lparr>kstack := k\<rparr>, i := ?f ((procs u)[i := (procs u ! i)\<lparr>kstack := k\<rparr>] ! i)]
      = (procs s)[i := newborn k (nextpid s) (procs s ! i)]"
      using il by (simp add: pu t(1) newborn_def)
    have q: "q = k" using u(4) by simp
    show "runs (andthen (upd_proc i (\<lambda>p. p\<lparr>kstack := q\<rparr>))
         (if q = 0 then andthen (upd_proc i (\<lambda>p. p\<lparr>pstate := UNUSED\<rparr>)) (return None)
          else andthen (set_mem q 0 PGSIZE) (andthen (upd_proc i ?f) (return (Some i))))) u
      (\<lambda>r t. r = Some i \<and> nextpid t = nextpid s + 1 \<and> kmem_inv t ks
      \<and> balanced s t \<and> curr t = curr s \<and> procs t = (procs s)[i := newborn k (nextpid s) (procs s ! i)]
    \<and> kend t = kend s \<and> mem t = memset (mem s) k 0 PGSIZE \<and> ptable.more t = ptable.more s)"
      unfolding q using k(3) km pe t(2,3) pu(2-) bal mt
      by (simp del: list_update_overwrite)
  qed
qed

section \<open>Properties\<close>

text \<open>C12: at every moment after pinit, whatever the order of dispatches, yields, sleeps, wakeups,
  kills, forks, exits and waits, exactly the process the scheduler has dispatched is RUNNING;
  while the scheduler itself runs, none is.\<close>

theorem one_running:
  assumes "pinit b = Ret () s0" and "curr b = None" and "proc_reach s0 s" and "i < length (procs s)"
  shows "pstate (procs s ! i) = RUNNING \<longleftrightarrow> curr s = Some i"
proof -
  have "procs s0 = replicate NPROC proc0 \<and> curr s0 = None"
    using assms(1,2) by (auto simp: pinit_def initlock_def andthen_def call_app modify_def)
  then have "pt_inv s" using pt_inv_start proc_reach_inv [OF assms(3)] by blast
  with assms(4) show ?thesis by (simp add: pt_inv_def run_inv_def)
qed

definition ptable_start :: ptable where
  "ptable_start = \<lparr>irq_off = False, ncli = 0, intena = False,
     locks = (\<lambda>_. \<lparr>locked = False, on_cpu = False\<rparr>),
     mem = store32 (\<lambda>_. 0) 0x80100000 0x80101000, freelist = 0x80100000, use_lock = True, kend = 0x80008000, kpgdir = 0x80004000,
     procs = replicate NPROC proc0, curr = None, nextpid = 1, initproc = None, ticks = 0,
     first_sched = True\<rparr>"

lemma ptable_start_facts:
  "cli_ok ptable_start" "lock_free l ptable_start" "kmem_inv ptable_start [0x80100000, 0x80101000]"
  by (simp_all add: ptable_start_def cli_ok_def lock_free_def holding_def kmem_inv_def page_ok_def
      kfree_bad_def load32_store32 layout_defs v2p_def) (simp add: load32_def store32_def of_le32_def)

lemma pinit_start: "pinit ptable_start = Ret () ptable_start"
  by (simp add: pinit_def initlock_def andthen_def call_app modify_def)
    (simp add: ptable_start_def fun_upd_idem)

lemma find_first_unused:
  "procs s = p # ps \<Longrightarrow> pstate p = UNUSED \<Longrightarrow> find_index (\<lambda>p. pstate p = UNUSED) (procs s) = Some 0"
  by simp

lemma first_alloc: "runs allocproc ptable_start (\<lambda>r t. r = Some 0 \<and> curr t = None
    \<and> procs t = (replicate NPROC proc0)[0 := newborn 0x80100000 1 proc0] \<and> nextpid t = 2
    \<and> balanced ptable_start t \<and> lock_free PtableLock t \<and> lock_free KmemLock t \<and> kmem_inv t [0x80101000])"
proof -
  have i: "find_index (\<lambda>p. pstate p = UNUSED) (procs ptable_start) = Some 0"
    by (simp add: ptable_start_def NPROC_def proc0_def numeral_eq_Suc)
  have n: "nextpid ptable_start = 1" "curr ptable_start = None" "procs ptable_start = replicate NPROC proc0"
    by (simp_all add: ptable_start_def)
  then have "nextpid ptable_start < 0x7FFFFFFF" by simp
  from runs_allocproc [OF ptable_start_facts(2,2,3) i this] show ?thesis
    by (rule runs_mono) (use n in \<open>auto simp: NPROC_def balanced_lock_free ptable_start_facts\<close>)
qed

text \<open>The first process allocated, filled in and dispatched.\<close>

lemma dispatch_Switch:
  assumes "pstate (procs s ! i) = RUNNABLE" "pgdir (procs s ! i) \<noteq> 0" "0 < ncli s" "irq_off s"
  shows "dispatch i s = Switch (s\<lparr>curr := Some i, mem := memmove (mem s) (kpgdir s) (pgdir (procs s ! i)) PGSIZE,
    procs := (procs s)[i := (procs s ! i)\<lparr>pstate := RUNNING\<rparr>]\<rparr>)"
  using assms
  by (simp add: dispatch_def switchuvm_def andthen_def call_app reads_def modify_def panic_if_def return_def
      pushcli_eq popcli_eq move_mem_def upd_proc_def)

lemma first_dispatch:
  "\<exists>s t. proc_reach ptable_start s \<and> curr s = None \<and> length (procs s) = NPROC \<and> pstate (procs s ! 0) = RUNNABLE
    \<and> dispatch 0 s = Switch t \<and> curr t = Some 0 \<and> length (procs t) = NPROC
    \<and> holding PtableLock t \<and> ncli t = 1 \<and> irq_off t"
proof -
  from first_alloc obtain r where r: "allocproc ptable_start = Ret (Some 0) r" "curr r = None"
    "procs r = (replicate NPROC proc0)[0 := newborn 0x80100000 1 proc0]" "balanced ptable_start r" "lock_free PtableLock r"
    by (auto simp: runs_iff)
  then have 1: "proc_reach ptable_start r" by (blast intro: proc_reach.intros allocated)
  have p: "procs r ! 0 = newborn 0x80100000 1 proc0" "length (procs r) = NPROC"
    using r(3) by (simp_all add: NPROC_def)
  define q where "q = (newborn 0x80100000 1 proc0)\<lparr>pgdir := 0x80101000, pstate := RUNNABLE\<rparr>"
  define u where "u = r\<lparr>procs := (procs r)[0 := q]\<rparr>"
  have "proc_step r u"
    by (rule readied [where i = 0 and q = q]) (simp_all add: p u_def q_def newborn_def upd_proc_def modify_def NPROC_def)
  with 1 have 2: "proc_reach ptable_start u" by (rule proc_reach.step)
  have h: "\<not> holding PtableLock u" "ncli u = 0" "curr u = None" "procs u = (procs r)[0 := q]"
    using r(2,4,5) by (simp_all add: u_def lock_free_def holding_def balanced_def ptable_start_def)
  define v where "v = entered PtableLock u"
  have "proc_step u v" by (rule proc_step.lock [where l = PtableLock]) (simp add: acquire_eq h v_def)
  with 2 have 3: "proc_reach ptable_start v" by (rule proc_reach.step)
  have v: "holding PtableLock v" "ncli v = 1" "irq_off v" "curr v = None" "procs v ! 0 = q" "length (procs v) = NPROC"
    using h p by (simp_all add: v_def entered_def holding_def NPROC_def)
  then have "dispatch 0 v = Switch (v\<lparr>curr := Some 0, mem := memmove (mem v) (kpgdir v) (pgdir (procs v ! 0)) PGSIZE,
      procs := (procs v)[0 := (procs v ! 0)\<lparr>pstate := RUNNING\<rparr>]\<rparr>)"
    by (intro dispatch_Switch) (simp_all add: q_def)
  with 3 v show ?thesis
    by (intro exI [of _ v] exI) (intro conjI, (assumption | simp add: q_def holding_def)+)
qed

theorem one_running_witness:
  "\<exists>t :: ptable. curr t = Some 0 \<and> pstate (procs t ! 0) = RUNNING \<and> pstate (procs t ! 63) \<noteq> RUNNING"
proof -
  from first_dispatch obtain s t where s: "proc_reach ptable_start s" "curr s = None" "length (procs s) = NPROC"
    "dispatch 0 s = Switch t" "curr t = Some 0" "length (procs t) = NPROC" by blast
  then have "proc_step s t" by (intro dispatched [where i = 0]) (simp_all add: NPROC_def)
  with s(1) have t: "proc_reach ptable_start t" by (rule proc_reach.step)
  have "curr ptable_start = None" by (simp add: ptable_start_def)
  from one_running [OF pinit_start this t, of 0] one_running [OF pinit_start this t, of 63] s(5,6)
  show ?thesis by (auto simp: NPROC_def)
qed

text \<open>C13: the process identifiers of the entries in use are pairwise different, and below the next
  one to be given out, at every moment after pinit; allocproc is undefined rather than wrong when
  the counter would overflow.\<close>

theorem pids_distinct:
  assumes "pinit b = Ret () s0" and "curr b = None" and "proc_reach s0 s"
    and "i < length (procs s)" and "j < length (procs s)" and "i \<noteq> j"
    and "pstate (procs s ! i) \<noteq> UNUSED" and "pstate (procs s ! j) \<noteq> UNUSED"
  shows "pid (procs s ! i) \<noteq> pid (procs s ! j) \<and> pid (procs s ! i) < nextpid s"
proof -
  have "procs s0 = replicate NPROC proc0 \<and> curr s0 = None"
    using assms(1,2) by (auto simp: pinit_def initlock_def andthen_def call_app modify_def)
  then have "pt_inv s" using pt_inv_start proc_reach_inv [OF assms(3)] by blast
  with assms(4-8) show ?thesis by (simp add: pt_inv_def pid_inv_def)
qed


theorem pids_distinct_witness:
  "runs (andthen allocproc allocproc) ptable_start (\<lambda>_ u. pid (procs u ! 0) \<noteq> pid (procs u ! 1))"
proof -
  from first_alloc obtain t where t: "allocproc ptable_start = Ret (Some 0) t" "nextpid t = 2"
    "procs t = (replicate NPROC proc0)[0 := newborn 0x80100000 1 proc0]"
    "lock_free PtableLock t" "lock_free KmemLock t" "kmem_inv t [0x80101000]"
    by (auto simp: runs_iff)
  have "find_index (\<lambda>p. pstate p = UNUSED) (procs t) = Some 1" "nextpid t < 0x7FFFFFFF"
    by (simp_all add: t NPROC_def newborn_def proc0_def numeral_eq_Suc)
  from runs_allocproc [OF t(4-6) this] obtain u where u: "allocproc t = Ret (Some 1) u"
    "procs u = (procs t)[1 := newborn 0x80101000 2 (procs t ! 1)]"
    by (auto simp: runs_iff t(2))
  have "curr ptable_start = None" by (simp add: ptable_start_def)
  moreover have "proc_reach ptable_start u" using t(1) u(1) by (blast intro: proc_reach.intros allocated)
  ultimately show ?thesis
    using pids_distinct [OF pinit_start, of u 0 1] t(1,3) u
    by (simp add: runs_def andthen_def call_app NPROC_def newborn_def)
qed

text \<open>C14: sleep loses no wakeup. The caller has tested its condition under \<open>lk\<close>. From there to the switch no
  interruption is possible, between any two calls of sleep, whatever the handlers and the processes they let run do
  (\<open>E\<close>): \<open>lk\<close> is given up only inside ptable.lock. So at the switch the process is SLEEPING on its channel, and a
  wakeup that comes any time later, while the entry is still so, makes that process runnable, and no process asleep
  elsewhere.\<close>

theorem no_lost_wakeup:
  assumes "curr s = Some i" and "i < length (procs s)"
    and "lk \<noteq> PtableLock" and "holding lk s" and "\<not> holding PtableLock s" and "ncli s = 1" and "irq_off s"
  shows "\<exists>u. sleep ch lk s = Switch u \<and> holding PtableLock u \<and> \<not> holding lk u
    \<and> (\<forall>E n r. interruptible E (sleep_calls ch lk) sched s n r \<longrightarrow> n = 0 \<and> r = Switch u)
    \<and> pstate (procs u ! i) = SLEEPING \<and> chan (procs u ! i) = Some ch
    \<and> (\<forall>v. lock_free PtableLock v \<and> procs v ! i = procs u ! i \<and> length (procs v) = length (procs u) \<longrightarrow>
         runs (wakeup ch) v (\<lambda>_ t. pstate (procs t ! i) = RUNNABLE
           \<and> (\<forall>j < length (procs v). chan (procs v ! j) \<noteq> Some ch \<longrightarrow> procs t ! j = procs v ! j)))"
proof -
  let ?u = "(left lk (entered PtableLock s))\<lparr>procs :=
    (procs s)[i := (procs s ! i)\<lparr>chan := Some ch, pstate := SLEEPING\<rparr>]\<rparr>"
  have "runs (wakeup ch) v (\<lambda>_ t. pstate (procs t ! i) = RUNNABLE
           \<and> (\<forall>j < length (procs v). chan (procs v ! j) \<noteq> Some ch \<longrightarrow> procs t ! j = procs v ! j))"
    if "lock_free PtableLock v" "procs v ! i = procs ?u ! i" "length (procs v) = length (procs ?u)" for v
    by (rule runs_mono [OF runs_wakeup [OF that(1)]]) (use that assms in \<open>auto simp: wake_def\<close>)
  moreover have "holding PtableLock ?u" "\<not> holding lk ?u" using assms by simp_all
  moreover have "n = 0 \<and> r = Switch ?u" if "interruptible E (sleep_calls ch lk) sched s n r" for E n r
    using sleep_uninterrupted [OF assms that] by (simp add: sleep_eq [OF assms])
  moreover have "pstate (procs ?u ! i) = SLEEPING" "chan (procs ?u ! i) = Some ch" using assms(2) by simp_all
  ultimately show ?thesis using sleep_eq [OF assms] by blast
qed

theorem no_lost_wakeup_witness:
  "\<exists>u. sleep TicksChan TicksLock (entered TicksLock (ptable_start\<lparr>curr := Some 3\<rparr>)) = Switch u
    \<and> \<not> holding TicksLock u
    \<and> (\<forall>n r. interruptible (\<lambda>_ _. True) (sleep_calls TicksChan TicksLock) sched
         (entered TicksLock (ptable_start\<lparr>curr := Some 3\<rparr>)) n r \<longrightarrow> n = 0)"
proof -
  let ?s = "entered TicksLock (ptable_start\<lparr>curr := Some 3\<rparr>)"
  have "curr ?s = Some 3" "3 < length (procs ?s)" "TicksLock \<noteq> PtableLock" "holding TicksLock ?s"
    "\<not> holding PtableLock ?s" "ncli ?s = 1" "irq_off ?s"
    by (simp_all add: ptable_start_def entered_def holding_def NPROC_def)
  from no_lost_wakeup [OF this] show ?thesis by blast
qed

text \<open>C40: kill takes the first table entry with the given identifier, whatever its state. Given the
  identifier left in a free entry (0, in an entry never used or reaped), it succeeds and marks the
  free entry killed; allocproc does not clear the mark, so the next process is born killed.\<close>

theorem kill_poisons_free_slot:
  assumes "lock_free PtableLock s" and "lock_free KmemLock s" and "kmem_inv s (k # ks)"
    and "find_index (\<lambda>p. pstate p = UNUSED) (procs s) = Some i"
    and "find_index (\<lambda>p. pid p = n) (procs s) = Some i" and "nextpid s < 0x7FFFFFFF"
  shows "runs (kill n) s (\<lambda>r t. r = 0
    \<and> runs allocproc t (\<lambda>r u. r = Some i \<and> pstate (procs u ! i) = EMBRYO \<and> killed (procs u ! i)))"
proof -
  let ?ps = "(procs s)[i := (procs s ! i)\<lparr>killed := True, pstate := UNUSED\<rparr>]"
  let ?e = "(entered PtableLock s)\<lparr>procs := ?ps\<rparr>" and ?t = "left PtableLock ((entered PtableLock s)\<lparr>procs := ?ps\<rparr>)"
  have i: "i < length (procs s)" "pstate (procs s ! i) = UNUSED" "\<forall>j < i. pstate (procs s ! j) \<noteq> UNUSED"
    using assms(4) by (simp_all add: find_index_Some)
  have "kill_body n (entered PtableLock s) = Ret 0 ?e"
    using assms(5) i(2)
    by (simp add: kill_body_def andthen_def call_app reads_def upd_proc_def modify_def return_def)
  moreover have bal: "balanced (entered PtableLock s) ?e" by simp
  ultimately have kill: "kill n s = Ret 0 ?t"
    unfolding kill_def using assms(1) by (intro locked_section_eq) (simp_all add: lock_free_def)
  have "balanced s ?t" using assms(1) bal by (rule bracket_balanced)
  then have lf: "lock_free PtableLock ?t" "lock_free KmemLock ?t"
    using assms(1,2) by (simp_all only: balanced_lock_free)
  have inv: "kmem_inv ?t (k # ks)"
    by (rule iffD2 [OF kmem_inv_eq assms(3)]) simp_all
  have f: "find_index (\<lambda>p. pstate p = UNUSED) (procs ?t) = Some i"
    using i by (simp add: find_index_Some nth_upd)
  have "nextpid ?t < 0x7FFFFFFF" using assms(6) by simp
  from runs_allocproc [OF lf inv f this] have
    "runs allocproc ?t (\<lambda>r u. r = Some i \<and> pstate (procs u ! i) = EMBRYO \<and> killed (procs u ! i))"
    by (rule runs_mono) (use i in \<open>auto simp: newborn_def\<close>)
  then show ?thesis using kill by (simp add: runs_def)
qed

theorem kill_poisons_free_slot_witness:
  "runs (kill 0) ptable_start (\<lambda>r t. r = 0
    \<and> runs allocproc t (\<lambda>r u. r = Some 0 \<and> pstate (procs u ! 0) = EMBRYO \<and> killed (procs u ! 0)))"
proof -
  have "find_index (\<lambda>p. pstate p = UNUSED) (procs ptable_start) = Some 0"
    "find_index (\<lambda>p. pid p = 0) (procs ptable_start) = Some 0" "nextpid ptable_start < 0x7FFFFFFF"
    by (simp_all add: ptable_start_def NPROC_def proc0_def numeral_eq_Suc)
  from kill_poisons_free_slot [OF ptable_start_facts(2,2,3) this] show ?thesis .
qed

end
