(* ===== verification/Fifo.thy ===== *)
theory Fifo
  imports Prelude
begin

text \<open>
  The interface of the kernel's ring buffers, a bounded first-in-first-out queue, which the
  pipes and the console input buffer provide, and what follows for any sequence of operations.
\<close>

locale bounded_fifo =
  fixes put :: "'b \<Rightarrow> 'q \<Rightarrow> 'q"
    and get :: "'q \<Rightarrow> 'b \<times> 'q"
    and full :: "'q \<Rightarrow> bool"
    and empty :: "'q \<Rightarrow> bool"
    and contents :: "'q \<Rightarrow> 'b list"
    and ok :: "'q \<Rightarrow> bool"
    and cap :: nat
  assumes put: "ok q \<Longrightarrow> length (contents q) < cap \<Longrightarrow> ok (put b q) \<and> contents (put b q) = contents q @ [b]"
    and get: "ok q \<Longrightarrow> contents q \<noteq> [] \<Longrightarrow>
      ok (snd (get q)) \<and> fst (get q) = hd (contents q) \<and> contents (snd (get q)) = tl (contents q)"
    and full_iff: "ok q \<Longrightarrow> full q \<longleftrightarrow> length (contents q) = cap"
    and empty_iff: "ok q \<Longrightarrow> empty q \<longleftrightarrow> contents q = []"
    and fits: "ok q \<Longrightarrow> length (contents q) \<le> cap"
begin

lemma put_all:
  "ok q \<Longrightarrow> length (contents q) + length bs \<le> cap \<Longrightarrow>
   ok (fold put bs q) \<and> contents (fold put bs q) = contents q @ bs"
proof (induction bs arbitrary: q)
  case (Cons b bs)
  then have "ok (put b q)" "contents (put b q) = contents q @ [b]" using put [of q b] by simp_all
  with Cons.IH [of "put b q"] Cons.prems show ?case by simp
qed simp

lemma not_full: "ok q \<Longrightarrow> \<not> full q \<Longrightarrow> length (contents q) < cap"
  using full_iff fits le_neq_implies_less by blast

end

text \<open>Taking up to \<open>n\<close> elements, with the test for emptiness the source makes before each.\<close>

fun take_up_to :: "('q \<Rightarrow> bool) \<Rightarrow> ('q \<Rightarrow> 'b \<times> 'q) \<Rightarrow> nat \<Rightarrow> 'q \<Rightarrow> 'b list \<times> 'q" where
  "take_up_to em g 0 q = ([], q)"
| "take_up_to em g (Suc n) q =
     (if em q then ([], q)
      else case g q of (b, q1) \<Rightarrow> (case take_up_to em g n q1 of (bs, q2) \<Rightarrow> (b # bs, q2)))"

context bounded_fifo
begin

lemma get_all:
  "ok q \<Longrightarrow> take_up_to empty get n q = (bs, r) \<Longrightarrow>
   ok r \<and> bs = take n (contents q) \<and> contents r = drop n (contents q)"
proof (induction n arbitrary: q bs r)
  case 0
  then show ?case by simp
next
  case (Suc n)
  show ?case
  proof (cases "empty q")
    case True
    with Suc.prems have "contents q = []" by (simp add: empty_iff)
    with Suc.prems True show ?thesis by simp
  next
    case False
    then have ne: "contents q \<noteq> []" using Suc.prems(1) by (simp add: empty_iff)
    obtain b q1 where g: "get q = (b, q1)" by fastforce
    obtain cs q2 where t: "take_up_to empty get n q1 = (cs, q2)" by fastforce
    have q1: "ok q1" "b = hd (contents q)" "contents q1 = tl (contents q)"
      using get [OF Suc.prems(1) ne] g by simp_all
    have "bs = b # cs" "r = q2" using Suc.prems(2) False g t by simp_all
    with Suc.IH [OF q1(1) t] q1 ne show ?thesis by (cases "contents q") auto
  qed
qed

end

end
