(* ===== verification/Pipe.thy ===== *)
theory Pipe
  imports Proc Fifo
begin

text \<open>
  pipe.c, except pipealloc, which needs the file table (theory File). A pipe lives in a page of
  its own; \<open>pipes\<close> maps the addresses of such pages to the structure.
\<close>

section \<open>State\<close>

definition PIPESIZE :: nat where "PIPESIZE = 512"

text \<open>struct pipe without its lock, which is \<open>PipeLock\<close> of the page's address.\<close>

record pipe =
  pdata :: "u8 list"
  nread :: u32
  nwrite :: u32
  readopen :: bool
  writeopen :: bool

record pipe_state = ptable +
  pipes :: "u32 \<Rightarrow> pipe option"

definition get_pipe :: "u32 \<Rightarrow> ('z pipe_state_scheme, pipe) kern" where
  "get_pipe p = (\<lambda>s. case pipes s p of Some q \<Rightarrow> Ret q s | None \<Rightarrow> Undef ''no such pipe'')"

definition set_pipe :: "u32 \<Rightarrow> pipe \<Rightarrow> ('z pipe_state_scheme, unit) kern" where
  "set_pipe p q = modify (\<lambda>s. s\<lparr>pipes := (pipes s)(p \<mapsto> q)\<rparr>)"

section \<open>The ring buffer\<close>

definition pipe_full :: "pipe \<Rightarrow> bool" where
  "pipe_full q \<longleftrightarrow> nwrite q = nread q + of_nat PIPESIZE"

definition pipe_empty :: "pipe \<Rightarrow> bool" where
  "pipe_empty q \<longleftrightarrow> nread q = nwrite q"

text \<open>\<open>p->data[p->nwrite++ % PIPESIZE] = b\<close> and \<open>p->data[p->nread++ % PIPESIZE]\<close>.\<close>

definition put_byte :: "u8 \<Rightarrow> pipe \<Rightarrow> pipe" where
  "put_byte b q = q\<lparr>pdata := (pdata q)[unat (nwrite q mod of_nat PIPESIZE) := b], nwrite := nwrite q + 1\<rparr>"

definition get_byte :: "pipe \<Rightarrow> u8 \<times> pipe" where
  "get_byte q = (pdata q ! unat (nread q mod of_nat PIPESIZE), q\<lparr>nread := nread q + 1\<rparr>)"

section \<open>Operations\<close>

definition pipeclose :: "u32 \<Rightarrow> bool \<Rightarrow> ('z pipe_state_scheme, unit) kern" where
  "pipeclose p writable =
     andthen (acquire (PipeLock p))
     (call (get_pipe p) (\<lambda>q.
     andthen (if writable then andthen (set_pipe p (q\<lparr>writeopen := False\<rparr>)) (wakeup (PipeNread p))
              else andthen (set_pipe p (q\<lparr>readopen := False\<rparr>)) (wakeup (PipeNwrite p)))
     (call (get_pipe p) (\<lambda>q.
     if \<not> readopen q \<and> \<not> writeopen q
     then andthen (release (PipeLock p))
       (andthen (kfree p) (modify (\<lambda>s. s\<lparr>pipes := (pipes s)(p := None)\<rparr>)))
     else release (PipeLock p)))))"

text \<open>
  How the loop of \<open>pipewrite\<close> ends: every byte is written; or the pipe is full and no one will
  read it (or the writer was killed); or it is full and the writer has to sleep. The last two
  carry the bytes not written.
\<close>

datatype write_end = Written | Broken "u8 list" | Blocked "u8 list"

definition curr_killed :: "('z ptable_scheme, bool) kern" where
  "curr_killed = get_curr killed"

fun pipewrite_loop :: "u32 \<Rightarrow> u8 list \<Rightarrow> ('z pipe_state_scheme, write_end) kern" where
  "pipewrite_loop p [] = return Written"
| "pipewrite_loop p (b # bs) =
     call (get_pipe p) (\<lambda>q.
     if pipe_full q then
       call (if \<not> readopen q then return True else curr_killed) (\<lambda>stop.
       if stop then return (Broken (b # bs))
       else andthen (wakeup (PipeNread p)) (return (Blocked (b # bs))))
     else andthen (set_pipe p (put_byte b q)) (pipewrite_loop p bs))"

definition pipewrite_locked :: "u32 \<Rightarrow> int \<Rightarrow> u8 list \<Rightarrow> ('z pipe_state_scheme, int) kern" where
  "pipewrite_locked p n bs =
     call (pipewrite_loop p bs) (\<lambda>r. case r of
       Written \<Rightarrow> andthen (wakeup (PipeNread p)) (andthen (release (PipeLock p)) (return n))
     | Broken rest \<Rightarrow> andthen (release (PipeLock p)) (return (- 1))
     | Blocked rest \<Rightarrow> sleep (PipeNwrite p) (PipeLock p))"

text \<open>\<open>bs\<close> are the \<open>n\<close> bytes at \<open>addr\<close> (none for a negative \<open>n\<close>); they belong to the calling
  process and do not change while it sleeps. \<open>pipewrite_resume\<close> is the rest of the call, from the
  return of the sleep, with the bytes then left.\<close>

definition pipewrite :: "u32 \<Rightarrow> int \<Rightarrow> u8 list \<Rightarrow> ('z pipe_state_scheme, int) kern" where
  "pipewrite p n bs = andthen (acquire (PipeLock p)) (pipewrite_locked p n bs)"

definition pipewrite_resume :: "bool \<Rightarrow> u32 \<Rightarrow> int \<Rightarrow> u8 list \<Rightarrow> ('z pipe_state_scheme, int) kern" where
  "pipewrite_resume saved p n rest =
     andthen (sleep_return saved (PipeLock p)) (pipewrite_locked p n rest)"

text \<open>\<open>piperead\<close> returns the bytes it stores at \<open>addr\<close> with its return value.\<close>

definition piperead_copy :: "u32 \<Rightarrow> int \<Rightarrow> ('z pipe_state_scheme, u8 list) kern" where
  "piperead_copy p n =
     call (get_pipe p) (\<lambda>q.
     case take_up_to pipe_empty get_byte (nat n) q of (bs, q') \<Rightarrow>
       andthen (set_pipe p q') (return bs))"

definition piperead_locked :: "u32 \<Rightarrow> int \<Rightarrow> ('z pipe_state_scheme, int \<times> u8 list) kern" where
  "piperead_locked p n =
     call (get_pipe p) (\<lambda>q.
     if pipe_empty q \<and> writeopen q then
       call curr_killed (\<lambda>k.
       if k then andthen (release (PipeLock p)) (return (- 1, []))
       else sleep (PipeNread p) (PipeLock p))
     else
       call (piperead_copy p n) (\<lambda>bs.
       andthen (wakeup (PipeNwrite p))
       (andthen (release (PipeLock p)) (return (int (length bs), bs)))))"

definition piperead :: "u32 \<Rightarrow> int \<Rightarrow> ('z pipe_state_scheme, int \<times> u8 list) kern" where
  "piperead p n = andthen (acquire (PipeLock p)) (piperead_locked p n)"

definition piperead_resume :: "bool \<Rightarrow> u32 \<Rightarrow> int \<Rightarrow> ('z pipe_state_scheme, int \<times> u8 list) kern" where
  "piperead_resume saved p n = andthen (sleep_return saved (PipeLock p)) (piperead_locked p n)"

section \<open>The ring buffer is a bounded queue\<close>

text \<open>The number of bytes in the buffer; the counters are compared modulo \<open>2 ^ 32\<close>.\<close>

definition pipe_count :: "pipe \<Rightarrow> nat" where
  "pipe_count q = unat (nwrite q - nread q)"

definition pipe_ok :: "pipe \<Rightarrow> bool" where
  "pipe_ok q \<longleftrightarrow> length (pdata q) = PIPESIZE \<and> pipe_count q \<le> PIPESIZE"

definition pipe_contents :: "pipe \<Rightarrow> u8 list" where
  "pipe_contents q = map (\<lambda>k. pdata q ! ((unat (nread q) + k) mod PIPESIZE)) [0 ..< pipe_count q]"

lemma unat_mod_PIPESIZE: "unat ((w :: u32) mod of_nat PIPESIZE) = unat w mod PIPESIZE"
  by (simp add: PIPESIZE_def unat_mod_distrib)

text \<open>The index survives the wrap of a counter because 512 divides \<open>2 ^ 32\<close>.\<close>

lemma wrap_mod_512: "(a mod 2 ^ 32) mod 512 = a mod (512 :: nat)"
proof -
  have "(512 :: nat) dvd 2 ^ 32" by simp
  then show ?thesis by (rule mod_mod_cancel)
qed

lemma unat_Suc_mod: "unat ((w :: u32) + 1) mod PIPESIZE = Suc (unat w) mod PIPESIZE"
proof -
  have "unat (w + 1) = Suc (unat w) mod 2 ^ 32" by (simp add: unat_word_ariths)
  then show ?thesis by (simp only: PIPESIZE_def wrap_mod_512)
qed

lemma nwrite_index: "(unat (nread q) + pipe_count q) mod PIPESIZE = unat (nwrite q) mod PIPESIZE"
proof -
  have "unat (nread q + (nwrite q - nread q)) = (unat (nread q) + pipe_count q) mod 2 ^ 32"
    unfolding pipe_count_def unat_word_ariths(1) by simp
  then have "unat (nwrite q) = (unat (nread q) + pipe_count q) mod 2 ^ 32" by simp
  then show ?thesis by (simp only: PIPESIZE_def wrap_mod_512)
qed

lemma put_byte_ok:
  assumes "pipe_ok q" and "pipe_count q < PIPESIZE"
  shows "pipe_ok (put_byte b q) \<and> pipe_contents (put_byte b q) = pipe_contents q @ [b]"
proof -
  have c: "pipe_count (put_byte b q) = Suc (pipe_count q)"
  proof -
    have "nwrite q + 1 - nread q = (nwrite q - nread q) + 1" by simp
    moreover have "pipe_count (put_byte b q) = unat (nwrite q + 1 - nread q)"
      by (simp add: pipe_count_def put_byte_def)
    ultimately have "pipe_count (put_byte b q) = unat ((nwrite q - nread q) + 1)" by (simp only:)
    then have "pipe_count (put_byte b q) = (pipe_count q + 1) mod 2 ^ 32"
      by (simp only: pipe_count_def unat_word_ariths(1)) simp
    then show ?thesis using assms(2) by (simp add: PIPESIZE_def)
  qed
  let ?r = "unat (nread q)"
  let ?d = "(pdata q)[(?r + pipe_count q) mod PIPESIZE := b]"
  have d: "pdata (put_byte b q) = ?d" "nread (put_byte b q) = nread q"
    by (simp_all add: put_byte_def unat_mod_PIPESIZE nwrite_index)
  have len: "length (pdata q) = PIPESIZE" using assms(1) by (simp add: pipe_ok_def)
  have "?d ! ((?r + k) mod PIPESIZE) = (if k = pipe_count q then b else pdata q ! ((?r + k) mod PIPESIZE))"
    if "k \<le> pipe_count q" for k
  proof (cases "k = pipe_count q")
    case True
    then show ?thesis using len by (simp add: PIPESIZE_def)
  next
    case False
    have "(?r + k) mod PIPESIZE \<noteq> (?r + pipe_count q) mod PIPESIZE"
    proof
      assume "(?r + k) mod PIPESIZE = (?r + pipe_count q) mod PIPESIZE"
      then have "PIPESIZE dvd (?r + pipe_count q) - (?r + k)"
        using that by (subst mod_eq_dvd_iff_nat [symmetric]) simp_all
      then have "PIPESIZE dvd pipe_count q - k" by simp
      then show False using that False assms(2) by (auto dest!: dvd_imp_le)
    qed
    then show ?thesis using False by simp
  qed
  then have "pipe_contents (put_byte b q) = pipe_contents q @ [b]"
    unfolding pipe_contents_def c d by (auto simp: intro!: map_cong)
  then show ?thesis using assms c d len by (simp add: pipe_ok_def)
qed

lemma get_byte_ok:
  assumes "pipe_ok q" and "pipe_contents q \<noteq> []"
  shows "pipe_ok (snd (get_byte q)) \<and> fst (get_byte q) = hd (pipe_contents q)
    \<and> pipe_contents (snd (get_byte q)) = tl (pipe_contents q)"
proof -
  have pos: "0 < pipe_count q" using assms(2) by (simp add: pipe_contents_def)
  let ?q = "snd (get_byte q)"
  have "nwrite q - (nread q + 1) = (nwrite q - nread q) - 1" by simp
  moreover have "pipe_count ?q = unat (nwrite q - (nread q + 1))"
    by (simp add: pipe_count_def get_byte_def)
  ultimately have "pipe_count ?q = unat ((nwrite q - nread q) - 1)" by (simp only:)
  also have "\<dots> = pipe_count q - 1"
    using pos unfolding pipe_count_def by (intro unat_minus_one) auto
  finally have c: "pipe_count ?q = pipe_count q - 1" .
  have d: "pdata ?q = pdata q" "nread ?q = nread q + 1" by (simp_all add: get_byte_def)
  have idx: "(unat (nread q + 1) + k) mod PIPESIZE = (unat (nread q) + Suc k) mod PIPESIZE" for k
    using mod_add_left_eq [of "unat (nread q + 1)" PIPESIZE k]
      mod_add_left_eq [of "Suc (unat (nread q))" PIPESIZE k]
    by (simp add: unat_Suc_mod)
  have up: "[0 ..< pipe_count q] = 0 # map Suc [0 ..< pipe_count q - 1]"
    using pos by (simp add: map_Suc_upt upt_conv_Cons)
  have "pipe_contents ?q = tl (pipe_contents q)"
    unfolding pipe_contents_def up c d idx by simp
  moreover have "fst (get_byte q) = hd (pipe_contents q)"
    unfolding pipe_contents_def up by (simp add: get_byte_def unat_mod_PIPESIZE)
  moreover have "pipe_count q - 1 \<le> PIPESIZE" using assms(1) by (auto simp: pipe_ok_def)
  ultimately show ?thesis using assms(1) c d by (simp add: pipe_ok_def)
qed

lemma length_pipe_contents [simp]: "length (pipe_contents q) = pipe_count q"
  by (simp add: pipe_contents_def)

interpretation ring: bounded_fifo put_byte get_byte pipe_full pipe_empty pipe_contents pipe_ok PIPESIZE
proof
  fix q b
  assume ok: "pipe_ok q"
  show "pipe_full q \<longleftrightarrow> length (pipe_contents q) = PIPESIZE"
  proof -
    have "pipe_full q \<longleftrightarrow> nwrite q - nread q = of_nat PIPESIZE"
      by (auto simp: pipe_full_def algebra_simps)
    then show ?thesis by (simp add: PIPESIZE_def pipe_count_def word_unat_eq_iff)
  qed
  show "pipe_empty q \<longleftrightarrow> pipe_contents q = []"
    by (auto simp: pipe_empty_def pipe_contents_def pipe_count_def unat_eq_0)
  show "length (pipe_contents q) \<le> PIPESIZE" using ok by (simp add: pipe_ok_def)
qed (use put_byte_ok get_byte_ok in \<open>simp_all\<close>)

section \<open>The critical sections\<close>

lemma set_pipe_same [simp]: "pipes s p = Some q \<Longrightarrow> s\<lparr>pipes := (pipes s)(p \<mapsto> q)\<rparr> = s"
  by (simp add: fun_upd_idem)

lemma get_pipe_eq: "pipes s p = Some q \<Longrightarrow> get_pipe p s = Ret q s"
  by (simp add: get_pipe_def)

lemma pipes_entered [simp]: "pipes (entered l s) = pipes s" "pipes (left l s) = pipes s"
  by (simp_all add: entered_def left_def)

lemma wakeup_pipes: "wakeup ch s = Ret () t \<Longrightarrow> pipes t = pipes s"
  unfolding wakeup_def by (auto dest!: locked_section_RetD simp: wakeup1_eq modify_def)

text \<open>The bytes that fit are written without sleeping.\<close>

lemma pipewrite_loop_fits:
  assumes "pipes s p = Some q" and "pipe_ok q" and "pipe_count q + length as \<le> PIPESIZE"
  shows "pipewrite_loop p (as @ bs) s
    = pipewrite_loop p bs (s\<lparr>pipes := (pipes s)(p \<mapsto> fold put_byte as q)\<rparr>)"
  using assms
proof (induction as arbitrary: s q)
  case Nil
  then show ?case by (simp del: fun_upd_apply)
next
  case (Cons a as)
  have lt: "pipe_count q < PIPESIZE" using Cons.prems(3) by simp
  then have nf: "\<not> pipe_full q" using ring.full_iff [OF Cons.prems(2)] by simp
  have ok: "pipe_ok (put_byte a q)" "pipe_contents (put_byte a q) = pipe_contents q @ [a]"
    using put_byte_ok [OF Cons.prems(2) lt] by simp_all
  then have "pipe_count (put_byte a q) + length as \<le> PIPESIZE"
    using Cons.prems(3) length_pipe_contents [of "put_byte a q"] by simp
  with Cons.IH [of "s\<lparr>pipes := (pipes s)(p \<mapsto> put_byte a q)\<rparr>" "put_byte a q", OF _ ok(1)]
  have "pipewrite_loop p (as @ bs) (s\<lparr>pipes := (pipes s)(p \<mapsto> put_byte a q)\<rparr>)
    = pipewrite_loop p bs (s\<lparr>pipes := (pipes s)(p \<mapsto> fold put_byte as (put_byte a q))\<rparr>)"
    by (simp add: fun_upd_same del: fun_upd_apply)
  then show ?case
    using nf Cons.prems(1) by (simp add: call_app andthen_def get_pipe_eq set_pipe_def modify_def del: fun_upd_apply)
qed

definition unwritten :: "write_end \<Rightarrow> u8 list" where
  "unwritten e = (case e of Written \<Rightarrow> [] | Broken r \<Rightarrow> r | Blocked r \<Rightarrow> r)"

definition written :: "write_end \<Rightarrow> u8 list \<Rightarrow> u8 list" where
  "written e bs = take (length bs - length (unwritten e)) bs"

lemma curr_killed_state: "curr_killed s = Ret b t \<Longrightarrow> t = s"
  by (auto simp: curr_killed_def get_curr_def curr_proc_def call_eq_Ret reads_def
      split: option.splits if_splits)

lemma pipewrite_loop_stuck:
  assumes "pipewrite_loop p (b # bs) s = Ret e t" and "pipes s p = Some q" and "pipe_full q"
  shows "unwritten e = b # bs \<and> pipes t = pipes s"
  using assms
  by (auto simp: call_eq_Ret get_pipe_eq return_def andthen_def unwritten_def
      dest!: wakeup_pipes curr_killed_state split: if_splits)

text \<open>Every way the loop returns: it has appended a prefix of the bytes, the rest is left.\<close>

lemma pipewrite_loop_effect:
  assumes "pipewrite_loop p bs s = Ret e t" and "pipes s p = Some q" and "pipe_ok q"
  shows "\<exists>q'. pipes t p = Some q' \<and> pipe_ok q' \<and> pipe_contents q' = pipe_contents q @ written e bs
    \<and> bs = written e bs @ unwritten e"
proof -
  let ?room = "PIPESIZE - pipe_count q"
  let ?q = "fold put_byte (take ?room bs) q" and ?s = "s\<lparr>pipes := (pipes s)(p \<mapsto> fold put_byte (take ?room bs) q)\<rparr>"
  have room: "pipe_count q + length (take ?room bs) \<le> PIPESIZE"
    using assms(3) by (auto simp: pipe_ok_def)
  then have q: "pipe_ok ?q" "pipe_contents ?q = pipe_contents q @ take ?room bs"
    using ring.put_all [OF assms(3), of "take ?room bs"] by simp_all
  have run: "pipewrite_loop p (drop ?room bs) ?s = Ret e t"
    using pipewrite_loop_fits [OF assms(2,3) room, of "drop ?room bs"] assms(1) by simp
  show ?thesis
  proof (cases "drop ?room bs")
    case Nil
    with run have "e = Written" "t = ?s" by (simp_all add: return_def)
    with q Nil show ?thesis by (simp add: written_def unwritten_def)
  next
    case (Cons c cs)
    then have "?room < length bs" by (metis drop_eq_Nil list.distinct(1) not_le)
    then have "length (pipe_contents ?q) = PIPESIZE" unfolding q(2) using assms(3) by (simp add: pipe_ok_def)
    then have "pipe_full ?q" using ring.full_iff [OF q(1)] by simp
    with run Cons have e: "unwritten e = drop ?room bs" "pipes t = pipes ?s"
      using pipewrite_loop_stuck [of p c cs ?s e t ?q] by simp_all
    then have "written e bs = take ?room bs"
      using \<open>?room < length bs\<close> by (simp add: written_def)
    with q e show ?thesis by simp
  qed
qed

lemma piperead_copy_effect:
  assumes "piperead_copy p n s = Ret bs t" and "pipes s p = Some q" and "pipe_ok q"
  shows "\<exists>q'. pipes t p = Some q' \<and> pipe_ok q' \<and> bs = take (nat n) (pipe_contents q)
    \<and> pipe_contents q' = drop (nat n) (pipe_contents q)"
proof -
  obtain cs q' where t: "take_up_to pipe_empty get_byte (nat n) q = (cs, q')" by fastforce
  with assms(1,2) have "bs = cs" "pipes t p = Some q'"
    by (auto simp: piperead_copy_def call_app get_pipe_eq andthen_def set_pipe_def modify_def return_def)
  with ring.get_all [OF assms(3) t] show ?thesis by simp
qed

section \<open>Properties\<close>

lemma runs_release_entered:
  assumes "lock_free l s" and "balanced (entered l s) t" and "Q () (left l t)"
  shows "runs (release l) t Q"
proof -
  have "0 < ncli t" "irq_off t" "holding l t"
    using assms(1,2) by (auto simp: balanced_def lock_free_def cli_ok_def) (auto simp: entered_def)
  with assms(3) show ?thesis by (intro runs_release)
qed

lemma runs_wakeup_release:
  assumes lf: "lock_free l s" "lock_free PtableLock s" and l: "l \<noteq> PtableLock"
    and t: "balanced (entered l s) t"
    and Q: "\<And>u. balanced s u \<Longrightarrow> proc_frame t u \<Longrightarrow> procs u = map (wake ch) (procs t) \<Longrightarrow> Q r u"
  shows "runs (andthen (wakeup ch) (andthen (release l) (return r))) t Q"
proof -
  have "lock_free PtableLock (entered l s)"
    using lf(2) l by (auto simp: lock_free_def)
  then have "lock_free PtableLock t" using t by (simp add: balanced_lock_free)
  from runs_wakeup [OF this, of ch]
  have "runs (wakeup ch) t (\<lambda>_ u. runs (andthen (release l) (return r)) u Q)"
  proof (rule runs_mono, elim conjE)
    fix u assume u: "balanced t u" "proc_frame t u" "procs u = map (wake ch) (procs t)"
    have b: "balanced (entered l s) u" using t u(1) by (rule balanced_trans)
    have "Q r (left l u)"
      using bracket_balanced [OF lf(1) b] u(3) proc_frame_trans [OF u(2) proc_frame_left]
      by (intro Q) simp_all
    then show "runs (andthen (release l) (return r)) u Q"
      by (simp add: runs_release_entered [OF lf(1) b])
  qed
  then show ?thesis by simp
qed

lemma proc_frame_pipes: "proc_frame s t \<Longrightarrow> pipes t = pipes s"
  by (cases s; cases t) (auto simp: proc_frame_def)

text \<open>With room for all its bytes, pipewrite returns their number, appends exactly them to the
  contents of the pipe, whatever the two counters have wrapped to, wakes every reader, and leaves
  the locks as they were.\<close>

theorem pipewrite_fits:
  assumes lf: "lock_free (PipeLock p) s" "lock_free PtableLock s"
    and q: "pipes s p = Some q" "pipe_ok q" and room: "pipe_count q + length bs \<le> PIPESIZE"
  shows "runs (pipewrite p n bs) s (\<lambda>r t. r = n \<and> balanced s t
    \<and> procs t = map (wake (PipeNread p)) (procs s)
    \<and> (\<exists>q'. pipes t p = Some q' \<and> pipe_ok q' \<and> pipe_contents q' = pipe_contents q @ bs))"
proof -
  let ?e = "entered (PipeLock p) s"
  let ?t = "?e\<lparr>pipes := (pipes s)(p \<mapsto> fold put_byte bs q)\<rparr>"
  have loop: "pipewrite_loop p bs ?e = Ret Written ?t"
    using pipewrite_loop_fits [of ?e p q bs "[]"] q room by (simp add: return_def)
  have body: "pipewrite_locked p n bs ?e =
      andthen (wakeup (PipeNread p)) (andthen (release (PipeLock p)) (return n)) ?t"
    by (simp add: pipewrite_locked_def call_app loop)
  have "balanced ?e ?t" by (simp add: balanced_def holding_def)
  then have "runs (andthen (wakeup (PipeNread p)) (andthen (release (PipeLock p)) (return n))) ?t
    (\<lambda>r t. r = n \<and> balanced s t \<and> procs t = map (wake (PipeNread p)) (procs s)
    \<and> (\<exists>q'. pipes t p = Some q' \<and> pipe_ok q' \<and> pipe_contents q' = pipe_contents q @ bs))"
    using ring.put_all [OF q(2), of bs] room
    by (intro runs_wakeup_release [OF lf]) (auto dest: proc_frame_pipes)
  then have "runs (pipewrite_locked p n bs) ?e (\<lambda>r t. r = n \<and> balanced s t
    \<and> procs t = map (wake (PipeNread p)) (procs s)
    \<and> (\<exists>q'. pipes t p = Some q' \<and> pipe_ok q' \<and> pipe_contents q' = pipe_contents q @ bs))"
    unfolding runs_def body .
  then show ?thesis
    using lf(1) unfolding pipewrite_def runs_andthen_iff
    by (intro runs_acquire) (simp_all add: lock_free_def)
qed

text \<open>Piperead on a pipe with bytes in it, or whose write end is closed, returns without
  sleeping the first \<open>n\<close> bytes (all, if there are fewer), removes exactly those, and wakes the
  writers; at the end of file that is 0 bytes.\<close>

theorem piperead_returns:
  assumes lf: "lock_free (PipeLock p) s" "lock_free PtableLock s"
    and q: "pipes s p = Some q" "pipe_ok q" and data: "pipe_contents q \<noteq> [] \<or> \<not> writeopen q"
  shows "runs (piperead p n) s (\<lambda>r t. r = (int (min (nat n) (pipe_count q)), take (nat n) (pipe_contents q))
    \<and> balanced s t \<and> procs t = map (wake (PipeNwrite p)) (procs s)
    \<and> (\<exists>q'. pipes t p = Some q' \<and> pipe_ok q' \<and> pipe_contents q' = drop (nat n) (pipe_contents q)))"
proof -
  let ?e = "entered (PipeLock p) s"
  obtain bs q' where t: "take_up_to pipe_empty get_byte (nat n) q = (bs, q')" by fastforce
  from ring.get_all [OF q(2) t]
  have q': "pipe_ok q'" "bs = take (nat n) (pipe_contents q)" "pipe_contents q' = drop (nat n) (pipe_contents q)"
    by simp_all
  let ?t = "?e\<lparr>pipes := (pipes s)(p \<mapsto> q')\<rparr>"
  have copy: "piperead_copy p n ?e = Ret bs ?t"
    using q t by (simp add: piperead_copy_def call_app get_pipe_eq andthen_def set_pipe_def modify_def return_def)
  have "\<not> (pipe_empty q \<and> writeopen q)" using data ring.empty_iff [OF q(2)] by simp
  then have body: "piperead_locked p n ?e = andthen (wakeup (PipeNwrite p))
       (andthen (release (PipeLock p)) (return (int (length bs), bs))) ?t"
    using q by (cases "pipe_empty q") (simp_all add: piperead_locked_def call_app get_pipe_eq copy)
  have "balanced ?e ?t" by (simp add: balanced_def holding_def)
  then have "runs (andthen (wakeup (PipeNwrite p)) (andthen (release (PipeLock p)) (return (int (length bs), bs)))) ?t
    (\<lambda>r t. r = (int (min (nat n) (pipe_count q)), take (nat n) (pipe_contents q))
    \<and> balanced s t \<and> procs t = map (wake (PipeNwrite p)) (procs s)
    \<and> (\<exists>q'. pipes t p = Some q' \<and> pipe_ok q' \<and> pipe_contents q' = drop (nat n) (pipe_contents q)))"
    using q' by (intro runs_wakeup_release [OF lf]) (auto dest: proc_frame_pipes simp: min.commute)
  then have "runs (piperead_locked p n) ?e (\<lambda>r t. r = (int (min (nat n) (pipe_count q)), take (nat n) (pipe_contents q))
    \<and> balanced s t \<and> procs t = map (wake (PipeNwrite p)) (procs s)
    \<and> (\<exists>q'. pipes t p = Some q' \<and> pipe_ok q' \<and> pipe_contents q' = drop (nat n) (pipe_contents q)))"
    unfolding runs_def body .
  then show ?thesis
    using lf(1) unfolding piperead_def runs_andthen_iff
    by (intro runs_acquire) (simp_all add: lock_free_def)
qed

text \<open>
  The life of a pipe: the critical sections of its writers and readers in any order, with the
  bytes written and read so far; between them anything that leaves the pipe's buffer alone.
\<close>

inductive pipe_run :: "u32 \<Rightarrow> 'z pipe_state_scheme \<Rightarrow> u8 list \<Rightarrow> u8 list \<Rightarrow> bool" for p where
  start: "pipes s p = Some q \<Longrightarrow> pipe_ok q \<Longrightarrow> pipe_contents q = [] \<Longrightarrow> pipe_run p s [] []"
| wrote: "pipe_run p s ws rs \<Longrightarrow> pipewrite_loop p bs s = Ret e t \<Longrightarrow>
    pipe_run p t (ws @ written e bs) rs"
| read: "pipe_run p s ws rs \<Longrightarrow> piperead_copy p n s = Ret bs t \<Longrightarrow> pipe_run p t ws (rs @ bs)"
| other: "pipe_run p s ws rs \<Longrightarrow> pipes s p = Some q \<Longrightarrow>
    pipes t p = Some (q\<lparr>readopen := a, writeopen := b\<rparr>) \<Longrightarrow> pipe_run p t ws rs"

text \<open>C20: whatever the interleaving of readers and writers, the bytes read from a pipe followed by
  the bytes in its buffer are the bytes written to it: none is lost, doubled or overtaken, though
  writes are split where the buffer fills and the counters wrap.\<close>

theorem pipe_stream:
  assumes "pipe_run p s ws rs"
  shows "\<exists>q. pipes s p = Some q \<and> pipe_ok q \<and> ws = rs @ pipe_contents q"
  using assms
proof induction
  case (wrote s ws rs bs e t)
  then show ?case using pipewrite_loop_effect by fastforce
next
  case (read s ws rs n bs t)
  then show ?case using piperead_copy_effect by fastforce
next
  case (other s ws rs q t a b)
  then show ?case by (auto simp: pipe_ok_def pipe_contents_def pipe_count_def)
qed auto

definition pipe_start :: pipe_state where
  "pipe_start = ptable.extend ptable_start \<lparr>pipes = [0x80105000 \<mapsto>
     \<lparr>pdata = replicate 512 0, nread = 0xFFFFFFFE, nwrite = 0xFFFFFFFE, readopen = True, writeopen = True\<rparr>]\<rparr>"

lemma pipe_start_facts:
  "lock_free l pipe_start" "\<exists>q. pipes pipe_start 0x80105000 = Some q \<and> pipe_ok q \<and> pipe_contents q = []
     \<and> pipe_count q = 0"
  using ptable_start_facts(2) [of l]
  by (simp_all add: pipe_start_def ptable.defs lock_free_def cli_ok_def holding_def pipe_ok_def
      pipe_contents_def pipe_count_def PIPESIZE_def)

theorem pipewrite_fits_witness:
  "runs (pipewrite 0x80105000 3 [7, 8, 9]) pipe_start (\<lambda>r t. r = 3
    \<and> (\<exists>q'. pipes t 0x80105000 = Some q' \<and> pipe_contents q' = [7, 8, 9]))"
proof -
  obtain q where q: "pipes pipe_start 0x80105000 = Some q" "pipe_ok q" "pipe_contents q = []" "pipe_count q = 0"
    using pipe_start_facts(2) by blast
  from q(4) have "pipe_count q + length [7, 8, 9 :: u8] \<le> PIPESIZE" by (simp add: PIPESIZE_def)
  from pipewrite_fits [OF pipe_start_facts(1) pipe_start_facts(1) q(1,2) this] show ?thesis
    by (rule runs_mono) (use q(3) in auto)
qed

theorem piperead_returns_witness:
  "runs (andthen (pipewrite 0x80105000 3 [7, 8, 9]) (piperead 0x80105000 2)) pipe_start
    (\<lambda>r t. r = (2, [7, 8]))"
proof -
  obtain q where q: "pipes pipe_start 0x80105000 = Some q" "pipe_ok q" "pipe_contents q = []" "pipe_count q = 0"
    using pipe_start_facts(2) by blast
  from q(4) have room: "pipe_count q + length [7, 8, 9 :: u8] \<le> PIPESIZE" by (simp add: PIPESIZE_def)
  have "runs (piperead 0x80105000 2) t (\<lambda>r t. r = (2, [7, 8]))"
    if t: "balanced pipe_start t" "pipes t 0x80105000 = Some q'" "pipe_ok q'" "pipe_contents q' = [7, 8, 9]"
    for t q'
  proof -
    have "pipe_count q' = 3" using length_pipe_contents [of q'] t(4) by simp
    moreover have "lock_free l t" for l using balanced_lock_free [OF t(1)] pipe_start_facts(1) by simp
    ultimately show ?thesis
      using piperead_returns [of "0x80105000" t q' 2] t by (auto elim!: runs_mono)
  qed
  then show ?thesis
    unfolding runs_andthen_iff
    using pipewrite_fits [OF pipe_start_facts(1) pipe_start_facts(1) q(1,2) room, of 3] q(3)
    by (auto elim!: runs_mono)
qed

theorem pipe_stream_witness:
  "\<exists>t u. pipewrite_loop 0x80105000 [7, 8, 9] pipe_start = Ret Written t
    \<and> piperead_copy 0x80105000 1 t = Ret [7] u
    \<and> (\<exists>q. pipes u 0x80105000 = Some q \<and> [7, 8, 9] = [7] @ pipe_contents q)"
proof -
  obtain q where q: "pipes pipe_start 0x80105000 = Some q" "pipe_ok q" "pipe_contents q = []" "pipe_count q = 0"
    using pipe_start_facts(2) by blast
  let ?t = "pipe_start\<lparr>pipes := (pipes pipe_start)(0x80105000 \<mapsto> fold put_byte [7, 8, 9] q)\<rparr>"
  have w: "pipewrite_loop 0x80105000 [7, 8, 9] pipe_start = Ret Written ?t"
    using pipewrite_loop_fits [of pipe_start "0x80105000" q "[7, 8, 9]" "[]"] q
    by (simp add: PIPESIZE_def return_def)
  have ok: "pipe_ok (fold put_byte [7, 8, 9] q)" "pipe_contents (fold put_byte [7, 8, 9] q) = [7, 8, 9]"
    using ring.put_all [OF q(2), of "[7, 8, 9]"] q(3) by (simp_all add: PIPESIZE_def)
  obtain bs u where u: "piperead_copy 0x80105000 1 ?t = Ret bs u"
    by (cases "take_up_to pipe_empty get_byte 1 (fold put_byte [7, 8, 9] q)")
      (auto simp: piperead_copy_def call_app get_pipe_def andthen_def set_pipe_def modify_def return_def)
  have "bs = [7]" using piperead_copy_effect [OF u _ ok(1)] ok(2) by auto
  have "pipe_run 0x80105000 u ([] @ written Written [7, 8, 9]) ([] @ bs)"
    by (rule pipe_run.read [OF pipe_run.wrote [OF pipe_run.start [OF q(1-3)] w] u])
  from pipe_stream [OF this] w u \<open>bs = [7]\<close> show ?thesis
    by (auto simp: written_def unwritten_def)
qed

end
