(* ===== verification/Ide.thy ===== *)
theory Ide
  imports Pipe
begin

text \<open>
  buf.h and memide.c: block buffers and the driver of the memory disk. The disk is the file
  system image the kernel is linked with, a sequence of 512-byte sectors.
\<close>

section \<open>State\<close>

definition BSIZE :: nat where "BSIZE = 512"
definition NBUF :: nat where "NBUF = 10"

text \<open>struct buf without its list pointers; the three flags are the bits of \<open>flags\<close>.\<close>

record buf =
  b_busy :: bool
  b_valid :: bool
  b_dirty :: bool
  b_dev :: u32
  b_sector :: u32
  b_data :: "u8 list"

definition buf0 :: buf where
  "buf0 = \<lparr>b_busy = False, b_valid = False, b_dirty = False, b_dev = 0, b_sector = 0,
     b_data = replicate BSIZE 0\<rparr>"

text \<open>\<open>dtrace\<close> is a history variable: the sector writes so far, which no code reads.\<close>

record ide_state = pipe_state +
  disk :: "u32 \<Rightarrow> u8 list"
  disksize :: u32
  dtrace :: "(u32 \<times> u8 list) list"
  bufs :: "buf list"

section \<open>Operations\<close>

definition ideinit :: "u8 list \<Rightarrow> ('z ide_state_scheme, unit) kern" where
  "ideinit img = modify (\<lambda>s. s\<lparr>disk := (\<lambda>n. take BSIZE (drop (unat n * BSIZE) img)),
     disksize := udiv (of_nat (length img)) 512\<rparr>)"

definition get_buf :: "nat \<Rightarrow> ('z ide_state_scheme, buf) kern" where
  "get_buf i = (\<lambda>s. if i < length (bufs s) then Ret (bufs s ! i) s else Undef ''no such buffer'')"

definition upd_buf :: "nat \<Rightarrow> (buf \<Rightarrow> buf) \<Rightarrow> ('z ide_state_scheme, unit) kern" where
  "upd_buf i f = modify (\<lambda>s. s\<lparr>bufs := (bufs s)[i := f (bufs s ! i)]\<rparr>)"

definition disk_write :: "u32 \<Rightarrow> u8 list \<Rightarrow> ('z ide_state_scheme, unit) kern" where
  "disk_write n d = modify (\<lambda>s. s\<lparr>disk := (disk s)(n := d), dtrace := dtrace s @ [(n, d)]\<rparr>)"

definition iderw :: "nat \<Rightarrow> ('z ide_state_scheme, unit) kern" where
  "iderw i =
     call (get_buf i) (\<lambda>b.
     call (reads disksize) (\<lambda>sz.
     andthen (panic_if (\<not> b_busy b) ''iderw: buf not busy'')
     (andthen (panic_if (b_valid b \<and> \<not> b_dirty b) ''iderw: nothing to do'')
     (andthen (panic_if (b_dev b \<noteq> 1) ''iderw: request not for disk 1'')
     (andthen (panic_if (sz \<le> b_sector b) ''iderw: sector out of range'')
     (andthen
       (if b_dirty b
        then andthen (upd_buf i (\<lambda>b. b\<lparr>b_dirty := False\<rparr>)) (disk_write (b_sector b) (b_data b))
        else call (reads (\<lambda>s. disk s (b_sector b))) (\<lambda>d. upd_buf i (\<lambda>b. b\<lparr>b_data := d\<rparr>)))
     (upd_buf i (\<lambda>b. b\<lparr>b_valid := True\<rparr>))))))))"

section \<open>What a request does\<close>

lemma iderw_read:
  assumes "i < length (bufs s)" and "bufs s ! i = b" and "b_busy b" and "\<not> b_valid b" and "\<not> b_dirty b"
    and "b_dev b = 1" and "b_sector b < disksize s"
  shows "iderw i s = Ret () (s\<lparr>bufs := (bufs s)[i := b\<lparr>b_data := disk s (b_sector b), b_valid := True\<rparr>]\<rparr>)"
proof -
  have "(disksize s \<le> b_sector b) = False" using assms(7) by simp
  with assms(1-6) show ?thesis
    by (simp add: iderw_def get_buf_def upd_buf_def call_app andthen_def reads_def panic_if_def
        return_def modify_def)
qed

lemma iderw_write:
  assumes "i < length (bufs s)" and "bufs s ! i = b" and "b_busy b" and "b_dirty b"
    and "b_dev b = 1" and "b_sector b < disksize s"
  shows "iderw i s = Ret () (s\<lparr>disk := (disk s)(b_sector b := b_data b),
    dtrace := dtrace s @ [(b_sector b, b_data b)],
    bufs := (bufs s)[i := b\<lparr>b_dirty := False, b_valid := True\<rparr>]\<rparr>)"
proof -
  have "(disksize s \<le> b_sector b) = False" using assms(6) by simp
  with assms(1-5) show ?thesis
    by (simp add: iderw_def get_buf_def upd_buf_def disk_write_def call_app andthen_def reads_def
        panic_if_def return_def modify_def)
qed

end
