(* ===== verification/Bio.thy ===== *)
theory Bio
  imports Ide
begin

text \<open>
  bio.c, the buffer cache: the doubly linked list of all buffers in order of use, getting a
  buffer for a sector, reading, writing and releasing it. The list is first treated as the
  pointers it is, then shown to be a sequence of buffers. The relation \<open>cache\<close> abstracts the cache
  to the contents of every sector as the kernel currently has them, the sectors that are dirty
  and those in use; the locale \<open>block_cache\<close> is what the log relies on.
\<close>

section \<open>State\<close>

text \<open>The pointers \<open>prev\<close> and \<open>next\<close> of the buffers and of the list head.\<close>

datatype bufref = Head | Buf nat

record bcache = ide_state +
  bnext :: "bufref \<Rightarrow> bufref"
  bprev :: "bufref \<Rightarrow> bufref"

section \<open>The linked list\<close>

text \<open>Putting a buffer at the front, and taking it out.\<close>

definition link_front :: "nat \<Rightarrow> ('z bcache_scheme, unit) kern" where
  "link_front i =
     andthen (modify (\<lambda>s. s\<lparr>bnext := (bnext s)(Buf i := bnext s Head)\<rparr>))
     (andthen (modify (\<lambda>s. s\<lparr>bprev := (bprev s)(Buf i := Head)\<rparr>))
     (andthen (modify (\<lambda>s. s\<lparr>bprev := (bprev s)(bnext s Head := Buf i)\<rparr>))
     (modify (\<lambda>s. s\<lparr>bnext := (bnext s)(Head := Buf i)\<rparr>))))"

definition unlink :: "nat \<Rightarrow> ('z bcache_scheme, unit) kern" where
  "unlink i =
     andthen (modify (\<lambda>s. s\<lparr>bprev := (bprev s)(bnext s (Buf i) := bprev s (Buf i))\<rparr>))
     (modify (\<lambda>s. s\<lparr>bnext := (bnext s)(bprev s (Buf i) := bnext s (Buf i))\<rparr>))"

text \<open>The loops over the list, from the given reference until the head comes round; a walk of
  \<open>n\<close> steps is enough for a list of \<open>n\<close> buffers.\<close>

fun walk :: "(bufref \<Rightarrow> bufref) \<Rightarrow> nat \<Rightarrow> bufref \<Rightarrow> nat list" where
  "walk nx n Head = []"
| "walk nx 0 (Buf i) = []"
| "walk nx (Suc n) (Buf i) = i # walk nx n (nx (Buf i))"

definition forward :: "'z bcache_scheme \<Rightarrow> nat list" where
  "forward s = walk (bnext s) NBUF (bnext s Head)"

definition backward :: "'z bcache_scheme \<Rightarrow> nat list" where
  "backward s = walk (bprev s) NBUF (bprev s Head)"

section \<open>Operations\<close>

text \<open>The device number \<open>-1\<close> of a buffer never used.\<close>

definition NODEV :: u32 where "NODEV = 0xFFFFFFFF"

fun binit_loop :: "nat list \<Rightarrow> ('z bcache_scheme, unit) kern" where
  "binit_loop [] = return ()"
| "binit_loop (i # is) =
     andthen (upd_buf i (\<lambda>b. b\<lparr>b_dev := NODEV\<rparr>)) (andthen (link_front i) (binit_loop is))"

definition binit :: "('z bcache_scheme, unit) kern" where
  "binit =
     andthen (modify (\<lambda>s. s\<lparr>bufs := replicate NBUF buf0\<rparr>))
     (andthen (initlock BcacheLock)
     (andthen (modify (\<lambda>s. s\<lparr>bprev := (bprev s)(Head := Head), bnext := (bnext s)(Head := Head)\<rparr>))
     (binit_loop [0 ..< NBUF])))"

text \<open>The body of \<open>bget\<close> from the label \<open>loop\<close>, with bcache.lock held; a caller that has to
  wait for a busy buffer comes back to the label.\<close>

definition bget_loop :: "u32 \<Rightarrow> u32 \<Rightarrow> ('z bcache_scheme, nat) kern" where
  "bget_loop dev sector =
     call (reads (\<lambda>s. find (\<lambda>i. b_dev (bufs s ! i) = dev \<and> b_sector (bufs s ! i) = sector) (forward s)))
     (\<lambda>hit. case hit of
       Some i \<Rightarrow>
         call (get_buf i) (\<lambda>b.
         if \<not> b_busy b
         then andthen (upd_buf i (\<lambda>b. b\<lparr>b_busy := True\<rparr>)) (andthen (release BcacheLock) (return i))
         else sleep (BufChan i) BcacheLock)
     | None \<Rightarrow>
         call (reads (\<lambda>s. find (\<lambda>i. \<not> b_busy (bufs s ! i) \<and> \<not> b_dirty (bufs s ! i)) (backward s)))
         (\<lambda>victim. case victim of
           Some i \<Rightarrow>
             andthen (upd_buf i (\<lambda>b. b\<lparr>b_dev := dev, b_sector := sector,
                 b_busy := True, b_valid := False, b_dirty := False\<rparr>))
               (andthen (release BcacheLock) (return i))
         | None \<Rightarrow> panic ''bget: no buffers''))"

definition bget :: "u32 \<Rightarrow> u32 \<Rightarrow> ('z bcache_scheme, nat) kern" where
  "bget dev sector = andthen (acquire BcacheLock) (bget_loop dev sector)"

definition bget_resume :: "bool \<Rightarrow> u32 \<Rightarrow> u32 \<Rightarrow> ('z bcache_scheme, nat) kern" where
  "bget_resume saved dev sector = andthen (sleep_return saved BcacheLock) (bget_loop dev sector)"

definition bread :: "u32 \<Rightarrow> u32 \<Rightarrow> ('z bcache_scheme, nat) kern" where
  "bread dev sector =
     call (bget dev sector) (\<lambda>i.
     call (get_buf i) (\<lambda>b.
     andthen (if \<not> b_valid b then iderw i else return ()) (return i)))"

definition bwrite :: "nat \<Rightarrow> ('z bcache_scheme, unit) kern" where
  "bwrite i =
     call (get_buf i) (\<lambda>b.
     andthen (panic_if (\<not> b_busy b) ''bwrite'')
     (andthen (upd_buf i (\<lambda>b. b\<lparr>b_dirty := True\<rparr>)) (iderw i)))"

definition brelse_body :: "nat \<Rightarrow> ('z bcache_scheme, unit) kern" where
  "brelse_body i =
     andthen (unlink i) (andthen (link_front i)
     (andthen (upd_buf i (\<lambda>b. b\<lparr>b_busy := False\<rparr>)) (wakeup (BufChan i))))"

definition brelse :: "nat \<Rightarrow> ('z bcache_scheme, unit) kern" where
  "brelse i =
     call (get_buf i) (\<lambda>b.
     andthen (panic_if (\<not> b_busy b) ''brelse'')
     (locked_section BcacheLock (brelse_body i)))"

section \<open>The list as a sequence\<close>

text \<open>\<open>seg nx pv a xs b\<close>: from \<open>a\<close> the next pointers pass through the buffers \<open>xs\<close> to \<open>b\<close>, and the
  previous pointers lead back the same way.\<close>

fun seg :: "(bufref \<Rightarrow> bufref) \<Rightarrow> (bufref \<Rightarrow> bufref) \<Rightarrow> bufref \<Rightarrow> nat list \<Rightarrow> bufref \<Rightarrow> bool" where
  "seg nx pv a [] b \<longleftrightarrow> nx a = b \<and> pv b = a"
| "seg nx pv a (x # xs) b \<longleftrightarrow> nx a = Buf x \<and> pv (Buf x) = a \<and> seg nx pv (Buf x) xs b"

definition links :: "'z bcache_scheme \<Rightarrow> nat list \<Rightarrow> bool" where
  "links s xs \<longleftrightarrow> distinct xs \<and> seg (bnext s) (bprev s) Head xs Head"

lemma seg_append: "seg nx pv a (us @ x # vs) b \<longleftrightarrow> seg nx pv a us (Buf x) \<and> seg nx pv (Buf x) vs b"
  by (induction us arbitrary: a) auto

lemma seg_frame:
  "seg nx pv a xs b \<Longrightarrow> (\<And>r. r \<in> insert a (Buf ` set xs) \<Longrightarrow> nx' r = nx r)
   \<Longrightarrow> (\<And>r. r \<in> insert b (Buf ` set xs) \<Longrightarrow> pv' r = pv r) \<Longrightarrow> seg nx' pv' a xs b"
  by (induction xs arbitrary: a) auto

lemma seg_last: "seg nx pv a xs b \<Longrightarrow> pv b = (if xs = [] then a else Buf (last xs))"
  by (induction xs arbitrary: a) auto

text \<open>Leaving out the end of one segment and the start of the next.\<close>

lemma seg_new_end:
  assumes "seg nx pv a xs b" and "distinct xs" and "a \<notin> Buf ` set xs" and "d \<notin> Buf ` set xs"
  shows "seg (nx(pv b := d)) (pv(d := pv b)) a xs d"
  using assms
proof (induction xs arbitrary: a)
  case (Cons x xs)
  then have tail: "seg nx pv (Buf x) xs b" "Buf x \<notin> Buf ` set xs" by auto
  have "pv b \<noteq> a" using seg_last [OF tail(1)] Cons.prems(3) by auto
  with Cons.IH [OF tail(1) _ tail(2)] Cons.prems show ?case by auto
qed simp

lemma seg_new_start:
  assumes "seg nx pv c xs b" and "distinct xs" and "a \<notin> Buf ` set xs" and "b \<notin> Buf ` set xs"
    and "c \<notin> Buf ` set xs"
  shows "seg (nx(a := nx c)) (pv(nx c := a)) a xs b"
proof (cases xs)
  case (Cons x ys)
  with assms have t: "seg nx pv (Buf x) ys b" "nx c = Buf x" by simp_all
  have "seg (nx(a := nx c)) (pv(nx c := a)) (Buf x) ys b"
    using Cons assms t(2) by (intro seg_frame [OF t(1)]) auto
  with Cons t(2) assms show ?thesis by simp
qed (use assms in simp)

text \<open>\<open>walk\<close> finds the sequence, backward as its reverse.\<close>

lemma walk_seg: "seg nx pv a xs Head \<Longrightarrow> length xs \<le> n \<Longrightarrow> walk nx n (nx a) = xs"
proof (induction xs arbitrary: a n)
  case (Cons x xs)
  then show ?case by (cases n) auto
qed simp

lemma seg_rev: "seg nx pv a xs b \<Longrightarrow> seg pv nx b (rev xs) a"
  by (induction xs arbitrary: a) (simp_all add: seg_append)

lemma forward_links: "links s xs \<Longrightarrow> length xs \<le> NBUF \<Longrightarrow> forward s = xs"
  using walk_seg [of "bnext s" "bprev s" Head xs NBUF] by (simp add: forward_def links_def)

lemma backward_links: "links s xs \<Longrightarrow> length xs \<le> NBUF \<Longrightarrow> backward s = rev xs"
  using walk_seg [of "bprev s" "bnext s" Head "rev xs" NBUF] seg_rev [of "bnext s" "bprev s" Head xs Head]
  by (simp add: backward_def links_def)

text \<open>Taking a buffer out of the list, and putting one at its front.\<close>

lemma unlink_links:
  assumes "links s (us @ i # vs)"
  shows "\<exists>pv nx. unlink i s = Ret () (s\<lparr>bprev := pv, bnext := nx\<rparr>)
    \<and> links (s\<lparr>bprev := pv, bnext := nx\<rparr>) (us @ vs)"
proof -
  let ?nx = "bnext s" and ?pv = "bprev s"
  let ?n = "?nx (Buf i)" and ?p = "?pv (Buf i)"
  let ?nx' = "?nx(?p := ?n)" and ?pv' = "?pv(?n := ?p)"
  have d: "distinct (us @ i # vs)" and l: "seg ?nx ?pv Head us (Buf i)" and r: "seg ?nx ?pv (Buf i) vs Head"
    using assms by (simp_all add: links_def seg_append)
  have p: "?p = (if us = [] then Head else Buf (last us))" using seg_last [OF l] .
  have n: "?n = (case vs of [] \<Rightarrow> Head | v # _ \<Rightarrow> Buf v)" using r by (cases vs) simp_all
  have pi: "?p \<noteq> Buf i" using p d by (auto dest: last_in_set)
  have new: "seg ?nx' ?pv' Head (us @ vs) Head"
  proof (cases vs)
    case Nil
    then have "?n = Head" using n by simp
    with Nil seg_new_end [OF l, of Head] d show ?thesis by auto
  next
    case (Cons v ws)
    then have nv: "?n = Buf v" using n by simp
    have "seg ?nx' ?pv' Head us (Buf v)"
      using seg_new_end [OF l, of "Buf v"] d Cons nv by auto
    moreover have "seg ?nx ?pv (Buf v) ws Head" using r Cons by simp
    then have "seg ?nx' ?pv' (Buf v) ws Head"
    proof (rule seg_frame)
      have "Buf v \<noteq> ?p" "\<forall>w \<in> set ws. Buf w \<noteq> ?p"
        using p d Cons by (auto dest: last_in_set split: if_splits)
      then show "?nx' r = ?nx r" if "r \<in> insert (Buf v) (Buf ` set ws)" for r using that by auto
      show "?pv' r = ?pv r" if "r \<in> insert Head (Buf ` set ws)" for r using that nv d Cons by auto
    qed
    ultimately show ?thesis using Cons by (simp add: seg_append)
  qed
  have "unlink i s = Ret () (s\<lparr>bprev := ?pv', bnext := ?nx'\<rparr>)"
    using pi n d by (auto simp: unlink_def kern_defs split: list.splits)
  with new d show ?thesis by (auto simp: links_def)
qed

lemma link_front_links:
  assumes "links s xs" and "i \<notin> set xs"
  shows "\<exists>pv nx. link_front i s = Ret () (s\<lparr>bprev := pv, bnext := nx\<rparr>)
    \<and> links (s\<lparr>bprev := pv, bnext := nx\<rparr>) (i # xs)"
proof -
  let ?nx = "bnext s" and ?pv = "bprev s"
  let ?nx' = "(?nx(Buf i := ?nx Head))(Head := Buf i)"
    and ?pv' = "(?pv(Buf i := Head))(?nx Head := Buf i)"
  have s: "seg ?nx ?pv Head xs Head" "distinct xs" using assms(1) by (simp_all add: links_def)
  have "seg ?nx' ?pv' (Buf i) xs Head"
  proof (cases xs)
    case Nil
    with s show ?thesis by simp
  next
    case (Cons x ys)
    with s have h: "?nx Head = Buf x" and t: "seg ?nx ?pv (Buf x) ys Head" by simp_all
    have "seg ?nx' ?pv' (Buf x) ys Head"
      using Cons h s(2) assms(2) by (intro seg_frame [OF t]) auto
    with Cons h assms(2) s show ?thesis by auto
  qed
  moreover have "?nx Head \<noteq> Buf i" using s assms(2) by (cases xs) auto
  then have "?nx' Head = Buf i" "?pv' (Buf i) = Head" by simp_all
  moreover have "link_front i s = Ret () (s\<lparr>bprev := ?pv', bnext := ?nx'\<rparr>)"
    by (simp add: link_front_def kern_defs)
  ultimately show ?thesis using s assms(2)
    by (intro exI [of _ ?pv'] exI [of _ ?nx']) (simp add: links_def del: fun_upd_apply)
qed

lemma relink:
  assumes "links s xs" and "i \<in> set xs"
  shows "\<exists>pv nx. andthen (unlink i) (link_front i) s = Ret () (s\<lparr>bprev := pv, bnext := nx\<rparr>)
    \<and> links (s\<lparr>bprev := pv, bnext := nx\<rparr>) (i # remove1 i xs)"
proof -
  obtain us vs where xs: "xs = us @ i # vs" and i: "i \<notin> set us"
    using split_list_first [OF assms(2)] by blast
  with assms(1) have iv: "i \<notin> set vs" and l: "links s (us @ i # vs)" by (auto simp: links_def)
  from unlink_links [OF l] obtain pv nx where
    t: "unlink i s = Ret () (s\<lparr>bprev := pv, bnext := nx\<rparr>)" "links (s\<lparr>bprev := pv, bnext := nx\<rparr>) (us @ vs)"
    by blast
  with link_front_links [OF t(2), of i] i iv obtain pv' nx' where
    "link_front i (s\<lparr>bprev := pv, bnext := nx\<rparr>) = Ret () (s\<lparr>bprev := pv', bnext := nx'\<rparr>)"
    "links (s\<lparr>bprev := pv', bnext := nx'\<rparr>) (i # us @ vs)" by auto
  with t(1) i show ?thesis by (auto simp: andthen_def call_app xs remove1_append)
qed

section \<open>Contents of the cache\<close>

text \<open>
  What the cache means to the functions above it: \<open>view_of D bs\<close> gives the current contents of
  every sector, those of its buffer if it has one and of the disk otherwise; \<open>dirty_of\<close> are the
  sectors that cannot be evicted because their buffer is newer than the disk, and \<open>held_of\<close> the
  buffers in use with their sectors.
\<close>

definition for_sector :: "u32 \<Rightarrow> buf \<Rightarrow> bool" where
  "for_sector x b \<longleftrightarrow> b_dev b = 1 \<and> b_sector b = x"

definition view_of :: "(u32 \<Rightarrow> u8 list) \<Rightarrow> buf list \<Rightarrow> u32 \<Rightarrow> u8 list" where
  "view_of D bs x = (case find_index (for_sector x) bs of Some i \<Rightarrow> b_data (bs ! i) | None \<Rightarrow> D x)"

definition dirty_of :: "buf list \<Rightarrow> u32 set" where
  "dirty_of bs = {x. \<exists>i < length bs. b_dirty (bs ! i) \<and> b_sector (bs ! i) = x}"

definition held_of :: "buf list \<Rightarrow> (nat \<times> u32) set" where
  "held_of bs = {(i, x). i < length bs \<and> b_busy (bs ! i) \<and> b_sector (bs ! i) = x}"

text \<open>No sector has two buffers.\<close>

definition uniq :: "buf list \<Rightarrow> bool" where
  "uniq bs \<longleftrightarrow> (\<forall>i < length bs. \<forall>j < length bs.
     b_dev (bs ! i) = 1 \<longrightarrow> b_dev (bs ! j) = 1 \<longrightarrow> b_sector (bs ! i) = b_sector (bs ! j) \<longrightarrow> i = j)"

text \<open>Buffers are valid when they have a sector, and a buffer that is neither in use nor dirty
  agrees with the disk.\<close>

definition buf_ok :: "(u32 \<Rightarrow> u8 list) \<Rightarrow> buf \<Rightarrow> bool" where
  "buf_ok D b \<longleftrightarrow> (b_busy b \<or> b_dirty b \<longrightarrow> b_dev b = 1) \<and> (b_valid b \<longleftrightarrow> b_dev b = 1)
     \<and> (b_dev b = 1 \<longrightarrow> \<not> b_busy b \<longrightarrow> \<not> b_dirty b \<longrightarrow> b_data b = D (b_sector b))"

definition cache_inv :: "'z bcache_scheme \<Rightarrow> bool" where
  "cache_inv s \<longleftrightarrow> length (bufs s) = NBUF \<and> (\<exists>xs. links s xs \<and> set xs = {..< NBUF})
     \<and> uniq (bufs s) \<and> (\<forall>i < NBUF. buf_ok (disk s) (bufs s ! i))"

lemma view_at:
  assumes "uniq bs" and "i < length bs" and "for_sector x (bs ! i)"
  shows "view_of D bs x = b_data (bs ! i)"
proof (cases "find_index (for_sector x) bs")
  case None
  with assms(2,3) show ?thesis by (auto simp: find_index_None)
next
  case (Some j)
  then have "j < length bs" "for_sector x (bs ! j)" by (auto dest: find_index_SomeD)
  with assms have "j = i" by (auto simp: uniq_def for_sector_def)
  with Some show ?thesis by (simp add: view_of_def)
qed

lemma view_none: "(\<forall>i < length bs. \<not> for_sector x (bs ! i)) \<Longrightarrow> view_of D bs x = D x"
  using find_index_SomeD [of "for_sector x" bs] by (auto simp: view_of_def split: option.split)

lemma view_cases:
  assumes "uniq bs"
  obtains (cached) i where "i < length bs" "for_sector x (bs ! i)" "view_of D bs x = b_data (bs ! i)"
    | (uncached) "\<forall>i < length bs. \<not> for_sector x (bs ! i)" "view_of D bs x = D x"
  using view_at [OF assms] view_none by metis

lemma uniq_same: "uniq bs \<Longrightarrow> b_dev b = b_dev (bs ! i) \<Longrightarrow> b_sector b = b_sector (bs ! i) \<Longrightarrow> uniq (bs[i := b])"
  by (auto simp: uniq_def nth_upd)

lemma uniq_new: "uniq bs \<Longrightarrow> \<forall>i < length bs. \<not> for_sector (b_sector b) (bs ! i) \<Longrightarrow> uniq (bs[i := b])"
  by (auto simp: uniq_def nth_upd for_sector_def)

lemma view_same:
  assumes "uniq bs" and "i < length bs" and "for_sector x (bs ! i)" and "for_sector x b"
  shows "view_of D (bs[i := b]) = (view_of D bs)(x := b_data b)"
proof
  fix y
  let ?bs = "bs[i := b]"
  have u: "uniq ?bs" using assms by (intro uniq_same) (simp_all add: for_sector_def)
  show "view_of D ?bs y = ((view_of D bs)(x := b_data b)) y"
  proof (cases "y = x")
    case True
    then show ?thesis using view_at [OF u, of i y D] assms by simp
  next
    case False
    show ?thesis
    using assms(1)
  proof (cases rule: view_cases [where x = y and D = D])
      case (cached j)
      then have "j \<noteq> i" using False assms(3) by (auto simp: for_sector_def)
      then show ?thesis using view_at [OF u, of j y D] cached False by simp
    next
      case uncached
      then have "\<forall>j < length ?bs. \<not> for_sector y (?bs ! j)"
        using False assms(4) by (auto simp: nth_upd for_sector_def)
      then show ?thesis using view_none [of ?bs y D] uncached False by simp
    qed
  qed
qed

lemma view_evict:
  assumes u: "uniq bs" and i: "i < length bs" and x: "\<forall>j < length bs. \<not> for_sector x (bs ! j)"
    and b: "for_sector x b" "b_data b = D x" and old: "b_dev (bs ! i) = 1 \<longrightarrow> b_data (bs ! i) = D (b_sector (bs ! i))"
  shows "view_of D (bs[i := b]) = view_of D bs"
proof
  fix y
  let ?bs = "bs[i := b]"
  have u': "uniq ?bs" using u x b(1) by (intro uniq_new) (auto simp: for_sector_def)
  show "view_of D ?bs y = view_of D bs y"
  proof (cases "y = x")
    case True
    then show ?thesis using view_at [OF u', of i y D] view_none [OF x, of D] i b by simp
  next
    case False
    show ?thesis
    using u
    proof (cases rule: view_cases [where x = y and D = D])
      case (cached j)
      show ?thesis
      proof (cases "j = i")
        case True
        then have "\<forall>k < length ?bs. \<not> for_sector y (?bs ! k)"
          using u cached False b(1) by (auto simp: nth_upd for_sector_def uniq_def)
        then show ?thesis using view_none [of ?bs y D] cached old True by (simp add: for_sector_def)
      next
        case False
        then show ?thesis using view_at [OF u', of j y D] cached by simp
      qed
    next
      case uncached
      then have "\<forall>j < length ?bs. \<not> for_sector y (?bs ! j)"
        using False b(1) by (auto simp: nth_upd for_sector_def)
      then show ?thesis using view_none [of ?bs y D] uncached by simp
    qed
  qed
qed

lemma view_write:
  assumes "uniq bs" and "i < length bs" and "for_sector x (bs ! i)"
  shows "view_of (D(x := d)) bs = view_of D bs"
proof
  fix y show "view_of (D(x := d)) bs y = view_of D bs y"
  using assms(1)
  proof (cases rule: view_cases [where x = y and D = D])
    case (cached j)
    then show ?thesis using view_at [OF assms(1)] by simp
  next
    case uncached
    then have "y \<noteq> x" using assms by auto
    then show ?thesis using uncached view_none [of bs y "D(x := d)"] by simp
  qed
qed

lemma held_upd:
  "i < length bs \<Longrightarrow> held_of (bs[i := b]) =
    (held_of bs - {(i, b_sector (bs ! i))}) \<union> (if b_busy b then {(i, b_sector b)} else {})"
  by (auto simp: held_of_def nth_upd split: if_splits)

lemma dirty_upd:
  assumes "uniq bs" and "i < length bs" and "\<forall>j < length bs. b_dirty (bs ! j) \<longrightarrow> b_dev (bs ! j) = 1"
  shows "dirty_of (bs[i := b]) = (dirty_of bs - (if b_dirty (bs ! i) then {b_sector (bs ! i)} else {}))
    \<union> (if b_dirty b then {b_sector b} else {})"
proof -
  have "b_dirty (bs ! j) \<and> b_dirty (bs ! i) \<and> b_sector (bs ! j) = b_sector (bs ! i) \<Longrightarrow> j = i" if "j < length bs" for j
    using assms that by (auto simp: uniq_def)
  then show ?thesis
    using assms(2) by (fastforce simp: dirty_of_def nth_upd split: if_splits)
qed

text \<open>A buffer that can be recycled exists as long as fewer sectors are dirty or in use than there
  are buffers.\<close>

lemma clean_buffer:
  assumes "uniq bs" and "\<forall>i < length bs. b_busy (bs ! i) \<or> b_dirty (bs ! i) \<longrightarrow> b_dev (bs ! i) = 1"
    and "card (dirty_of bs \<union> snd ` held_of bs) < length bs"
  shows "\<exists>i < length bs. \<not> b_busy (bs ! i) \<and> \<not> b_dirty (bs ! i)"
proof (rule ccontr)
  let ?sec = "\<lambda>i. b_sector (bs ! i)" and ?S = "dirty_of bs \<union> snd ` held_of bs"
  assume "\<not> ?thesis"
  then have all: "b_busy (bs ! i) \<or> b_dirty (bs ! i)" if "i < length bs" for i using that by auto
  have in_S: "?sec ` {..< length bs} \<subseteq> ?S"
    using all by (fastforce simp: dirty_of_def held_of_def image_def)
  have "?S \<subseteq> ?sec ` {..< length bs}"
    by (auto simp: dirty_of_def held_of_def)
  then have "finite ?S" by (rule finite_subset) simp
  with in_S have "card (?sec ` {..< length bs}) \<le> card ?S" by (intro card_mono)
  moreover have "inj_on ?sec {..< length bs}"
    using assms(1,2) all by (auto simp: inj_on_def uniq_def)
  ultimately show False using assms(3) by (simp add: card_image)
qed

section \<open>What the operations do\<close>

text \<open>\<open>cache s w D V X H\<close>: the invariant holds, the locks are free, the disk is \<open>D\<close> and has seen the
  writes \<open>w\<close>, the current contents are \<open>V\<close>, \<open>X\<close> are the dirty sectors and \<open>H\<close> the buffers in use.
  \<open>kept s t\<close>: only the cache, the disk and the states of sleeping processes changed.\<close>

definition cache :: "'z bcache_scheme \<Rightarrow> (u32 \<times> u8 list) list \<Rightarrow> (u32 \<Rightarrow> u8 list) \<Rightarrow> (u32 \<Rightarrow> u8 list) \<Rightarrow>
    u32 set \<Rightarrow> (nat \<times> u32) set \<Rightarrow> bool" where
  "cache s w D V X H \<longleftrightarrow> cache_inv s \<and> lock_free BcacheLock s \<and> lock_free PtableLock s
     \<and> dtrace s = w \<and> disk s = D \<and> view_of D (bufs s) = V \<and> dirty_of (bufs s) = X \<and> held_of (bufs s) = H"

definition kept :: "'z bcache_scheme \<Rightarrow> 'z bcache_scheme \<Rightarrow> bool" where
  "kept s t \<longleftrightarrow> balanced s t \<and> t = s\<lparr>irq_off := irq_off t, ncli := ncli t, intena := intena t,
     locks := locks t, procs := procs t, disk := disk t, dtrace := dtrace t, bufs := bufs t,
     bnext := bnext t, bprev := bprev t\<rparr>"

lemma kept_iff:
  "kept s t \<longleftrightarrow> balanced s t \<and> mem t = mem s \<and> freelist t = freelist s \<and> use_lock t = use_lock s
     \<and> kend t = kend s \<and> kpgdir t = kpgdir s \<and> curr t = curr s \<and> nextpid t = nextpid s
     \<and> initproc t = initproc s \<and> ticks t = ticks s \<and> first_sched t = first_sched s
     \<and> pipes t = pipes s \<and> disksize t = disksize s \<and> bcache.more t = bcache.more s"
  by (cases s; cases t) (auto simp: kept_def)

lemma kept_refl [simp]: "kept s s"
  by (simp add: kept_iff)

lemma kept_trans [trans]: "kept s t \<Longrightarrow> kept t u \<Longrightarrow> kept s u"
  by (auto simp: kept_iff intro: balanced_trans)

lemma kept_bufs [simp]: "kept s (s\<lparr>bufs := bs\<rparr>)"
  by (simp add: kept_iff balanced_def holding_def)

lemma bcache_entered_simps [simp]:
  "bufs (entered l s) = bufs s" "disk (entered l s) = disk s" "disksize (entered l s) = disksize s"
  "dtrace (entered l s) = dtrace s" "bnext (entered l s) = bnext s" "bprev (entered l s) = bprev s"
  "bufs (left l s) = bufs s" "disk (left l s) = disk s" "disksize (left l s) = disksize s"
  "dtrace (left l s) = dtrace s" "bnext (left l s) = bnext s" "bprev (left l s) = bprev s"
  "forward (entered l s) = forward s" "backward (entered l s) = backward s"
  "links (entered l s) = links s" "links (left l s) = links s"
  by (simp_all add: entered_def left_def forward_def backward_def links_def fun_eq_iff)

lemma kept_left:
  "lock_free l s \<Longrightarrow> balanced (entered l s) t \<Longrightarrow>
   t = (entered l s)\<lparr>bufs := bs\<rparr> \<Longrightarrow> kept s (left l t)"
  using bracket_balanced [of l s t] by (auto simp: kept_iff) (auto simp: entered_def left_def)

lemma order_facts:
  assumes "cache_inv s"
  shows "set (forward s) = {..< NBUF}" "set (backward s) = {..< NBUF}"
proof -
  from assms obtain xs where xs: "links s xs" "set xs = {..< NBUF}" by (auto simp: cache_inv_def)
  then have "length xs = NBUF" using distinct_card [of xs] by (simp add: links_def)
  with xs forward_links [OF xs(1)] backward_links [OF xs(1)]
  show "set (forward s) = {..< NBUF}" "set (backward s) = {..< NBUF}" by simp_all
qed

text \<open>The parts of \<open>cache\<close>, buffer by buffer.\<close>

lemma cacheD:
  assumes "cache s w D V X H"
  shows "length (bufs s) = NBUF" "uniq (bufs s)" "\<And>i. i < NBUF \<Longrightarrow> buf_ok D (bufs s ! i)"
    "disk s = D" "dtrace s = w" "V = view_of D (bufs s)" "X = dirty_of (bufs s)" "H = held_of (bufs s)"
    "lock_free BcacheLock s" "lock_free PtableLock s" "\<exists>xs. links s xs \<and> set xs = {..< NBUF}"
  using assms by (auto simp: cache_def cache_inv_def)

lemma cacheI:
  assumes "cache s w D V X H" and "kept s t" and "links t xs" "set xs = {..< NBUF}"
    and "length (bufs t) = NBUF" "uniq (bufs t)" "\<And>i. i < NBUF \<Longrightarrow> buf_ok D' (bufs t ! i)"
    and "disk t = D'" "dtrace t = w'" "view_of D' (bufs t) = V'" "dirty_of (bufs t) = X'" "held_of (bufs t) = H'"
  shows "cache t w' D' V' X' H'"
  using assms cacheD(9,10) [OF assms(1)]
  by (auto simp: cache_def cache_inv_def kept_iff balanced_lock_free)

lemma cache_busy_dirty: "cache s w D V X H \<Longrightarrow> i < NBUF \<Longrightarrow>
    b_busy (bufs s ! i) \<or> b_dirty (bufs s ! i) \<Longrightarrow> b_dev (bufs s ! i) = 1"
  using cacheD(3) by (fastforce simp: buf_ok_def)

lemma held_nth: "cache s w D V X H \<Longrightarrow> (i, x) \<in> H \<Longrightarrow>
    i < NBUF \<and> b_busy (bufs s ! i) \<and> for_sector x (bufs s ! i) \<and> b_valid (bufs s ! i)"
  using cacheD(1,3,8) [of s w D V X H] by (fastforce simp: held_of_def buf_ok_def for_sector_def)

lemma held_view: "cache s w D V X H \<Longrightarrow> (i, x) \<in> H \<Longrightarrow> b_data (bufs s ! i) = V x"
  using held_nth view_at cacheD(1,2,6) by metis

lemma clean_view:
  assumes c: "cache s w D V X H" and "x \<notin> X" and "x \<notin> snd ` H"
  shows "V x = D x"
proof -
  have "uniq (bufs s)" using cacheD(2) [OF c] .
  then show ?thesis
  proof (cases rule: view_cases [where x = x and D = D])
    case (cached i)
    then have i: "i < NBUF" "b_sector (bufs s ! i) = x" using cacheD(1) [OF c] by (simp_all add: for_sector_def)
    have "\<not> b_dirty (bufs s ! i)"
      using cached(1) i(2) assms(2) unfolding cacheD(7) [OF c] dirty_of_def by blast
    moreover have "b_busy (bufs s ! i) \<Longrightarrow> (i, x) \<in> H"
      using cached(1) i(2) unfolding cacheD(8) [OF c] held_of_def by simp
    then have "\<not> b_busy (bufs s ! i)" using assms(3) by force
    ultimately have "b_data (bufs s ! i) = D x" using cached(2) cacheD(3) [OF c i(1)] by (simp add: buf_ok_def for_sector_def)
    then show ?thesis using cached cacheD(6) [OF c] by simp
  qed (use cacheD(6) [OF c] in simp)
qed

lemma release_entered:
  "lock_free l s \<Longrightarrow> release l ((entered l s)\<lparr>bufs := bs\<rparr>) = Ret () (left l ((entered l s)\<lparr>bufs := bs\<rparr>))"
  by (auto simp: release_eq lock_free_def cli_ok_def holding_def entered_def)

text \<open>Finding or recycling a buffer.\<close>

definition grab :: "u32 \<Rightarrow> buf \<Rightarrow> buf" where
  "grab x b = (if for_sector x b then b\<lparr>b_busy := True\<rparr>
     else b\<lparr>b_dev := 1, b_sector := x, b_busy := True, b_valid := False, b_dirty := False\<rparr>)"

lemma bget_eq:
  assumes c: "cache s w D V X H" and idle: "x \<notin> snd ` H" and room: "x \<in> X \<or> card (X \<union> snd ` H) < NBUF"
  obtains i where "i < NBUF" and "\<not> b_busy (bufs s ! i)"
    and "for_sector x (bufs s ! i) \<or> \<not> b_dirty (bufs s ! i) \<and> (\<forall>j < NBUF. \<not> for_sector x (bufs s ! j))"
    and "bget 1 x s = Ret i (left BcacheLock ((entered BcacheLock s)\<lparr>bufs := (bufs s)[i := grab x (bufs s ! i)]\<rparr>))"
proof -
  let ?e = "entered BcacheLock s"
  let ?p = "\<lambda>i. b_dev (bufs s ! i) = 1 \<and> b_sector (bufs s ! i) = x"
  have inv: "cache_inv s" using c by (simp add: cache_def)
  have lf: "lock_free BcacheLock s" by (rule cacheD(9) [OF c])
  have acq: "acquire BcacheLock s = Ret () ?e" using lf by (simp add: acquire_eq lock_free_def)
  have p: "?p i = for_sector x (bufs s ! i)" for i by (simp add: for_sector_def)
  have len: "length (bufs s) = NBUF" by (rule cacheD(1) [OF c])
  show ?thesis
  proof (cases "find ?p (forward s)")
    case (Some i)
    then have i: "i < NBUF" "for_sector x (bufs s ! i)"
      using order_facts(1) [OF inv] by (auto simp: find_Some_iff p [symmetric] set_conv_nth)
    have nb: "\<not> b_busy (bufs s ! i)"
      using idle i cacheD(1,8) [OF c] by (force simp: held_of_def for_sector_def)
    have "bget 1 x s = Ret i (left BcacheLock (?e\<lparr>bufs := (bufs s)[i := (bufs s ! i)\<lparr>b_busy := True\<rparr>]\<rparr>))"
      using Some nb i(1) len
      by (simp add: bget_def bget_loop_def andthen_def call_app acq reads_def get_buf_def upd_buf_def modify_def
          release_entered [OF lf] return_def)
    with i nb show ?thesis by (intro that [of i]) (simp_all add: grab_def)
  next
    case None
    then have no: "\<forall>j < NBUF. \<not> for_sector x (bufs s ! j)"
      using order_facts(1) [OF inv] by (auto simp: find_None_iff p [symmetric] )
    then have "x \<notin> X" using cacheD(1,7) [OF c] cache_busy_dirty [OF c] by (auto simp: dirty_of_def for_sector_def)
    with room have "card (dirty_of (bufs s) \<union> snd ` held_of (bufs s)) < length (bufs s)"
      using cacheD(1,7,8) [OF c] by simp
    from clean_buffer [OF cacheD(2) [OF c] _ this] cache_busy_dirty [OF c] len
    obtain k where "k < NBUF" "\<not> b_busy (bufs s ! k) \<and> \<not> b_dirty (bufs s ! k)" by auto
    then have "find (\<lambda>i. \<not> b_busy (bufs s ! i) \<and> \<not> b_dirty (bufs s ! i)) (backward s) \<noteq> None"
      using order_facts(2) [OF inv] by (auto simp: find_None_iff)
    then obtain i where f: "find (\<lambda>i. \<not> b_busy (bufs s ! i) \<and> \<not> b_dirty (bufs s ! i)) (backward s) = Some i" by auto
    then have "i \<in> set (backward s)" and i: "\<not> b_busy (bufs s ! i) \<and> \<not> b_dirty (bufs s ! i)"
      by (auto simp: find_Some_iff)
    then have "i < NBUF" using order_facts(2) [OF inv] by auto
    moreover have "bget 1 x s = Ret i (left BcacheLock (?e\<lparr>bufs := (bufs s)[i := grab x (bufs s ! i)]\<rparr>))"
      using None f \<open>i < NBUF\<close> no
      by (simp add: bget_def bget_loop_def andthen_def call_app acq reads_def upd_buf_def modify_def
          release_entered [OF lf] return_def grab_def)
    ultimately show ?thesis using i no by (intro that [of i]) auto
  qed
qed

lemma buf_ok_upd: "buf_ok D b \<Longrightarrow> buf_ok D (bs ! j) \<Longrightarrow> j < length bs \<Longrightarrow> buf_ok D (bs[i := b] ! j)"
  by (simp add: nth_upd)

lemma cache_bread:
  assumes c: "cache s w D V X H" and x: "x < disksize s" and idle: "x \<notin> snd ` H"
    and room: "x \<in> X \<or> card (X \<union> snd ` H) < NBUF"
  shows "\<exists>i t. bread 1 x s = Ret i t \<and> kept s t \<and> cache t w D V X (insert (i, x) H)"
proof -
  obtain i where i: "i < NBUF" "\<not> b_busy (bufs s ! i)"
    and hit: "for_sector x (bufs s ! i) \<or> \<not> b_dirty (bufs s ! i) \<and> (\<forall>j < NBUF. \<not> for_sector x (bufs s ! j))"
    and g: "bget 1 x s = Ret i (left BcacheLock ((entered BcacheLock s)\<lparr>bufs := (bufs s)[i := grab x (bufs s ! i)]\<rparr>))"
    using bget_eq [OF c idle room] .
  let ?l = "left BcacheLock ((entered BcacheLock s)\<lparr>bufs := (bufs s)[i := grab x (bufs s ! i)]\<rparr>)"
  let ?b = "if for_sector x (bufs s ! i) then (bufs s ! i)\<lparr>b_busy := True\<rparr>
    else (grab x (bufs s ! i))\<lparr>b_data := D x, b_valid := True\<rparr>"
  let ?t = "?l\<lparr>bufs := (bufs s)[i := ?b]\<rparr>"
  have len: "length (bufs s) = NBUF" and u: "uniq (bufs s)" and ok: "buf_ok D (bufs s ! i)"
    using cacheD(1,2) [OF c] cacheD(3) [OF c i(1)] by simp_all
  have kl: "kept s ?l" by (rule kept_left [OF cacheD(9) [OF c]]) (simp_all add: balanced_def holding_def)
  have l: "bufs ?l = (bufs s)[i := grab x (bufs s ! i)]" "disk ?l = D" "disksize ?l = disksize s"
    using cacheD(4) [OF c] by (simp_all add: left_def entered_def)
  have b: "b_busy ?b" "for_sector x ?b" "b_valid ?b" "b_dirty ?b = b_dirty (bufs s ! i)" "buf_ok D ?b"
    using hit ok i by (auto simp: grab_def for_sector_def buf_ok_def)
  have r: "bread 1 x s = Ret i ?t"
  proof (cases "for_sector x (bufs s ! i)")
    case True
    with ok show ?thesis
      using i(1) len by (simp add: bread_def call_app g get_buf_def l andthen_def return_def grab_def buf_ok_def for_sector_def)
  next
    case False
    have "iderw i ?l = Ret () (?l\<lparr>bufs := (bufs ?l)[i := (grab x (bufs s ! i))
        \<lparr>b_data := disk ?l (b_sector (grab x (bufs s ! i))), b_valid := True\<rparr>]\<rparr>)"
      using False i(1) len x l by (intro iderw_read) (simp_all add: grab_def)
    moreover have "b_sector (grab x (bufs s ! i)) = x" using False by (simp add: grab_def)
    moreover have "disk s = D" by (rule cacheD(4) [OF c])
    moreover have "\<not> b_valid (grab x (bufs s ! i))" using False by (simp add: grab_def)
    ultimately show ?thesis
      using False i(1) len by (simp add: bread_def call_app g get_buf_def l andthen_def return_def)
  qed
  have "kept s ?t" using kl by (rule kept_trans) simp
  moreover obtain xs where xs: "links s xs" "set xs = {..< NBUF}" using cacheD(11) [OF c] by blast
  have "cache ?t w D V X (insert (i, x) H)"
  proof (rule cacheI [OF c \<open>kept s ?t\<close>, of xs])
    have "b_dev (bufs s ! j) = 1 \<Longrightarrow> b_sector (bufs s ! j) = x \<Longrightarrow> j < NBUF \<Longrightarrow> for_sector x (bufs s ! i) \<Longrightarrow> j = i" for j
      using u i(1) len by (auto simp: uniq_def for_sector_def)
    then show "uniq (bufs ?t)"
      using uniq_same [OF u, of ?b i] uniq_new [OF u, of ?b i] hit b(2) len by (auto simp: for_sector_def)
    show "view_of D (bufs ?t) = V"
    proof (cases "for_sector x (bufs s ! i)")
      case True
      then show ?thesis
        using view_same [OF u, of i x ?b D] view_at [OF u, of i x D] i(1) len cacheD(6) [OF c] b(2)
        by (simp add: fun_upd_idem)
    next
      case False
      then show ?thesis
        using view_evict [OF u, of i x ?b D] i hit len cacheD(6) [OF c] b(2) ok
        by (simp add: buf_ok_def grab_def)
    qed
    show "dirty_of (bufs ?t) = X"
      using dirty_upd [OF u, of i ?b] i(1) len cache_busy_dirty [OF c] cacheD(7) [OF c] b(4) hit
      by (auto simp: for_sector_def dirty_of_def grab_def)
    have "(i, b_sector (bufs s ! i)) \<notin> held_of (bufs s)" using i(2) by (simp add: held_of_def)
    then show "held_of (bufs ?t) = insert (i, x) H"
      using held_upd [of i "bufs s" ?b] i(1) len cacheD(8) [OF c] b(1,2) by (auto simp: for_sector_def)
    show "buf_ok D (bufs ?t ! j)" if "j < NBUF" for j
      using buf_ok_upd [OF b(5) cacheD(3) [OF c that], of i] len that by simp
  qed (use xs len cacheD(4,5) [OF c] in \<open>simp_all add: links_def left_def entered_def\<close>)
  ultimately show ?thesis using r by blast
qed

text \<open>Changing a buffer in use.\<close>

lemma held_dirty: "cache s w D V X H \<Longrightarrow> (i, x) \<in> H \<Longrightarrow> b_dirty (bufs s ! i) \<longleftrightarrow> x \<in> X"
proof
  assume c: "cache s w D V X H" and h: "(i, x) \<in> H"
  note n = held_nth [OF c h] and len = cacheD(1) [OF c]
  show "b_dirty (bufs s ! i) \<Longrightarrow> x \<in> X"
    using n len unfolding cacheD(7) [OF c] dirty_of_def for_sector_def by auto
  assume "x \<in> X"
  then obtain j where j: "j < NBUF" "b_dirty (bufs s ! j)" "b_sector (bufs s ! j) = x"
    unfolding cacheD(7) [OF c] dirty_of_def using len by auto
  then have "j = i" using n len cacheD(2) [OF c] cache_busy_dirty [OF c j(1)]
    by (auto simp: uniq_def for_sector_def)
  with j show "b_dirty (bufs s ! i)" by simp
qed

lemma cache_upd_held:
  assumes c: "cache s w D V X H" and h: "(i, x) \<in> H"
    and b: "for_sector x b" "buf_ok D b" and bs: "bs = (bufs s)[i := b]"
  shows "cache (s\<lparr>bufs := bs\<rparr>) w D (V(x := b_data b))
    (if b_dirty b then insert x X else X - {x}) (if b_busy b then H else H - {(i, x)})"
proof -
  note n = held_nth [OF c h] and len = cacheD(1) [OF c] and u = cacheD(2) [OF c]
  obtain xs where xs: "links s xs" "set xs = {..< NBUF}" using cacheD(11) [OF c] by blast
  have dx: "(if b_dirty (bufs s ! i) then {b_sector (bufs s ! i)} else {}) = X \<inter> {x}"
    using n held_dirty [OF c h] by (auto simp: for_sector_def)
  show ?thesis
    unfolding bs
  proof (rule cacheI [OF c _ _ xs(2)])
    show "uniq (bufs (s\<lparr>bufs := (bufs s)[i := b]\<rparr>))"
      using n b(1) u by (simp add: uniq_same for_sector_def)
    show "view_of D (bufs (s\<lparr>bufs := (bufs s)[i := b]\<rparr>)) = V(x := b_data b)"
      using view_same [OF u, of i x b D] n len b(1) cacheD(6) [OF c] by simp
    show "dirty_of (bufs (s\<lparr>bufs := (bufs s)[i := b]\<rparr>)) = (if b_dirty b then insert x X else X - {x})"
      using dirty_upd [OF u, of i b] n len cache_busy_dirty [OF c] cacheD(7) [OF c] b(1) dx
      by (auto simp: for_sector_def)
    show "held_of (bufs (s\<lparr>bufs := (bufs s)[i := b]\<rparr>)) = (if b_busy b then H else H - {(i, x)})"
      using held_upd [of i "bufs s" b] n len cacheD(8) [OF c] b(1) h by (auto simp: for_sector_def)
    show "buf_ok D (bufs (s\<lparr>bufs := (bufs s)[i := b]\<rparr>) ! j)" if "j < NBUF" for j
      using cacheD(3) [OF c that] b(2) len that by (simp add: nth_upd)
  qed (use xs len cacheD(4,5) [OF c] in \<open>simp_all add: links_def\<close>)
qed

lemma cache_put:
  assumes c: "cache s w D V X H" and h: "(i, x) \<in> H"
  shows "\<exists>t. upd_buf i (\<lambda>b. b\<lparr>b_data := d\<rparr>) s = Ret () t \<and> kept s t \<and> cache t w D (V(x := d)) X H"
proof -
  note n = held_nth [OF c h]
  have "buf_ok D (bufs s ! i)" using n cacheD(3) [OF c] by blast
  then have "buf_ok D ((bufs s ! i)\<lparr>b_data := d\<rparr>)" using n by (simp add: buf_ok_def)
  from cache_upd_held [OF c h _ this refl] n held_dirty [OF c h] h show ?thesis
    by (auto simp: upd_buf_def modify_def for_sector_def insert_absorb split: if_splits)
qed

lemma cache_mark:
  assumes c: "cache s w D V X H" and h: "(i, x) \<in> H"
  shows "\<exists>t. upd_buf i (\<lambda>b. b\<lparr>b_dirty := True\<rparr>) s = Ret () t \<and> kept s t \<and> cache t w D V (insert x X) H"
proof -
  note n = held_nth [OF c h]
  have "buf_ok D (bufs s ! i)" using n cacheD(3) [OF c] by blast
  then have "buf_ok D ((bufs s ! i)\<lparr>b_dirty := True\<rparr>)" using n by (simp add: buf_ok_def)
  from cache_upd_held [OF c h _ this refl] n held_view [OF c h] show ?thesis
    by (auto simp: upd_buf_def modify_def for_sector_def fun_upd_idem)
qed

lemma cache_get:
  assumes c: "cache s w D V X H" and h: "(i, x) \<in> H"
  shows "get_buf i s = Ret (bufs s ! i) s" "b_data (bufs s ! i) = V x" "b_sector (bufs s ! i) = x"
    "b_dev (bufs s ! i) = 1"
  using held_nth [OF c h] held_view [OF c h] cacheD(1) [OF c] by (auto simp: get_buf_def for_sector_def)

lemma cache_bwrite:
  assumes c: "cache s w D V X H" and h: "(i, x) \<in> H" and x: "x < disksize s"
  shows "\<exists>t. bwrite i s = Ret () t \<and> kept s t \<and> cache t (w @ [(x, V x)]) (D(x := V x)) V (X - {x}) H"
proof -
  note n = held_nth [OF c h] and len = cacheD(1) [OF c] and u = cacheD(2) [OF c]
  obtain xs where xs: "links s xs" "set xs = {..< NBUF}" using cacheD(11) [OF c] by blast
  let ?b = "(bufs s ! i)\<lparr>b_dirty := False, b_valid := True\<rparr>"
  let ?t = "s\<lparr>disk := D(x := V x), dtrace := w @ [(x, V x)], bufs := (bufs s)[i := ?b]\<rparr>"
  let ?b1 = "(bufs s ! i)\<lparr>b_dirty := True\<rparr>"
  let ?s1 = "s\<lparr>bufs := (bufs s)[i := ?b1]\<rparr>"
  note g = cache_get [OF c h]
  have "iderw i ?s1 = Ret () (?s1\<lparr>disk := (disk ?s1)(b_sector ?b1 := b_data ?b1),
      dtrace := dtrace ?s1 @ [(b_sector ?b1, b_data ?b1)],
      bufs := (bufs ?s1)[i := ?b1\<lparr>b_dirty := False, b_valid := True\<rparr>]\<rparr>)"
    using n len x g(3,4) by (intro iderw_write) simp_all
  also have "\<dots> = Ret () ?t" using n g(2,3) cacheD(4,5) [OF c] by simp
  finally have "iderw i ?s1 = Ret () ?t" .
  then have r: "bwrite i s = Ret () ?t"
    using n g(1) by (simp add: bwrite_def call_app andthen_def panic_if_def return_def upd_buf_def modify_def)
  have k: "kept s ?t" by (simp add: kept_iff balanced_def holding_def)
  have bx: "for_sector x ?b" "b_data ?b = V x" using n cache_get(2) [OF c h] by (simp_all add: for_sector_def)
  have dx: "(if b_dirty (bufs s ! i) then {b_sector (bufs s ! i)} else {}) = X \<inter> {x}"
    using n held_dirty [OF c h] by (auto simp: for_sector_def)
  have u': "uniq ((bufs s)[i := ?b])" using u by (simp add: uniq_same)
  have "cache ?t (w @ [(x, V x)]) (D(x := V x)) V (X - {x}) H"
  proof (rule cacheI [OF c k _ xs(2)])
    show "uniq (bufs ?t)" using u' by simp
    show "view_of (D(x := V x)) (bufs ?t) = V"
      using view_write [OF u', of i x D "V x"] view_same [OF u, of i x ?b D] bx n len cacheD(6) [OF c]
      by (simp add: fun_upd_idem)
    show "dirty_of (bufs ?t) = X - {x}"
      using dirty_upd [OF u, of i ?b] n len cache_busy_dirty [OF c] cacheD(7) [OF c] dx by auto
    show "held_of (bufs ?t) = H"
      using held_upd [of i "bufs s" ?b] n len cacheD(8) [OF c] h by (auto simp: for_sector_def)
    show "buf_ok (D(x := V x)) (bufs ?t ! j)" if j: "j < NBUF" for j
    proof (cases "j = i")
      case True
      then show ?thesis using n len by (simp add: buf_ok_def for_sector_def)
    next
      case False
      have "b_dev (bufs s ! j) = 1 \<Longrightarrow> b_sector (bufs s ! j) \<noteq> x"
        using u n False j len by (auto simp: uniq_def for_sector_def)
      then show ?thesis using cacheD(3) [OF c j] False len by (auto simp: buf_ok_def)
    qed
  qed (use xs len in \<open>simp_all add: links_def\<close>)
  with r k show ?thesis by blast
qed

lemma kept_upds [simp]:
  "kept s (s\<lparr>bprev := pv, bnext := nx\<rparr>)" "kept s (s\<lparr>procs := ps\<rparr>)"
  by (simp_all add: kept_iff balanced_def holding_def)

lemma proc_frame_bcache:
  assumes "proc_frame s t"
  shows "bufs t = bufs s" "disk t = disk s" "dtrace t = dtrace s" "bnext t = bnext s" "bprev t = bprev s"
    "disksize t = disksize s" "pipes t = pipes s" "bcache.more t = bcache.more s"
  using assms by (cases s; cases t; simp add: proc_frame_def)+

lemma links_cong: "bnext t = bnext s \<Longrightarrow> bprev t = bprev s \<Longrightarrow> links t = links s"
  by (rule ext) (simp add: links_def)

lemma all_links: "links s xs \<Longrightarrow> set xs = {..< NBUF} \<Longrightarrow> xs = forward s"
  using forward_links [of s xs] distinct_card [of xs] by (simp add: links_def)

lemma cache_brelse:
  assumes c: "cache s w D V X H" and h: "(i, x) \<in> H" and agree: "V x = D x \<or> x \<in> X"
  shows "\<exists>t. brelse i s = Ret () t \<and> kept s t \<and> cache t w D V X (H - {(i, x)})
    \<and> links t (i # remove1 i (forward s)) \<and> procs t = map (wake (BufChan i)) (procs s)"
proof -
  note n = held_nth [OF c h] and len = cacheD(1) [OF c]
  let ?e = "entered BcacheLock s" and ?b = "(bufs s ! i)\<lparr>b_busy := False\<rparr>"
  obtain xs where xs: "links s xs" "set xs = {..< NBUF}" using cacheD(11) [OF c] by blast
  then have fw: "forward s = xs" by (rule all_links [symmetric])
  have "links ?e xs" "i \<in> set xs" using xs n by simp_all
  from relink [OF this] obtain pv nx where
    r: "andthen (unlink i) (link_front i) ?e = Ret () (?e\<lparr>bprev := pv, bnext := nx\<rparr>)"
      "links (?e\<lparr>bprev := pv, bnext := nx\<rparr>) (i # remove1 i xs)" by blast
  let ?e3 = "?e\<lparr>bprev := pv, bnext := nx, bufs := (bufs s)[i := ?b]\<rparr>"
  have lf: "lock_free PtableLock ?e3" "lock_free BcacheLock s"
    using cacheD(9,10) [OF c] by (simp_all add: lock_free_def holding_def cli_ok_def) (auto simp: entered_def)
  obtain u where u: "wakeup (BufChan i) ?e3 = Ret () u" "balanced ?e3 u" "proc_frame ?e3 u"
      "procs u = map (wake (BufChan i)) (procs ?e3)"
    using runs_wakeup [OF lf(1), of "BufChan i"] by (auto simp: runs_iff)
  note pf = proc_frame_bcache [OF u(3)]
  have body: "brelse_body i ?e = Ret () u"
    using r(1) u(1) unfolding brelse_body_def andthen_def
    by (simp add: call_assoc [symmetric] call_app [of _ "\<lambda>_. call _ _"] upd_buf_def modify_def)
  have be: "balanced ?e u" using u(2) by (simp add: balanced_def holding_def)
  let ?t = "left BcacheLock u"
  have run: "brelse i s = Ret () ?t"
    using n len locked_section_eq [of BcacheLock s "brelse_body i" "()" u] body be lf(2)
    by (simp add: brelse_def call_app get_buf_def andthen_def panic_if_def return_def lock_free_def)
  have k: "kept s ?t"
    using bracket_balanced [OF lf(2) be] u(3) pf
    by (simp add: kept_iff proc_frame_iff) (simp add: entered_def left_def)
  have t: "bufs ?t = (bufs s)[i := ?b]" "disk ?t = D" "dtrace ?t = w" "links ?t (i # remove1 i xs)"
    "procs ?t = map (wake (BufChan i)) (procs s)"
    using pf r(2) cacheD(4,5) [OF c] u(4) links_cong [of u "?e\<lparr>bprev := pv, bnext := nx\<rparr>"] by simp_all
  have "buf_ok D ?b" using cacheD(3) [OF c, of i] n agree held_view [OF c h] held_dirty [OF c h]
    by (auto simp: buf_ok_def for_sector_def)
  from cache_upd_held [OF c h _ this refl] n held_dirty [OF c h] held_view [OF c h]
  have c': "cache (s\<lparr>bufs := (bufs s)[i := ?b]\<rparr>) w D V X (H - {(i, x)})"
    by (auto simp: for_sector_def fun_upd_idem insert_absorb split: if_splits)
  have "cache ?t w D V X (H - {(i, x)})"
  proof (rule cacheI [OF c k t(4)])
    show "set (i # remove1 i xs) = {..< NBUF}" using xs n set_remove1_eq [of xs i] by (auto simp: links_def)
  qed (use t cacheD [OF c'] len in simp_all)
  with run k t fw show ?thesis by auto
qed

text \<open>The cache as \<open>binit\<close> leaves it.\<close>

lemma binit_loop_eq:
  assumes "links s xs" and "distinct is" and "set is \<inter> set xs = {}"
  shows "\<exists>pv nx. binit_loop is s = Ret () (s\<lparr>bprev := pv, bnext := nx,
      bufs := fold (\<lambda>i bs. bs[i := (bs ! i)\<lparr>b_dev := NODEV\<rparr>]) is (bufs s)\<rparr>)
    \<and> links (s\<lparr>bprev := pv, bnext := nx\<rparr>) (rev is @ xs)"
  using assms
proof (induction "is" arbitrary: s xs)
  case Nil
  then show ?case by - (rule exI [of _ "bprev s"], rule exI [of _ "bnext s"], simp)
next
  case (Cons i "is")
  let ?s = "s\<lparr>bufs := (bufs s)[i := (bufs s ! i)\<lparr>b_dev := NODEV\<rparr>]\<rparr>"
  have "links ?s xs" "i \<notin> set xs" using Cons.prems by (simp_all add: links_def)
  from link_front_links [OF this] obtain pv nx where
    l: "link_front i ?s = Ret () (?s\<lparr>bprev := pv, bnext := nx\<rparr>)" "links (?s\<lparr>bprev := pv, bnext := nx\<rparr>) (i # xs)"
    by blast
  from Cons.IH [OF l(2)] Cons.prems obtain pv' nx' where
    r: "binit_loop is (?s\<lparr>bprev := pv, bnext := nx\<rparr>) = Ret () (s\<lparr>bprev := pv', bnext := nx',
        bufs := fold (\<lambda>i bs. bs[i := (bs ! i)\<lparr>b_dev := NODEV\<rparr>]) (i # is) (bufs s)\<rparr>)"
      "links (s\<lparr>bprev := pv', bnext := nx'\<rparr>) (rev is @ i # xs)"
    by (auto simp: links_def simp del: binit_loop.simps)
  have "binit_loop (i # is) s = binit_loop is (?s\<lparr>bprev := pv, bnext := nx\<rparr>)"
    by (simp add: andthen_def call_app upd_buf_def modify_def l(1))
  with r show ?case by - (rule exI [of _ pv'], rule exI [of _ nx'], simp)
qed

lemma binit_cache:
  assumes "lock_free PtableLock s"
  shows "\<exists>t. binit s = Ret () t \<and> kept (s\<lparr>locks := locks t\<rparr>) t \<and> cache t (dtrace s) (disk s) (disk s) {} {}
    \<and> links t (rev [0 ..< NBUF]) \<and> procs t = procs s
    \<and> (\<forall>l. l \<noteq> BcacheLock \<longrightarrow> locks t l = locks s l)"
proof -
  let ?lk = "(locks s)(BcacheLock := \<lparr>locked = False, on_cpu = False\<rparr>)"
  let ?s = "s\<lparr>bufs := replicate NBUF buf0, locks := ?lk, bprev := (bprev s)(Head := Head),
      bnext := (bnext s)(Head := Head)\<rparr>"
  let ?nb = "buf0\<lparr>b_dev := NODEV\<rparr>"
  have "links ?s []" by (simp add: links_def)
  then obtain pv nx where
    r: "binit_loop [0 ..< NBUF] ?s = Ret () (?s\<lparr>bprev := pv, bnext := nx,
        bufs := fold (\<lambda>i bs. bs[i := (bs ! i)\<lparr>b_dev := NODEV\<rparr>]) [0 ..< NBUF] (replicate NBUF buf0)\<rparr>)"
      "links (?s\<lparr>bprev := pv, bnext := nx\<rparr>) (rev [0 ..< NBUF])"
    using binit_loop_eq [of ?s "[]" "[0 ..< NBUF]"] by auto
  have bufs: "fold (\<lambda>i bs. bs[i := (bs ! i)\<lparr>b_dev := NODEV\<rparr>]) [0 ..< NBUF] (replicate NBUF buf0)
    = replicate NBUF ?nb"
    by (simp add: NBUF_def upt_conv_Cons eval_nat_numeral)
  let ?t = "s\<lparr>locks := ?lk, bprev := pv, bnext := nx, bufs := replicate NBUF ?nb\<rparr>"
  have b: "binit s = Ret () ?t"
    using r(1) by (simp add: binit_def andthen_def call_app modify_def initlock_def bufs)
  have l: "links ?t (rev [0 ..< NBUF])" using r(2) by (simp add: links_def)
  have f: "lock_free BcacheLock ?t" "lock_free PtableLock ?t"
    using assms by (simp_all add: lock_free_def cli_ok_def holding_def)
  have nb: "b_dev ?nb \<noteq> 1" "\<not> b_busy ?nb" "\<not> b_dirty ?nb" "\<not> b_valid ?nb"
    by (simp_all add: buf0_def NODEV_def)
  have "cache ?t (dtrace s) (disk s) (disk s) {} {}"
    using f l nb by (auto simp: cache_def cache_inv_def uniq_def buf_ok_def dirty_of_def held_of_def
        for_sector_def fun_eq_iff intro!: view_none exI [of _ "rev [0 ..< NBUF]"])
  with b l show ?thesis by (intro exI [of _ ?t]) (auto simp: kept_iff balanced_def holding_def)
qed

text \<open>The data of a buffer the caller holds.\<close>

definition get_data :: "nat \<Rightarrow> ('z ide_state_scheme, u8 list) kern" where
  "get_data i = call (get_buf i) (\<lambda>b. return (b_data b))"

definition put_data :: "nat \<Rightarrow> u8 list \<Rightarrow> ('z ide_state_scheme, unit) kern" where
  "put_data i d = upd_buf i (\<lambda>b. b\<lparr>b_data := d\<rparr>)"

section \<open>The interface of a block cache\<close>

text \<open>What the log and the file system rely on: reading, changing, writing and releasing blocks, and
  what each does to the disk, the current contents, the dirty sectors and the blocks in use.\<close>

locale block_cache =
  fixes rd :: "u32 \<Rightarrow> ('s, nat) kern"
    and dat :: "nat \<Rightarrow> ('s, 'd) kern"
    and put :: "nat \<Rightarrow> 'd \<Rightarrow> ('s, unit) kern"
    and wr :: "nat \<Rightarrow> ('s, unit) kern"
    and rel :: "nat \<Rightarrow> ('s, unit) kern"
    and ok :: "'s \<Rightarrow> (u32 \<times> 'd) list \<Rightarrow> (u32 \<Rightarrow> 'd) \<Rightarrow> (u32 \<Rightarrow> 'd) \<Rightarrow> u32 set \<Rightarrow> (nat \<times> u32) set \<Rightarrow> bool"
    and kp :: "'s \<Rightarrow> 's \<Rightarrow> bool"
    and sectors :: "'s \<Rightarrow> u32"
    and cap :: nat
  assumes rd: "ok s w D V X H \<Longrightarrow> x < sectors s \<Longrightarrow> x \<notin> snd ` H \<Longrightarrow> x \<in> X \<or> card (X \<union> snd ` H) < cap \<Longrightarrow>
      runs (rd x) s (\<lambda>i t. kp s t \<and> ok t w D V X (insert (i, x) H))"
    and dat: "ok s w D V X H \<Longrightarrow> (i, x) \<in> H \<Longrightarrow> dat i s = Ret (V x) s"
    and put: "ok s w D V X H \<Longrightarrow> (i, x) \<in> H \<Longrightarrow> runs (put i d) s (\<lambda>_ t. kp s t \<and> ok t w D (V(x := d)) X H)"
    and wr: "ok s w D V X H \<Longrightarrow> (i, x) \<in> H \<Longrightarrow> x < sectors s \<Longrightarrow>
      runs (wr i) s (\<lambda>_ t. kp s t \<and> ok t (w @ [(x, V x)]) (D(x := V x)) V (X - {x}) H)"
    and rel: "ok s w D V X H \<Longrightarrow> (i, x) \<in> H \<Longrightarrow> V x = D x \<or> x \<in> X \<Longrightarrow>
      runs (rel i) s (\<lambda>_ t. kp s t \<and> ok t w D V X (H - {(i, x)}))"
    and kp_sectors: "kp s t \<Longrightarrow> sectors t = sectors s"
    and kp_trans: "kp s t \<Longrightarrow> kp t u \<Longrightarrow> kp s u"
    and clean: "ok s w D V X H \<Longrightarrow> x \<notin> X \<Longrightarrow> x \<notin> snd ` H \<Longrightarrow> V x = D x"
begin

text \<open>Reading a block and letting it go; replacing the contents of a block on the disk; copying one
  block over another. The caller's other blocks stay as they are.\<close>

lemma read_block:
  assumes ok: "ok s w D V X H" and x: "x < sectors s" "x \<notin> snd ` H" "x \<in> X \<or> card (X \<union> snd ` H) < cap"
  shows "runs (call (rd x) (\<lambda>i. call (dat i) (\<lambda>d. andthen (rel i) (return (f d))))) s
    (\<lambda>r t. r = f (V x) \<and> kp s t \<and> ok t w D V X H)"
proof -
  obtain i t where 1: "rd x s = Ret i t" "kp s t" "ok t w D V X (insert (i, x) H)"
    using rd [OF ok x] by (auto elim: runsE)
  have "V x = D x \<or> x \<in> X" using clean [OF ok] x(2) by blast
  moreover have "insert (i, x) H - {(i, x)} = H" using x(2) by force
  ultimately obtain u where 2: "rel i t = Ret () u" "kp t u" "ok u w D V X H"
    using rel [OF 1(3), of i x] by (auto elim: runsE)
  show ?thesis
    using 1 2 dat [OF 1(3), of i x] kp_trans [OF 1(2) 2(2)] by (simp add: runs_def call_app andthen_def)
qed

lemma write_block:
  assumes ok: "ok s w D V X H" and x: "x < sectors s" "x \<notin> snd ` H" "x \<in> X \<or> card (X \<union> snd ` H) < cap"
  shows "runs (call (rd x) (\<lambda>i. call (dat i) (\<lambda>d. andthen (put i (f d)) (andthen (wr i) (rel i))))) s
    (\<lambda>_ t. kp s t \<and> ok t (w @ [(x, f (V x))]) (D(x := f (V x))) (V(x := f (V x))) (X - {x}) H)"
proof -
  obtain i t where 1: "rd x s = Ret i t" "kp s t" "ok t w D V X (insert (i, x) H)"
    using rd [OF ok x] by (auto elim: runsE)
  let ?V = "V(x := f (V x))" and ?D = "D(x := f (V x))"
  obtain u where 2: "put i (f (V x)) t = Ret () u" "kp t u" "ok u w D ?V X (insert (i, x) H)"
    using put [OF 1(3), of i x "f (V x)"] by (auto elim: runsE)
  obtain v where 3: "wr i u = Ret () v" "kp u v" "ok v (w @ [(x, f (V x))]) ?D ?V (X - {x}) (insert (i, x) H)"
    using wr [OF 2(3), of i x] x(1) kp_sectors 1(2) 2(2) by (auto elim: runsE)
  have "insert (i, x) H - {(i, x)} = H" using x(2) by force
  then obtain y where 4: "rel i v = Ret () y" "kp v y" "ok y (w @ [(x, f (V x))]) ?D ?V (X - {x}) H"
    using rel [OF 3(3), of i x] by (auto elim: runsE)
  have "kp s y" using 1(2) 2(2) 3(2) 4(2) kp_trans by blast
  with 1 2 3 4 dat [OF 1(3), of i x] show ?thesis by (simp add: runs_def call_app andthen_def)
qed

lemma copy_block:
  assumes ok: "ok s w D V X {}" and ab: "a \<noteq> b" "a < sectors s" "b < sectors s"
    and a: "a \<in> X \<or> card X < cap" and b: "b \<in> X \<or> card (insert a X) < cap"
  shows "runs (call (rd a) (\<lambda>l. call (rd b) (\<lambda>d. call (dat l) (\<lambda>x.
      andthen (put d x) (andthen (wr d) (andthen (rel l) (rel d))))))) s
    (\<lambda>_ t. kp s t \<and> ok t (w @ [(b, V a)]) (D(b := V a)) (V(b := V a)) (X - {b}) {})"
proof -
  let ?V = "V(b := V a)" and ?D = "D(b := V a)" and ?w = "w @ [(b, V a)]"
  obtain l t where 1: "rd a s = Ret l t" "kp s t" "ok t w D V X {(l, a)}"
    using rd [OF ok ab(2)] a by (auto elim: runsE)
  have "b \<in> X \<or> card (X \<union> {a}) < cap" using b by simp
  then obtain d u where 2: "rd b t = Ret d u" "kp t u" "ok u w D V X {(d, b), (l, a)}"
    using rd [OF 1(3), of b] ab kp_sectors [OF 1(2)] by (auto elim: runsE)
  obtain v where 3: "put d (V a) u = Ret () v" "kp u v" "ok v w D ?V X {(d, b), (l, a)}"
    using put [OF 2(3), of d b "V a"] by (auto elim: runsE)
  obtain y where 4: "wr d v = Ret () y" "kp v y" "ok y ?w ?D ?V (X - {b}) {(d, b), (l, a)}"
    using wr [OF 3(3), of d b] ab kp_sectors [OF 1(2)] kp_sectors [OF 2(2)] kp_sectors [OF 3(2)]
    by (auto elim: runsE)
  have "V a = D a \<or> a \<in> X" using clean [OF ok] by blast
  moreover have "{(d, b), (l, a)} - {(l, a)} = {(d, b)}" using ab(1) by auto
  ultimately obtain z where 5: "rel l y = Ret () z" "kp y z" "ok z ?w ?D ?V (X - {b}) {(d, b)}"
    using rel [OF 4(3), of l a] ab(1) by (auto elim: runsE)
  obtain q where 6: "rel d z = Ret () q" "kp z q" "ok q ?w ?D ?V (X - {b}) {}"
    using rel [OF 5(3), of d b] by (auto elim: runsE)
  have "kp s q" using 1(2) 2(2) 3(2) 4(2) 5(2) 6(2) kp_trans by blast
  with 1 2 3 4 5 6 dat [OF 2(3), of l a] show ?thesis by (simp add: runs_def call_app andthen_def)
qed

end

interpretation bc: block_cache "bread 1" get_data put_data bwrite brelse cache kept disksize NBUF
proof
  fix s t u :: "'a bcache_scheme" and w D V X and H :: "(nat \<times> u32) set" and i x and d
  assume c: "cache s w D V X H"
  show "x \<notin> X \<Longrightarrow> x \<notin> snd ` H \<Longrightarrow> V x = D x" using clean_view [OF c] .
  show "x < disksize s \<Longrightarrow> x \<notin> snd ` H \<Longrightarrow> x \<in> X \<or> card (X \<union> snd ` H) < NBUF \<Longrightarrow>
      runs (bread 1 x) s (\<lambda>i t. kept s t \<and> cache t w D V X (insert (i, x) H))"
    using cache_bread [OF c] by (auto simp: runs_iff)
  assume h: "(i, x) \<in> H"
  show "get_data i s = Ret (V x) s" using cache_get [OF c h] by (simp add: get_data_def call_app return_def)
  show "runs (put_data i d) s (\<lambda>_ t. kept s t \<and> cache t w D (V(x := d)) X H)"
    using cache_put [OF c h] by (auto simp: put_data_def runs_iff)
  show "x < disksize s \<Longrightarrow> runs (bwrite i) s
      (\<lambda>_ t. kept s t \<and> cache t (w @ [(x, V x)]) (D(x := V x)) V (X - {x}) H)"
    using cache_bwrite [OF c h] by (auto simp: runs_iff)
  show "V x = D x \<or> x \<in> X \<Longrightarrow> runs (brelse i) s (\<lambda>_ t. kept s t \<and> cache t w D V X (H - {(i, x)}))"
    using cache_brelse [OF c h] by (auto simp: runs_iff)
next
  fix s t u :: "'a bcache_scheme"
  show "kept s t \<Longrightarrow> disksize t = disksize s" by (simp add: kept_iff)
  show "kept s t \<Longrightarrow> kept t u \<Longrightarrow> kept s u" by (rule kept_trans)
qed

section \<open>Properties\<close>

text \<open>The start of the cache: after binit every buffer is in the list, the most recent first,
  none is in use or holds a sector, and the current contents of every sector are those on disk.\<close>

theorem binit_empty_cache:
  assumes "lock_free PtableLock s"
  shows "\<exists>t. binit s = Ret () t \<and> forward t = rev [0 ..< NBUF] \<and> backward t = [0 ..< NBUF]
    \<and> cache t (dtrace s) (disk s) (disk s) {} {}"
  using binit_cache [OF assms] forward_links [of _ "rev [0 ..< NBUF]"] backward_links [of _ "rev [0 ..< NBUF]"]
  by auto

text \<open>C4: bread of a sector that no buffer in use holds returns a buffer locked for the caller that is valid and
  holds the current contents of the sector, whether they are cached or only on disk, as long as the sector is
  dirty, so cached, or fewer sectors are in use or dirty than there are buffers; it changes neither disk nor
  contents. (Otherwise bget sleeps on the sector or panics.)\<close>

theorem bread_current:
  assumes "cache s w D V X H" and "x < disksize s" and "x \<notin> snd ` H"
    and "x \<in> X \<or> card (X \<union> snd ` H) < NBUF"
  shows "\<exists>i t. bread 1 x s = Ret i t \<and> cache t w D V X (insert (i, x) H) \<and> b_busy (bufs t ! i)
    \<and> b_valid (bufs t ! i) \<and> b_sector (bufs t ! i) = x \<and> b_data (bufs t ! i) = V x"
proof -
  obtain i t where r: "bread 1 x s = Ret i t" and c: "cache t w D V X (insert (i, x) H)"
    using cache_bread [OF assms] by blast
  have "(i, x) \<in> insert (i, x) H" by simp
  from held_nth [OF c this] held_view [OF c this] r c show ?thesis by (auto simp: for_sector_def)
qed

text \<open>C5: brelse moves its buffer to the front of the list of all buffers and leaves the order of
  the others, in both directions of the pointers; it unlocks the buffer and makes every process
  that waits for it runnable.\<close>

theorem brelse_moves_to_front:
  assumes "cache s w D V X H" and "(i, x) \<in> H" and "V x = D x \<or> x \<in> X"
  shows "\<exists>t. brelse i s = Ret () t \<and> forward t = i # remove1 i (forward s)
    \<and> backward t = rev (forward t) \<and> \<not> b_busy (bufs t ! i)
    \<and> procs t = map (wake (BufChan i)) (procs s) \<and> cache t w D V X (H - {(i, x)})"
proof -
  obtain t where t: "brelse i s = Ret () t" "cache t w D V X (H - {(i, x)})"
      "links t (i # remove1 i (forward s))" "procs t = map (wake (BufChan i)) (procs s)"
    using cache_brelse [OF assms] by blast
  have i: "i < NBUF" using held_nth [OF assms(1,2)] by simp
  obtain xs where xs: "links s xs" "set xs = {..< NBUF}" using cacheD(11) [OF assms(1)] by blast
  then have "length xs = NBUF" "forward s = xs" using distinct_card [of xs] all_links [of s xs] by (simp_all add: links_def)
  then have len: "length (i # remove1 i (forward s)) \<le> NBUF" using i xs by (simp add: length_remove1)
  have "b_busy (bufs t ! i) \<Longrightarrow> (i, b_sector (bufs t ! i)) \<in> H - {(i, x)}"
    using cacheD(1,8) [OF t(2)] i by (simp add: held_of_def)
  moreover have "(i, y) \<in> H \<Longrightarrow> y = x" for y
    using assms(2) cacheD(8) [OF assms(1)] by (simp add: held_of_def)
  ultimately have "\<not> b_busy (bufs t ! i)" by blast
  with t forward_links [OF t(3) len] backward_links [OF t(3) len] show ?thesis by simp
qed

text \<open>A system with a disk of 1024 zeroed sectors, and the same after binit.\<close>

definition bio_start :: bcache where
  "bio_start = ide_state.extend (pipe_state.extend pipe_start
     \<lparr>disk = (\<lambda>_. replicate BSIZE 0), disksize = 1024, dtrace = [], bufs = []\<rparr>)
     \<lparr>bnext = (\<lambda>_. Head), bprev = (\<lambda>_. Head)\<rparr>"

lemma bio_start_facts: "lock_free l bio_start" "disk bio_start = (\<lambda>_. replicate BSIZE 0)"
    "disksize bio_start = 1024" "dtrace bio_start = []"
  using pipe_start_facts(1) [of l]
  by (simp_all add: bio_start_def ide_state.defs pipe_state.defs lock_free_def cli_ok_def holding_def)

theorem binit_empty_cache_witness:
  "\<exists>t. binit bio_start = Ret () t \<and> forward t = rev [0 ..< 10]"
  using binit_empty_cache [OF bio_start_facts(1)] by (auto simp: NBUF_def)

lemma booted:
  obtains t where "binit bio_start = Ret () t" and "disksize t = 1024" and "forward t = rev [0 ..< NBUF]"
    and "cache t [] (\<lambda>_. replicate BSIZE 0) (\<lambda>_. replicate BSIZE 0) {} {}"
proof -
  obtain t where t: "binit bio_start = Ret () t" "kept (bio_start\<lparr>locks := locks t\<rparr>) t"
      "cache t [] (\<lambda>_. replicate BSIZE 0) (\<lambda>_. replicate BSIZE 0) {} {}" "links t (rev [0 ..< NBUF])"
    using binit_cache [OF bio_start_facts(1)] bio_start_facts(2,4) by auto
  then have "disksize t = 1024" "forward t = rev [0 ..< NBUF]"
    using forward_links [OF t(4)] by (simp_all add: kept_iff bio_start_facts(3))
  with t show ?thesis by (intro that)
qed

theorem bread_current_witness:
  "\<exists>s i t. binit bio_start = Ret () s \<and> bread 1 7 s = Ret i t \<and> b_data (bufs t ! i) = replicate BSIZE 0"
proof -
  obtain s where s: "binit bio_start = Ret () s" "disksize s = 1024"
      "cache s [] (\<lambda>_. replicate BSIZE 0) (\<lambda>_. replicate BSIZE 0) {} {}" using booted by metis
  have "7 < disksize s" using s(2) by simp
  from bread_current [OF s(3) this] s(1) show ?thesis by (auto simp: NBUF_def)
qed

theorem brelse_moves_to_front_witness:
  "\<exists>s i t u. binit bio_start = Ret () s \<and> bread 1 7 s = Ret i t \<and> brelse i t = Ret () u
     \<and> forward u = i # remove1 i (forward t)"
proof -
  obtain s where s: "binit bio_start = Ret () s" "disksize s = 1024"
      "cache s [] (\<lambda>_. replicate BSIZE 0) (\<lambda>_. replicate BSIZE 0) {} {}" using booted by metis
  have x: "7 < disksize s" using s(2) by simp
  obtain i t where t: "bread 1 7 s = Ret i t"
      "cache t [] (\<lambda>_. replicate BSIZE 0) (\<lambda>_. replicate BSIZE 0) {} {(i, 7)}"
    using cache_bread [OF s(3) x] by (auto simp: NBUF_def)
  from brelse_moves_to_front [OF t(2), of i 7] s(1) t(1) show ?thesis by auto
qed

end
