(* ===== verification/Log.thy ===== *)
theory Log
  imports Bio
begin

text \<open>
  log.c: transactions through a redo log. The state is the structure \<open>log\<close>; \<open>readsb\<close> and the
  super block come from fs.c and fs.h.
\<close>

section \<open>State\<close>

definition LOGSIZE :: nat where "LOGSIZE = 10"
definition ROOTDEV :: u32 where "ROOTDEV = 1"

record superblock =
  sb_size :: u32
  sb_nblocks :: u32
  sb_ninodes :: u32
  sb_nlog :: u32

text \<open>struct log with its struct logheader; \<open>lh_n\<close>, \<open>log_start\<close>, \<open>log_size\<close> and the sector
  numbers are \<open>int\<close> in the source, kept as words where they only take part in arithmetic.\<close>

record log_state = bcache +
  lh_n :: int
  lh_sector :: "u32 list"
  log_start :: u32
  log_size :: u32
  log_busy :: bool
  log_dev :: u32

section \<open>The super block\<close>

definition dec_superblock :: "u8 list \<Rightarrow> superblock" where
  "dec_superblock d = \<lparr>sb_size = of_le32 d, sb_nblocks = of_le32 (drop 4 d),
     sb_ninodes = of_le32 (drop 8 d), sb_nlog = of_le32 (drop 12 d)\<rparr>"

definition readsb :: "u32 \<Rightarrow> ('z bcache_scheme, superblock) kern" where
  "readsb dev =
     call (bread dev 1) (\<lambda>i.
     call (get_data i) (\<lambda>d.
     andthen (brelse i) (return (dec_superblock d))))"

section \<open>Operations\<close>

text \<open>One iteration of \<open>install_trans\<close>: copy a block of the log to its home location.\<close>

definition install_one :: "nat \<Rightarrow> ('z log_state_scheme, unit) kern" where
  "install_one tail =
     call (reads (\<lambda>s. s)) (\<lambda>s.
     call (bread (log_dev s) (log_start s + of_nat tail + 1)) (\<lambda>l.
     call (bread (log_dev s) (lh_sector s ! tail)) (\<lambda>d.
     call (get_data l) (\<lambda>x.
     andthen (put_data d x)
     (andthen (bwrite d)
     (andthen (brelse l) (brelse d)))))))"

definition install_trans :: "('z log_state_scheme, unit) kern" where
  "install_trans = call (reads lh_n) (\<lambda>n. for_each [0 ..< nat n] install_one)"

text \<open>A header with more entries than the array in memory has would be copied past its end.\<close>

definition read_head :: "('z log_state_scheme, unit) kern" where
  "read_head =
     call (reads (\<lambda>s. s)) (\<lambda>s.
     call (bread (log_dev s) (log_start s)) (\<lambda>i.
     call (get_data i) (\<lambda>d.
     let n = sint (of_le32 d) in
     if n > int LOGSIZE then undef ''log header past its array''
     else andthen (modify (\<lambda>s. s\<lparr>lh_n := n,
         lh_sector := get_words (nat n) (drop 4 d) @ drop (nat n) (lh_sector s)\<rparr>))
       (brelse i))))"

definition write_head :: "('z log_state_scheme, unit) kern" where
  "write_head =
     call (reads (\<lambda>s. s)) (\<lambda>s.
     call (bread (log_dev s) (log_start s)) (\<lambda>i.
     call (get_data i) (\<lambda>d.
     andthen (put_data i (patch 0 (le32 (of_int (lh_n s)) @ words_le (take (nat (lh_n s)) (lh_sector s))) d))
     (andthen (bwrite i) (brelse i)))))"

definition recover_from_log :: "('z log_state_scheme, unit) kern" where
  "recover_from_log =
     andthen read_head
     (andthen install_trans
     (andthen (modify (\<lambda>s. s\<lparr>lh_n := 0\<rparr>)) write_head))"

text \<open>\<open>sizeof(struct logheader)\<close> is 44, so the first test of \<open>initlog\<close> is never true.\<close>

definition initlog :: "('z log_state_scheme, unit) kern" where
  "initlog =
     andthen (panic_if (4 * (1 + LOGSIZE) \<ge> BSIZE) ''initlog: too big logheader'')
     (andthen (modify (\<lambda>s. s\<lparr>lh_n := 0, lh_sector := replicate LOGSIZE 0, log_start := 0,
         log_size := 0, log_busy := False, log_dev := 0\<rparr>))
     (andthen (initlock LogLock)
     (call (readsb ROOTDEV) (\<lambda>sb.
      andthen (modify (\<lambda>s. s\<lparr>log_start := sb_size sb - sb_nlog sb, log_size := sb_nlog sb,
          log_dev := ROOTDEV\<rparr>))
      recover_from_log))))"

definition begin_loop :: "('z log_state_scheme, unit) kern" where
  "begin_loop =
     call (reads log_busy) (\<lambda>b.
     if b then sleep LogChan LogLock
     else andthen (modify (\<lambda>s. s\<lparr>log_busy := True\<rparr>)) (release LogLock))"

definition begin_trans :: "('z log_state_scheme, unit) kern" where
  "begin_trans = andthen (acquire LogLock) begin_loop"

definition begin_resume :: "bool \<Rightarrow> ('z log_state_scheme, unit) kern" where
  "begin_resume saved = andthen (sleep_return saved LogLock) begin_loop"

definition commit_trans :: "('z log_state_scheme, unit) kern" where
  "commit_trans =
     call (reads lh_n) (\<lambda>n.
     andthen (if 0 < n then
         andthen write_head
         (andthen install_trans
         (andthen (modify (\<lambda>s. s\<lparr>lh_n := 0\<rparr>)) write_head))
       else return ())
     (locked_section LogLock
       (andthen (modify (\<lambda>s. s\<lparr>log_busy := False\<rparr>)) (wakeup LogChan))))"

text \<open>The slot of a sector in the log: the one it already has, or the next free one.\<close>

definition log_slot :: "u32 \<Rightarrow> 'z log_state_scheme \<Rightarrow> nat" where
  "log_slot sector s = (case find_index (\<lambda>x. x = sector) (take (nat (lh_n s)) (lh_sector s)) of
      Some k \<Rightarrow> k | None \<Rightarrow> nat (lh_n s))"

definition log_write :: "nat \<Rightarrow> ('z log_state_scheme, unit) kern" where
  "log_write b =
     call (reads (\<lambda>s. s)) (\<lambda>s.
     andthen (panic_if (lh_n s \<ge> int LOGSIZE \<or> lh_n s \<ge> sint (log_size s) - 1) ''too big a transaction'')
     (andthen (panic_if (\<not> log_busy s) ''write outside of trans'')
     (call (get_buf b) (\<lambda>bb.
      let i = log_slot (b_sector bb) s in
      andthen (modify (\<lambda>s. s\<lparr>lh_sector := (lh_sector s)[i := b_sector bb]\<rparr>))
      (call (bread (b_dev bb) (log_start s + of_nat i + 1)) (\<lambda>l.
       call (get_data b) (\<lambda>d.
       andthen (put_data l d)
       (andthen (bwrite l)
       (andthen (brelse l)
       (andthen (modify (\<lambda>s. s\<lparr>lh_n := (if int i = lh_n s then lh_n s + 1 else lh_n s)\<rparr>))
        (upd_buf b (\<lambda>b. b\<lparr>b_dirty := True\<rparr>))))))))))))"

section \<open>Operations on the cache\<close>

text \<open>The log's own variables are not part of the cache.\<close>

lemma cache_log_upds [simp]:
  "cache (s\<lparr>lh_n := n\<rparr>) = cache s" "cache (s\<lparr>lh_sector := hs\<rparr>) = cache s"
  "cache (s\<lparr>lh_n := n, lh_sector := hs\<rparr>) = cache s"
  "cache (s\<lparr>log_busy := b\<rparr>) = cache s"
  "cache (s\<lparr>log_start := st, log_size := n1, log_dev := dv\<rparr>) = cache s"
  by (intro ext, simp add: cache_def cache_inv_def links_def lock_free_def cli_ok_def holding_def)+

lemma kept_log:
  assumes "kept s t"
  shows "lh_n t = lh_n s" "lh_sector t = lh_sector s" "log_start t = log_start s" "log_size t = log_size s"
    "log_busy t = log_busy s" "log_dev t = log_dev s" "disksize t = disksize s" "log_state.more t = log_state.more s"
  using assms by (cases s; cases t; simp add: kept_iff)+

text \<open>What no operation between two commits changes.\<close>

definition log_same :: "'z log_state_scheme \<Rightarrow> 'z log_state_scheme \<Rightarrow> bool" where
  "log_same s t \<longleftrightarrow> balanced s t \<and> log_dev t = log_dev s \<and> log_start t = log_start s \<and> log_size t = log_size s
     \<and> log_busy t = log_busy s \<and> disksize t = disksize s \<and> length (lh_sector t) = length (lh_sector s)
     \<and> log_state.more t = log_state.more s"

lemma log_same_refl [simp]: "log_same s s"
  by (simp add: log_same_def)

lemma log_same_trans [trans]: "log_same s t \<Longrightarrow> log_same t u \<Longrightarrow> log_same s u"
  by (auto simp: log_same_def intro: balanced_trans)

lemma kept_log_same: "kept s t \<Longrightarrow> log_same s t"
  by (simp add: log_same_def kept_log) (simp add: kept_iff)

lemma log_same_upds [simp]: "log_same s (t\<lparr>lh_n := n\<rparr>) = log_same s t" "log_same (s\<lparr>lh_n := n\<rparr>) t = log_same s t"
  by (simp_all add: log_same_def balanced_def holding_def)

text \<open>Applying a sequence of writes to a disk.\<close>

definition replay :: "(u32 \<times> 'd) list \<Rightarrow> (u32 \<Rightarrow> 'd) \<Rightarrow> u32 \<Rightarrow> 'd" where
  "replay w D = fold (\<lambda>(x, d) D. D(x := d)) w D"

lemma replay_simps [simp]:
  "replay [] D = D" "replay ((x, d) # w) D = replay w (D(x := d))" "replay (v @ w) D = replay w (replay v D)"
  by (simp_all add: replay_def)

lemma replay_other: "x \<notin> fst ` set w \<Longrightarrow> replay w D x = D x"
  by (induction w arbitrary: D) auto

lemma replay_at:
  assumes "distinct (map fst w)" and "(x, d) \<in> set w"
  shows "replay w D x = d"
  using assms
proof (induction w arbitrary: D)
  case (Cons p w)
  obtain y e where p: "p = (y, e)" by (cases p)
  show ?case
  proof (cases "p = (x, d)")
    case True
    with Cons.prems(1) show ?thesis by (simp add: replay_other)
  next
    case False
    with Cons.prems Cons.IH [of "D(y := e)"] p show ?thesis by (auto simp del: fun_upd_apply)
  qed
qed simp

text \<open>Block \<open>j\<close> of a log that starts at \<open>st\<close>, and a log header.\<close>

definition log_block :: "u32 \<Rightarrow> nat \<Rightarrow> u32" where
  "log_block st j = st + of_nat j + 1"

definition head_n :: "u8 list \<Rightarrow> nat" where
  "head_n d = nat (sint (of_le32 d))"

definition head_sectors :: "u8 list \<Rightarrow> u32 list" where
  "head_sectors d = get_words (head_n d) (drop 4 d)"

definition head_block :: "u32 list \<Rightarrow> u8 list \<Rightarrow> u8 list" where
  "head_block hs d = patch 0 (le32 (of_nat (length hs)) @ words_le hs) d"

lemma sint_small: "n \<le> 10 \<Longrightarrow> sint (of_nat n :: u32) = int n"
proof -
  assume "n \<le> 10"
  then have "n \<in> {0, 1, 2, 3, 4, 5, 6, 7, 8, 9, 10}" by (simp, presburger)
  then show ?thesis by auto
qed

lemma head_block_facts:
  assumes "length d = BSIZE" and "length hs \<le> LOGSIZE"
  shows "length (head_block hs d) = BSIZE" "head_n (head_block hs d) = length hs"
    "head_sectors (head_block hs d) = hs"
proof -
  have n: "of_le32 (head_block hs d) = of_nat (length hs)"
    by (simp add: head_block_def patch_def)
  then show "head_n (head_block hs d) = length hs"
    using assms(2) by (simp add: head_n_def sint_small LOGSIZE_def)
  then show "head_sectors (head_block hs d) = hs"
    by (simp add: head_sectors_def head_block_def patch_def)
  show "length (head_block hs d) = BSIZE"
    using assms by (simp add: head_block_def BSIZE_def LOGSIZE_def)
qed

lemma runs_readsb:
  assumes "cache s w D V X H" and "1 < disksize s" and "1 \<notin> snd ` H" and "1 \<in> X \<or> card (X \<union> snd ` H) < NBUF"
  shows "runs (readsb 1) s (\<lambda>r t. r = dec_superblock (V 1) \<and> kept s t \<and> cache t w D V X H)"
  using bc.read_block [OF assms, of dec_superblock] by (simp add: readsb_def)

lemma runs_write_head:
  assumes c: "cache s w D V X {}" and st: "log_dev s = 1" "log_start s = st" "st < disksize s" "card X < NBUF"
    and n: "lh_n s = int (length hs)" "take (length hs) (lh_sector s) = hs"
  shows "runs write_head s (\<lambda>_ t. kept s t \<and> cache t (w @ [(st, head_block hs (V st))])
    (D(st := head_block hs (V st))) (V(st := head_block hs (V st))) (X - {st}) {})"
  using bc.write_block [OF c st(3), of "head_block hs"] st n by (simp add: write_head_def head_block_def)

text \<open>The blocks of the log that are still to be copied, and the writes that copy them.\<close>

definition home_writes :: "u32 \<Rightarrow> u32 list \<Rightarrow> (u32 \<Rightarrow> 'd) \<Rightarrow> nat list \<Rightarrow> (u32 \<times> 'd) list" where
  "home_writes st hs V js = map (\<lambda>j. (hs ! j, V (log_block st j))) js"

lemma runs_install:
  assumes "cache s w D V X {}" and "log_dev s = 1" "log_start s = st" "lh_sector s = sects"
    and "\<And>j. j \<in> set js \<Longrightarrow> log_block st j < disksize s \<and> sects ! j < disksize s"
    and "\<And>j k. j \<in> set js \<Longrightarrow> k \<in> set js \<Longrightarrow> log_block st j \<noteq> sects ! k"
    and "distinct (map ((!) sects) js)" and "card X < NBUF"
    and "\<And>j. j \<in> set js \<Longrightarrow> sects ! j \<in> X \<or> Suc (card X) < NBUF"
  shows "runs (for_each js install_one) s (\<lambda>_ t. kept s t \<and> cache t (w @ home_writes st sects V js)
    (replay (home_writes st sects V js) D) (replay (home_writes st sects V js) V) (X - (!) sects ` set js) {})"
  using assms
proof (induction js arbitrary: s w D V X)
  case Nil
  then show ?case by (simp add: home_writes_def)
next
  case (Cons j js)
  let ?a = "log_block st j" and ?b = "sects ! j"
  have "card (insert ?a X) \<le> Suc (card X)" by (simp add: card_insert_le_m1)
  then have room: "?a \<in> X \<or> card X < NBUF" "?b \<in> X \<or> card (insert ?a X) < NBUF"
    using Cons.prems(8) Cons.prems(9) [of j] by auto
  have "?a \<noteq> ?b" "?a < disksize s" "?b < disksize s" using Cons.prems(5,6) by simp_all
  from bc.copy_block [OF Cons.prems(1) this room] Cons.prems(2-4)
  obtain t where t: "install_one j s = Ret () t" "kept s t"
      "cache t (w @ [(?b, V ?a)]) (D(?b := V ?a)) (V(?b := V ?a)) (X - {?b}) {}"
    by (auto simp: install_one_def log_block_def runs_def [of "call (reads _) _"] call_app reads_def
        runs_iff)
  note k = kept_log [OF t(2)]
  have X: "card (X - {?b}) \<le> card X" by (rule card_Diff1_le)
  have "runs (for_each js install_one) t (\<lambda>_ u. kept t u \<and>
      cache u ((w @ [(?b, V ?a)]) @ home_writes st sects (V(?b := V ?a)) js)
      (replay (home_writes st sects (V(?b := V ?a)) js) (D(?b := V ?a)))
      (replay (home_writes st sects (V(?b := V ?a)) js) (V(?b := V ?a))) (X - {?b} - (!) sects ` set js) {})"
  proof (rule Cons.IH [OF t(3)])
    show "sects ! k \<in> X - {?b} \<or> Suc (card (X - {?b})) < NBUF" if "k \<in> set js" for k
    proof -
      have "sects ! k \<in> (!) sects ` set js" using that by (rule imageI)
      then have "sects ! k \<noteq> ?b" using Cons.prems(7) by auto
      then show ?thesis using Cons.prems(9) [of k] that X by auto
    qed
  qed (use Cons.prems X k in \<open>auto\<close>)
  then obtain u where u: "for_each js install_one t = Ret () u" "kept t u"
      "cache u ((w @ [(?b, V ?a)]) @ home_writes st sects (V(?b := V ?a)) js)
      (replay (home_writes st sects (V(?b := V ?a)) js) (D(?b := V ?a)))
      (replay (home_writes st sects (V(?b := V ?a)) js) (V(?b := V ?a))) (X - {?b} - (!) sects ` set js) {}"
    by (auto elim: runsE)
  have same: "home_writes st sects (V(?b := V ?a)) js = home_writes st sects V js"
    using Cons.prems(6) by (auto simp: home_writes_def)
  have rest: "X - {?b} - (!) sects ` set js = X - (!) sects ` set (j # js)" by auto
  have first: "home_writes st sects V (j # js) = (?b, V ?a) # home_writes st sects V js"
    by (simp add: home_writes_def)
  have "kept s u" using t(2) u(2) by (rule kept_trans)
  with t(1) u show ?case
    unfolding first rest [symmetric] same by (simp add: runs_def andthen_def call_app)
qed

section \<open>Commit and recovery\<close>

text \<open>A log at \<open>st\<close> for the sectors \<open>hs\<close> on a disk of \<open>m\<close> sectors: its blocks are on the disk, the home
  sectors come before it and after the super block, and all can be dirty with a buffer to spare.\<close>

definition log_fits :: "u32 \<Rightarrow> u32 \<Rightarrow> u32 list \<Rightarrow> bool" where
  "log_fits st m hs \<longleftrightarrow> unat st + length hs < unat m \<and> length hs < NBUF \<and> distinct hs
     \<and> (\<forall>x \<in> set hs. 1 < x \<and> x < st)"

lemma log_block_facts:
  assumes "log_fits st m hs" and "j < length hs"
  shows "st < log_block st j" "log_block st j < m" "hs ! j < m" "k < length hs \<Longrightarrow> log_block st j \<noteq> hs ! k"
    "hs ! j \<noteq> st" "hs ! j < st"
proof -
  have lt: "unat st + Suc j < unat m" using assms by (simp add: log_fits_def)
  also have "unat m < 2 ^ 32" using unat_lt32 [of m] by simp
  finally have lt2: "unat st + Suc j < 2 ^ 32" .
  have n: "unat (of_nat (Suc j) :: u32) = Suc j" using lt2 by (intro unat_of_nat32) simp
  then have "unat (st + of_nat (Suc j)) = unat st + Suc j"
    using unat_add_lem [THEN iffD1, of st "of_nat (Suc j)"] lt2 unfolding n by simp
  moreover have "log_block st j = st + of_nat (Suc j)" by (simp add: log_block_def add.assoc add.commute)
  ultimately have u: "unat (log_block st j) = unat st + Suc j" by (simp only:)
  then show 1: "st < log_block st j" and "log_block st j < m" using lt by (simp_all add: word_less_nat_alt)
  have home: "hs ! k < st" if "k < length hs" for k using assms(1) that by (simp add: log_fits_def)
  show "hs ! j < st" "hs ! j \<noteq> st" using home [OF assms(2)] by auto
  show "hs ! j < m" using home [OF assms(2)] lt by (simp add: word_less_nat_alt)
  show "log_block st j \<noteq> hs ! k" if "k < length hs" using home [OF that] 1 by auto
qed

abbreviation copies :: "u32 \<Rightarrow> u32 list \<Rightarrow> (u32 \<Rightarrow> 'd) \<Rightarrow> (u32 \<times> 'd) list" where
  "copies st hs V \<equiv> home_writes st hs V [0 ..< length hs]"

lemma copies_fst [simp]: "map fst (copies st hs V) = hs"
  by (simp add: home_writes_def comp_def map_nth)

lemma set_copies: "fst ` set (copies st hs V) = set hs"
  by (metis copies_fst list.set_map)

lemma copies_other: "x \<notin> set hs \<Longrightarrow> replay (copies st hs V) D x = D x"
  by (rule replay_other) (simp add: set_copies)

lemma copies_at: "distinct hs \<Longrightarrow> j < length hs \<Longrightarrow> replay (copies st hs V) D (hs ! j) = V (log_block st j)"
  by (rule replay_at) (auto simp: home_writes_def comp_def map_nth)

lemma copies_cong: "(\<And>j. j < length hs \<Longrightarrow> V (log_block st j) = V' (log_block st j)) \<Longrightarrow> copies st hs V = copies st hs V'"
  by (simp add: home_writes_def)

lemma home_writes_take:
  "take n sects = hs \<Longrightarrow> n \<le> length sects \<Longrightarrow> home_writes st sects V [0 ..< n] = copies st hs V"
  by (auto simp: home_writes_def)

lemma runs_install_trans:
  assumes c: "cache s w D V X {}" and l: "log_dev s = 1" "log_start s = st" "lh_n s = int (length hs)"
    "take (length hs) (lh_sector s) = hs" and fits: "log_fits st (disksize s) hs"
    and X: "X = set hs \<or> X = {}"
  shows "runs install_trans s (\<lambda>_ t. kept s t \<and> cache t (w @ copies st hs V)
    (replay (copies st hs V) D) (replay (copies st hs V) V) {} {})"
proof -
  let ?n = "length hs" and ?S = "lh_sector s"
  have len: "?n \<le> length ?S" using l(4) by (metis length_take min.cobounded1)
  have nth: "?S ! j = hs ! j" if "j < ?n" for j using l(4) that by (metis nth_take)
  have im: "(!) ?S ` {..< ?n} = set hs" using nth by (force simp: in_set_conv_nth)
  have mp: "map ((!) ?S) [0 ..< ?n] = hs" using nth by (intro nth_equalityI) simp_all
  have card: "card X < NBUF" "j < ?n \<Longrightarrow> ?S ! j \<in> X \<or> Suc (card X) < NBUF" for j
    using X fits nth distinct_card [of hs] by (auto simp: log_fits_def NBUF_def)
  have eq: "X - (!) ?S ` set [0 ..< ?n] = {}" using X im by (auto simp: atLeast0LessThan)
  have "runs (for_each [0 ..< ?n] install_one) s (\<lambda>_ t. kept s t \<and> cache t (w @ home_writes st ?S V [0 ..< ?n])
    (replay (home_writes st ?S V [0 ..< ?n]) D) (replay (home_writes st ?S V [0 ..< ?n]) V) (X - (!) ?S ` set [0 ..< ?n]) {})"
  proof (rule runs_install [OF c l(1,2) refl])
    show "distinct (map ((!) ?S) [0 ..< ?n])" using mp fits by (simp add: log_fits_def)
  qed (use log_block_facts [OF fits] nth card in auto)
  then show ?thesis
    unfolding home_writes_take [OF l(4) len] eq install_trans_def by (simp add: l(3))
qed

text \<open>The header and the blocks of the log determine what recovery does to the disk.\<close>

definition recovered :: "u32 \<Rightarrow> (u32 \<Rightarrow> u8 list) \<Rightarrow> u32 \<Rightarrow> u8 list" where
  "recovered st D = (replay (copies st (head_sectors (D st)) D) D)(st := head_block [] (D st))"

lemma length_head_sectors: "length (head_sectors d) = head_n d"
  by (simp add: head_sectors_def)

lemma runs_read_head:
  assumes c: "cache s w D V {} {}" and l: "log_dev s = 1" "log_start s = st" "length (lh_sector s) = LOGSIZE"
    and st: "st < disksize s" and n: "head_n (V st) \<le> LOGSIZE"
  shows "runs read_head s (\<lambda>_ t. cache t w D V {} {} \<and> lh_n t = sint (of_le32 (V st))
    \<and> take (head_n (V st)) (lh_sector t) = head_sectors (V st) \<and> log_same s t)"
proof -
  obtain i t where t: "bread 1 st s = Ret i t" "kept s t" "cache t w D V {} {(i, st)}"
    using bc.rd [OF c st] by (auto simp: NBUF_def elim: runsE)
  let ?t = "t\<lparr>lh_n := sint (of_le32 (V st)), lh_sector := head_sectors (V st) @ drop (head_n (V st)) (lh_sector s)\<rparr>"
  have "cache ?t w D V {} {(i, st)}" using t(3) by simp
  moreover have "V st = D st" using clean_view [OF c] by simp
  ultimately obtain u where u: "brelse i ?t = Ret () u" "kept ?t u" "cache u w D V {} {}"
    using bc.rel [of ?t w D V "{}" "{(i, st)}" i st] by (auto elim: runsE)
  have "get_data i t = Ret (V st) t" using bc.dat [OF t(3), of i st] by simp
  moreover have "sint (of_le32 (V st)) \<le> int LOGSIZE" using n by (simp add: head_n_def nat_le_iff)
  moreover have "read_head s = call (get_data i) (\<lambda>d. let n = sint (of_le32 d) in
     if n > int LOGSIZE then undef ''log header past its array''
     else andthen (modify (\<lambda>s. s\<lparr>lh_n := n,
         lh_sector := get_words (nat n) (drop 4 d) @ drop (nat n) (lh_sector s)\<rparr>))
       (brelse i)) t"
    using t(1) l(1,2) by (simp add: read_head_def call_app [of "reads _"] call_app [of "bread _ _"] reads_def)
  ultimately have "read_head s = brelse i ?t"
    using kept_log(2) [OF t(2)]
    by (simp add: call_app andthen_def modify_def Let_def head_n_def head_sectors_def)
  then have "read_head s = Ret () u" using u(1) by simp
  moreover have "lh_n u = sint (of_le32 (V st))" using kept_log [OF u(2)] by simp
  moreover have "balanced t ?t" by (simp add: balanced_def holding_def)
  then have "log_same s u"
    using kept_log [OF u(2)] kept_log [OF t(2)] t(2) u(2) l n length_head_sectors [of "V st"]
    by (auto simp: log_same_def kept_iff intro: balanced_trans)
  moreover have "take (head_n (V st)) (lh_sector u) = head_sectors (V st)"
    using kept_log(2) [OF u(2)] length_head_sectors [of "V st"] by simp
  ultimately show ?thesis using u(3) by (simp add: runs_def)
qed

lemma runs_recover:
  assumes c: "cache s w D D {} {}" and l: "log_dev s = 1" "log_start s = st" "length (lh_sector s) = LOGSIZE"
    and n: "0 \<le> sint (of_le32 (D st))" and fits: "log_fits st (disksize s) (head_sectors (D st))"
  shows "runs recover_from_log s (\<lambda>_ t. disk t = recovered st D \<and> cache t (dtrace t) (disk t) (disk t) {} {}
    \<and> lh_n t = 0 \<and> log_same s t)"
proof -
  let ?hs = "head_sectors (D st)"
  have st: "st < disksize s" and n': "head_n (D st) \<le> LOGSIZE"
    using fits length_head_sectors [of "D st"] by (auto simp: log_fits_def word_less_nat_alt NBUF_def LOGSIZE_def)
  obtain t where t: "read_head s = Ret () t" "cache t w D D {} {}" "lh_n t = sint (of_le32 (D st))"
      "take (head_n (D st)) (lh_sector t) = ?hs" "log_dev t = 1" "log_start t = st" "disksize t = disksize s"
      "log_same s t"
    using runs_unitD [OF runs_read_head [OF c l st n']] l by (auto simp: log_same_def)
  have nn: "lh_n t = int (length ?hs)" using t(3) n by (simp add: length_head_sectors head_n_def)
  have fits': "log_fits st (disksize t) ?hs" and st': "st < disksize t" using fits st t(7) by simp_all
  let ?D = "replay (copies st ?hs D) D"
  obtain u where u: "install_trans t = Ret () u" "kept t u" "cache u (w @ copies st ?hs D) ?D ?D {} {}"
    using runs_install_trans [OF t(2,5,6) nn _ fits'] t(4) length_head_sectors [of "D st"] by (auto elim: runsE)
  let ?u = "u\<lparr>lh_n := 0\<rparr>"
  have cu: "cache ?u (w @ copies st ?hs D) ?D ?D {} {}" using u(3) by simp
  have "st \<notin> set ?hs" using fits by (auto simp: log_fits_def)
  then have Dst: "?D st = D st" by (rule copies_other)
  obtain v where v: "write_head ?u = Ret () v" "kept ?u v"
      "cache v ((w @ copies st ?hs D) @ [(st, head_block [] (D st))]) (?D(st := head_block [] (D st)))
        (?D(st := head_block [] (D st))) {} {}"
    using runs_write_head [OF cu, of st "[]"] st' t(5,6) kept_log [OF u(2)] Dst
    by (auto simp: NBUF_def elim: runsE)
  have "recover_from_log s = Ret () v"
    using t(1) u(1) v(1) by (simp add: recover_from_log_def andthen_def call_app modify_def)
  moreover have "disk v = recovered st D" "dtrace v = (w @ copies st ?hs D) @ [(st, head_block [] (D st))]"
    using cacheD(4,5) [OF v(3)] by (simp_all add: recovered_def)
  moreover have "log_same s v"
    using t(8) kept_log_same [OF u(2)] kept_log_same [OF v(2)] log_same_trans by (metis log_same_upds(2))
  ultimately show ?thesis using v(3) kept_log(1) [OF v(2)] by (simp add: runs_def recovered_def)
qed

text \<open>Changes that do not touch the cache.\<close>

lemma cache_same:
  assumes "cache s w D V X H" and "balanced s t" and "bufs t = bufs s" "disk t = disk s" "dtrace t = dtrace s"
    "bnext t = bnext s" "bprev t = bprev s"
  shows "cache t w D V X H"
  using assms links_cong [of t s] by (auto simp: cache_def cache_inv_def balanced_lock_free)

lemma proc_frame_log:
  "proc_frame s t \<Longrightarrow> log_busy t = log_busy s \<and> lh_n t = lh_n s \<and> lh_sector t = lh_sector s \<and> log_dev t = log_dev s
     \<and> log_start t = log_start s \<and> log_size t = log_size s \<and> disksize t = disksize s
     \<and> log_state.more t = log_state.more s"
  by (cases s; cases t) (simp add: proc_frame_def)

definition log_place :: "(u32 \<Rightarrow> u8 list) \<Rightarrow> u32" where
  "log_place D = sb_size (dec_superblock (D 1)) - sb_nlog (dec_superblock (D 1))"

lemma runs_initlog:
  assumes c: "cache s w D D {} {}" and st: "log_place D = st" "1 < disksize s"
    and n: "0 \<le> sint (of_le32 (D st))" and fits: "log_fits st (disksize s) (head_sectors (D st))"
  shows "runs initlog s (\<lambda>_ t. disk t = recovered st D \<and> cache t (dtrace t) (disk t) (disk t) {} {} \<and> lh_n t = 0
    \<and> log_dev t = 1 \<and> log_start t = st \<and> log_size t = sb_nlog (dec_superblock (D 1)) \<and> disksize t = disksize s
    \<and> length (lh_sector t) = LOGSIZE \<and> \<not> log_busy t \<and> lock_free LogLock t)"
proof -
  let ?s = "s\<lparr>lh_n := 0, lh_sector := replicate LOGSIZE 0, log_start := 0, log_size := 0, log_busy := False,
    log_dev := 0, locks := (locks s)(LogLock := \<lparr>locked = False, on_cpu = False\<rparr>)\<rparr>"
  have "cache ?s w D D {} {}"
    using c by (auto simp: cache_def cache_inv_def links_def lock_free_def cli_ok_def holding_def)

  obtain t where t: "readsb 1 ?s = Ret (dec_superblock (D 1)) t" "kept ?s t" "cache t w D D {} {}"
    using runs_readsb [OF \<open>cache ?s w D D {} {}\<close>] st(2) by (auto simp: NBUF_def runs_iff)
  let ?t = "t\<lparr>log_start := st, log_size := sb_nlog (dec_superblock (D 1)), log_dev := 1\<rparr>"
  have "cache ?t w D D {} {}" "disksize ?t = disksize s" "length (lh_sector ?t) = LOGSIZE"
    using t(3) kept_log [OF t(2)] by simp_all
  from runs_recover [of ?t w D st, OF this(1)] n fits this(2,3)
  have r: "runs recover_from_log ?t (\<lambda>_ t. disk t = recovered st D \<and> cache t (dtrace t) (disk t) (disk t) {} {}
      \<and> lh_n t = 0 \<and> log_same ?t t)"
    by simp
  have "lock_free LogLock ?s"
    using cacheD(10) [OF c] by (simp add: lock_free_def cli_ok_def holding_def)
  moreover have bal: "balanced ?s t" using t(2) by (simp add: kept_iff)
  ultimately have "lock_free LogLock t" using balanced_lock_free by blast
  then have "lock_free LogLock ?t" by (simp add: lock_free_def cli_ok_def holding_def)
  with r have "runs recover_from_log ?t (\<lambda>_ u. disk u = recovered st D \<and> cache u (dtrace u) (disk u) (disk u) {} {}
      \<and> lh_n u = 0 \<and> log_dev u = 1 \<and> log_start u = st \<and> log_size u = sb_nlog (dec_superblock (D 1))
      \<and> disksize u = disksize s \<and> length (lh_sector u) = LOGSIZE \<and> \<not> log_busy u \<and> lock_free LogLock u)"
    using kept_log [OF t(2)] by (auto simp: log_same_def balanced_lock_free intro: runs_mono)
  moreover have "initlog s = recover_from_log ?t"
    using t(1) st(1) by (simp add: initlog_def andthen_def call_app panic_if_def modify_def return_def initlock_def
        ROOTDEV_def log_place_def BSIZE_def LOGSIZE_def)
  ultimately show ?thesis by (simp add: runs_def)
qed

text \<open>
  \<open>in_trans s w D V H hs\<close>: a transaction is open and has logged the sectors \<open>hs\<close>; their blocks of
  the log hold their current contents, their buffers are dirty, and the header on disk is empty.
\<close>

definition in_trans :: "'z log_state_scheme \<Rightarrow> (u32 \<times> u8 list) list \<Rightarrow> (u32 \<Rightarrow> u8 list) \<Rightarrow> (u32 \<Rightarrow> u8 list) \<Rightarrow>
    (nat \<times> u32) set \<Rightarrow> u32 list \<Rightarrow> bool" where
  "in_trans s w D V H hs \<longleftrightarrow> cache s w D V (set hs) H \<and> log_busy s \<and> log_dev s = 1
     \<and> lh_n s = int (length hs) \<and> take (length hs) (lh_sector s) = hs \<and> length (lh_sector s) = LOGSIZE
     \<and> log_fits (log_start s) (disksize s) hs \<and> (\<forall>x \<in> snd ` H. x < log_start s)
     \<and> of_le32 (D (log_start s)) = 0 \<and> length (D (log_start s)) = BSIZE
     \<and> (\<forall>j < length hs. D (log_block (log_start s) j) = V (hs ! j))"

definition commit_writes :: "u32 \<Rightarrow> u32 list \<Rightarrow> (u32 \<Rightarrow> u8 list) \<Rightarrow> (u32 \<times> u8 list) list" where
  "commit_writes st hs D = (st, head_block hs (D st)) # copies st hs D @ [(st, head_block [] (head_block hs (D st)))]"

text \<open>The writes of a commit leave every sector below the log with its current contents.\<close>

lemma in_trans_values:
  assumes "in_trans s w D V {} hs" and "x < log_start s"
  shows "replay (copies (log_start s) hs D) D' x = (if x \<in> set hs then V x else D' x)"
proof (cases "x \<in> set hs")
  case True
  then obtain j where j: "j < length hs" "x = hs ! j" by (auto simp: in_set_conv_nth)
  then have "D (log_block (log_start s) j) = V x" "distinct hs"
    using assms(1) by (simp_all add: in_trans_def log_fits_def)
  then show ?thesis using copies_at [of hs j "log_start s" D D'] j True by simp
qed (simp add: copies_other)

lemma in_trans_clean: "in_trans s w D V {} hs \<Longrightarrow> x \<notin> set hs \<Longrightarrow> V x = D x"
  using clean_view [of s w D V "set hs" "{}" x] by (simp add: in_trans_def)

lemma runs_commit:
  assumes tr: "in_trans s w D V {} hs" and hs: "hs \<noteq> []" and lf: "lock_free LogLock s"
  defines "W \<equiv> commit_writes (log_start s) hs D"
  shows "\<exists>t V'. commit_trans s = Ret () t \<and> cache t (w @ W) (replay W D) V' {} {} \<and> \<not> log_busy t
    \<and> (\<forall>p \<in> set (procs t). \<not> (pstate p = SLEEPING \<and> chan p = Some LogChan)) \<and> (\<forall>x < log_start s. V' x = V x)
    \<and> lh_n t = 0 \<and> log_same (s\<lparr>log_busy := False\<rparr>) t"
proof -
  let ?st = "log_start s"
  let ?h1 = "head_block hs (D ?st)"
  have c: "cache s w D V (set hs) {}" and fits: "log_fits ?st (disksize s) hs" and dev: "log_dev s = 1"
    and n: "lh_n s = int (length hs)" "take (length hs) (lh_sector s) = hs"
    using tr by (simp_all add: in_trans_def)
  have st: "?st < disksize s" and nst: "?st \<notin> set hs" using fits by (auto simp: log_fits_def word_less_nat_alt)
  have Vst: "V ?st = D ?st" using in_trans_clean [OF tr nst] .
  have card: "card (set hs) < NBUF" using fits by (simp add: log_fits_def distinct_card)
  let ?D1 = "D(?st := ?h1)" and ?V1 = "V(?st := ?h1)"
  obtain t where t: "write_head s = Ret () t" "kept s t" "cache t (w @ [(?st, ?h1)]) ?D1 ?V1 (set hs) {}"
    using runs_unitD [OF runs_write_head [OF c dev refl st card n]] nst Vst by auto
  note kt = kept_log [OF t(2)]
  have "\<And>j. j < length hs \<Longrightarrow> ?V1 (log_block ?st j) = D (log_block ?st j)"
    using log_block_facts [OF fits] in_trans_clean [OF tr] by (metis fun_upd_other in_set_conv_nth less_irrefl)
  then have cp: "copies ?st hs ?V1 = copies ?st hs D" by (rule copies_cong)
  let ?D2 = "replay (copies ?st hs D) ?D1" and ?V2 = "replay (copies ?st hs D) ?V1"
  obtain u where u: "install_trans t = Ret () u" "kept t u" "cache u ((w @ [(?st, ?h1)]) @ copies ?st hs D) ?D2 ?V2 {} {}"
    using runs_unitD [OF runs_install_trans [OF t(3), of ?st hs]] kt n dev fits unfolding cp by auto
  note ku = kept_log [OF u(2)]
  let ?u = "u\<lparr>lh_n := 0\<rparr>"
  have cu: "cache ?u ((w @ [(?st, ?h1)]) @ copies ?st hs D) ?D2 ?V2 {} {}" using u(3) by simp
  have V2: "?V2 ?st = ?h1" by (simp add: copies_other [OF nst])
  let ?V3 = "?V2(?st := head_block [] ?h1)"
  obtain v where v: "write_head ?u = Ret () v" "kept ?u v" "cache v (w @ W) (replay W D) ?V3 {} {}"
    using runs_unitD [OF runs_write_head [OF cu, of ?st "[]"]] st dev kt ku V2
    by (auto simp: NBUF_def W_def commit_writes_def)
  have bal: "balanced s v" using t(2) u(2) v(2) balanced_trans by (auto simp: kept_iff balanced_def holding_def)
  let ?e = "entered LogLock v"
  let ?e1 = "?e\<lparr>log_busy := False\<rparr>"
  have lv: "lock_free LogLock v" "lock_free PtableLock v"
    using balanced_lock_free [OF bal] lf cacheD(10) [OF c] by simp_all
  then have "lock_free PtableLock ?e1"
    by (auto simp: lock_free_def cli_ok_def holding_def entered_def)
  from runs_unitD [OF runs_wakeup [OF this, of LogChan]] obtain y where
    y: "wakeup LogChan ?e1 = Ret () y" "balanced ?e1 y" "proc_frame ?e1 y" "procs y = map (wake LogChan) (procs ?e1)"
    by blast
  have be: "balanced ?e y" using y(2) by (simp add: balanced_def holding_def)
  have sec: "locked_section LogLock (andthen (modify (\<lambda>s. s\<lparr>log_busy := False\<rparr>)) (wakeup LogChan)) v = Ret () (left LogLock y)"
    using lv(1) be y(1) by (intro locked_section_eq) (simp_all add: lock_free_def andthen_def call_app modify_def)
  have "cache (left LogLock y) (w @ W) (replay W D) ?V3 {} {}"
    using proc_frame_bcache [OF y(3)] bracket_balanced [OF lv(1) be]
    by (intro cache_same [OF v(3)]) (simp_all add: entered_def)
  moreover have lb: "\<not> log_busy (left LogLock y)"
    using proc_frame_log [OF y(3)] by (simp add: left_def)
  moreover have "balanced (s\<lparr>log_busy := False\<rparr>) (left LogLock y)"
    using balanced_trans [OF bal bracket_balanced [OF lv(1) be]] by (simp add: balanced_def holding_def)
  then have "lh_n (left LogLock y) = 0" "log_same (s\<lparr>log_busy := False\<rparr>) (left LogLock y)"
    using proc_frame_log [OF y(3)] kt ku kept_log [OF v(2)] lb
    by (simp_all add: log_same_def) (simp_all add: left_def entered_def)
  moreover have "\<not> (pstate p = SLEEPING \<and> chan p = Some LogChan)" if "p \<in> set (procs (left LogLock y))" for p
    using that y(4) by (auto simp: wake_def split: if_splits)
  moreover have "?V3 x = V x" if "x < ?st" for x
    using in_trans_values [OF tr that, of ?V1] that by auto
  moreover have "commit_trans s = Ret () (left LogLock y)"
    using n hs t(1) u(1) v(1) sec by (simp add: commit_trans_def andthen_def call_app reads_def modify_def)
  ultimately show ?thesis by blast
qed

section \<open>Logging a block\<close>

text \<open>The sectors of the log after a write of \<open>x\<close>: a sector already logged is absorbed.\<close>

definition absorb :: "u32 \<Rightarrow> u32 list \<Rightarrow> u32 list" where
  "absorb x hs = (if x \<in> set hs then hs else hs @ [x])"

lemma log_slot_absorb:
  fixes x :: u32
  assumes "lh_n s = int (length hs)" and "take (length hs) (lh_sector s) = hs" and "length hs < length (lh_sector s)"
  defines "k \<equiv> log_slot x s"
  shows "k < length (absorb x hs)" "absorb x hs ! k = x"
    "take (length (absorb x hs)) ((lh_sector s)[k := x]) = absorb x hs"
    "k = length hs \<longleftrightarrow> x \<notin> set hs"
proof -
  have k: "k = (case find_index (\<lambda>y. y = x) hs of Some j \<Rightarrow> j | None \<Rightarrow> length hs)"
    using assms(1,2) by (simp add: k_def log_slot_def split: option.split)
  have nth: "lh_sector s ! j = hs ! j" if "j < length hs" for j using assms(2) that by (metis nth_take)
  have "k < length (absorb x hs) \<and> absorb x hs ! k = x
    \<and> take (length (absorb x hs)) ((lh_sector s)[k := x]) = absorb x hs \<and> (k = length hs \<longleftrightarrow> x \<notin> set hs)"
  proof (cases "find_index (\<lambda>y. y = x) hs")
    case None
    then have x: "x \<notin> set hs" "k = length hs" by (auto simp: find_index_None) (simp add: k None)
    have "take (Suc (length hs)) ((lh_sector s)[length hs := x]) = hs @ [x]"
      using assms(2,3) by (simp add: take_Suc_conv_app_nth)
    with x show ?thesis by (simp add: absorb_def)
  next
    case (Some j)
    then have j: "j < length hs" "hs ! j = x" "k = j" by (auto dest: find_index_SomeD simp: k)
    then have "x \<in> set hs" by auto
    moreover have "(lh_sector s)[j := x] = lh_sector s" using j nth by (metis list_update_id)
    ultimately show ?thesis using j assms(2) by (simp add: absorb_def)
  qed
  then show "k < length (absorb x hs)" "absorb x hs ! k = x"
    "take (length (absorb x hs)) ((lh_sector s)[k := x]) = absorb x hs" "k = length hs \<longleftrightarrow> x \<notin> set hs"
    by simp_all
qed

lemma runs_log_write:
  assumes c: "cache s w D V X H" and h: "(i, x) \<in> H" and l: "log_busy s" "log_start s = st"
    "lh_n s = int (length hs)" "take (length hs) (lh_sector s) = hs" "length (lh_sector s) = LOGSIZE"
    and room: "length hs < LOGSIZE" "int (length hs) < sint (log_size s) - 1" "card (X \<union> snd ` H) < NBUF"
    and L: "log_block st (log_slot x s) < disksize s" "log_block st (log_slot x s) \<notin> X"
      "log_block st (log_slot x s) \<notin> snd ` H"
  defines "b \<equiv> log_block st (log_slot x s)"
  shows "runs (log_write i) s (\<lambda>_ t. cache t (w @ [(b, V x)]) (D(b := V x)) (V(b := V x)) (insert x X) H
    \<and> log_same s t \<and> lh_n t = int (length (absorb x hs)) \<and> take (length (absorb x hs)) (lh_sector t) = absorb x hs)"
proof -
  let ?k = "log_slot x s"
  note g = cache_get [OF c h]
  note sl = log_slot_absorb [OF l(3,4), of x]
  let ?s1 = "s\<lparr>lh_sector := (lh_sector s)[?k := x]\<rparr>"
  have c1: "cache ?s1 w D V X H" using c by simp
  obtain j t where t: "bread 1 b ?s1 = Ret j t" "kept ?s1 t" "cache t w D V X (insert (j, b) H)"
    using bc.rd [OF c1, of b] L room(3) by (auto simp: b_def elim: runsE)
  have "x \<in> snd ` H" using h imageI [of "(i, x)" H snd] by simp
  then have xb: "x \<noteq> b" using L(3) unfolding b_def by metis
  have gd: "get_data i t = Ret (V x) t" using bc.dat [OF t(3), of i x] h by simp
  let ?V = "V(b := V x)"
  obtain u where u: "put_data j (V x) t = Ret () u" "kept t u" "cache u w D ?V X (insert (j, b) H)"
    using runs_unitD [OF bc.put [OF t(3), of j b "V x"]] by blast
  obtain v where v: "bwrite j u = Ret () v" "kept u v"
      "cache v (w @ [(b, V x)]) (D(b := V x)) ?V (X - {b}) (insert (j, b) H)"
    using runs_unitD [OF bc.wr [OF u(3), of j b]] L(1) kept_log(7) [OF t(2)] kept_log(7) [OF u(2)]
    by (auto simp: b_def)
  have "insert (j, b) H - {(j, b)} = H" "X - {b} = X" using L(2,3) by (auto simp: b_def image_iff)
  then obtain y where y: "brelse j v = Ret () y" "kept v y" "cache y (w @ [(b, V x)]) (D(b := V x)) ?V X H"
    using runs_unitD [OF bc.rel [OF v(3), of j b]] by auto
  have ky: "kept ?s1 y" using t(2) u(2) v(2) y(2) kept_trans by blast
  note k = kept_log [OF ky]
  let ?y = "y\<lparr>lh_n := (if int ?k = lh_n y then lh_n y + 1 else lh_n y)\<rparr>"
  have cy: "cache ?y (w @ [(b, V x)]) (D(b := V x)) ?V X H" using y(3) by simp
  obtain z where z: "upd_buf i (\<lambda>b. b\<lparr>b_dirty := True\<rparr>) ?y = Ret () z" "kept ?y z"
      "cache z (w @ [(b, V x)]) (D(b := V x)) ?V (insert x X) H"
    using cache_mark [OF cy h] by blast
  note kz = kept_log [OF z(2)]
  have "log_write i s = Ret () z"
    using l room(1,2) g(1,3,4) t(1) gd u(1) v(1) y(1) z(1)
    by (simp add: log_write_def call_app andthen_def reads_def modify_def panic_if_def return_def Let_def
        log_block_def b_def)
  moreover have "lh_n z = int (length (absorb x hs))"
    using kz(1) k(1) sl(4) l(3,5) room(1) by (auto simp: absorb_def)
  moreover have "balanced s z"
    using ky z(2) balanced_trans [of ?s1 y z] by (auto simp: kept_iff balanced_def holding_def)
  then have "log_same s z"
    using kz k l(5) by (simp add: log_same_def)
  ultimately show ?thesis
    using z(3) kz k sl(3) l room(1) by (simp add: runs_def)
qed

section \<open>A transaction\<close>

text \<open>The use of the log its comments describe, for one block: read it, modify it, \<open>log_write\<close> it
  instead of writing it, release it; and a whole transaction of such updates.\<close>

definition update_block :: "u32 \<Rightarrow> (u8 list \<Rightarrow> u8 list) \<Rightarrow> ('z log_state_scheme, unit) kern" where
  "update_block x f = call (bread 1 x) (\<lambda>i. call (get_data i) (\<lambda>d.
     andthen (put_data i (f d)) (andthen (log_write i) (brelse i))))"

definition transaction :: "(u32 \<times> (u8 list \<Rightarrow> u8 list)) list \<Rightarrow> ('z log_state_scheme, unit) kern" where
  "transaction ups = andthen begin_trans
     (andthen (for_each ups (\<lambda>(x, f). update_block x f)) commit_trans)"

definition updated :: "(u32 \<times> (u8 list \<Rightarrow> u8 list)) list \<Rightarrow> (u32 \<Rightarrow> u8 list) \<Rightarrow> u32 \<Rightarrow> u8 list" where
  "updated ups V = fold (\<lambda>(x, f) V. V(x := f (V x))) ups V"

text \<open>Between transactions: nothing dirty or in use, and an empty log at \<open>st\<close> of the size mkfs gives it.\<close>

definition quiet :: "'z log_state_scheme \<Rightarrow> u32 \<Rightarrow> bool" where
  "quiet s st \<longleftrightarrow> cache s (dtrace s) (disk s) (disk s) {} {} \<and> \<not> log_busy s \<and> log_dev s = 1
     \<and> log_start s = st \<and> log_size s = 10 \<and> lh_n s = 0 \<and> length (lh_sector s) = LOGSIZE
     \<and> lock_free LogLock s \<and> of_le32 (disk s st) = 0 \<and> length (disk s st) = BSIZE
     \<and> log_place (disk s) = st \<and> 1 < st \<and> unat st + LOGSIZE \<le> unat (disksize s)"

lemma unat_log_block:
  assumes "unat st + Suc j < 2 ^ 32"
  shows "unat (log_block st j) = unat st + Suc j"
proof -
  have n: "unat (of_nat (Suc j) :: u32) = Suc j" using assms by (intro unat_of_nat32) simp
  then have "unat (st + of_nat (Suc j)) = unat st + Suc j"
    using unat_add_lem [THEN iffD1, of st "of_nat (Suc j)"] assms unfolding n by simp
  moreover have "log_block st j = st + of_nat (Suc j)" by (simp add: log_block_def add.assoc add.commute)
  ultimately show ?thesis by (simp only:)
qed

lemma absorb_facts:
  "set (absorb x hs) = insert x (set hs)" "distinct hs \<Longrightarrow> distinct (absorb x hs)"
  "length hs \<le> length (absorb x hs)" "j < length hs \<Longrightarrow> absorb x hs ! j = hs ! j"
  by (auto simp: absorb_def nth_append)

lemma runs_update:
  assumes tr: "in_trans s w D V {} hs" and sz: "log_size s = 10" and x: "1 < x" "x < log_start s"
    and m: "unat (log_start s) + LOGSIZE \<le> unat (disksize s)" and len0: "Suc (length hs) < LOGSIZE"
  shows "\<exists>t b. update_block x f s = Ret () t \<and> log_start s < b \<and> log_same s t
    \<and> in_trans t (w @ [(b, f (V x))]) (D(b := f (V x))) (V(x := f (V x), b := f (V x))) {} (absorb x hs)"
proof -
  let ?st = "log_start s" and ?k = "log_slot x s" and ?d = "f (V x)" and ?hs = "absorb x hs"
  let ?b = "log_block ?st ?k"
  have c: "cache s w D V (set hs) {}" and fits: "log_fits ?st (disksize s) hs" and dev: "log_dev s = 1"
    and bz: "log_busy s" and n: "lh_n s = int (length hs)" "take (length hs) (lh_sector s) = hs"
      "length (lh_sector s) = LOGSIZE" and data: "\<And>j. j < length hs \<Longrightarrow> D (log_block ?st j) = V (hs ! j)"
    and head: "of_le32 (D ?st) = 0" "length (D ?st) = BSIZE"
    using tr by (simp_all add: in_trans_def)
  have lt: "length hs < LOGSIZE" and len: "length (absorb x hs) < LOGSIZE"
    using len0 by (auto simp: absorb_def)
  note sl = log_slot_absorb [OF n(1,2), of x, unfolded n(3), OF lt]
  have ub: "unat (log_block ?st j) = unat ?st + Suc j" if "j < LOGSIZE" for j
    using m that unat_lt32 [of "disksize s"] by (intro unat_log_block) simp
  have inj: "i = j" if "i < LOGSIZE" "j < LOGSIZE" "log_block ?st i = log_block ?st j" for i j
  proof -
    have "unat ?st + Suc i = unat ?st + Suc j" using ub [OF that(1)] ub [OF that(2)] that(3) by (simp only:)
    then show ?thesis by simp
  qed
  have b: "?st < ?b" "?b < disksize s" using ub [of ?k] sl(1) len m by (simp_all add: word_less_nat_alt)
  have card: "card (insert x (set hs)) < NBUF" "card (set hs) < NBUF"
  proof -
    have "distinct ?hs" using fits absorb_facts(2) by (simp add: log_fits_def)
    then show "card (insert x (set hs)) < NBUF"
      using distinct_card [of ?hs] absorb_facts(1) [of x hs] len by (simp add: NBUF_def LOGSIZE_def)
    then show "card (set hs) < NBUF" using card_mono [of "insert x (set hs)" "set hs", OF _ subset_insertI] by simp
  qed
  have xm: "x < disksize s" using x(2) b by (meson less_trans)
  obtain i t where t: "bread 1 x s = Ret i t" "kept s t" "cache t w D V (set hs) {(i, x)}"
    using bc.rd [OF c xm] card by (auto elim: runsE)
  note kt = kept_log [OF t(2)]
  have gd: "get_data i t = Ret (V x) t" using bc.dat [OF t(3)] by simp
  let ?V = "V(x := ?d)"
  obtain u where u: "put_data i ?d t = Ret () u" "kept t u" "cache u w D ?V (set hs) {(i, x)}"
    using runs_unitD [OF bc.put [OF t(3), of i x ?d]] by blast
  note ku = kept_log [OF u(2)]
  have slot: "log_slot x u = ?k" using kt ku by (simp add: log_slot_def split: option.split)
  have "\<forall>y \<in> set hs. y < ?st" using fits by (simp add: log_fits_def)
  then have nb: "?b \<notin> set hs" "?b \<noteq> x" using b(1) x(2) by auto
  have "runs (log_write i) u (\<lambda>_ y. cache y (w @ [(?b, ?V x)]) (D(?b := ?V x)) (?V(?b := ?V x)) (insert x (set hs)) {(i, x)}
    \<and> log_same u y \<and> lh_n y = int (length ?hs) \<and> take (length ?hs) (lh_sector y) = ?hs)"
  proof (rule runs_log_write [OF u(3), of i x ?st hs, unfolded slot])
    have "sint (log_size u) = 10" using kt ku sz by simp
    then show "int (length hs) < sint (log_size u) - 1" using len0 by (simp add: LOGSIZE_def)
    show "card (set hs \<union> snd ` {(i, x)}) < NBUF" using card(1) by simp
    show "?b \<notin> snd ` {(i, x)}" using nb(2) by simp
  qed (use kt ku bz n lt b nb in simp_all)
  then obtain y where y0: "log_write i u = Ret () y" "cache y (w @ [(?b, ?V x)]) (D(?b := ?V x)) (?V(?b := ?V x)) (insert x (set hs)) {(i, x)}"
    "log_same u y" "lh_n y = int (length ?hs)" "take (length ?hs) (lh_sector y) = ?hs"
    by (blast dest: runs_unitD)
  have y: "log_write i u = Ret () y" "cache y (w @ [(?b, ?d)]) (D(?b := ?d)) (?V(?b := ?d)) (insert x (set hs)) {(i, x)}"
    "log_busy y" "log_start y = ?st" "log_dev y = 1" "log_size y = 10" "disksize y = disksize s" "balanced u y"
    "lh_n y = int (length ?hs)" "take (length ?hs) (lh_sector y) = ?hs" "length (lh_sector y) = LOGSIZE"
    "log_state.more y = log_state.more s"
    using y0 kt ku dev sz bz n(3) by (simp_all add: log_same_def)
  obtain z where z: "brelse i y = Ret () z" "kept y z" "cache z (w @ [(?b, ?d)]) (D(?b := ?d)) (?V(?b := ?d)) (set ?hs) {}"
    using runs_unitD [OF bc.rel [OF y(2), of i x]] by (auto simp: absorb_facts)
  note kz = kept_log [OF z(2)]
  have "update_block x f s = Ret () z"
    using t(1) gd u(1) y(1) z(1) by (simp add: update_block_def call_app andthen_def)
  moreover have "balanced s z"
    using t(2) u(2) y(8) z(2) by (auto simp: kept_iff intro: balanced_trans)
  then have "log_same s z"
    using kz y bz dev sz n(3) by (simp add: log_same_def)
  moreover have "in_trans z (w @ [(?b, ?d)]) (D(?b := ?d)) (?V(?b := ?d)) {} ?hs"
  proof -
    have fits': "log_fits ?st (disksize s) ?hs"
      using fits x m len absorb_facts(1) [of x hs] absorb_facts(2) [of hs x] by (auto simp: log_fits_def NBUF_def LOGSIZE_def)
    have data': "(D(?b := ?d)) (log_block ?st j) = (?V(?b := ?d)) (?hs ! j)" if j: "j < length ?hs" for j
    proof (cases "j = ?k")
      case True
      then show ?thesis using sl(2) nb(2) by simp
    next
      case False
      have jh: "j < length hs" using False j sl(4) by (auto simp: absorb_def split: if_splits)
      have "log_block ?st j \<noteq> ?b" using False inj [of j ?k] j sl(1) len by (meson less_trans)
      moreover have "?hs ! j \<noteq> x"
        using False sl(1,2) j fits' nth_eq_iff_index_eq [of ?hs j ?k] by (auto simp: log_fits_def)
      moreover have "?hs ! j \<noteq> ?b" using nb(1) nth_mem [OF jh] absorb_facts(4) [OF jh, of x] by (metis (lifting))
      ultimately show ?thesis using data [OF jh] absorb_facts(4) [OF jh, of x] by simp
    qed
    show ?thesis
      using z(3) kz y fits' data' head b(1) by (auto simp: in_trans_def)
  qed
  ultimately show ?thesis using kz y b(1) by (intro exI [of _ z] exI [of _ ?b]) simp
qed

lemma begin_trans_eq:
  assumes "lock_free LogLock s" and "\<not> log_busy s"
  shows "begin_trans s = Ret () (left LogLock (entered LogLock s\<lparr>log_busy := True\<rparr>))"
proof -
  have "begin_trans s = locked_section LogLock (modify (\<lambda>s. s\<lparr>log_busy := True\<rparr>)) s"
    using assms by (simp add: begin_trans_def begin_loop_def locked_section_def andthen_def call_app acquire_eq
        reads_def modify_def release_eq lock_free_def entered_def return_def)
  also have "\<dots> = Ret () (left LogLock (entered LogLock s\<lparr>log_busy := True\<rparr>))"
    using assms by (intro locked_section_eq) (simp_all add: lock_free_def modify_def balanced_def holding_def)
  finally show ?thesis .
qed

lemma runs_begin:
  assumes "quiet s st"
  defines "w \<equiv> dtrace s" and "D \<equiv> disk s"
  shows "\<exists>t. begin_trans s = Ret () t \<and> log_same (s\<lparr>log_busy := True\<rparr>) t \<and> in_trans t w D D {} []"
proof -
  have q: "cache s w D D {} {}" "\<not> log_busy s" "log_dev s = 1" "log_start s = st" "log_size s = 10" "lh_n s = 0"
    "length (lh_sector s) = LOGSIZE" "lock_free LogLock s" "of_le32 (D st) = 0" "length (D st) = BSIZE"
    "unat st + LOGSIZE \<le> unat (disksize s)"
    using assms(1) by (simp_all add: quiet_def w_def D_def)
  let ?e = "entered LogLock s\<lparr>log_busy := True\<rparr>"
  let ?t = "left LogLock ?e"
  have be: "balanced (entered LogLock s) ?e" by (simp add: balanced_def holding_def)
  note bal = bracket_balanced [OF q(8) be]
  have "cache ?t w D D {} {}"
    by (rule cache_same [OF q(1) bal]) (simp_all add: entered_def left_def)
  then have "in_trans ?t w D D {} []"
    using q by (simp add: in_trans_def log_fits_def left_def entered_def LOGSIZE_def NBUF_def)
  moreover have "balanced (s\<lparr>log_busy := True\<rparr>) ?t" using bal by (simp add: balanced_def holding_def)
  then have "log_same (s\<lparr>log_busy := True\<rparr>) ?t" by (simp add: log_same_def) (simp add: left_def entered_def)
  ultimately show ?thesis using begin_trans_eq [OF q(8,2)] by blast
qed

lemma updated_cong:
  "\<forall>x < st. V x = V' x \<Longrightarrow> \<forall>(x, f) \<in> set ups. x < st \<Longrightarrow> x < st \<Longrightarrow> updated ups V x = updated ups V' x"
proof (induction ups arbitrary: V V')
  case (Cons p ups)
  obtain y f where p: "p = (y, f)" by (cases p)
  have "updated ups (V(y := f (V y))) x = updated ups (V'(y := f (V' y))) x"
    by (rule Cons.IH) (use Cons.prems p in auto)
  then show ?case by (simp add: updated_def p)
qed (simp add: updated_def)

lemma runs_updates:
  assumes "in_trans s w D V {} hs" and "log_size s = 10" and "log_start s = st"
    and "unat st + LOGSIZE \<le> unat (disksize s)" and "\<forall>(x, f) \<in> set ups. 1 < x \<and> x < st"
    and "length hs + length ups < LOGSIZE"
  shows "\<exists>t Ls V' hs'. for_each ups (\<lambda>(x, f). update_block x f) s = Ret () t \<and> log_same s t
    \<and> (\<forall>p \<in> set Ls. st < fst p) \<and> in_trans t (w @ Ls) (replay Ls D) V' {} hs'
    \<and> (\<forall>x < st. V' x = updated ups V x)"
  using assms
proof (induction ups arbitrary: s w D V hs)
  case Nil
  then show ?case
    by (intro exI [of _ s] exI [of _ "[]"]) (auto simp: updated_def return_def)
next
  case (Cons p ups)
  obtain x f where p: "p = (x, f)" by (cases p)
  have x: "1 < x" "x < log_start s" and m: "unat (log_start s) + LOGSIZE \<le> unat (disksize s)"
    and len: "Suc (length hs) < LOGSIZE"
    using Cons.prems p by auto
  let ?d = "f (V x)"
  obtain t b where t: "update_block x f s = Ret () t" "log_start s < b" "log_same s t"
      "in_trans t (w @ [(b, ?d)]) (D(b := ?d)) (V(x := ?d, b := ?d)) {} (absorb x hs)"
    using runs_update [OF Cons.prems(1,2) x m len, of f] by blast
  have "length (absorb x hs) + length ups < LOGSIZE" "\<forall>(x, f) \<in> set ups. 1 < x \<and> x < st"
    using Cons.prems(5,6) by (auto simp: absorb_def)
  then have "\<exists>u Ls V' hs'. for_each ups (\<lambda>(x, f). update_block x f) t = Ret () u \<and> log_same t u
      \<and> (\<forall>p \<in> set Ls. st < fst p) \<and> in_trans u ((w @ [(b, ?d)]) @ Ls) (replay Ls (D(b := ?d))) V' {} hs'
      \<and> (\<forall>y < st. V' y = updated ups (V(x := ?d, b := ?d)) y)"
    using t(3) Cons.prems(2,3,4) by (intro Cons.IH [OF t(4)]) (simp_all add: log_same_def del: fun_upd_apply)
  then obtain u Ls V' hs' where u: "for_each ups (\<lambda>(x, f). update_block x f) t = Ret () u" "log_same t u"
      "\<forall>p \<in> set Ls. st < fst p" "in_trans u ((w @ [(b, ?d)]) @ Ls) (replay Ls (D(b := ?d))) V' {} hs'"
      "\<forall>y < st. V' y = updated ups (V(x := ?d, b := ?d)) y"
    by blast
  have "updated ups (V(x := ?d, b := ?d)) y = updated (p # ups) V y" if "y < st" for y
  proof -
    have "updated ups (V(x := ?d, b := ?d)) y = updated ups (V(x := ?d)) y"
      by (rule updated_cong [OF _ _ that]) (use t(2) Cons.prems(3,5) in auto)
    then show ?thesis by (simp add: updated_def p)
  qed
  moreover have "for_each (p # ups) (\<lambda>(x, f). update_block x f) s = Ret () u"
    using t(1) u(1) p by (simp add: andthen_def call_app)
  ultimately show ?case
    using u t(2) Cons.prems(3) log_same_trans [OF t(3) u(2)]
    by - (rule exI [of _ u], rule exI [of _ "(b, ?d) # Ls"], rule exI [of _ V'], rule exI [of _ hs'],
      simp del: fun_upd_apply)
qed

section \<open>A crash at any write\<close>

text \<open>A disk on which recovery finds a sound header and leaves the sectors below the log either all as
  in \<open>D\<close> or all as in \<open>N\<close>.\<close>

definition recoverable :: "u32 \<Rightarrow> u32 \<Rightarrow> (u32 \<Rightarrow> u8 list) \<Rightarrow> (u32 \<Rightarrow> u8 list) \<Rightarrow> (u32 \<Rightarrow> u8 list) \<Rightarrow> bool" where
  "recoverable st m D N D' \<longleftrightarrow> D' 1 = D 1 \<and> 0 \<le> sint (of_le32 (D' st)) \<and> log_fits st m (head_sectors (D' st))
     \<and> ((\<forall>x < st. recovered st D' x = D x) \<or> (\<forall>x < st. recovered st D' x = N x))"

lemma head_empty: "of_le32 d = 0 \<Longrightarrow> head_sectors d = []"
  by (simp add: head_sectors_def head_n_def)

lemma recovered_empty: "of_le32 (D st) = 0 \<Longrightarrow> x < st \<Longrightarrow> recovered st D x = D x"
  by (auto simp: recovered_def head_empty home_writes_def)

lemma crash_empty:
  assumes "of_le32 (D' st) = 0" and "1 < st" and "unat st < unat m" and "D' 1 = D 1"
    and "(\<forall>x < st. D' x = D x) \<or> (\<forall>x < st. D' x = N x)"
  shows "recoverable st m D N D'"
  using assms recovered_empty [of D' st]
  by (simp add: recoverable_def head_empty log_fits_def NBUF_def)

lemma crash_full:
  assumes tr: "in_trans s w E V {} hs" and st: "log_start s = st" "disksize s = m"
    and D': "D' st = head_block hs (E st)" "D' 1 = D 1" "\<forall>x < st. x \<notin> set hs \<longrightarrow> D' x = E x"
      "\<forall>x > st. D' x = E x" and N: "\<forall>x < st. V x = N x"
  shows "recoverable st m D N D'"
proof -
  have fits: "log_fits st m hs" and len: "length (E st) = BSIZE" and le: "length hs \<le> LOGSIZE"
    using tr st by (auto simp: in_trans_def log_fits_def NBUF_def LOGSIZE_def)
  have hd: "head_sectors (D' st) = hs" using head_block_facts [OF len le] D'(1) by simp
  have "of_le32 (D' st) = of_nat (length hs)" by (simp add: D'(1) head_block_def patch_def)
  then have n: "0 \<le> sint (of_le32 (D' st))" using le by (simp add: sint_small LOGSIZE_def)
  have cp: "copies st hs D' = copies st hs E"
    using log_block_facts(1) [OF fits] D'(4) by (intro copies_cong) simp
  have "recovered st D' x = N x" if x: "x < st" for x
  proof -
    have "recovered st D' x = replay (copies st hs E) D' x" using x by (auto simp: recovered_def hd cp)
    also have "\<dots> = (if x \<in> set hs then V x else D' x)" using in_trans_values [OF tr, of x D'] x st by simp
    also have "\<dots> = V x" using D'(3) x in_trans_clean [OF tr, of x] by simp
    finally show ?thesis using N x by simp
  qed
  with fits n D'(2) show ?thesis by (simp add: recoverable_def hd)
qed

lemma crash_commit:
  assumes tr: "in_trans s w E V {} hs" and st: "log_start s = st" "disksize s = m" "1 < st"
    and E: "\<forall>x \<le> st. E x = D x" and N: "\<forall>x < st. V x = N x"
  shows "recoverable st m D N (replay (take k (commit_writes st hs E)) E)"
proof -
  have fits: "log_fits st m hs" and e: "of_le32 (E st) = 0" "unat st < unat m"
    using tr st by (auto simp: in_trans_def log_fits_def)
  have out: "st \<notin> set hs" "1 \<notin> set hs" using fits by (auto simp: log_fits_def)
  have other: "replay (take j (copies st hs E)) D' x = D' x" if "x \<notin> set hs" for j D' x
  proof (rule replay_other)
    have "fst ` set (take j (copies st hs E)) \<subseteq> set hs"
      using set_take_subset [of j "copies st hs E"] set_copies [of st hs E] by auto
    with that show "x \<notin> fst ` set (take j (copies st hs E))" by blast
  qed
  have above: "x \<notin> set hs" if "st < x" for x using that fits by (auto simp: log_fits_def)
  let ?h1 = "head_block hs (E st)"
  consider (none) "k = 0" | (some) j where "k = Suc j" "j \<le> length hs" | (every) "Suc (length hs) < k"
    by (cases k; cases "k - 1 \<le> length hs") auto
  then show ?thesis
  proof cases
    case none
    with e st(3) E show ?thesis by (intro crash_empty) auto
  next
    case some
    have "length (copies st hs E) = length hs" by (simp add: home_writes_def)
    then have t: "take k (commit_writes st hs E) = (st, ?h1) # take j (copies st hs E)"
      using some by (simp add: commit_writes_def)
    show ?thesis
      unfolding t by (rule crash_full [OF tr st(1,2) _ _ _ _ N]) (use E st(3) less_imp_neq [OF st(3)] out above in \<open>simp_all add: other\<close>)
  next
    case every
    have "length (copies st hs E) = length hs" by (simp add: home_writes_def)
    then have t: "take k (commit_writes st hs E) = commit_writes st hs E"
      using every by (simp add: commit_writes_def)
    let ?D = "replay (commit_writes st hs E) E"
    have "?D x = N x" if "x < st" for x
      using that N in_trans_values [OF tr, of x "E(st := ?h1)"] in_trans_clean [OF tr, of x] st(1)
      by (auto simp: commit_writes_def)
    moreover have "of_le32 (?D st) = 0" by (simp add: commit_writes_def head_block_def patch_def)
    moreover have "?D 1 = D 1" using out(2) st(3) less_imp_neq [OF st(3)] E by (simp add: commit_writes_def copies_other)
    ultimately show ?thesis unfolding t using st(3) e(2) by (intro crash_empty) auto
  qed
qed

lemma runs_commit_any:
  assumes tr: "in_trans s w D V {} hs" and lf: "lock_free LogLock s"
  shows "\<exists>t V' W. commit_trans s = Ret () t \<and> cache t (w @ W) (replay W D) V' {} {}
    \<and> (\<forall>x < log_start s. V' x = V x) \<and> (W = [] \<and> hs = [] \<or> W = commit_writes (log_start s) hs D)
    \<and> lh_n t = 0 \<and> log_same (s\<lparr>log_busy := False\<rparr>) t"
proof (cases "hs = []")
  case True
  let ?e = "entered LogLock s" and ?e1 = "entered LogLock s\<lparr>log_busy := False\<rparr>"
  have c: "cache s w D V {} {}" and n: "lh_n s = 0" using tr True by (simp_all add: in_trans_def)
  have "lock_free PtableLock ?e1"
    using cacheD(10) [OF c] lf by (auto simp: lock_free_def cli_ok_def holding_def entered_def)
  from runs_unitD [OF runs_wakeup [OF this, of LogChan]] obtain y where
    y: "wakeup LogChan ?e1 = Ret () y" "balanced ?e1 y" "proc_frame ?e1 y" by blast
  have be: "balanced ?e y" using y(2) by (simp add: balanced_def holding_def)
  have "commit_trans s = Ret () (left LogLock y)"
    using n lf be y(1) locked_section_eq [of LogLock s "andthen (modify (\<lambda>s. s\<lparr>log_busy := False\<rparr>)) (wakeup LogChan)" "()" y]
    by (simp add: commit_trans_def andthen_def call_app reads_def modify_def lock_free_def return_def)
  moreover have "cache (left LogLock y) w D V {} {}"
    using proc_frame_bcache [OF y(3)] bracket_balanced [OF lf be]
    by (intro cache_same [OF c]) (simp_all add: entered_def)
  moreover have "balanced (s\<lparr>log_busy := False\<rparr>) (left LogLock y)"
    using bracket_balanced [OF lf be] by (simp add: balanced_def holding_def)
  then have "lh_n (left LogLock y) = 0" "log_same (s\<lparr>log_busy := False\<rparr>) (left LogLock y)"
    using proc_frame_log [OF y(3)] n by (simp_all add: log_same_def) (simp_all add: left_def entered_def)
  ultimately show ?thesis
    using True by - (rule exI [of _ "left LogLock y"], rule exI [of _ V], rule exI [of _ "[]"], simp)
next
  case False
  then show ?thesis using runs_commit [OF tr _ lf] by blast
qed

lemma reboot:
  assumes r: "recoverable st (disksize u) D N (disk u)" and p: "log_place D = st" "1 < disksize u"
    and lf: "lock_free PtableLock u"
  shows "runs (andthen binit initlog) u (\<lambda>_ v. (\<forall>x < st. disk v x = D x) \<or> (\<forall>x < st. disk v x = N x))"
proof -
  obtain t where t: "binit u = Ret () t" "kept (u\<lparr>locks := locks t\<rparr>) t" "cache t (dtrace u) (disk u) (disk u) {} {}"
    using binit_cache [OF lf] by blast
  have m: "disksize t = disksize u" using kept_log(7) [OF t(2)] by simp
  have pl: "log_place (disk u) = st" using r p(1) by (simp add: log_place_def recoverable_def)
  have "runs initlog t (\<lambda>_ v. disk v = recovered st (disk u))"
    using r p(2) m by (intro runs_mono [OF runs_initlog [OF t(3) pl]]) (simp_all add: recoverable_def)
  then have "runs initlog t (\<lambda>_ v. (\<forall>x < st. disk v x = D x) \<or> (\<forall>x < st. disk v x = N x))"
    using r by (auto simp: recoverable_def intro: runs_mono)
  then show ?thesis using t(1) by (simp add: runs_eq)
qed

lemma commit_writes_head:
  assumes "log_fits st m hs" and "length (E st) = BSIZE"
  shows "of_le32 (replay (commit_writes st hs E) E st) = 0" "length (replay (commit_writes st hs E) E st) = BSIZE"
proof -
  have "length hs \<le> LOGSIZE" using assms(1) by (simp add: log_fits_def NBUF_def LOGSIZE_def)
  then have "length (head_block hs (E st)) = BSIZE" using head_block_facts assms(2) by blast
  then show "length (replay (commit_writes st hs E) E st) = BSIZE"
    using head_block_facts(1) [of "head_block hs (E st)" "[]"] by (simp add: commit_writes_def)
qed (simp add: commit_writes_def head_block_def patch_def)

lemma runs_transaction:
  assumes q: "quiet s st" and ups: "\<forall>(x, f) \<in> set ups. 1 < x \<and> x < st" "length ups < LOGSIZE"
  shows "\<exists>t W. transaction ups s = Ret () t \<and> dtrace t = dtrace s @ W \<and> disk t = replay W (disk s)
    \<and> quiet t st \<and> disksize t = disksize s \<and> (\<forall>x < st. disk t x = updated ups (disk s) x)
    \<and> (\<forall>k. recoverable st (disksize s) (disk s) (updated ups (disk s)) (replay (take k W) (disk s)))"
proof -
  let ?D = "disk s" and ?m = "disksize s"
  have m: "unat st + LOGSIZE \<le> unat ?m" and lf: "lock_free LogLock s" and one: "1 < st"
    and hd: "of_le32 (?D st) = 0" "length (?D st) = BSIZE" and pl: "log_place ?D = st"
    and lg: "log_size s = 10" "log_start s = st" "log_dev s = 1" "length (lh_sector s) = LOGSIZE"
    using q by (simp_all add: quiet_def)
  obtain t where t: "begin_trans s = Ret () t" "log_same (s\<lparr>log_busy := True\<rparr>) t" "in_trans t (dtrace s) ?D ?D {} []"
    using runs_begin [OF q] by blast
  have t': "log_size t = 10" "log_start t = st" "unat st + LOGSIZE \<le> unat (disksize t)"
    using t(2) m lg by (simp_all add: log_same_def)
  obtain u Ls V hs where u: "for_each ups (\<lambda>(x, f). update_block x f) t = Ret () u" "log_same t u"
      "\<forall>p \<in> set Ls. st < fst p" "in_trans u (dtrace s @ Ls) (replay Ls ?D) V {} hs"
      "\<forall>x < st. V x = updated ups ?D x"
    using runs_updates [OF t(3) t' ups(1)] ups(2) by auto
  have u': "log_start u = st" "disksize u = ?m" using u(2) t(2) t' by (simp_all add: log_same_def)
  have bal: "balanced s t" using t(2) by (simp add: log_same_def) (simp add: balanced_def holding_def)
  then have lu: "lock_free LogLock u"
    using lf balanced_lock_free [OF balanced_trans, of s t u] u(2) by (simp add: log_same_def)
  from runs_commit_any [OF u(4) this] obtain v V' C where
    v: "commit_trans u = Ret () v" "cache v ((dtrace s @ Ls) @ C) (replay C (replay Ls ?D)) V' {} {}"
      "\<forall>x < st. V' x = V x" "C = [] \<and> hs = [] \<or> C = commit_writes st hs (replay Ls ?D)"
      "lh_n v = 0" "log_same (u\<lparr>log_busy := False\<rparr>) v"
    unfolding u'(1) by blast
  have V': "V' = replay C (replay Ls ?D)" using clean_view [OF v(2)] by auto
  note vd = cacheD(4,5) [OF v(2)]
  have low: "replay (take k Ls) ?D x = ?D x" if "x \<le> st" for k x
    using u(3) that by (intro replay_other) (auto dest!: in_set_takeD dest: bspec leD)
  note low' = low [of _ "length Ls", unfolded take_all [OF le_refl]]
  have com: "recoverable st ?m ?D (updated ups ?D) (replay (take k (commit_writes st hs (replay Ls ?D))) (replay Ls ?D))" for k
    using u(5) low' by (intro crash_commit [OF u(4) u' one]) simp_all
  have rec: "recoverable st ?m ?D (updated ups ?D) (replay (take k (Ls @ C)) ?D)" for k
  proof (cases "k \<le> length Ls")
    case True
    then show ?thesis using hd one m low by (intro crash_empty) (auto simp: LOGSIZE_def)
  next
    case False
    then show ?thesis using v(4) com [of "k - length Ls"] com [of 0] by (auto simp: take_all)
  qed
  have "of_le32 (disk v st) = 0 \<and> length (disk v st) = BSIZE"
    using v(4) vd(1) low' hd u(4) u'(1) commit_writes_head [of st "disksize u" hs "replay Ls ?D"]
    by (auto simp: in_trans_def)
  moreover have "disk v 1 = ?D 1" using rec [of "length (Ls @ C)"] vd(1) by (simp add: recoverable_def)
  moreover have "lock_free LogLock v"
    using lu v(6) balanced_lock_free [of "u\<lparr>log_busy := False\<rparr>" v LogLock]
    by (simp add: log_same_def) (simp add: lock_free_def cli_ok_def holding_def)
  ultimately have "quiet v st"
    using v(5,6) u(2) t(2) lg v(2) V' vd one m pl u'
    by (simp add: quiet_def log_same_def log_place_def)
  moreover have "transaction ups s = Ret () v"
    using t(1) u(1) v(1) by (simp add: transaction_def andthen_def call_app)
  moreover have "disksize v = ?m" using v(6) u' by (simp add: log_same_def)
  ultimately show ?thesis
    using rec vd V' v(3) u(5) by - (rule exI [of _ v], rule exI [of _ "Ls @ C"], simp)
qed

lemma runs_boot:
  assumes "lock_free PtableLock u" and "1 < disksize u" and "log_place (disk u) = st" "1 < st"
    and "0 \<le> sint (of_le32 (disk u st))" and "log_fits st (disksize u) (head_sectors (disk u st))"
    and "sb_nlog (dec_superblock (disk u 1)) = 10" and "unat st + LOGSIZE \<le> unat (disksize u)"
    and "length (disk u st) = BSIZE"
  shows "runs (andthen binit initlog) u (\<lambda>_ v. disk v = recovered st (disk u)
    \<and> (\<forall>x < st. recovered st (disk v) x = disk v x) \<and> quiet v st)"
proof -
  let ?R = "recovered st (disk u)"
  obtain t where t: "binit u = Ret () t" "kept (u\<lparr>locks := locks t\<rparr>) t" "cache t (dtrace u) (disk u) (disk u) {} {}"
    using binit_cache [OF assms(1)] by blast
  have m: "disksize t = disksize u" using kept_log(7) [OF t(2)] by simp
  have h: "of_le32 (?R st) = 0" "length (?R st) = BSIZE"
    using head_block_facts(1) [OF assms(9), of "[]"] by (simp_all add: recovered_def) (simp add: head_block_def patch_def)
  have "1 \<notin> set (head_sectors (disk u st))" using assms(6) by (auto simp: log_fits_def)
  then have one: "?R 1 = disk u 1" using less_imp_neq [OF assms(4)] by (simp add: recovered_def copies_other)
  have idem: "\<forall>x < st. recovered st ?R x = ?R x" using h(1) recovered_empty by blast
  have "runs initlog t (\<lambda>_ v. disk v = ?R \<and> (\<forall>x < st. recovered st (disk v) x = disk v x) \<and> quiet v st)"
    by (rule runs_mono [OF runs_initlog [OF t(3) assms(3)]])
      (use assms(2-8) m h one idem in \<open>auto simp: quiet_def log_place_def\<close>)
  then show ?thesis using t(1) by (simp add: runs_eq)
qed

section \<open>Properties\<close>

text \<open>C1: a transaction is atomic. Run from a quiet log, with updates of at most nine blocks below the
  log, it returns; and if the machine stops after any number \<open>k\<close> of the disk writes it makes, then any
  machine that boots from the disk as those writes left it (binit, then initlog, which recovers from the
  log) finds the blocks below the log either all as before the transaction or all updated.\<close>

theorem crash_atomic:
  assumes "quiet s st" and "\<forall>(x, f) \<in> set ups. 1 < x \<and> x < st" and "length ups \<le> 9"
  shows "\<exists>t W. transaction ups s = Ret () t \<and> dtrace t = dtrace s @ W \<and> disk t = replay W (disk s)
    \<and> (\<forall>k (u :: log_state). disk u = replay (take k W) (disk s) \<longrightarrow> disksize u = disksize s \<longrightarrow> lock_free PtableLock u \<longrightarrow>
       runs (andthen binit initlog) u (\<lambda>_ v.
         (\<forall>x < st. disk v x = disk s x) \<or> (\<forall>x < st. disk v x = updated ups (disk s) x)))"
proof -
  have st: "log_place (disk s) = st" "1 < disksize s"
    using assms(1) by (auto simp: quiet_def LOGSIZE_def word_less_nat_alt)
  obtain t W where t: "transaction ups s = Ret () t" "dtrace t = dtrace s @ W" "disk t = replay W (disk s)"
      "\<forall>k. recoverable st (disksize s) (disk s) (updated ups (disk s)) (replay (take k W) (disk s))"
    using runs_transaction [OF assms(1,2)] assms(3) by (auto simp: LOGSIZE_def)
  have "runs (andthen binit initlog) u (\<lambda>_ v.
      (\<forall>x < st. disk v x = disk s x) \<or> (\<forall>x < st. disk v x = updated ups (disk s) x))"
    if "disk u = replay (take k W) (disk s)" "disksize u = disksize s" "lock_free PtableLock u" for k and u :: log_state
    using t(4) that st by (intro reboot) simp_all
  with t show ?thesis by blast
qed

text \<open>C2: a transaction of at most nine block updates commits: the blocks below the log hold the updated
  contents on the disk, the cache agrees with it with nothing dirty or in use, and the log is ready
  for the next transaction.\<close>

theorem transaction_commits:
  assumes "quiet s st" and "\<forall>(x, f) \<in> set ups. 1 < x \<and> x < st" and "length ups \<le> 9"
  shows "runs (transaction ups) s (\<lambda>_ t. quiet t st \<and> (\<forall>x < st. disk t x = updated ups (disk s) x))"
  using runs_transaction [OF assms(1,2)] assms(3) by (auto simp: LOGSIZE_def runs_def)

text \<open>C3: booting does what the header on the disk says: it copies the logged blocks to the sectors
  listed there and empties the header, so a second recovery changes nothing below the log; and
  on a disk whose log has the size mkfs gives it the log is then ready for a transaction.\<close>

theorem boot_recovers:
  assumes "lock_free PtableLock u" and "1 < disksize u" and "log_place (disk u) = st" "1 < st"
    and "0 \<le> sint (of_le32 (disk u st))" and "log_fits st (disksize u) (head_sectors (disk u st))"
    and "sb_nlog (dec_superblock (disk u 1)) = 10" and "unat st + LOGSIZE \<le> unat (disksize u)"
    and "length (disk u st) = BSIZE"
  shows "runs (andthen binit initlog) u (\<lambda>_ v. disk v = recovered st (disk u)
    \<and> (\<forall>x < st. recovered st (disk v) x = disk v x) \<and> quiet v st)"
  by (rule runs_boot [OF assms])

section \<open>The properties at a concrete state\<close>

text \<open>A machine with a disk of 1024 sectors, whose super block puts a log of 10 at sector 1014.\<close>

definition fresh_disk :: "u32 \<Rightarrow> u8 list" where
  "fresh_disk = (\<lambda>_. replicate BSIZE 0)(1 := patch 0 (words_le [1024, 0, 0, 10]) (replicate BSIZE 0))"

definition log_boot :: log_state where
  "log_boot = bcache.extend (bio_start\<lparr>disk := fresh_disk\<rparr>)
     \<lparr>lh_n = 0, lh_sector = [], log_start = 0, log_size = 0, log_busy = False, log_dev = 0\<rparr>"

lemma log_boot_facts: "lock_free PtableLock log_boot" "disk log_boot = fresh_disk" "disksize log_boot = 1024"
  using bio_start_facts(1) [of PtableLock] bio_start_facts(3)
  by (simp_all add: log_boot_def bcache.defs lock_free_def cli_ok_def holding_def)

lemma fresh_disk_facts: "log_place fresh_disk = 1014" "sb_nlog (dec_superblock (fresh_disk 1)) = 10"
    "of_le32 (fresh_disk 1014) = 0" "length (fresh_disk x) = BSIZE" "fresh_disk 5 = replicate BSIZE 0"
  by (simp_all add: fresh_disk_def log_place_def dec_superblock_def patch_def BSIZE_def)
    (simp add: of_le32_def)

lemma fresh_disk_boots: "1 < disksize log_boot" "log_place (disk log_boot) = 1014"
    "0 \<le> sint (of_le32 (disk log_boot 1014))" "log_fits 1014 (disksize log_boot) (head_sectors (disk log_boot 1014))"
    "sb_nlog (dec_superblock (disk log_boot 1)) = 10" "unat (1014 :: u32) + LOGSIZE \<le> unat (disksize log_boot)"
    "length (disk log_boot 1014) = BSIZE" "1 < (1014 :: u32)"
  by (simp_all only: log_boot_facts fresh_disk_facts head_empty)
    (simp_all add: log_fits_def NBUF_def LOGSIZE_def)

theorem boot_recovers_witness:
  "runs (andthen binit initlog) log_boot (\<lambda>_ v. disk v = recovered 1014 (disk log_boot)
    \<and> (\<forall>x < 1014. recovered 1014 (disk v) x = disk v x) \<and> quiet v 1014)"
  by (rule boot_recovers [OF log_boot_facts(1) fresh_disk_boots(1,2,8,3-7)])

lemma log_booted:
  obtains s where "andthen binit initlog log_boot = Ret () s" and "quiet s 1014" and "\<forall>x < 1014. disk s x = fresh_disk x"
proof -
  note r = runs_boot [OF log_boot_facts(1) fresh_disk_boots(1,2,8,3-7)]
  obtain s where s: "andthen binit initlog log_boot = Ret () s" "disk s = recovered 1014 (disk log_boot)" "quiet s 1014"
    using runs_unitD [OF r] by blast
  have "\<forall>x < 1014. disk s x = fresh_disk x"
    using recovered_empty [of fresh_disk 1014, OF fresh_disk_facts(3)] by (simp only: s(2) log_boot_facts(2)) blast
  with s show ?thesis by (intro that)
qed

theorem crash_atomic_witness:
  "\<exists>s t W. andthen binit initlog log_boot = Ret () s \<and> transaction [(5, \<lambda>_. replicate BSIZE 7)] s = Ret () t
    \<and> disk t = replay W (disk s)
    \<and> (\<forall>k (u :: log_state). disk u = replay (take k W) (disk s) \<longrightarrow> disksize u = disksize s \<longrightarrow> lock_free PtableLock u \<longrightarrow>
       runs (andthen binit initlog) u (\<lambda>_ v. disk v 5 = replicate BSIZE 0 \<or> disk v 5 = replicate BSIZE 7))"
proof -
  obtain s where s: "andthen binit initlog log_boot = Ret () s" "quiet s 1014" "\<forall>x < 1014. disk s x = fresh_disk x"
    by (rule log_booted)
  let ?ups = "[(5 :: u32, \<lambda>_ :: u8 list. replicate BSIZE 7)]"
  have ups: "\<forall>(x, f) \<in> set ?ups. 1 < x \<and> x < 1014" "length ?ups \<le> 9" by simp_all
  obtain t W where t: "transaction ?ups s = Ret () t" "disk t = replay W (disk s)"
      "\<forall>k (u :: log_state). disk u = replay (take k W) (disk s) \<longrightarrow> disksize u = disksize s \<longrightarrow> lock_free PtableLock u \<longrightarrow>
       runs (andthen binit initlog) u (\<lambda>_ v.
         (\<forall>x < 1014. disk v x = disk s x) \<or> (\<forall>x < 1014. disk v x = updated ?ups (disk s) x))"
    using crash_atomic [OF s(2) ups] by blast
  have five: "(5 :: u32) < 1014" by simp
  then have s5: "disk s 5 = replicate BSIZE 0" using s(3) fresh_disk_facts(5) by metis
  have u5: "updated ?ups (disk s) 5 = replicate BSIZE 7" by (simp add: updated_def)
  have v: "disk v 5 = replicate BSIZE 0 \<or> disk v 5 = replicate BSIZE 7"
    if "(\<forall>x < 1014. disk v x = disk s x) \<or> (\<forall>x < 1014. disk v x = updated ?ups (disk s) x)" for v :: log_state
    using that five s5 u5 by metis
  have "runs (andthen binit initlog) u (\<lambda>_ v. disk v 5 = replicate BSIZE 0 \<or> disk v 5 = replicate BSIZE 7)"
    if "disk u = replay (take k W) (disk s)" "disksize u = disksize s" "lock_free PtableLock u" for k and u :: log_state
    by (rule runs_mono [OF t(3) [rule_format, OF that] v])
  with t(1,2) s(1) show ?thesis by blast
qed

theorem transaction_commits_witness:
  "\<exists>s. andthen binit initlog log_boot = Ret () s
    \<and> runs (transaction [(5, \<lambda>_. replicate BSIZE 7)]) s (\<lambda>_ t. quiet t 1014 \<and> disk t 5 = replicate BSIZE 7)"
proof -
  obtain s where s: "andthen binit initlog log_boot = Ret () s" "quiet s 1014" "\<forall>x < 1014. disk s x = fresh_disk x"
    by (rule log_booted)
  have "runs (transaction [(5, \<lambda>_. replicate BSIZE 7)]) s (\<lambda>_ t. quiet t 1014
    \<and> (\<forall>x < 1014. disk t x = updated [(5, \<lambda>_. replicate BSIZE 7)] (disk s) x))"
    by (rule transaction_commits [OF s(2)]) simp_all
  then have "runs (transaction [(5, \<lambda>_. replicate BSIZE 7)]) s (\<lambda>_ t. quiet t 1014 \<and> disk t 5 = replicate BSIZE 7)"
    by (rule runs_mono) (auto simp: updated_def)
  with s(1) show ?thesis by blast
qed

end
