(* ===== verification/Fs.thy ===== *)
theory Fs
  imports Log
begin

text \<open>
  fs.c: blocks, inodes, directories and path names. A pointer to an in-memory inode is its index
  in the cache. Functions that read or write the contents of an inode take the device table
  \<open>devsw\<close> as an argument, because its entries (framebuffer.c, uart\_keyboard.c) in turn lock
  inodes.
\<close>

section \<open>State\<close>

definition NINODE :: nat where "NINODE = 50"
definition NDEV :: int where "NDEV = 10"
definition NDIRECT :: nat where "NDIRECT = 12"
definition NINDIRECT :: nat where "NINDIRECT = 128"
definition MAXFILE :: nat where "MAXFILE = NDIRECT + NINDIRECT"
definition DIRSIZ :: nat where "DIRSIZ = 14"
definition ROOTINO :: u32 where "ROOTINO = 1"
definition IPB :: u32 where "IPB = 8"
definition BPB :: u32 where "BPB = 4096"
definition T_DIR :: u16 where "T_DIR = 1"
definition T_FILE :: u16 where "T_FILE = 2"
definition T_DEV :: u16 where "T_DEV = 3"

definition IBLOCK :: "u32 \<Rightarrow> u32" where "IBLOCK i = i div IPB + 2"
definition BBLOCK :: "u32 \<Rightarrow> u32 \<Rightarrow> u32" where "BBLOCK b ninodes = b div BPB + ninodes div IPB + 3"

text \<open>struct dinode, 64 bytes on disk. The shorts are words here; where their sign matters they
  are read with \<open>sint\<close>.\<close>

record dinode =
  d_type :: u16
  d_major :: u16
  d_minor :: u16
  d_nlink :: u16
  d_size :: u32
  d_addrs :: "u32 list"

definition dinode0 :: dinode where
  "dinode0 = \<lparr>d_type = 0, d_major = 0, d_minor = 0, d_nlink = 0, d_size = 0,
     d_addrs = replicate (NDIRECT + 1) 0\<rparr>"

definition enc_dinode :: "dinode \<Rightarrow> u8 list" where
  "enc_dinode d = le16 (d_type d) @ le16 (d_major d) @ le16 (d_minor d) @ le16 (d_nlink d)
     @ le32 (d_size d) @ words_le (d_addrs d)"

definition dec_dinode :: "u8 list \<Rightarrow> dinode" where
  "dec_dinode bs = \<lparr>d_type = of_le16 bs, d_major = of_le16 (drop 2 bs), d_minor = of_le16 (drop 4 bs),
     d_nlink = of_le16 (drop 6 bs), d_size = of_le32 (drop 8 bs),
     d_addrs = get_words (NDIRECT + 1) (drop 12 bs)\<rparr>"

text \<open>struct dirent, 16 bytes.\<close>

type_synonym dirent = "u16 \<times> u8 list"

definition enc_dirent :: "dirent \<Rightarrow> u8 list" where
  "enc_dirent de = le16 (fst de) @ snd de"

definition dec_dirent :: "u8 list \<Rightarrow> dirent" where
  "dec_dirent bs = (of_le16 bs, take DIRSIZ (drop 2 bs))"

text \<open>struct inode: the bookkeeping, and a copy of the inode on disk.\<close>

record inode =
  i_dev :: u32
  i_inum :: u32
  i_ref :: int
  i_busy :: bool
  i_valid :: bool
  i_copy :: dinode

definition inode0 :: inode where
  "inode0 = \<lparr>i_dev = 0, i_inum = 0, i_ref = 0, i_busy = False, i_valid = False, i_copy = dinode0\<rparr>"

record fs_state = log_state +
  inodes :: "inode list"

text \<open>The device table: for a major number, the read and write functions, if any. A read
  function returns its value and the bytes it stores at the destination.\<close>

type_synonym 's dev_read = "nat \<Rightarrow> int \<Rightarrow> ('s, int \<times> u8 list) kern"
type_synonym 's dev_write = "nat \<Rightarrow> u32 \<Rightarrow> int \<Rightarrow> ('s, int) kern"
type_synonym 's devsw = "nat \<Rightarrow> 's dev_read option \<times> 's dev_write option"

section \<open>Blocks\<close>

definition bzero :: "u32 \<Rightarrow> u32 \<Rightarrow> ('z log_state_scheme, unit) kern" where
  "bzero dev bno =
     call (bread dev bno) (\<lambda>i.
     andthen (put_data i (replicate BSIZE 0))
     (andthen (log_write i) (brelse i)))"

text \<open>The bit \<open>bi\<close> of a bitmap block, and the block with the bit set and cleared.\<close>

definition bit_at :: "u8 list \<Rightarrow> nat \<Rightarrow> bool" where
  "bit_at d bi \<longleftrightarrow> d ! (bi div 8) AND push_bit (bi mod 8) 1 \<noteq> 0"

definition set_bit_at :: "u8 list \<Rightarrow> nat \<Rightarrow> u8 list" where
  "set_bit_at d bi = d[bi div 8 := d ! (bi div 8) OR push_bit (bi mod 8) 1]"

definition clear_bit_at :: "u8 list \<Rightarrow> nat \<Rightarrow> u8 list" where
  "clear_bit_at d bi = d[bi div 8 := d ! (bi div 8) AND NOT (push_bit (bi mod 8) 1)]"

text \<open>The first clear bit of a bitmap block among the first \<open>n\<close>.\<close>

definition first_clear :: "u8 list \<Rightarrow> nat \<Rightarrow> nat option" where
  "first_clear d n = find_index (\<lambda>bi. \<not> bit_at d bi) [0 ..< n]"

text \<open>The outer loop of \<open>balloc\<close> over the bitmap blocks, from block number \<open>b\<close>.\<close>

fun balloc_loop :: "nat \<Rightarrow> u32 \<Rightarrow> superblock \<Rightarrow> u32 \<Rightarrow> ('z log_state_scheme, u32) kern" where
  "balloc_loop 0 dev sb b = undef ''balloc: out of iterations''"
| "balloc_loop (Suc n) dev sb b =
     (if b < sb_size sb then
        call (bread dev (BBLOCK b (sb_ninodes sb))) (\<lambda>i.
        call (get_data i) (\<lambda>d.
        case first_clear d (min (unat BPB) (unat (sb_size sb) - unat b)) of
          Some bi \<Rightarrow>
            andthen (put_data i (set_bit_at d bi))
            (andthen (log_write i)
            (andthen (brelse i)
            (andthen (bzero dev (b + of_nat bi)) (return (b + of_nat bi)))))
        | None \<Rightarrow> andthen (brelse i) (balloc_loop n dev sb (b + BPB))))
      else panic ''balloc: out of blocks'')"

text \<open>There are at most \<open>2 ^ 20\<close> bitmap blocks of 4096 bits.\<close>

definition balloc :: "u32 \<Rightarrow> ('z log_state_scheme, u32) kern" where
  "balloc dev = call (readsb dev) (\<lambda>sb. balloc_loop (2 ^ 20 + 1) dev sb 0)"

definition bfree :: "u32 \<Rightarrow> u32 \<Rightarrow> ('z log_state_scheme, unit) kern" where
  "bfree dev b =
     call (readsb dev) (\<lambda>sb.
     call (bread dev (BBLOCK b (sb_ninodes sb))) (\<lambda>i.
     call (get_data i) (\<lambda>d.
     let bi = unat (b mod BPB) in
     andthen (panic_if (\<not> bit_at d bi) ''freeing free block'')
     (andthen (put_data i (clear_bit_at d bi))
     (andthen (log_write i) (brelse i))))))"

section \<open>The inode cache\<close>

definition iinit :: "('z fs_state_scheme, unit) kern" where
  "iinit = andthen (modify (\<lambda>s. s\<lparr>inodes := replicate NINODE inode0\<rparr>)) (initlock IcacheLock)"

definition get_inode :: "nat \<Rightarrow> ('z fs_state_scheme, inode) kern" where
  "get_inode ip = (\<lambda>s. if ip < length (inodes s) then Ret (inodes s ! ip) s
     else Undef ''no such inode'')"

definition upd_inode :: "nat \<Rightarrow> (inode \<Rightarrow> inode) \<Rightarrow> ('z fs_state_scheme, unit) kern" where
  "upd_inode ip f = modify (\<lambda>s. s\<lparr>inodes := (inodes s)[ip := f (inodes s ! ip)]\<rparr>)"

definition iget_body :: "u32 \<Rightarrow> u32 \<Rightarrow> ('z fs_state_scheme, nat) kern" where
  "iget_body dev inum =
     call (reads inodes) (\<lambda>ips.
     case find_index (\<lambda>ip. i_ref ip > 0 \<and> i_dev ip = dev \<and> i_inum ip = inum) ips of
       Some i \<Rightarrow> andthen (upd_inode i (\<lambda>ip. ip\<lparr>i_ref := i_ref ip + 1\<rparr>)) (return i)
     | None \<Rightarrow>
         (case find_index (\<lambda>ip. i_ref ip = 0) ips of
            None \<Rightarrow> panic ''iget: no inodes''
          | Some i \<Rightarrow>
              andthen (upd_inode i (\<lambda>ip. ip\<lparr>i_dev := dev, i_inum := inum, i_ref := 1,
                  i_busy := False, i_valid := False\<rparr>))
                (return i)))"

definition iget :: "u32 \<Rightarrow> u32 \<Rightarrow> ('z fs_state_scheme, nat) kern" where
  "iget dev inum = locked_section IcacheLock (iget_body dev inum)"

definition idup :: "nat \<Rightarrow> ('z fs_state_scheme, nat) kern" where
  "idup ip =
     andthen (locked_section IcacheLock
       (call (get_inode ip) (\<lambda>_. upd_inode ip (\<lambda>i. i\<lparr>i_ref := i_ref i + 1\<rparr>))))
     (return ip)"

text \<open>The bytes of inode \<open>inum\<close> in its block.\<close>

definition dinode_off :: "u32 \<Rightarrow> nat" where
  "dinode_off inum = unat (inum mod IPB) * 64"

fun ialloc_loop :: "nat \<Rightarrow> u32 \<Rightarrow> u16 \<Rightarrow> u32 \<Rightarrow> u32 \<Rightarrow> ('z fs_state_scheme, nat) kern" where
  "ialloc_loop 0 dev type nin inum = panic ''ialloc: no inodes''"
| "ialloc_loop (Suc n) dev type nin inum =
     (if inum < nin then
        call (bread dev (IBLOCK inum)) (\<lambda>i.
        call (get_data i) (\<lambda>d.
        if d_type (dec_dinode (drop (dinode_off inum) d)) = 0 then
          andthen (put_data i (patch (dinode_off inum) (enc_dinode (dinode0\<lparr>d_type := type\<rparr>)) d))
          (andthen (log_write i)
          (andthen (brelse i) (iget dev inum)))
        else andthen (brelse i) (ialloc_loop n dev type nin (inum + 1))))
      else panic ''ialloc: no inodes'')"

text \<open>The loop stops after at most \<open>sb.ninodes\<close> inodes.\<close>

definition ialloc :: "u32 \<Rightarrow> u16 \<Rightarrow> ('z fs_state_scheme, nat) kern" where
  "ialloc dev type =
     call (readsb dev) (\<lambda>sb. ialloc_loop (unat (sb_ninodes sb)) dev type (sb_ninodes sb) 1)"

definition iupdate :: "nat \<Rightarrow> ('z fs_state_scheme, unit) kern" where
  "iupdate ip =
     call (get_inode ip) (\<lambda>i.
     call (bread (i_dev i) (IBLOCK (i_inum i))) (\<lambda>b.
     call (get_data b) (\<lambda>d.
     andthen (put_data b (patch (dinode_off (i_inum i)) (enc_dinode (i_copy i)) d))
     (andthen (log_write b) (brelse b)))))"

definition ilock_fill :: "nat \<Rightarrow> ('z fs_state_scheme, unit) kern" where
  "ilock_fill ip =
     call (get_inode ip) (\<lambda>i.
     if i_valid i then return ()
     else
       call (bread (i_dev i) (IBLOCK (i_inum i))) (\<lambda>b.
       call (get_data b) (\<lambda>d.
       let din = dec_dinode (drop (dinode_off (i_inum i)) d) in
       andthen (upd_inode ip (\<lambda>i. i\<lparr>i_copy := din\<rparr>))
       (andthen (brelse b)
       (andthen (upd_inode ip (\<lambda>i. i\<lparr>i_valid := True\<rparr>))
       (panic_if (d_type din = 0) ''ilock: no type''))))))"

text \<open>\<open>ilock\<close>, with the loop that waits for a busy inode and comes back in \<open>ilock_resume\<close>. A null
  pointer cannot be an index, so that test has no counterpart.\<close>

definition ilock_loop :: "nat \<Rightarrow> ('z fs_state_scheme, unit) kern" where
  "ilock_loop ip =
     call (get_inode ip) (\<lambda>i.
     if i_busy i then sleep (InodeChan ip) IcacheLock
     else andthen (upd_inode ip (\<lambda>i. i\<lparr>i_busy := True\<rparr>))
       (andthen (release IcacheLock) (ilock_fill ip)))"

definition ilock :: "nat \<Rightarrow> ('z fs_state_scheme, unit) kern" where
  "ilock ip =
     call (get_inode ip) (\<lambda>i.
     andthen (panic_if (i_ref i < 1) ''ilock'')
     (andthen (acquire IcacheLock) (ilock_loop ip)))"

definition ilock_resume :: "bool \<Rightarrow> nat \<Rightarrow> ('z fs_state_scheme, unit) kern" where
  "ilock_resume saved ip = andthen (sleep_return saved IcacheLock) (ilock_loop ip)"

definition iunlock :: "nat \<Rightarrow> ('z fs_state_scheme, unit) kern" where
  "iunlock ip =
     call (get_inode ip) (\<lambda>i.
     andthen (panic_if (\<not> i_busy i \<or> i_ref i < 1) ''iunlock'')
     (locked_section IcacheLock
       (andthen (upd_inode ip (\<lambda>i. i\<lparr>i_busy := False\<rparr>)) (wakeup (InodeChan ip)))))"

section \<open>Inode content\<close>

definition set_addr :: "nat \<Rightarrow> nat \<Rightarrow> u32 \<Rightarrow> ('z fs_state_scheme, unit) kern" where
  "set_addr ip k a = upd_inode ip (\<lambda>i. i\<lparr>i_copy := (i_copy i)\<lparr>d_addrs := (d_addrs (i_copy i))[k := a]\<rparr>\<rparr>)"

text \<open>The block number stored in slot \<open>k\<close> of the inode, allocated if it is still zero.\<close>

definition addr_slot :: "nat \<Rightarrow> nat \<Rightarrow> ('z fs_state_scheme, u32) kern" where
  "addr_slot ip k =
     call (get_inode ip) (\<lambda>i.
     let a = d_addrs (i_copy i) ! k in
     if a = 0 then call (balloc (i_dev i)) (\<lambda>a. andthen (set_addr ip k a) (return a))
     else return a)"

definition bmap :: "nat \<Rightarrow> u32 \<Rightarrow> ('z fs_state_scheme, u32) kern" where
  "bmap ip bn =
     (if unat bn < NDIRECT then addr_slot ip (unat bn)
      else if unat bn - NDIRECT < NINDIRECT then
        call (addr_slot ip NDIRECT) (\<lambda>ia.
        call (get_inode ip) (\<lambda>i.
        call (bread (i_dev i) ia) (\<lambda>b.
        call (get_data b) (\<lambda>d.
        let k = unat bn - NDIRECT; a = of_le32 (drop (4 * k) d) in
        if a = 0 then
          call (balloc (i_dev i)) (\<lambda>a.
          call (get_data b) (\<lambda>d.
          andthen (put_data b (patch (4 * k) (le32 a) d))
          (andthen (log_write b) (andthen (brelse b) (return a)))))
        else andthen (brelse b) (return a)))))
      else panic ''bmap: out of range'')"

definition free_slot :: "nat \<Rightarrow> nat \<Rightarrow> ('z fs_state_scheme, unit) kern" where
  "free_slot ip k =
     call (get_inode ip) (\<lambda>i.
     if d_addrs (i_copy i) ! k = 0 then return ()
     else andthen (bfree (i_dev i) (d_addrs (i_copy i) ! k)) (set_addr ip k 0))"

definition itrunc :: "nat \<Rightarrow> ('z fs_state_scheme, unit) kern" where
  "itrunc ip =
     andthen (for_each [0 ..< NDIRECT] (free_slot ip))
     (call (get_inode ip) (\<lambda>i.
     let ia = d_addrs (i_copy i) ! NDIRECT in
     andthen
       (if ia = 0 then return ()
        else
          call (bread (i_dev i) ia) (\<lambda>b.
          call (get_data b) (\<lambda>d.
          andthen (for_each [0 ..< NINDIRECT] (\<lambda>j.
             let a = of_le32 (drop (4 * j) d) in if a = 0 then return () else bfree (i_dev i) a))
          (andthen (brelse b)
          (andthen (bfree (i_dev i) ia) (set_addr ip NDIRECT 0))))))
     (andthen (upd_inode ip (\<lambda>i. i\<lparr>i_copy := (i_copy i)\<lparr>d_size := 0\<rparr>\<rparr>))
     (iupdate ip))))"

text \<open>\<open>iput\<close>. The first test of the source is on a reference about to be dropped.\<close>

definition iput :: "nat \<Rightarrow> ('z fs_state_scheme, unit) kern" where
  "iput ip =
     andthen (acquire IcacheLock)
     (call (get_inode ip) (\<lambda>i.
     andthen
       (if i_ref i = 1 \<and> i_valid i \<and> d_nlink (i_copy i) = 0 then
          andthen (panic_if (i_busy i) ''iput busy'')
          (andthen (upd_inode ip (\<lambda>i. i\<lparr>i_busy := True\<rparr>))
          (andthen (release IcacheLock)
          (andthen (itrunc ip)
          (andthen (upd_inode ip (\<lambda>i. i\<lparr>i_copy := (i_copy i)\<lparr>d_type := 0\<rparr>\<rparr>))
          (andthen (iupdate ip)
          (andthen (acquire IcacheLock)
          (andthen (upd_inode ip (\<lambda>i. i\<lparr>i_busy := False, i_valid := False\<rparr>))
          (wakeup (InodeChan ip)))))))))
        else return ())
     (andthen (upd_inode ip (\<lambda>i. i\<lparr>i_ref := i_ref i - 1\<rparr>))
     (release IcacheLock))))"

definition iunlockput :: "nat \<Rightarrow> ('z fs_state_scheme, unit) kern" where
  "iunlockput ip = andthen (iunlock ip) (iput ip)"

text \<open>\<open>stati\<close>: the fields of struct stat, as the tuple type, dev, ino, nlink, size.\<close>

definition stati :: "nat \<Rightarrow> ('z fs_state_scheme, u16 \<times> u32 \<times> u32 \<times> u16 \<times> u32) kern" where
  "stati ip =
     call (get_inode ip) (\<lambda>i.
     return (d_type (i_copy i), i_dev i, i_inum i, d_nlink (i_copy i), d_size (i_copy i)))"

text \<open>The number of bytes a pass of the loops of \<open>readi\<close> and \<open>writei\<close> moves: up to the end of
  the block, or all that are left.\<close>

definition chunk :: "u32 \<Rightarrow> nat \<Rightarrow> nat" where
  "chunk off cnt = min cnt (BSIZE - unat off mod BSIZE)"

lemma chunk_pos: "0 < cnt \<Longrightarrow> 0 < chunk off cnt"
  by (simp add: chunk_def BSIZE_def)

lemma chunk_le: "chunk off cnt \<le> cnt"
  by (simp add: chunk_def)

function readi_loop :: "nat \<Rightarrow> u32 \<Rightarrow> nat \<Rightarrow> ('z fs_state_scheme, u8 list) kern" where
  "readi_loop ip off cnt =
     (if cnt = 0 then return []
      else
        let m = chunk off cnt in
        call (bmap ip (off div of_nat BSIZE)) (\<lambda>a.
        call (get_inode ip) (\<lambda>i.
        call (bread (i_dev i) a) (\<lambda>b.
        call (get_data b) (\<lambda>d.
        andthen (brelse b)
        (call (readi_loop ip (off + of_nat m) (cnt - m)) (\<lambda>rest.
         return (slice (unat off mod BSIZE) m d @ rest))))))))"
  by pat_completeness auto
termination
  by (relation "measure (\<lambda>(ip, off, cnt). cnt)") (auto simp: chunk_pos)

declare readi_loop.simps [simp del]

text \<open>\<open>readi\<close>: the value returned, and the bytes stored at \<open>dst\<close>.\<close>

definition readi :: "'z fs_state_scheme devsw \<Rightarrow> nat \<Rightarrow> u32 \<Rightarrow> u32 \<Rightarrow>
    ('z fs_state_scheme, int \<times> u8 list) kern" where
  "readi dv ip off n =
     call (get_inode ip) (\<lambda>i.
     let din = i_copy i; major = sint (d_major din) in
     if d_type din = T_DEV then
       (if major < 0 \<or> major \<ge> NDEV then return (- 1, [])
        else case fst (dv (nat major)) of
          None \<Rightarrow> return (- 1, [])
        | Some f \<Rightarrow> f ip (sint n))
     else if off > d_size din \<or> off + n < off then return (- 1, [])
     else
       let n = (if off + n > d_size din then d_size din - off else n) in
       call (readi_loop ip off (unat n)) (\<lambda>bs. return (sint n, bs)))"

function writei_loop :: "nat \<Rightarrow> u32 \<Rightarrow> u8 list \<Rightarrow> ('z fs_state_scheme, unit) kern" where
  "writei_loop ip off bs =
     (if bs = [] then return ()
      else
        let m = chunk off (length bs) in
        call (bmap ip (off div of_nat BSIZE)) (\<lambda>a.
        call (get_inode ip) (\<lambda>i.
        call (bread (i_dev i) a) (\<lambda>b.
        call (get_data b) (\<lambda>d.
        andthen (put_data b (patch (unat off mod BSIZE) (take m bs) d))
        (andthen (log_write b)
        (andthen (brelse b)
        (writei_loop ip (off + of_nat m) (drop m bs)))))))))"
  by pat_completeness auto
termination
  by (relation "measure (\<lambda>(ip, off, bs). length bs)") (auto simp: chunk_pos)

declare writei_loop.simps [simp del]

text \<open>\<open>writei\<close>: \<open>bs\<close> are the \<open>n\<close> bytes at \<open>src\<close>.\<close>

definition writei :: "'z fs_state_scheme devsw \<Rightarrow> nat \<Rightarrow> u32 \<Rightarrow> u8 list \<Rightarrow> u32 \<Rightarrow> u32 \<Rightarrow>
    ('z fs_state_scheme, int) kern" where
  "writei dv ip src bs off n =
     call (get_inode ip) (\<lambda>i.
     let din = i_copy i; major = sint (d_major din) in
     if d_type din = T_DEV then
       (if major < 0 \<or> major \<ge> NDEV then return (- 1)
        else case snd (dv (nat major)) of
          None \<Rightarrow> return (- 1)
        | Some f \<Rightarrow> f ip src (sint n))
     else if off > d_size din \<or> off + n < off then return (- 1)
     else if off + n > of_nat (MAXFILE * BSIZE) then return (- 1)
     else
       andthen (writei_loop ip off bs)
       (call (get_inode ip) (\<lambda>i.
        andthen (if n > 0 \<and> off + n > d_size (i_copy i) then
            andthen (upd_inode ip (\<lambda>i. i\<lparr>i_copy := (i_copy i)\<lparr>d_size := off + n\<rparr>\<rparr>)) (iupdate ip)
          else return ())
        (return (sint n)))))"

section \<open>Directories\<close>

definition namecmp :: "u8 list \<Rightarrow> u8 list \<Rightarrow> int option" where
  "namecmp s t = strncmp s t DIRSIZ"

text \<open>A comparison or a copy that leaves the array it reads is undefined.\<close>

definition defined :: "'a option \<Rightarrow> ('s, 'a) kern" where
  "defined x = (case x of Some a \<Rightarrow> return a | None \<Rightarrow> undef ''string past its array'')"

definition read_dirent :: "'z fs_state_scheme devsw \<Rightarrow> nat \<Rightarrow> u32 \<Rightarrow> string \<Rightarrow>
    ('z fs_state_scheme, dirent) kern" where
  "read_dirent dv dp off msg =
     call (readi dv dp off 16) (\<lambda>(r, bs).
     andthen (panic_if (r \<noteq> 16) msg) (return (dec_dirent bs)))"

text \<open>The loops over the entries of a directory; a directory of \<open>size\<close> bytes has at most
  \<open>size div 16 + 1\<close> of them.\<close>

fun dirlookup_loop :: "nat \<Rightarrow> 'z fs_state_scheme devsw \<Rightarrow> nat \<Rightarrow> u32 \<Rightarrow> u8 list \<Rightarrow> u32 \<Rightarrow>
    ('z fs_state_scheme, (nat \<times> u32) option) kern" where
  "dirlookup_loop 0 dv dp dsz name off = undef ''dirlookup: out of iterations''"
| "dirlookup_loop (Suc n) dv dp dsz name off =
     (if off < dsz then
        call (read_dirent dv dp off ''dirlink read'') (\<lambda>de.
        if fst de = 0 then dirlookup_loop n dv dp dsz name (off + 16)
        else
          call (defined (namecmp name (snd de))) (\<lambda>c.
          if c = 0 then
            call (get_inode dp) (\<lambda>i.
            call (iget (i_dev i) (ucast (fst de))) (\<lambda>ip. return (Some (ip, off))))
          else dirlookup_loop n dv dp dsz name (off + 16)))
      else return None)"

definition entries :: "u32 \<Rightarrow> nat" where
  "entries dsz = unat dsz div 16 + 2"

definition dirlookup :: "'z fs_state_scheme devsw \<Rightarrow> nat \<Rightarrow> u8 list \<Rightarrow>
    ('z fs_state_scheme, (nat \<times> u32) option) kern" where
  "dirlookup dv dp name =
     call (get_inode dp) (\<lambda>i.
     andthen (panic_if (d_type (i_copy i) \<noteq> T_DIR) ''dirlookup not DIR'')
     (dirlookup_loop (entries (d_size (i_copy i))) dv dp (d_size (i_copy i)) name 0))"

fun empty_dirent :: "nat \<Rightarrow> 'z fs_state_scheme devsw \<Rightarrow> nat \<Rightarrow> u32 \<Rightarrow> u32 \<Rightarrow>
    ('z fs_state_scheme, u32) kern" where
  "empty_dirent 0 dv dp dsz off = undef ''dirlink: out of iterations''"
| "empty_dirent (Suc n) dv dp dsz off =
     (if off < dsz then
        call (read_dirent dv dp off ''dirlink read'') (\<lambda>de.
        if fst de = 0 then return off else empty_dirent n dv dp dsz (off + 16))
      else return off)"

definition dirlink :: "'z fs_state_scheme devsw \<Rightarrow> nat \<Rightarrow> u8 list \<Rightarrow> u32 \<Rightarrow>
    ('z fs_state_scheme, int) kern" where
  "dirlink dv dp name inum =
     call (dirlookup dv dp name) (\<lambda>found.
     case found of
       Some (ip, _) \<Rightarrow> andthen (iput ip) (return (- 1))
     | None \<Rightarrow>
         call (get_inode dp) (\<lambda>i.
         call (empty_dirent (entries (d_size (i_copy i))) dv dp (d_size (i_copy i)) 0) (\<lambda>off.
         call (defined (strncpy (replicate DIRSIZ 0) name DIRSIZ)) (\<lambda>nm.
         call (writei dv dp 0 (enc_dirent (ucast inum, nm)) off 16) (\<lambda>r.
         andthen (panic_if (r \<noteq> 16) ''dirlink'') (return 0))))))"

section \<open>Paths\<close>

text \<open>Paths are the bytes before the terminating zero. \<open>skipelem\<close> gives the rest of the path and
  the contents of \<open>name\<close>, with its terminator where there is room for one.\<close>

definition SLASH :: u8 where "SLASH = 47"

definition skipelem :: "u8 list \<Rightarrow> (u8 list \<times> u8 list) option" where
  "skipelem path =
     (let p = dropWhile (\<lambda>c. c = SLASH) path in
      if p = [] then None
      else
        let s = takeWhile (\<lambda>c. c \<noteq> SLASH) p; q = dropWhile (\<lambda>c. c \<noteq> SLASH) p;
          name = (if length s \<ge> DIRSIZ then take DIRSIZ s else s @ [0]) in
        Some (dropWhile (\<lambda>c. c = SLASH) q, name))"

lemma skipelem_shorter:
  assumes "skipelem path = Some (rest, name)"
  shows "length rest < length path"
proof -
  let ?p = "dropWhile (\<lambda>c. c = SLASH) path" and ?q = "dropWhile (\<lambda>c. c \<noteq> SLASH) (dropWhile (\<lambda>c. c = SLASH) path)"
  have p: "?p \<noteq> []" and r: "rest = dropWhile (\<lambda>c. c = SLASH) ?q"
    using assms by (auto simp: skipelem_def Let_def split: if_splits)
  have "hd ?p \<noteq> SLASH" using hd_dropWhile [OF p] by simp
  with p have q: "?q = dropWhile (\<lambda>c. c \<noteq> SLASH) (tl ?p)"
    by (metis (mono_tags, lifting) dropWhile.simps(2) list.collapse)
  have "length ?q \<le> length (tl ?p)" unfolding q by (rule length_dropWhile_le)
  moreover have "length rest \<le> length ?q" unfolding r by (rule length_dropWhile_le)
  moreover have "length (tl ?p) < length ?p" using p by simp
  moreover have "length ?p \<le> length path" by (rule length_dropWhile_le)
  ultimately show ?thesis by linarith
qed

function namex_loop :: "'z fs_state_scheme devsw \<Rightarrow> bool \<Rightarrow> nat \<Rightarrow> u8 list \<Rightarrow>
    ('z fs_state_scheme, (nat \<times> u8 list) option) kern" where
  "namex_loop dv par ip path =
     (case skipelem path of
        None \<Rightarrow> if par then andthen (iput ip) (return None) else return (Some (ip, []))
      | Some (rest, name) \<Rightarrow>
          andthen (ilock ip)
          (call (get_inode ip) (\<lambda>i.
          if d_type (i_copy i) \<noteq> T_DIR then andthen (iunlockput ip) (return None)
          else if par \<and> rest = [] then andthen (iunlock ip) (return (Some (ip, name)))
          else
            call (dirlookup dv ip name) (\<lambda>found.
            case found of
              None \<Rightarrow> andthen (iunlockput ip) (return None)
            | Some (next, _) \<Rightarrow> andthen (iunlockput ip) (namex_loop dv par next rest)))))"
  by pat_completeness auto
termination
  by (relation "measure (\<lambda>(dv, par, ip, path). length path)") (auto simp: skipelem_shorter)

declare namex_loop.simps [simp del]

definition namex :: "'z fs_state_scheme devsw \<Rightarrow> u8 list \<Rightarrow> bool \<Rightarrow>
    ('z fs_state_scheme, (nat \<times> u8 list) option) kern" where
  "namex dv path par =
     call (if take 1 path = [SLASH] then iget ROOTDEV ROOTINO
           else call (get_curr cwd) (\<lambda>c. case c of
               Some ip \<Rightarrow> idup ip | None \<Rightarrow> undef ''null cwd''))
       (\<lambda>ip. namex_loop dv par ip path)"

definition namei :: "'z fs_state_scheme devsw \<Rightarrow> u8 list \<Rightarrow> ('z fs_state_scheme, nat option) kern" where
  "namei dv path = call (namex dv path False) (\<lambda>r. return (map_option fst r))"

definition nameiparent :: "'z fs_state_scheme devsw \<Rightarrow> u8 list \<Rightarrow>
    ('z fs_state_scheme, (nat \<times> u8 list) option) kern" where
  "nameiparent dv path = namex dv path True"

end
