(* ===== verification/File.thy ===== *)
theory File
  imports Fs
begin

text \<open>
  file.c, the table of open files, and pipealloc of pipe.c. A pointer to a struct file is its
  index in the table.
\<close>

section \<open>State\<close>

definition NFILE :: nat where "NFILE = 100"

datatype ftype = FD_NONE | FD_PIPE | FD_INODE

record openfile =
  f_type :: ftype
  f_ref :: int
  f_readable :: bool
  f_writable :: bool
  f_pipe :: u32
  f_ip :: nat
  f_off :: u32

definition file0 :: openfile where
  "file0 = \<lparr>f_type = FD_NONE, f_ref = 0, f_readable = False, f_writable = False, f_pipe = 0,
     f_ip = 0, f_off = 0\<rparr>"

record file_state = fs_state +
  files :: "openfile list"

definition get_file :: "nat \<Rightarrow> ('z file_state_scheme, openfile) kern" where
  "get_file f = (\<lambda>s. if f < length (files s) then Ret (files s ! f) s else Undef ''no such file'')"

definition upd_file :: "nat \<Rightarrow> (openfile \<Rightarrow> openfile) \<Rightarrow> ('z file_state_scheme, unit) kern" where
  "upd_file f g = modify (\<lambda>s. s\<lparr>files := (files s)[f := g (files s ! f)]\<rparr>)"

section \<open>References\<close>

definition fileinit :: "('z file_state_scheme, unit) kern" where
  "fileinit = andthen (modify (\<lambda>s. s\<lparr>files := replicate NFILE file0\<rparr>)) (initlock FtableLock)"

definition filealloc_body :: "('z file_state_scheme, nat option) kern" where
  "filealloc_body =
     call (reads (\<lambda>s. find_index (\<lambda>f. f_ref f = 0) (files s))) (\<lambda>found.
     case found of
       None \<Rightarrow> return None
     | Some f \<Rightarrow> andthen (upd_file f (\<lambda>x. x\<lparr>f_ref := 1\<rparr>)) (return (Some f)))"

definition filealloc :: "('z file_state_scheme, nat option) kern" where
  "filealloc = locked_section FtableLock filealloc_body"

definition filedup :: "nat \<Rightarrow> ('z file_state_scheme, nat) kern" where
  "filedup f =
     locked_section FtableLock
       (call (get_file f) (\<lambda>x.
        andthen (panic_if (f_ref x < 1) ''filedup'')
        (andthen (upd_file f (\<lambda>x. x\<lparr>f_ref := f_ref x + 1\<rparr>)) (return f))))"

text \<open>The part of \<open>fileclose\<close> under the lock; it returns a copy of the file when the last
  reference is gone.\<close>

definition fileclose_body :: "nat \<Rightarrow> ('z file_state_scheme, openfile option) kern" where
  "fileclose_body f =
     call (get_file f) (\<lambda>x.
     andthen (panic_if (f_ref x < 1) ''fileclose'')
     (andthen (upd_file f (\<lambda>x. x\<lparr>f_ref := f_ref x - 1\<rparr>))
     (if f_ref x - 1 > 0 then return None
      else andthen (upd_file f (\<lambda>x. x\<lparr>f_ref := 0, f_type := FD_NONE\<rparr>))
        (return (Some x)))))"

definition fileclose :: "nat \<Rightarrow> ('z file_state_scheme, unit) kern" where
  "fileclose f =
     call (locked_section FtableLock (fileclose_body f)) (\<lambda>last.
     case last of
       None \<Rightarrow> return ()
     | Some ff \<Rightarrow>
         (case f_type ff of
            FD_PIPE \<Rightarrow> pipeclose (f_pipe ff) (f_writable ff)
          | FD_INODE \<Rightarrow> andthen begin_trans (andthen (iput (f_ip ff)) commit_trans)
          | FD_NONE \<Rightarrow> return ()))"

section \<open>Reading and writing\<close>

definition filestat :: "nat \<Rightarrow> ('z file_state_scheme, (u16 \<times> u32 \<times> u32 \<times> u16 \<times> u32) option) kern" where
  "filestat f =
     call (get_file f) (\<lambda>x.
     if f_type x = FD_INODE then
       andthen (ilock (f_ip x))
       (call (stati (f_ip x)) (\<lambda>st. andthen (iunlock (f_ip x)) (return (Some st))))
     else return None)"

text \<open>\<open>fileread\<close>: the value returned and the bytes stored at \<open>addr\<close>.\<close>

definition fileread :: "'z file_state_scheme devsw \<Rightarrow> nat \<Rightarrow> int \<Rightarrow>
    ('z file_state_scheme, int \<times> u8 list) kern" where
  "fileread dv f n =
     call (get_file f) (\<lambda>x.
     if \<not> f_readable x then return (- 1, [])
     else case f_type x of
       FD_PIPE \<Rightarrow> piperead (f_pipe x) n
     | FD_INODE \<Rightarrow>
         andthen (ilock (f_ip x))
         (call (readi dv (f_ip x) (f_off x) (of_int n)) (\<lambda>(r, bs).
          andthen (if r > 0 then upd_file f (\<lambda>x. x\<lparr>f_off := f_off x + of_int r\<rparr>) else return ())
          (andthen (iunlock (f_ip x)) (return (r, bs)))))
     | FD_NONE \<Rightarrow> panic ''fileread'')"

text \<open>A write goes to an inode in transactions of at most \<open>max_write\<close> bytes. \<open>bs\<close> are the bytes
  not yet written, \<open>i\<close> the number written, \<open>n\<close> the number asked for.\<close>

definition max_write :: nat where
  "max_write = ((LOGSIZE - 1 - 1 - 2) div 2) * 512"

definition write_some :: "'z file_state_scheme devsw \<Rightarrow> nat \<Rightarrow> u32 \<Rightarrow> u8 list \<Rightarrow>
    ('z file_state_scheme, int) kern" where
  "write_some dv f src bs =
     call (get_file f) (\<lambda>x.
     andthen begin_trans
     (andthen (ilock (f_ip x))
     (call (get_file f) (\<lambda>x.
      call (writei dv (f_ip x) src bs (f_off x) (of_nat (length bs))) (\<lambda>r.
      andthen (if r > 0 then upd_file f (\<lambda>x. x\<lparr>f_off := f_off x + of_int r\<rparr>) else return ())
      (andthen (iunlock (f_ip x))
      (andthen commit_trans (return r))))))))"

function filewrite_loop :: "'z file_state_scheme devsw \<Rightarrow> nat \<Rightarrow> u32 \<Rightarrow> u8 list \<Rightarrow> int \<Rightarrow>
    ('z file_state_scheme, int) kern" where
  "filewrite_loop dv f src bs n =
     (if bs = [] then return n
      else
        let m = min (length bs) max_write in
        call (write_some dv f src (take m bs)) (\<lambda>r.
        if r < 0 then return (- 1)
        else andthen (panic_if (r \<noteq> int m) ''short filewrite'')
          (filewrite_loop dv f (src + of_nat m) (drop m bs) n)))"
  by pat_completeness auto
termination
  by (relation "measure (\<lambda>(dv, f, src, bs, n). length bs)") (auto simp: max_write_def LOGSIZE_def)

declare filewrite_loop.simps [simp del]

text \<open>\<open>filewrite\<close>: \<open>bs\<close> are the \<open>n\<close> bytes at \<open>addr\<close>. With a negative \<open>n\<close> the loop does not run,
  and its counter is not \<open>n\<close> at the end.\<close>

definition filewrite :: "'z file_state_scheme devsw \<Rightarrow> nat \<Rightarrow> u32 \<Rightarrow> int \<Rightarrow> u8 list \<Rightarrow>
    ('z file_state_scheme, int) kern" where
  "filewrite dv f addr n bs =
     call (get_file f) (\<lambda>x.
     if \<not> f_writable x then return (- 1)
     else case f_type x of
       FD_PIPE \<Rightarrow> pipewrite (f_pipe x) n bs
     | FD_INODE \<Rightarrow> if n < 0 then return (- 1) else filewrite_loop dv f addr bs n
     | FD_NONE \<Rightarrow> panic ''filewrite'')"

section \<open>Creating a pipe\<close>

definition fileclose_opt :: "nat option \<Rightarrow> ('z file_state_scheme, unit) kern" where
  "fileclose_opt f = (case f of None \<Rightarrow> return () | Some i \<Rightarrow> fileclose i)"

definition new_pipe :: pipe where
  "new_pipe = \<lparr>pdata = replicate PIPESIZE 0, nread = 0, nwrite = 0, readopen = True, writeopen = True\<rparr>"

definition pipealloc_bad :: "nat option \<Rightarrow> nat option \<Rightarrow>
    ('z file_state_scheme, (nat \<times> nat) option) kern" where
  "pipealloc_bad f0 f1 = andthen (fileclose_opt f0) (andthen (fileclose_opt f1) (return None))"

text \<open>No path of the source reaches the label \<open>bad\<close> with the page allocated.\<close>

definition pipealloc :: "('z file_state_scheme, (nat \<times> nat) option) kern" where
  "pipealloc =
     call filealloc (\<lambda>f0. case f0 of
       None \<Rightarrow> pipealloc_bad None None
     | Some r \<Rightarrow>
         call filealloc (\<lambda>f1. case f1 of
           None \<Rightarrow> pipealloc_bad (Some r) None
         | Some w \<Rightarrow>
             call kalloc (\<lambda>p.
             if p = 0 then pipealloc_bad (Some r) (Some w)
             else
               andthen (set_mem p 0 PGSIZE)
               (andthen (set_pipe p new_pipe)
               (andthen (initlock (PipeLock p))
               (andthen (upd_file r (\<lambda>x. x\<lparr>f_type := FD_PIPE, f_readable := True, f_writable := False, f_pipe := p\<rparr>))
               (andthen (upd_file w (\<lambda>x. x\<lparr>f_type := FD_PIPE, f_readable := False, f_writable := True, f_pipe := p\<rparr>))
               (return (Some (r, w))))))))))"

end
