(* ===== verification/Process.thy ===== *)
theory Process
  imports File
begin

text \<open>
  The rest of proc.c: fork, exit, wait, growproc, userinit and forkret, which use the file table
  and the file system. Functions that block return the state at the switch to the scheduler;
  \<open>wait_resume\<close> is what wait does when it is dispatched again.
\<close>

section \<open>State\<close>

text \<open>The static variable \<open>first\<close> of forkret.\<close>

record process_state = file_state +
  fork_first :: bool

section \<open>Fork\<close>

definition dup_fd :: "nat \<Rightarrow> nat \<Rightarrow> ('z file_state_scheme, unit) kern" where
  "dup_fd np fd =
     call (get_curr (\<lambda>p. ofile p ! fd)) (\<lambda>f. case f of
       None \<Rightarrow> return ()
     | Some i \<Rightarrow> call (filedup i) (\<lambda>g. upd_proc np (\<lambda>p. p\<lparr>ofile := (ofile p)[fd := Some g]\<rparr>)))"

text \<open>A use of the working directory of the running process, which is not null after userinit.\<close>

definition curr_cwd :: "('z ptable_scheme, nat) kern" where
  "curr_cwd = call (get_curr cwd) (\<lambda>c. case c of Some ip \<Rightarrow> return ip | None \<Rightarrow> undef ''null cwd'')"

definition fork :: "('z file_state_scheme, int) kern" where
  "fork =
     call allocproc (\<lambda>r. case r of
       None \<Rightarrow> return (- 1)
     | Some np \<Rightarrow>
         call (get_curr (\<lambda>p. p)) (\<lambda>cp.
         call (copyuvm (pgdir cp) (sz cp)) (\<lambda>d.
         andthen (upd_proc np (\<lambda>p. p\<lparr>pgdir := d\<rparr>))
         (if d = 0 then
            call (reads (\<lambda>s. kstack (procs s ! np))) (\<lambda>k.
            andthen (kfree k)
            (andthen (upd_proc np (\<lambda>p. p\<lparr>kstack := 0, pstate := UNUSED\<rparr>)) (return (- 1))))
          else
            call curr_proc (\<lambda>c.
            andthen (upd_proc np (\<lambda>p. p\<lparr>sz := sz cp, parent := Some c, tf := (tf cp)\<lparr>tf_r0 := 0\<rparr>\<rparr>))
            (andthen (for_each [0 ..< NOFILE] (dup_fd np))
            (call curr_cwd (\<lambda>ip.
             call (idup ip) (\<lambda>ip.
             andthen (upd_proc np (\<lambda>p. p\<lparr>cwd := Some ip\<rparr>))
             (call (reads (\<lambda>s. procs s ! np)) (\<lambda>child.
              andthen (upd_proc np (\<lambda>p. p\<lparr>pstate := RUNNABLE\<rparr>))
              (call (defined (safestrcpy (pname child) (pname cp) 16)) (\<lambda>nm.
               andthen (upd_proc np (\<lambda>p. p\<lparr>pname := nm\<rparr>)) (return (pid child)))))))))))))))"

section \<open>Exit and wait\<close>

text \<open>\<open>wakeup1\<close> of a process pointer that may be null.\<close>

definition wakeup_proc :: "nat option \<Rightarrow> ('z ptable_scheme, unit) kern" where
  "wakeup_proc c = (case c of
      Some i \<Rightarrow> wakeup1 (ProcChan i)
    | None \<Rightarrow> modify (\<lambda>s. s\<lparr>procs := map (\<lambda>p.
        if pstate p = SLEEPING \<and> chan p = None then p\<lparr>pstate := RUNNABLE\<rparr> else p) (procs s)\<rparr>))"

definition close_fd :: "nat \<Rightarrow> ('z file_state_scheme, unit) kern" where
  "close_fd fd =
     call (get_curr (\<lambda>p. ofile p ! fd)) (\<lambda>f. case f of
       None \<Rightarrow> return ()
     | Some i \<Rightarrow> andthen (fileclose i) (upd_curr (\<lambda>p. p\<lparr>ofile := (ofile p)[fd := None]\<rparr>)))"

definition reparent :: "nat \<Rightarrow> nat \<Rightarrow> ('z ptable_scheme, unit) kern" where
  "reparent c i =
     call (reads (\<lambda>s. procs s ! i)) (\<lambda>p.
     if parent p = Some c then
       call (reads initproc) (\<lambda>ini.
       andthen (upd_proc i (\<lambda>p. p\<lparr>parent := ini\<rparr>))
       (if pstate p = ZOMBIE then wakeup_proc ini else return ()))
     else return ())"

text \<open>The part of exit under ptable.lock, up to the switch it does not come back from.\<close>

definition exit_last :: "nat \<Rightarrow> ('z ptable_scheme, unit) kern" where
  "exit_last c =
     call (get_curr parent) (\<lambda>pp.
     andthen (wakeup_proc pp)
     (call (reads (\<lambda>s. length (procs s))) (\<lambda>n.
      andthen (for_each [0 ..< n] (reparent c))
      (andthen (upd_curr (\<lambda>p. p\<lparr>pstate := ZOMBIE\<rparr>))
      (andthen (sched :: ('z ptable_scheme, unit) kern) (panic ''zombie exit''))))))"

definition exit :: "('z file_state_scheme, unit) kern" where
  "exit =
     call curr_proc (\<lambda>c.
     call (reads initproc) (\<lambda>ini.
     andthen (panic_if (ini = Some c) ''init exiting'')
     (andthen (for_each [0 ..< NOFILE] close_fd)
     (call curr_cwd (\<lambda>ip.
      andthen (iput ip)
      (andthen (upd_curr (\<lambda>p. p\<lparr>cwd := None\<rparr>))
      (andthen (acquire PtableLock) (exit_last c))))))))"

definition clear_name :: "u8 list \<Rightarrow> u8 list" where
  "clear_name nm = nm[0 := 0]"

definition reap :: "nat \<Rightarrow> ('z ptable_scheme, int) kern" where
  "reap i =
     call (reads (\<lambda>s. procs s ! i)) (\<lambda>p.
     andthen (kfree (kstack p))
     (andthen (upd_proc i (\<lambda>p. p\<lparr>kstack := 0\<rparr>))
     (andthen (freevm (pgdir p))
     (andthen (upd_proc i (\<lambda>p. p\<lparr>pstate := UNUSED, pid := 0, parent := None,
         pname := clear_name (pname p), killed := False\<rparr>))
     (andthen (release PtableLock) (return (pid p)))))))"

definition wait_loop :: "('z ptable_scheme, int) kern" where
  "wait_loop =
     call curr_proc (\<lambda>c.
     call (reads procs) (\<lambda>ps.
     case find_index (\<lambda>p. parent p = Some c \<and> pstate p = ZOMBIE) ps of
       Some i \<Rightarrow> reap i
     | None \<Rightarrow>
         if \<not> (\<exists>p \<in> set ps. parent p = Some c) \<or> killed (ps ! c)
         then andthen (release PtableLock) (return (- 1))
         else sleep (ProcChan c) PtableLock))"

definition wait :: "('z ptable_scheme, int) kern" where
  "wait = andthen (acquire PtableLock) wait_loop"

definition wait_resume :: "bool \<Rightarrow> ('z ptable_scheme, int) kern" where
  "wait_resume saved = andthen (sleep_return saved PtableLock) wait_loop"

section \<open>Growing, and the first process\<close>

definition growproc :: "int \<Rightarrow> ('z ptable_scheme, int) kern" where
  "growproc n =
     call (get_curr (\<lambda>p. p)) (\<lambda>p.
     call (if n > 0 then allocuvm (pgdir p) (sz p) (sz p + of_int n)
           else if n < 0 then deallocuvm (pgdir p) (sz p) (sz p + of_int n)
           else return (sz p)) (\<lambda>z.
     if n \<noteq> 0 \<and> z = 0 then return (- 1)
     else
       andthen (upd_curr (\<lambda>p. p\<lparr>sz := z\<rparr>))
       (andthen (switchuvm (pgdir p)) (return 0))))"

text \<open>The bytes of ''initcode'' with the terminating zero.\<close>

definition initcode_name :: "u8 list" where
  "initcode_name = [105, 110, 105, 116, 99, 111, 100, 101, 0]"

definition userinit :: "'z file_state_scheme devsw \<Rightarrow> u8 list \<Rightarrow> ('z file_state_scheme, unit) kern" where
  "userinit dv initcode =
     call allocproc (\<lambda>r.
     andthen (modify (\<lambda>s. s\<lparr>initproc := r\<rparr>))
     (case r of
       None \<Rightarrow> undef ''userinit: null process''
     | Some p \<Rightarrow>
         call setupkvm (\<lambda>d.
         andthen (upd_proc p (\<lambda>q. q\<lparr>pgdir := d\<rparr>))
         (andthen (panic_if (d = 0) ''userinit: out of memory?'')
         (andthen (inituvm d initcode)
         (andthen (upd_proc p (\<lambda>q. q\<lparr>sz := PGSIZE,
             tf := tf0\<lparr>tf_spsr := 0x10, tf_sp := PGSIZE, tf_pc := 0\<rparr>\<rparr>))
         (call (reads (\<lambda>s. procs s ! p)) (\<lambda>q.
          call (defined (safestrcpy (pname q) initcode_name 16)) (\<lambda>nm.
          andthen (upd_proc p (\<lambda>q. q\<lparr>pname := nm\<rparr>))
          (call (namei dv [SLASH]) (\<lambda>ip.
           upd_proc p (\<lambda>q. q\<lparr>cwd := ip, pstate := RUNNABLE\<rparr>))))))))))))"

definition forkret :: "('z process_state_scheme, unit) kern" where
  "forkret =
     andthen forkret_unlock
     (call (reads fork_first) (\<lambda>f.
      if f then andthen (modify (\<lambda>s. s\<lparr>fork_first := False\<rparr>)) initlog else return ()))"

end
