(* ===== verification/Syscall.thy ===== *)
theory Syscall
  imports Process
begin

text \<open>
  The argument fetching of syscall.c. The kernel reads and writes user memory through the page
  table that is active, \<open>kpgdir\<close>, into which \<open>switchuvm\<close> has copied that of the running
  process; the memory management unit's translation is written out for the small pages user
  memory consists of. An access the table does not map is a data abort in kernel mode, on which
  \<open>trap\<close> panics.
\<close>

section \<open>User memory\<close>

definition translate :: "u32 \<Rightarrow> 'z vmstate_scheme \<Rightarrow> u32 option" where
  "translate va s =
     (let pde = load32 (mem s) (kpgdir s + 4 * PDX va) in
      if pde AND 3 \<noteq> COARSE then None
      else let pte = load32 (mem s) (p2v (PTE_ADDR pde) + 4 * PTX va) in
        if pte = 0 then None else Some (p2v (PTE_ADDR pte) + (va AND 0xFFF)))"

definition user_byte :: "u32 \<Rightarrow> ('z vmstate_scheme, u8) kern" where
  "user_byte va =
     call (reads (translate va)) (\<lambda>a. case a of
       Some ka \<Rightarrow> reads (\<lambda>s. mem s ka) | None \<Rightarrow> panic ''trap'')"

fun user_bytes :: "u32 \<Rightarrow> nat \<Rightarrow> ('z vmstate_scheme, u8 list) kern" where
  "user_bytes va 0 = return []"
| "user_bytes va (Suc n) =
     call (user_byte va) (\<lambda>b. call (user_bytes (va + 1) n) (\<lambda>bs. return (b # bs)))"

definition user_put :: "u32 \<Rightarrow> u8 \<Rightarrow> ('z vmstate_scheme, unit) kern" where
  "user_put va b =
     call (reads (translate va)) (\<lambda>a. case a of
       Some ka \<Rightarrow> modify (\<lambda>s. s\<lparr>mem := (mem s)(ka := b)\<rparr>) | None \<Rightarrow> panic ''trap'')"

fun user_write :: "u32 \<Rightarrow> u8 list \<Rightarrow> ('z vmstate_scheme, unit) kern" where
  "user_write va [] = return ()"
| "user_write va (b # bs) = andthen (user_put va b) (user_write (va + 1) bs)"

section \<open>Arguments\<close>

definition fetchint :: "u32 \<Rightarrow> ('z ptable_scheme, u32 option) kern" where
  "fetchint addr =
     call (get_curr sz) (\<lambda>z.
     if addr \<ge> z \<or> addr + 4 > z then return None
     else call (user_bytes addr 4) (\<lambda>bs. return (Some (of_le32 bs))))"

text \<open>\<open>fetchstr\<close> gives the string itself rather than a pointer to it; the loop runs to the end of
  the process's memory.\<close>

fun fetchstr_loop :: "nat \<Rightarrow> u32 \<Rightarrow> u8 list \<Rightarrow> ('z vmstate_scheme, u8 list option) kern" where
  "fetchstr_loop 0 a acc = return None"
| "fetchstr_loop (Suc n) a acc =
     call (user_byte a) (\<lambda>b. if b = 0 then return (Some acc) else fetchstr_loop n (a + 1) (acc @ [b]))"

definition fetchstr :: "u32 \<Rightarrow> ('z ptable_scheme, u8 list option) kern" where
  "fetchstr addr =
     call (get_curr sz) (\<lambda>z.
     if addr \<ge> z then return None
     else fetchstr_loop (unat z - unat addr) addr [])"

definition argint :: "u32 \<Rightarrow> ('z ptable_scheme, u32 option) kern" where
  "argint n = call (get_curr (\<lambda>p. tf_sp (tf p))) (\<lambda>sp. fetchint (sp + 4 * n))"

text \<open>The test of argptr: \<open>size\<close> is converted to unsigned, and the sum wraps.\<close>

definition argptr :: "u32 \<Rightarrow> int \<Rightarrow> ('z ptable_scheme, u32 option) kern" where
  "argptr n bytes =
     call (argint n) (\<lambda>r. case r of
       None \<Rightarrow> return None
     | Some i \<Rightarrow>
         call (get_curr sz) (\<lambda>z.
         if i \<ge> z \<or> i + of_int bytes > z then return None else return (Some i)))"

definition argstr :: "u32 \<Rightarrow> ('z ptable_scheme, u8 list option) kern" where
  "argstr n =
     call (argint n) (\<lambda>r. case r of None \<Rightarrow> return None | Some a \<Rightarrow> fetchstr a)"

text \<open>The common prologue \<open>if(arg...(..) < 0) return -1;\<close>\<close>

definition with_arg :: "('s, 'a option) kern \<Rightarrow> ('a \<Rightarrow> ('s, int) kern) \<Rightarrow> ('s, int) kern" where
  "with_arg m k = call m (\<lambda>r. case r of None \<Rightarrow> return (- 1) | Some a \<Rightarrow> k a)"

section \<open>Process system calls (sysproc.c)\<close>

definition sys_fork :: "('z file_state_scheme, int) kern" where "sys_fork = fork"

definition sys_exit :: "('z file_state_scheme, int) kern" where
  "sys_exit = andthen exit (return 0)"

definition sys_wait :: "('z ptable_scheme, int) kern" where "sys_wait = wait"

definition sys_kill :: "('z ptable_scheme, int) kern" where
  "sys_kill = with_arg (argint 0) (\<lambda>p. kill (sint p))"

definition sys_getpid :: "('z ptable_scheme, int) kern" where "sys_getpid = get_curr pid"

definition sys_sbrk :: "('z ptable_scheme, int) kern" where
  "sys_sbrk =
     with_arg (argint 0) (\<lambda>n.
     call (get_curr sz) (\<lambda>addr.
     call (growproc (sint n)) (\<lambda>r. if r < 0 then return (- 1) else return (sint addr))))"

text \<open>The loop of sys\_sleep, with tickslock held; the comparison is unsigned, so a negative
  argument waits for at least \<open>2 ^ 31\<close> ticks.\<close>

definition sleep_loop :: "u32 \<Rightarrow> u32 \<Rightarrow> ('z ptable_scheme, int) kern" where
  "sleep_loop n ticks0 =
     call (reads ticks) (\<lambda>t.
     if t - ticks0 < n then
       call curr_killed (\<lambda>k.
       if k then andthen (release TicksLock) (return (- 1))
       else sleep TicksChan TicksLock)
     else andthen (release TicksLock) (return 0))"

definition sys_sleep :: "('z ptable_scheme, int) kern" where
  "sys_sleep =
     with_arg (argint 0) (\<lambda>n.
     andthen (acquire TicksLock)
     (call (reads ticks) (\<lambda>ticks0. sleep_loop n ticks0)))"

definition sys_sleep_resume :: "bool \<Rightarrow> u32 \<Rightarrow> u32 \<Rightarrow> ('z ptable_scheme, int) kern" where
  "sys_sleep_resume saved n ticks0 = andthen (sleep_return saved TicksLock) (sleep_loop n ticks0)"

definition sys_uptime :: "('z ptable_scheme, int) kern" where
  "sys_uptime = locked_section TicksLock (reads (\<lambda>s. sint (ticks s)))"

end
