(* ===== verification/Sysfile.thy ===== *)
theory Sysfile
  imports Syscall
begin

text \<open>
  sysfile.c: the system calls on files, and the system call table of syscall.c. Like the functions
  they call, they take the device table \<open>dv\<close>; the table of system calls takes exec as well, which
  is in theory Exec.
\<close>

section \<open>Descriptors\<close>

definition argfd :: "u32 \<Rightarrow> ('z ptable_scheme, (nat \<times> nat) option) kern" where
  "argfd n =
     call (argint n) (\<lambda>r. case r of
       None \<Rightarrow> return None
     | Some w \<Rightarrow>
         let fd = sint w in
         if fd < 0 \<or> fd \<ge> int NOFILE then return None
         else call (get_curr (\<lambda>p. ofile p ! nat fd)) (\<lambda>f. case f of
           None \<Rightarrow> return None | Some i \<Rightarrow> return (Some (nat fd, i))))"

definition set_fd :: "nat \<Rightarrow> nat option \<Rightarrow> ('z ptable_scheme, unit) kern" where
  "set_fd fd f = upd_curr (\<lambda>p. p\<lparr>ofile := (ofile p)[fd := f]\<rparr>)"

definition fdalloc :: "nat \<Rightarrow> ('z ptable_scheme, nat option) kern" where
  "fdalloc f =
     call (get_curr (\<lambda>p. find_index (\<lambda>x. x = None) (ofile p))) (\<lambda>r. case r of
       None \<Rightarrow> return None
     | Some fd \<Rightarrow> andthen (set_fd fd (Some f)) (return (Some fd)))"

definition sys_dup :: "('z file_state_scheme, int) kern" where
  "sys_dup =
     with_arg (argfd 0) (\<lambda>(_, f).
     with_arg (fdalloc f) (\<lambda>fd.
     andthen (filedup f) (return (int fd))))"

text \<open>The bytes read are stored at the address the caller gave.\<close>

definition sys_read :: "'z file_state_scheme devsw \<Rightarrow> ('z file_state_scheme, int) kern" where
  "sys_read dv =
     with_arg (argfd 0) (\<lambda>(_, f).
     with_arg (argint 2) (\<lambda>n.
     with_arg (argptr 1 (sint n)) (\<lambda>p.
     call (fileread dv f (sint n)) (\<lambda>(r, bs).
     andthen (user_write p bs) (return r)))))"

definition sys_write :: "'z file_state_scheme devsw \<Rightarrow> ('z file_state_scheme, int) kern" where
  "sys_write dv =
     with_arg (argfd 0) (\<lambda>(_, f).
     with_arg (argint 2) (\<lambda>n.
     with_arg (argptr 1 (sint n)) (\<lambda>p.
     call (user_bytes p (nat (sint n))) (\<lambda>bs.
     filewrite dv f p (sint n) bs))))"

definition sys_close :: "('z file_state_scheme, int) kern" where
  "sys_close =
     with_arg (argfd 0) (\<lambda>(fd, f).
     andthen (set_fd fd None) (andthen (fileclose f) (return 0)))"

text \<open>struct stat is 20 bytes, with two bytes of padding after each short.\<close>

definition enc_stat :: "u16 \<times> u32 \<times> u32 \<times> u16 \<times> u32 \<Rightarrow> (nat \<times> u8 list) list" where
  "enc_stat st = (case st of (type, dev, ino, nlink, fsize) \<Rightarrow>
     [(0, le16 type), (4, le32 dev), (8, le32 ino), (12, le16 nlink), (16, le32 fsize)])"

definition sys_fstat :: "('z file_state_scheme, int) kern" where
  "sys_fstat =
     with_arg (argfd 0) (\<lambda>(_, f).
     with_arg (argptr 1 20) (\<lambda>p.
     with_arg (filestat f) (\<lambda>st.
     andthen (for_each (enc_stat st) (\<lambda>(off, bs). user_write (p + of_nat off) bs)) (return 0))))"

section \<open>Links\<close>

definition upd_copy :: "nat \<Rightarrow> (dinode \<Rightarrow> dinode) \<Rightarrow> ('z fs_state_scheme, unit) kern" where
  "upd_copy ip f = upd_inode ip (\<lambda>i. i\<lparr>i_copy := f (i_copy i)\<rparr>)"

definition commit_return :: "int \<Rightarrow> ('z log_state_scheme, int) kern" where
  "commit_return r = andthen commit_trans (return r)"

definition link_bad :: "nat \<Rightarrow> ('z fs_state_scheme, int) kern" where
  "link_bad ip =
     andthen (ilock ip)
     (andthen (upd_copy ip (\<lambda>d. d\<lparr>d_nlink := d_nlink d - 1\<rparr>))
     (andthen (iupdate ip)
     (andthen (iunlockput ip) (commit_return (- 1)))))"

definition sys_link :: "'z fs_state_scheme devsw \<Rightarrow> ('z fs_state_scheme, int) kern" where
  "sys_link dv =
     with_arg (argstr 0) (\<lambda>old.
     with_arg (argstr 1) (\<lambda>new.
     with_arg (namei dv old) (\<lambda>ip.
     andthen begin_trans
     (andthen (ilock ip)
     (call (get_inode ip) (\<lambda>i.
     if d_type (i_copy i) = T_DIR then andthen (iunlockput ip) (commit_return (- 1))
     else
       andthen (upd_copy ip (\<lambda>d. d\<lparr>d_nlink := d_nlink d + 1\<rparr>))
       (andthen (iupdate ip)
       (andthen (iunlock ip)
       (call (nameiparent dv new) (\<lambda>r. case r of
         None \<Rightarrow> link_bad ip
       | Some (dp, name) \<Rightarrow>
           andthen (ilock dp)
           (call (get_inode dp) (\<lambda>d.
           call (get_inode ip) (\<lambda>i.
           call (if i_dev d \<noteq> i_dev i then return (- 1) else dirlink dv dp name (i_inum i)) (\<lambda>e.
           if e < 0 then andthen (iunlockput dp) (link_bad ip)
           else
             andthen (iunlockput dp)
             (andthen (iput ip) (commit_return 0))))))))))))))))"

fun isdirempty_loop :: "nat \<Rightarrow> 'z fs_state_scheme devsw \<Rightarrow> nat \<Rightarrow> u32 \<Rightarrow> u32 \<Rightarrow>
    ('z fs_state_scheme, bool) kern" where
  "isdirempty_loop 0 dv dp dsz off = undef ''isdirempty: out of iterations''"
| "isdirempty_loop (Suc n) dv dp dsz off =
     (if off < dsz then
        call (read_dirent dv dp off ''isdirempty: readi'') (\<lambda>de.
        if fst de \<noteq> 0 then return False else isdirempty_loop n dv dp dsz (off + 16))
      else return True)"

definition isdirempty :: "'z fs_state_scheme devsw \<Rightarrow> nat \<Rightarrow> ('z fs_state_scheme, bool) kern" where
  "isdirempty dv dp =
     call (get_inode dp) (\<lambda>i.
     isdirempty_loop (entries (d_size (i_copy i))) dv dp (d_size (i_copy i)) 32)"

text \<open>The names ''.'' and ''..'', with their terminators.\<close>

definition DOT :: "u8 list" where "DOT = [46, 0]"
definition DOTDOT :: "u8 list" where "DOTDOT = [46, 46, 0]"

definition unlink_bad :: "nat \<Rightarrow> ('z fs_state_scheme, int) kern" where
  "unlink_bad dp = andthen (iunlockput dp) (commit_return (- 1))"

text \<open>The part of sys\_unlink from the entry found in the directory, at offset \<open>off\<close>, on.\<close>

definition unlink_entry :: "'z fs_state_scheme devsw \<Rightarrow> nat \<Rightarrow> nat \<Rightarrow> u32 \<Rightarrow>
    ('z fs_state_scheme, int) kern" where
  "unlink_entry dv dp ip off =
     andthen (ilock ip)
     (call (get_inode ip) (\<lambda>i.
     andthen (panic_if (sint (d_nlink (i_copy i)) < 1) ''unlink: nlink < 1'')
     (call (if d_type (i_copy i) = T_DIR then isdirempty dv ip else return True) (\<lambda>em.
     if \<not> em then andthen (iunlockput ip) (unlink_bad dp)
     else
       call (writei dv dp 0 (replicate 16 0) off 16) (\<lambda>r.
       andthen (panic_if (r \<noteq> 16) ''unlink: writei'')
       (andthen
         (if d_type (i_copy i) = T_DIR
          then andthen (upd_copy dp (\<lambda>d. d\<lparr>d_nlink := d_nlink d - 1\<rparr>)) (iupdate dp)
          else return ())
       (andthen (iunlockput dp)
       (andthen (upd_copy ip (\<lambda>d. d\<lparr>d_nlink := d_nlink d - 1\<rparr>))
       (andthen (iupdate ip)
       (andthen (iunlockput ip) (commit_return 0)))))))))))"

definition sys_unlink :: "'z fs_state_scheme devsw \<Rightarrow> ('z fs_state_scheme, int) kern" where
  "sys_unlink dv =
     with_arg (argstr 0) (\<lambda>path.
     with_arg (nameiparent dv path) (\<lambda>(dp, name).
     andthen begin_trans
     (andthen (ilock dp)
     (call (defined (namecmp name DOT)) (\<lambda>c1.
     call (if c1 = 0 then return 0 else defined (namecmp name DOTDOT)) (\<lambda>c2.
     if c1 = 0 \<or> c2 = 0 then unlink_bad dp
     else
       call (dirlookup dv dp name) (\<lambda>r. case r of
         None \<Rightarrow> unlink_bad dp
       | Some (ip, off) \<Rightarrow> unlink_entry dv dp ip off)))))))"

section \<open>Creating\<close>

text \<open>The part of create for a name that is not in the directory.\<close>

definition create_new :: "'z fs_state_scheme devsw \<Rightarrow> nat \<Rightarrow> u8 list \<Rightarrow> u16 \<Rightarrow> u16 \<Rightarrow> u16 \<Rightarrow>
    ('z fs_state_scheme, nat option) kern" where
  "create_new dv dp name type major minor =
     call (get_inode dp) (\<lambda>d.
     call (ialloc (i_dev d) type) (\<lambda>ip.
     andthen (ilock ip)
     (andthen (upd_copy ip (\<lambda>c. c\<lparr>d_major := major, d_minor := minor, d_nlink := 1\<rparr>))
     (andthen (iupdate ip)
     (call (get_inode ip) (\<lambda>i.
     andthen
       (if type = T_DIR then
          andthen (upd_copy dp (\<lambda>c. c\<lparr>d_nlink := d_nlink c + 1\<rparr>))
          (andthen (iupdate dp)
          (call (dirlink dv ip DOT (i_inum i)) (\<lambda>r1.
           call (if r1 < 0 then return (- 1) else dirlink dv ip DOTDOT (i_inum d)) (\<lambda>r2.
           panic_if (r1 < 0 \<or> r2 < 0) ''create dots''))))
        else return ())
     (call (dirlink dv dp name (i_inum i)) (\<lambda>r.
      andthen (panic_if (r < 0) ''create: dirlink'')
      (andthen (iunlockput dp) (return (Some ip)))))))))))"

definition create :: "'z fs_state_scheme devsw \<Rightarrow> u8 list \<Rightarrow> u16 \<Rightarrow> u16 \<Rightarrow> u16 \<Rightarrow>
    ('z fs_state_scheme, nat option) kern" where
  "create dv path type major minor =
     call (nameiparent dv path) (\<lambda>r. case r of
       None \<Rightarrow> return None
     | Some (dp, name) \<Rightarrow>
         andthen (ilock dp)
         (call (dirlookup dv dp name) (\<lambda>found. case found of
           Some (ip, _) \<Rightarrow>
             andthen (iunlockput dp)
             (andthen (ilock ip)
             (call (get_inode ip) (\<lambda>i.
              if type = T_FILE \<and> d_type (i_copy i) = T_FILE then return (Some ip)
              else andthen (iunlockput ip) (return None))))
         | None \<Rightarrow> create_new dv dp name type major minor)))"

definition O_RDONLY :: u32 where "O_RDONLY = 0x000"
definition O_WRONLY :: u32 where "O_WRONLY = 0x001"
definition O_RDWR :: u32 where "O_RDWR = 0x002"
definition O_CREATE :: u32 where "O_CREATE = 0x200"

text \<open>The part of sys\_open from the locked inode on.\<close>

definition open_inode :: "nat \<Rightarrow> u32 \<Rightarrow> ('z file_state_scheme, int) kern" where
  "open_inode ip omode =
     call filealloc (\<lambda>r. case r of
       None \<Rightarrow> andthen (iunlockput ip) (return (- 1))
     | Some f \<Rightarrow>
         call (fdalloc f) (\<lambda>r. case r of
           None \<Rightarrow> andthen (fileclose f) (andthen (iunlockput ip) (return (- 1)))
         | Some fd \<Rightarrow>
             andthen (iunlock ip)
             (andthen (upd_file f (\<lambda>x. x\<lparr>f_type := FD_INODE, f_ip := ip, f_off := 0,
                f_readable := (omode AND O_WRONLY = 0),
                f_writable := (omode AND O_WRONLY \<noteq> 0 \<or> omode AND O_RDWR \<noteq> 0)\<rparr>))
             (return (int fd)))))"

definition sys_open :: "'z file_state_scheme devsw \<Rightarrow> ('z file_state_scheme, int) kern" where
  "sys_open dv =
     with_arg (argstr 0) (\<lambda>path.
     with_arg (argint 1) (\<lambda>omode.
     if omode AND O_CREATE \<noteq> 0 then
       andthen begin_trans
       (call (create dv path T_FILE 0 0) (\<lambda>r.
       andthen commit_trans
       (case r of None \<Rightarrow> return (- 1) | Some ip \<Rightarrow> open_inode ip omode)))
     else
       with_arg (namei dv path) (\<lambda>ip.
       andthen (ilock ip)
       (call (get_inode ip) (\<lambda>i.
        if d_type (i_copy i) = T_DIR \<and> omode \<noteq> O_RDONLY
        then andthen (iunlockput ip) (return (- 1))
        else open_inode ip omode)))))"

definition finish_create :: "nat option \<Rightarrow> ('z fs_state_scheme, int) kern" where
  "finish_create r = (case r of
      None \<Rightarrow> commit_return (- 1)
    | Some ip \<Rightarrow> andthen (iunlockput ip) (commit_return 0))"

definition sys_mkdir :: "'z fs_state_scheme devsw \<Rightarrow> ('z fs_state_scheme, int) kern" where
  "sys_mkdir dv =
     andthen begin_trans
     (call (argstr 0) (\<lambda>a. case a of
       None \<Rightarrow> commit_return (- 1)
     | Some path \<Rightarrow> call (create dv path T_DIR 0 0) finish_create))"

definition sys_mknod :: "'z fs_state_scheme devsw \<Rightarrow> ('z fs_state_scheme, int) kern" where
  "sys_mknod dv =
     andthen begin_trans
     (call (argstr 0) (\<lambda>a. case a of
       None \<Rightarrow> commit_return (- 1)
     | Some path \<Rightarrow>
         call (argint 1) (\<lambda>ma. case ma of
           None \<Rightarrow> commit_return (- 1)
         | Some major \<Rightarrow>
             call (argint 2) (\<lambda>mi. case mi of
               None \<Rightarrow> commit_return (- 1)
             | Some minor \<Rightarrow>
                 call (create dv path T_DEV (ucast major) (ucast minor)) finish_create))))"

definition sys_chdir :: "'z fs_state_scheme devsw \<Rightarrow> ('z fs_state_scheme, int) kern" where
  "sys_chdir dv =
     with_arg (argstr 0) (\<lambda>path.
     with_arg (namei dv path) (\<lambda>ip.
     andthen (ilock ip)
     (call (get_inode ip) (\<lambda>i.
     if d_type (i_copy i) \<noteq> T_DIR then andthen (iunlockput ip) (return (- 1))
     else
       andthen (iunlock ip)
       (call curr_cwd (\<lambda>c.
        andthen (iput c)
        (andthen (upd_curr (\<lambda>p. p\<lparr>cwd := Some ip\<rparr>)) (return 0))))))))"

definition sys_pipe :: "('z file_state_scheme, int) kern" where
  "sys_pipe =
     with_arg (argptr 0 8) (\<lambda>fd.
     with_arg pipealloc (\<lambda>(rf, wf).
     call (fdalloc rf) (\<lambda>r0. case r0 of
       None \<Rightarrow> andthen (fileclose rf) (andthen (fileclose wf) (return (- 1)))
     | Some fd0 \<Rightarrow>
         call (fdalloc wf) (\<lambda>r1. case r1 of
           None \<Rightarrow> andthen (set_fd fd0 None)
             (andthen (fileclose rf) (andthen (fileclose wf) (return (- 1))))
         | Some fd1 \<Rightarrow>
             andthen (user_write fd (le32 (of_nat fd0)))
             (andthen (user_write (fd + 4) (le32 (of_nat fd1))) (return 0))))))"

end
