(* ===== verification/Exec.thy ===== *)
theory Exec
  imports Sysfile
begin

text \<open>
  exec.c, with loaduvm of vm.c: building a new user image from an ELF file, and sys\_exec with the
  table of system calls.
\<close>

section \<open>ELF headers\<close>

definition ELF_MAGIC :: u32 where "ELF_MAGIC = 0x464C457F"
definition ELF_PROG_LOAD :: u32 where "ELF_PROG_LOAD = 1"
definition MAXARG :: nat where "MAXARG = 32"

text \<open>The fields of struct elfhdr (52 bytes) and struct proghdr (32 bytes) that exec uses.\<close>

record elfhdr =
  e_magic :: u32
  e_entry :: u32
  e_phoff :: u32
  e_phnum :: u16

definition dec_elfhdr :: "u8 list \<Rightarrow> elfhdr" where
  "dec_elfhdr d = \<lparr>e_magic = of_le32 d, e_entry = of_le32 (drop 24 d), e_phoff = of_le32 (drop 28 d),
     e_phnum = of_le16 (drop 44 d)\<rparr>"

record proghdr =
  p_type :: u32
  p_off :: u32
  p_vaddr :: u32
  p_filesz :: u32
  p_memsz :: u32

definition dec_proghdr :: "u8 list \<Rightarrow> proghdr" where
  "dec_proghdr d = \<lparr>p_type = of_le32 d, p_off = of_le32 (drop 4 d), p_vaddr = of_le32 (drop 8 d),
     p_filesz = of_le32 (drop 16 d), p_memsz = of_le32 (drop 20 d)\<rparr>"

section \<open>Loading\<close>

text \<open>The loop of loaduvm moves a page at a time; \<open>n\<close> bounds the number of pages of \<open>sz\<close> bytes.\<close>

fun loaduvm_loop :: "nat \<Rightarrow> 'z fs_state_scheme devsw \<Rightarrow> u32 \<Rightarrow> u32 \<Rightarrow> nat \<Rightarrow> u32 \<Rightarrow> u32 \<Rightarrow> u32 \<Rightarrow>
    ('z fs_state_scheme, int) kern" where
  "loaduvm_loop 0 dv pd addr ip off i bytes = undef ''loaduvm: out of iterations''"
| "loaduvm_loop (Suc k) dv pd addr ip off i bytes =
     (if i < bytes then
        call (walkpgdir pd (addr + i) UVMPDXATTR False) (\<lambda>pte.
        andthen (panic_if (pte = 0) ''loaduvm: address should exist'')
        (call (get32 pte) (\<lambda>e.
         let n = (if bytes - i < PGSIZE then bytes - i else PGSIZE) in
         call (readi dv ip (off + i) n) (\<lambda>(r, bs).
         andthen (modify (\<lambda>s. s\<lparr>mem := store_bytes (p2v (PTE_ADDR e)) bs (mem s)\<rparr>))
         (if of_int r \<noteq> n then return (- 1)
          else loaduvm_loop k dv pd addr ip off (i + PGSIZE) bytes)))))
      else return 0)"

definition loaduvm :: "'z fs_state_scheme devsw \<Rightarrow> u32 \<Rightarrow> u32 \<Rightarrow> nat \<Rightarrow> u32 \<Rightarrow> u32 \<Rightarrow>
    ('z fs_state_scheme, int) kern" where
  "loaduvm dv pd addr ip off bytes =
     andthen (panic_if (addr mod PGSIZE \<noteq> 0) ''loaduvm: addr must be page aligned'')
     (andthen (panic_if (addr + bytes > USERBOUND)
        ''loaduvm: user address space exceeds the allowed space (> 0x80000000)'')
     (loaduvm_loop (2 ^ 20 + 1) dv pd addr ip off 0 bytes))"

text \<open>The loop over the program headers, with \<open>k\<close> headers to go; \<open>None\<close> is a jump to \<open>bad\<close>.\<close>

fun load_segments :: "nat \<Rightarrow> 'z fs_state_scheme devsw \<Rightarrow> u32 \<Rightarrow> nat \<Rightarrow> u32 \<Rightarrow> u32 \<Rightarrow>
    ('z fs_state_scheme, u32 option) kern" where
  "load_segments 0 dv pd ip off z = return (Some z)"
| "load_segments (Suc k) dv pd ip off z =
     call (readi dv ip off 32) (\<lambda>(r, bs).
     if r \<noteq> 32 then return None
     else
       let ph = dec_proghdr bs in
       if p_type ph \<noteq> ELF_PROG_LOAD then load_segments k dv pd ip (off + 32) z
       else if p_memsz ph < p_filesz ph then return None
       else
         call (allocuvm pd z (p_vaddr ph + p_memsz ph)) (\<lambda>z.
         if z = 0 then return None
         else
           call (loaduvm dv pd (p_vaddr ph) ip (p_off ph) (p_filesz ph)) (\<lambda>e.
           if e < 0 then return None else load_segments k dv pd ip (off + 32) z)))"

section \<open>The stack\<close>

text \<open>Copying the argument strings: the stack pointer and the addresses of the strings.\<close>

fun push_args :: "u32 \<Rightarrow> u8 list list \<Rightarrow> nat \<Rightarrow> u32 \<Rightarrow> u32 list \<Rightarrow>
    ('z kmem_scheme, (u32 \<times> u32 list) option) kern" where
  "push_args pd [] argc sp us = return (Some (sp, us))"
| "push_args pd (a # as) argc sp us =
     (if argc \<ge> MAXARG then return None
      else
        let sp = (sp - of_nat (length a + 1)) AND NOT 3 in
        call (copyout pd sp (a @ [0])) (\<lambda>r.
        if r < 0 then return None else push_args pd as (argc + 1) sp (us @ [sp])))"

text \<open>The words above the strings: a fake return address, argc, argv, and the argv array.\<close>

definition ustack_words :: "u32 \<Rightarrow> u32 list \<Rightarrow> u32 list" where
  "ustack_words sp us =
     (let argc = of_nat (length us) in [0xFFFFFFFF, argc, sp - (argc + 1) * 4] @ us @ [0])"

section \<open>exec\<close>

definition exec_bad :: "u32 \<Rightarrow> nat option \<Rightarrow> ('z fs_state_scheme, int) kern" where
  "exec_bad pd ip =
     andthen (if pd \<noteq> 0 then freevm pd else return ())
     (andthen (case ip of Some i \<Rightarrow> iunlockput i | None \<Rightarrow> return ()) (return (- 1)))"

text \<open>The part of exec that replaces the image of the running process.\<close>

definition exec_commit :: "u32 \<Rightarrow> u32 \<Rightarrow> u32 \<Rightarrow> u32 \<Rightarrow> u32 \<Rightarrow> u32 \<Rightarrow> u8 list list \<Rightarrow>
    ('z ptable_scheme, int) kern" where
  "exec_commit pd z entry sp argc argvp argv =
     (case argv of
        [] \<Rightarrow> undef ''exec: null program name''
      | last0 # _ \<Rightarrow>
          call (get_curr (\<lambda>p. p)) (\<lambda>p.
          call (defined (safestrcpy (pname p) (last0 @ [0]) 16)) (\<lambda>nm.
          andthen (upd_curr (\<lambda>p. p\<lparr>pname := nm, pgdir := pd, sz := z,
              tf := (tf p)\<lparr>tf_pc := entry, tf_sp := sp, tf_r0 := argc, tf_r1 := argvp\<rparr>\<rparr>))
          (andthen (switchuvm pd)
          (andthen (freevm (pgdir p)) (return 0))))))"

definition exec_stack :: "u32 \<Rightarrow> u32 \<Rightarrow> u32 \<Rightarrow> u8 list list \<Rightarrow> ('z fs_state_scheme, int) kern" where
  "exec_stack pd z entry argv =
     call (allocuvm pd (PGROUNDUP z) (PGROUNDUP z + 2 * PGSIZE)) (\<lambda>z.
     if z = 0 then exec_bad pd None
     else
       andthen (clearpteu pd (z - 2 * PGSIZE))
       (call (push_args pd argv 0 z []) (\<lambda>r. case r of
         None \<Rightarrow> exec_bad pd None
       | Some (sp, us) \<Rightarrow>
           let w = ustack_words sp us; sp = sp - (3 + of_nat (length us) + 1) * 4 in
           call (copyout pd sp (words_le w)) (\<lambda>r.
           if r < 0 then exec_bad pd None
           else exec_commit pd z entry sp (w ! 1) (w ! 2) argv))))"

text \<open>The size the first read returns is compared unsigned, so an error (\<open>- 1\<close>) passes the test
  and the header is used uninitialised.\<close>

definition exec :: "'z fs_state_scheme devsw \<Rightarrow> u8 list \<Rightarrow> u8 list list \<Rightarrow> ('z fs_state_scheme, int) kern" where
  "exec dv path argv =
     with_arg (namei dv path) (\<lambda>ip.
     andthen (ilock ip)
     (call (readi dv ip 0 52) (\<lambda>(r, bs).
     if r < 0 then undef ''exec: uninitialised ELF header''
     else if r < 52 then exec_bad 0 (Some ip)
     else
       let elf = dec_elfhdr bs in
       if e_magic elf \<noteq> ELF_MAGIC then exec_bad 0 (Some ip)
       else
         call setupkvm (\<lambda>pd.
         if pd = 0 then exec_bad 0 (Some ip)
         else
           call (load_segments (unat (e_phnum elf)) dv pd ip (e_phoff elf) 0) (\<lambda>r. case r of
             None \<Rightarrow> exec_bad pd (Some ip)
           | Some z \<Rightarrow> andthen (iunlockput ip) (exec_stack pd z (e_entry elf) argv))))))"

section \<open>sys_exec and the table of system calls\<close>

text \<open>Collecting the strings of the argument vector at \<open>uargv\<close>, at most MAXARG with the null.\<close>

fun fetch_argv :: "nat \<Rightarrow> u32 \<Rightarrow> ('z ptable_scheme, u8 list list option) kern" where
  "fetch_argv 0 uargv = return None"
| "fetch_argv (Suc k) uargv =
     call (fetchint uargv) (\<lambda>r. case r of
       None \<Rightarrow> return None
     | Some uarg \<Rightarrow>
         if uarg = 0 then return (Some [])
         else call (fetchstr uarg) (\<lambda>s. case s of
           None \<Rightarrow> return None
         | Some a \<Rightarrow> call (fetch_argv k (uargv + 4)) (\<lambda>rest. return (map_option ((#) a) rest))))"

definition sys_exec :: "'z fs_state_scheme devsw \<Rightarrow> ('z fs_state_scheme, int) kern" where
  "sys_exec dv =
     with_arg (argstr 0) (\<lambda>path.
     with_arg (argint 1) (\<lambda>uargv.
     with_arg (fetch_argv MAXARG uargv) (\<lambda>argv. exec dv path argv)))"

definition SYS_exec :: int where "SYS_exec = 7"

definition syscalls :: "'z file_state_scheme devsw \<Rightarrow> ('z file_state_scheme, int) kern option list" where
  "syscalls dv =
     [None, Some sys_fork, Some sys_exit, Some sys_wait, Some sys_pipe, Some (sys_read dv),
      Some sys_kill, Some (sys_exec dv), Some sys_fstat, Some (sys_chdir dv), Some sys_dup,
      Some sys_getpid, Some sys_sbrk, Some sys_sleep, Some sys_uptime, Some (sys_open dv),
      Some (sys_write dv), Some (sys_mknod dv), Some (sys_unlink dv), Some (sys_link dv),
      Some (sys_mkdir dv), Some sys_close]"

definition set_r0 :: "int \<Rightarrow> ('z ptable_scheme, unit) kern" where
  "set_r0 v = upd_curr (\<lambda>p. p\<lparr>tf := (tf p)\<lparr>tf_r0 := of_int v\<rparr>\<rparr>)"

text \<open>\<open>syscall\<close>; the message for an unknown number is not part of the modelled state.\<close>

definition syscall :: "'z file_state_scheme devsw \<Rightarrow> ('z file_state_scheme, unit) kern" where
  "syscall dv =
     call (get_curr (\<lambda>p. sint (tf_r0 (tf p)))) (\<lambda>num.
     case (if 0 < num \<and> num < int (length (syscalls dv)) then syscalls dv ! nat num else None) of
       Some f \<Rightarrow>
         call f (\<lambda>r.
         if num = SYS_exec then (if r = - 1 then set_r0 (- 1) else return ())
         else set_r0 r)
     | None \<Rightarrow> set_r0 (- 1))"

end
