(* ===== verification/Keyboard.thy ===== *)
theory Keyboard
  imports Exec
begin

text \<open>
  uart\_keyboard.c: the line discipline of the serial keyboard. The interrupt handler edits the
  line being typed and hands complete lines over to the reader.
\<close>

section \<open>State\<close>

definition INPUT_BUF :: nat where "INPUT_BUF = 128"

text \<open>The structure \<open>input\<close>: read index, write index, edit index.\<close>

record kbd =
  kbuf :: "u8 list"
  kr :: u32
  kw :: u32
  ke :: u32

record kbd_state = process_state +
  input :: kbd

definition CTRL_D :: int where "CTRL_D = 4"
definition CTRL_H :: int where "CTRL_H = 8"
definition CTRL_P :: int where "CTRL_P = 16"
definition CTRL_U :: int where "CTRL_U = 21"
definition DEL :: int where "DEL = 127"
definition NL :: int where "NL = 10"
definition CR :: int where "CR = 13"

section \<open>The interrupt handler\<close>

definition slot :: "u32 \<Rightarrow> nat" where
  "slot i = unat (i mod of_nat INPUT_BUF)"

text \<open>The inner loop of kill line.\<close>

function kill_line :: "kbd \<Rightarrow> kbd" where
  "kill_line q =
     (if ke q \<noteq> kw q \<and> kbuf q ! slot (ke q - 1) \<noteq> of_int NL
      then kill_line (q\<lparr>ke := ke q - 1\<rparr>) else q)"
  by pat_completeness auto
termination
proof (relation "measure (\<lambda>q. unat (ke q - kw q))")
  fix q :: kbd
  assume *: "ke q \<noteq> kw q \<and> kbuf q ! slot (ke q - 1) \<noteq> of_int NL"
  have eq: "ke q - 1 - kw q = (ke q - kw q) - 1" by simp
  have nz: "ke q - kw q \<noteq> 0" using * by simp
  then have "unat (ke q - 1 - kw q) = unat (ke q - kw q) - 1"
    unfolding eq by (rule unat_minus_one)
  moreover have "0 < unat (ke q - kw q)" using nz unat_gt_0 by blast
  ultimately show "(q\<lparr>ke := ke q - 1\<rparr>, q) \<in> measure (\<lambda>q. unat (ke q - kw q))" by simp
qed simp

declare kill_line.simps [simp del]

definition put_char :: "u8 \<Rightarrow> kbd \<Rightarrow> kbd" where
  "put_char b q = q\<lparr>kbuf := (kbuf q)[slot (ke q) := b], ke := ke q + 1\<rparr>"

text \<open>What one character does to the buffer, and whether readers are woken.\<close>

definition kbd_char :: "int \<Rightarrow> kbd \<Rightarrow> kbd \<times> bool" where
  "kbd_char c q =
     (if c = CTRL_P then (q, False)
      else if c = CTRL_U then (kill_line q, False)
      else if c = CTRL_H \<or> c = DEL then
        (if ke q \<noteq> kw q then q\<lparr>ke := ke q - 1\<rparr> else q, False)
      else if c \<noteq> 0 \<and> unat (ke q - kr q) < INPUT_BUF then
        let c = (if c = CR then NL else c); q = put_char (of_int c) q in
        if c = NL \<or> c = CTRL_D \<or> ke q = kr q + of_nat INPUT_BUF
        then (q\<lparr>kw := ke q\<rparr>, True) else (q, False)
      else (q, False))"

definition kbd_one :: "int \<Rightarrow> ('z kbd_state_scheme, unit) kern" where
  "kbd_one c =
     call (reads (\<lambda>s. kbd_char c (input s))) (\<lambda>(q, wake).
     andthen (modify (\<lambda>s. s\<lparr>input := q\<rparr>)) (if wake then wakeup InputChan else return ()))"

text \<open>\<open>uartkbdintr\<close>: \<open>cs\<close> are the values getc returns until it first returns a negative one.\<close>

definition uartkbdintr :: "int list \<Rightarrow> ('z kbd_state_scheme, unit) kern" where
  "uartkbdintr cs = locked_section InputLock (for_each (takeWhile (\<lambda>c. 0 \<le> c) cs) kbd_one)"

section \<open>Reading\<close>

text \<open>How the loop of \<open>uartkbdread\<close> ends: it returns; or the reader was killed; or it sleeps, with
  the number of bytes still wanted. All carry the bytes stored so far.\<close>

datatype read_end = Got "u8 list" | Killed | Waiting nat "u8 list"

fun kbd_read_loop :: "nat \<Rightarrow> u8 list \<Rightarrow> ('z kbd_state_scheme, read_end) kern" where
  "kbd_read_loop 0 acc = return (Got acc)"
| "kbd_read_loop (Suc n) acc =
     call (reads input) (\<lambda>q.
     if kr q = kw q then
       call curr_killed (\<lambda>k. return (if k then Killed else Waiting (Suc n) acc))
     else
       let c = kbuf q ! slot (kr q) in
       andthen (modify (\<lambda>s. s\<lparr>input := q\<lparr>kr := kr q + 1\<rparr>\<rparr>))
       (if c = of_int CTRL_D then
          andthen (if acc \<noteq> [] then modify (\<lambda>s. s\<lparr>input := q\<rparr>) else return ())
            (return (Got acc))
        else if c = of_int NL then return (Got (acc @ [c]))
        else kbd_read_loop n (acc @ [c])))"

definition kbd_read_locked :: "nat \<Rightarrow> nat \<Rightarrow> u8 list \<Rightarrow> ('z kbd_state_scheme, int \<times> u8 list) kern" where
  "kbd_read_locked ip n acc =
     call (kbd_read_loop n acc) (\<lambda>r. case r of
       Got bs \<Rightarrow> andthen (release InputLock) (andthen (ilock ip) (return (int (length bs), bs)))
     | Killed \<Rightarrow> andthen (release InputLock) (andthen (ilock ip) (return (- 1, [])))
     | Waiting n bs \<Rightarrow> sleep InputChan InputLock)"

text \<open>\<open>uartkbdread\<close>; \<open>uartkbdread_resume\<close> is the rest of it after a sleep. A negative \<open>n\<close> reads nothing.\<close>

definition uartkbdread :: "nat \<Rightarrow> int \<Rightarrow> ('z kbd_state_scheme, int \<times> u8 list) kern" where
  "uartkbdread ip n =
     andthen (iunlock ip) (andthen (acquire InputLock) (kbd_read_locked ip (nat n) []))"

definition uartkbdread_resume :: "bool \<Rightarrow> nat \<Rightarrow> nat \<Rightarrow> u8 list \<Rightarrow>
    ('z kbd_state_scheme, int \<times> u8 list) kern" where
  "uartkbdread_resume saved ip n acc =
     andthen (sleep_return saved InputLock) (kbd_read_locked ip n acc)"

definition uartkbdinit :: "('z kbd_state_scheme, unit) kern" where
  "uartkbdinit =
     andthen (initlock InputLock)
     (modify (\<lambda>s. s\<lparr>input := (input s)\<lparr>kr := 0, kw := 0, ke := 0\<rparr>\<rparr>))"

end
