(* ===== verification/Framebuffer.thy ===== *)
theory Framebuffer
  imports Keyboard
begin

text \<open>
  framebuffer.c: the text console drawn on the frame buffer, the kernel's formatted output, and
  the frame buffer device. The frame buffer is an array of 16-bit pixels; the font (font1.bin) is
  an argument of the drawing functions.
\<close>

section \<open>The screen\<close>

definition framewidth :: u32 where "framewidth = 1024"
definition frameheight :: u32 where "frameheight = 768"
definition console_framewidth :: u32 where "console_framewidth = 1024"
definition console_frameheight :: u32 where "console_frameheight = 768"
definition fontwidth :: u32 where "fontwidth = 8"
definition fontheight :: u32 where "fontheight = 16"

text \<open>The pixels by index, the drawing colour and the text cursor.\<close>

record screen =
  px :: "u32 \<Rightarrow> u16"
  gpucolour :: u16
  cursor_x :: u32
  cursor_y :: u32

type_synonym font = "nat \<Rightarrow> u8"

definition setgpucolour :: "u16 \<Rightarrow> screen \<Rightarrow> screen" where
  "setgpucolour c s = s\<lparr>gpucolour := c\<rparr>"

definition drawpixel :: "u32 \<Rightarrow> u32 \<Rightarrow> screen \<Rightarrow> screen" where
  "drawpixel x y s =
     (if x \<ge> framewidth \<or> y \<ge> frameheight then s
      else s\<lparr>px := (px s)(y * 1024 + x := gpucolour s)\<rparr>)"

definition drawcursor :: "u32 \<Rightarrow> u32 \<Rightarrow> screen \<Rightarrow> screen" where
  "drawcursor x y s =
     fold (\<lambda>row. fold (\<lambda>bt. drawpixel (x + of_nat bt) (y + of_nat row)) [0 ..< 8]) [0 ..< 15] s"

definition drawcharacter :: "font \<Rightarrow> u8 \<Rightarrow> u32 \<Rightarrow> u32 \<Rightarrow> screen \<Rightarrow> screen" where
  "drawcharacter font c x y s =
     (if c > 127 then s
      else fold (\<lambda>row. fold (\<lambda>bt s.
          if bit (font (unat c * 16 + row)) bt then drawpixel (x + of_nat bt) (y + of_nat row) s else s)
        [0 ..< 8]) [0 ..< 15] s)"

text \<open>Scrolling, in pixels: the memmove of the rows below the first, and the fill of the last row.\<close>

definition fb_scroll_text_region :: "u32 \<Rightarrow> u32 \<Rightarrow> u32 \<Rightarrow> u16 \<Rightarrow> screen \<Rightarrow> screen" where
  "fb_scroll_text_region fbw fbh rowh bg s =
     (let kept = (fbh - rowh) * fbw; row = fbw * rowh in
      s\<lparr>px := (\<lambda>i. if i < kept then px s (i + row) else if i - kept < row then bg else px s i)\<rparr>)"

definition newline :: "screen \<Rightarrow> screen" where
  "newline s =
     (let s = s\<lparr>cursor_x := 0, cursor_y := cursor_y s + fontheight\<rparr> in
      if cursor_y s \<ge> console_frameheight then
        (fb_scroll_text_region console_framewidth console_frameheight fontheight 0 s)
          \<lparr>cursor_y := console_frameheight - fontheight\<rparr>
      else s)"

definition gpuputcolored :: "font \<Rightarrow> u8 \<Rightarrow> u16 \<Rightarrow> screen \<Rightarrow> screen" where
  "gpuputcolored font c color s =
     (if c = 10 then newline s
      else
        let s = (if c \<noteq> 32 then drawcharacter font c (cursor_x s) (cursor_y s) (setgpucolour color s) else s);
          s = s\<lparr>cursor_x := cursor_x s + fontwidth\<rparr>
        in if cursor_x s \<ge> console_framewidth then newline s else s)"

definition gpuputc :: "font \<Rightarrow> u8 \<Rightarrow> screen \<Rightarrow> screen" where
  "gpuputc font c s = gpuputcolored font c 0xFFFF s"

text \<open>\<open>fb_fillrect\<close> compares its signed counters with the unsigned size of the frame, so a negative corner ends
  the loop at once.\<close>

definition fb_fillrect :: "int \<Rightarrow> int \<Rightarrow> int \<Rightarrow> int \<Rightarrow> u16 \<Rightarrow> screen \<Rightarrow> screen" where
  "fb_fillrect x y w h color s =
     (if y < 0 \<or> x < 0 then s
      else fold (\<lambda>j. fold (\<lambda>i s. drawpixel (of_nat i) (of_nat j) (setgpucolour color s))
          [nat x ..< min (nat (x + w)) (unat framewidth)])
        [nat y ..< min (nat (y + h)) (unat frameheight)] s)"

section \<open>Formatted output\<close>

text \<open>The digits of a number, least significant first, as the loops of printint store them in an
  array of 16 bytes; \<open>k\<close> is the room left, and a number with more digits would overflow it.\<close>

fun print_digits :: "u8 list \<Rightarrow> nat \<Rightarrow> u32 \<Rightarrow> u32 \<Rightarrow> u8 list option" where
  "print_digits digits 0 x b = None"
| "print_digits digits (Suc k) x b =
     (let y = udiv x b; d = digits ! unat (x - y * b) in
      if y = 0 then Some [d] else map_option ((#) d) (print_digits digits k y b))"

text \<open>''0123456789abcdef''.\<close>

definition kdigits :: "u8 list" where
  "kdigits = [48, 49, 50, 51, 52, 53, 54, 55, 56, 57, 97, 98, 99, 100, 101, 102]"

definition printint_with :: "u8 list \<Rightarrow> u32 \<Rightarrow> u32 \<Rightarrow> bool \<Rightarrow> u8 list option" where
  "printint_with digits xx base sg =
     (let neg = (sg \<and> sint xx < 0) in
      case print_digits digits 16 (if neg then - xx else xx) base of
        None \<Rightarrow> None
      | Some ds \<Rightarrow> if neg \<and> length ds \<ge> 16 then None else Some (rev (ds @ (if neg then [45] else []))))"

definition printint :: "u32 \<Rightarrow> u32 \<Rightarrow> bool \<Rightarrow> u8 list option" where
  "printint xx base sg = printint_with kdigits xx base sg"

text \<open>
  The bytes cprintf sends to the screen and the serial line. \<open>fmt\<close> is the format without its
  terminator, \<open>args\<close> the words on the stack, \<open>str a\<close> the string at address \<open>a\<close>.
\<close>

definition null_text :: "u8 list" where "null_text = [40, 110, 117, 108, 108, 41]"

fun cprintf_out :: "(u32 \<Rightarrow> u8 list) \<Rightarrow> u8 list \<Rightarrow> u32 list \<Rightarrow> u8 list option" where
  "cprintf_out str [] args = Some []"
| "cprintf_out str [c] args = (if c \<noteq> 37 then Some [c] else Some [])"
| "cprintf_out str (c # d # fmt) args =
     (if c \<noteq> 37 then map_option ((#) c) (cprintf_out str (d # fmt) args)
      else if d = 100 then
        (case args of [] \<Rightarrow> None
         | a # as \<Rightarrow> (case printint a 10 True of None \<Rightarrow> None
            | Some bs \<Rightarrow> map_option ((@) bs) (cprintf_out str fmt as)))
      else if d = 120 \<or> d = 112 then
        (case args of [] \<Rightarrow> None
         | a # as \<Rightarrow> (case printint a 16 False of None \<Rightarrow> None
            | Some bs \<Rightarrow> map_option ((@) bs) (cprintf_out str fmt as)))
      else if d = 115 then
        (case args of [] \<Rightarrow> None
         | a # as \<Rightarrow> map_option ((@) (if a = 0 then null_text else str a)) (cprintf_out str fmt as))
      else if d = 37 then map_option ((#) 37) (cprintf_out str fmt args)
      else map_option ((@) [37, d]) (cprintf_out str fmt args))"

text \<open>\<open>uartputc\<close> sends a carriage return before a line feed.\<close>

definition uartputc :: "u8 \<Rightarrow> u8 list" where
  "uartputc c = (if c = 10 then [13, 10] else [c])"

section \<open>The device\<close>

text \<open>\<open>fbi_width\<close> and \<open>fbi_height\<close> are the fields of \<open>fbinfo\<close> the GPU filled in.\<close>

record fb_state = kbd_state +
  screen :: screen
  fbi_width :: u32
  fbi_height :: u32

definition on_screen :: "(screen \<Rightarrow> screen) \<Rightarrow> ('z fb_state_scheme, unit) kern" where
  "on_screen f = modify (\<lambda>s. s\<lparr>screen := f (screen s)\<rparr>)"

record fb_pixel =
  pix_x :: u32
  pix_y :: u32
  pix_color :: u16
  pix_ch :: u8
  pix_w :: u32
  pix_h :: u32
  pix_buffer :: u32

text \<open>fb\_pixel\_t, 24 bytes with one byte of padding.\<close>

definition dec_fb_pixel :: "u8 list \<Rightarrow> fb_pixel" where
  "dec_fb_pixel d = \<lparr>pix_x = of_le32 d, pix_y = of_le32 (drop 4 d), pix_color = of_le16 (drop 8 d),
     pix_ch = d ! 10, pix_w = of_le32 (drop 12 d), pix_h = of_le32 (drop 16 d),
     pix_buffer = of_le32 (drop 20 d)\<rparr>"

text \<open>Copying a block of pixels from user memory; False when a pixel cannot be read.\<close>

fun fb_blit :: "fb_pixel \<Rightarrow> (nat \<times> nat) list \<Rightarrow> ('z fb_state_scheme, bool) kern" where
  "fb_blit pix [] = return True"
| "fb_blit pix ((yy, xx) # ps) =
     call (reads (\<lambda>s. s)) (\<lambda>s.
     let dx = pix_x pix + of_nat xx; dy = pix_y pix + of_nat yy in
     if dx \<ge> fbi_width s \<or> dy \<ge> fbi_height s then fb_blit pix ps
     else
       call (get_curr pgdir) (\<lambda>pd.
       call (copyin pd (pix_buffer pix + (of_nat yy * pix_w pix + of_nat xx) * 2) 2) (\<lambda>r. case r of
         None \<Rightarrow> return False
       | Some bs \<Rightarrow>
           andthen (on_screen (\<lambda>sc. drawpixel dx dy (setgpucolour (of_le16 bs) sc)))
           (fb_blit pix ps))))"

definition fb_draw :: "font \<Rightarrow> fb_pixel \<Rightarrow> ('z fb_state_scheme, bool) kern" where
  "fb_draw font pix =
     (if pix_buffer pix \<noteq> 0 \<and> pix_w pix \<noteq> 0 \<and> pix_h pix \<noteq> 0 then
        fb_blit pix (List.product [0 ..< unat (pix_h pix)] [0 ..< unat (pix_w pix)])
      else
        call (reads (\<lambda>s. s)) (\<lambda>s.
        andthen
          (if pix_x pix < fbi_width s \<and> pix_y pix < fbi_height s then
             on_screen (\<lambda>sc.
               if pix_ch pix \<noteq> 0
               then drawcharacter font (pix_ch pix) (pix_x pix) (pix_y pix) (setgpucolour (pix_color pix) sc)
               else drawpixel (pix_x pix) (pix_y pix) (setgpucolour (pix_color pix) sc))
           else return ())
          (return True)))"

text \<open>The loop of fbwrite over the \<open>k\<close> whole structures in the user's buffer.\<close>

fun fbwrite_loop :: "font \<Rightarrow> nat \<Rightarrow> u32 \<Rightarrow> u32 \<Rightarrow> ('z fb_state_scheme, int) kern" where
  "fbwrite_loop font 0 buf off = return (sint off)"
| "fbwrite_loop font (Suc k) buf off =
     call (get_curr pgdir) (\<lambda>pd.
     call (copyin pd (buf + off) 24) (\<lambda>r. case r of
       None \<Rightarrow> return (- 1)
     | Some d \<Rightarrow>
         call (fb_draw font (dec_fb_pixel d)) (\<lambda>okay.
         if okay then fbwrite_loop font k buf (off + 24) else return (- 1))))"

text \<open>The test of the loop compares \<open>n\<close> unsigned, so a negative length runs on.\<close>

definition fbwrite :: "font \<Rightarrow> nat \<Rightarrow> u32 \<Rightarrow> int \<Rightarrow> ('z fb_state_scheme, int) kern" where
  "fbwrite font ip buf n =
     locked_section ConsLock (fbwrite_loop font (unat (of_int n :: u32) div 24) buf 0)"

definition fbread :: "nat \<Rightarrow> int \<Rightarrow> ('z fb_state_scheme, int \<times> u8 list) kern" where
  "fbread ip n = return (0, [])"

text \<open>The device table after uartkbdinit, and after framebuffer\_init, which clears it first and
  which no function of the kernel calls.\<close>

definition devsw_uart :: "'z fb_state_scheme devsw \<Rightarrow> 'z fb_state_scheme devsw" where
  "devsw_uart dv = dv(2 := (Some uartkbdread, None))"

definition framebuffer_init :: "font \<Rightarrow> 'z fb_state_scheme devsw \<Rightarrow> 'z fb_state_scheme devsw" where
  "framebuffer_init font dv = (\<lambda>_. (None, None))(3 := (Some fbread, Some (fbwrite font)))"

end
