(* ===== verification/Trap.thy ===== *)
theory Trap
  imports Framebuffer
begin

text \<open>
  trap.c and the interrupt part of timer.c: what a trap does to the running process. The
  interrupts pending when the handler looks are an argument; device registers are not modelled.
\<close>

definition T_SYSCALL :: u32 where "T_SYSCALL = 0x40"
definition T_IRQ :: u32 where "T_IRQ = 0x80"
definition USER_MODE :: u32 where "USER_MODE = 0"

text \<open>An interrupt the loop of the handler finds pending: the timer, or the serial line with the
  characters it has received.\<close>

datatype interrupt = Timer3 | Miniuart "int list"

definition timer3intr :: "('z ptable_scheme, unit) kern" where
  "timer3intr = andthen (modify (\<lambda>s. s\<lparr>ticks := ticks s + 1\<rparr>)) (wakeup TicksChan)"

definition handle_interrupt :: "interrupt \<Rightarrow> ('z kbd_state_scheme, unit) kern" where
  "handle_interrupt i = (case i of Timer3 \<Rightarrow> timer3intr | Miniuart cs \<Rightarrow> uartkbdintr cs)"

definition user_mode :: "trapframe \<Rightarrow> bool" where
  "user_mode f \<longleftrightarrow> tf_spsr f AND 0xF = USER_MODE"

definition exit_if_killed :: "bool \<Rightarrow> ('z file_state_scheme, unit) kern" where
  "exit_if_killed user =
     call curr_killed (\<lambda>k. if k \<and> user then exit else return ())"

text \<open>The tail of \<open>trap\<close>, for a trap that interrupted a process; \<open>trap_after_yield\<close> is what
  follows the yield.\<close>

definition trap_after_yield :: "trapframe \<Rightarrow> ('z file_state_scheme, unit) kern" where
  "trap_after_yield f = exit_if_killed (user_mode f)"

definition trap_tail :: "trapframe \<Rightarrow> bool \<Rightarrow> ('z file_state_scheme, unit) kern" where
  "trap_tail f istimer =
     call (reads curr) (\<lambda>c. case c of
       None \<Rightarrow> return ()
     | Some _ \<Rightarrow>
         andthen (exit_if_killed (user_mode f))
         (call (get_curr pstate) (\<lambda>st.
          if st = RUNNING \<and> istimer then yield else trap_after_yield f)))"

text \<open>\<open>trap\<close>; the messages it prints are not part of the modelled state.\<close>

definition trap :: "'z kbd_state_scheme devsw \<Rightarrow> trapframe \<Rightarrow> interrupt list \<Rightarrow>
    ('z kbd_state_scheme, unit) kern" where
  "trap dv f pending =
     (if tf_trapno f = T_SYSCALL then
        andthen (exit_if_killed True)
        (andthen (upd_curr (\<lambda>p. p\<lparr>tf := f\<rparr>))
        (andthen (syscall dv)
        (exit_if_killed True)))
      else if tf_trapno f = T_IRQ then
        andthen (for_each pending handle_interrupt) (trap_tail f (Timer3 \<in> set pending))
      else
        call (reads curr) (\<lambda>c.
        andthen (panic_if (c = None \<or> \<not> user_mode f) ''trap'')
        (andthen (upd_curr (\<lambda>p. p\<lparr>killed := True\<rparr>)) (trap_tail f False))))"

end
