(* ===== verification/Devices.thy ===== *)
theory Devices
  imports Vm
begin

text \<open>
  The drivers of the board's devices: uart.c, mailbox.c, timer.c, the serial line of mmu.c, the interrupt
  controller of trap.c and the request for a frame buffer. A register reads as what was written to it last
  (\<open>regs\<close>), and the writes are recorded in order (\<open>out\<close>). Registers whose value the hardware changes
  are read from a list of the values the successive reads return; a driver that polls such a register is
  \<open>None\<close> while the list has not brought what it waits for.
\<close>

section \<open>Registers\<close>

record devices =
  regs :: "u32 \<Rightarrow> u32"
  out :: "(u32 \<times> u32) list"

definition write32 :: "u32 \<Rightarrow> u32 \<Rightarrow> devices \<Rightarrow> devices" where
  "write32 a v d = d\<lparr>regs := (regs d)(a := v), out := out d @ [(a, v)]\<rparr>"

definition write_all :: "(u32 \<times> u32) list \<Rightarrow> devices \<Rightarrow> devices" where
  "write_all ws d = fold (\<lambda>(a, v). write32 a v) ws d"

text \<open>Read a register until its value satisfies \<open>p\<close>.\<close>

fun poll :: "(u32 \<Rightarrow> bool) \<Rightarrow> u32 list \<Rightarrow> (u32 \<times> u32 list) option" where
  "poll p [] = None"
| "poll p (v # vs) = (if p v then Some (v, vs) else poll p vs)"

section \<open>Pins\<close>

definition GPFSEL0 :: u32 where "GPFSEL0 = 0xFE200000"
definition GPSET0 :: u32 where "GPSET0 = 0xFE20001C"
definition GPCLR0 :: u32 where "GPCLR0 = 0xFE200028"

definition setgpioval :: "u32 \<Rightarrow> u32 \<Rightarrow> devices \<Rightarrow> devices" where
  "setgpioval func val d =
     (if func > 53 then d
      else let sel = drop_bit 5 func;
               ssel = GPSET0 + push_bit 2 sel;
               rsel = GPCLR0 + push_bit 2 sel;
               sel = func AND 0x1f
           in if val = 0 then write32 rsel (push_bit (unat sel) 1) d else write32 ssel (push_bit (unat sel) 1) d)"

function gpio_split :: "u32 \<Rightarrow> u32 \<Rightarrow> u32 \<times> u32" where
  "gpio_split func sel = (if func > 10 then gpio_split (func - 10) (sel + 1) else (func, sel))"
  by pat_completeness auto
termination
  by (relation "measure (\<lambda>(func, sel). unat func)") (auto simp: word_less_nat_alt unat_sub word_le_nat_alt)

declare gpio_split.simps [simp del]

definition setgpiofunc :: "u32 \<Rightarrow> u32 \<Rightarrow> devices \<Rightarrow> devices" where
  "setgpiofunc func alt d =
     (if func > 53 then d
      else let (func, sel) = gpio_split func 0;
               sel = push_bit 2 sel + GPFSEL0;
               data = regs d sel;
               shift = func + push_bit 1 func;
               data = data AND NOT (push_bit (unat shift) 7);
               data = data OR push_bit (unat shift) alt
           in write32 sel data d)"

section \<open>The serial line\<close>

definition AUX_ENABLES :: u32 where "AUX_ENABLES = 0x215004"
definition AUX_MU_IO_REG :: u32 where "AUX_MU_IO_REG = 0x215040"
definition AUX_MU_IER_REG :: u32 where "AUX_MU_IER_REG = 0x215044"
definition AUX_MU_IIR_REG :: u32 where "AUX_MU_IIR_REG = 0x215048"
definition AUX_MU_LCR_REG :: u32 where "AUX_MU_LCR_REG = 0x21504C"
definition AUX_MU_MCR_REG :: u32 where "AUX_MU_MCR_REG = 0x215050"
definition AUX_MU_CNTL_REG :: u32 where "AUX_MU_CNTL_REG = 0x215060"
definition AUX_MU_BAUD_REG :: u32 where "AUX_MU_BAUD_REG = 0x215068"
definition GPFSEL1 :: u32 where "GPFSEL1 = 0x200004"
definition GPPUD :: u32 where "GPPUD = 0x200094"
definition GPPUDCLK0 :: u32 where "GPPUDCLK0 = 0x200098"

text \<open>The same registers are at \<open>IO_BASE\<close> before and at \<open>DEVSPACE\<close> after the memory management unit is on.\<close>

definition IO_BASE :: u32 where "IO_BASE = 0x20000000"

definition uart_init0 :: "devices \<Rightarrow> devices" where
  "uart_init0 d =
     (let d = write_all
            [(IO_BASE + AUX_ENABLES, 1), (IO_BASE + AUX_MU_CNTL_REG, 0), (IO_BASE + AUX_MU_LCR_REG, 3),
             (IO_BASE + AUX_MU_MCR_REG, 0), (IO_BASE + AUX_MU_IER_REG, 1), (IO_BASE + AUX_MU_IIR_REG, 0xC7),
             (IO_BASE + AUX_MU_BAUD_REG, 270)] d;
          ra = regs d (IO_BASE + GPFSEL1);
          ra = ra AND NOT (push_bit 12 7);
          ra = ra OR push_bit 12 2;
          ra = ra AND NOT (push_bit 15 7);
          ra = ra OR push_bit 15 2
      in write_all
            [(IO_BASE + GPFSEL1, ra), (IO_BASE + GPPUD, 0), (IO_BASE + GPPUDCLK0, push_bit 14 1 OR push_bit 15 1),
             (IO_BASE + GPPUDCLK0, 0), (IO_BASE + AUX_MU_CNTL_REG, 3)] d)"

text \<open>\<open>_uart_putc\<close> and \<open>__uart_putc\<close>, which differ in the base, and their loops over a string; \<open>ss\<close> are the values
  of the line status register.\<close>

definition tx_ready :: "u32 \<Rightarrow> bool" where "tx_ready v \<longleftrightarrow> v AND 0x20 \<noteq> 0"

definition boot_putc :: "u32 \<Rightarrow> u32 \<Rightarrow> u32 list \<times> devices \<Rightarrow> (u32 list \<times> devices) option" where
  "boot_putc io c = (\<lambda>(ss, d).
     map_option (\<lambda>(_, ss). (ss, write32 (io + AUX_MU_IO_REG) c d)) (poll tx_ready ss))"

fun boot_puts :: "u32 \<Rightarrow> u8 list \<Rightarrow> u32 list \<times> devices \<Rightarrow> (u32 list \<times> devices) option" where
  "boot_puts io [] sd = Some sd"
| "boot_puts io (c # s) sd =
     Option.bind (if c = 10 then boot_putc io 13 sd else Some sd) (\<lambda>sd.
     Option.bind (boot_putc io (ucast c) sd) (boot_puts io s))"

text \<open>\<open>uartputc\<close>, which puts a carriage return before a newline itself, and \<open>___puts\<close>.\<close>

definition uart_putc :: "u32 \<Rightarrow> u32 list \<times> devices \<Rightarrow> (u32 list \<times> devices) option" where
  "uart_putc c sd =
     Option.bind (if c = 10 then boot_putc DEVSPACE 13 sd else Some sd) (boot_putc DEVSPACE c)"

fun uart_puts :: "u8 list \<Rightarrow> u32 list \<times> devices \<Rightarrow> (u32 list \<times> devices) option" where
  "uart_puts [] sd = Some sd"
| "uart_puts (c # s) sd =
     Option.bind (if c = 10 then uart_putc 13 sd else Some sd) (\<lambda>sd.
     Option.bind (uart_putc (ucast c) sd) (uart_puts s))"

text \<open>The values of the status and the data register, and the result.\<close>

definition uartgetc :: "u32 \<Rightarrow> u32 \<Rightarrow> int" where
  "uartgetc lsr io = (if lsr AND 1 \<noteq> 0 then sint io else - 1)"

section \<open>The interrupt controller and the timer\<close>

definition INT_REGS_BASE :: u32 where "INT_REGS_BASE = DEVSPACE + 0xB200"
definition FIQCTRL :: u32 where "FIQCTRL = INT_REGS_BASE + 12"
definition GPUENABLE :: u32 where "GPUENABLE = INT_REGS_BASE + 16"
definition ARMENABLE :: u32 where "ARMENABLE = INT_REGS_BASE + 24"
definition GPUDISABLE :: u32 where "GPUDISABLE = INT_REGS_BASE + 28"
definition ARMDISABLE :: u32 where "ARMDISABLE = INT_REGS_BASE + 36"
definition IRQ_TIMER3 :: nat where "IRQ_TIMER3 = 3"
definition IRQ_MINIUART :: nat where "IRQ_MINIUART = 29"

definition or_reg :: "u32 \<Rightarrow> u32 \<Rightarrow> devices \<Rightarrow> devices" where
  "or_reg a v d = write32 a (regs d a OR v) d"

definition enableirqminiuart :: "devices \<Rightarrow> devices" where
  "enableirqminiuart d = or_reg GPUENABLE (push_bit 29 1) d"

definition uartinit :: "devices \<Rightarrow> devices" where
  "uartinit d = enableirqminiuart d"

definition enable_intrs :: "devices \<Rightarrow> devices" where
  "enable_intrs d = or_reg ARMENABLE 1 (or_reg GPUENABLE (push_bit 29 1) d)"

definition disable_intrs :: "devices \<Rightarrow> devices" where
  "disable_intrs d =
     write_all [(GPUDISABLE, NOT 0), (GPUDISABLE + 4, NOT 0), (ARMDISABLE, NOT 0), (FIQCTRL, 0)] d"

definition enabletimer3irq :: "devices \<Rightarrow> devices" where
  "enabletimer3irq d = or_reg GPUENABLE (push_bit IRQ_TIMER3 1) d"

definition TIMER_REGS_BASE :: u32 where "TIMER_REGS_BASE = 0xFE003000"
definition CONTROL_STATUS :: u32 where "CONTROL_STATUS = 0"
definition COMPARE3 :: u32 where "COMPARE3 = 0x18"
definition TIMER_FREQ :: u32 where "TIMER_FREQ = 10000"

text \<open>\<open>clo\<close> is what the counter reads as. The clearing of \<open>ticks\<close> is part of the state of Proc.\<close>

definition timer3init_regs :: "u32 \<Rightarrow> devices \<Rightarrow> devices" where
  "timer3init_regs clo d = write32 (TIMER_REGS_BASE + COMPARE3) (clo + TIMER_FREQ) (enabletimer3irq d)"

definition timer3intr_regs :: "u32 \<Rightarrow> devices \<Rightarrow> devices" where
  "timer3intr_regs clo d =
     write32 (TIMER_REGS_BASE + COMPARE3) (clo + TIMER_FREQ)
       (write32 (TIMER_REGS_BASE + CONTROL_STATUS) (push_bit IRQ_TIMER3 1) d)"

text \<open>\<open>delay\<close>: the first of the times read, then those the loop reads; the times left.\<close>

fun delay_loop :: "64 word \<Rightarrow> 64 word list \<Rightarrow> 64 word list option" where
  "delay_loop t [] = None"
| "delay_loop t (u # us) = (if t \<noteq> u then delay_loop t us else Some us)"

fun delay :: "u32 \<Rightarrow> 64 word list \<Rightarrow> 64 word list option" where
  "delay m [] = (if m = 0 then Some [] else None)"
| "delay m (u # us) = (if m = 0 then Some (u # us) else delay_loop (u + ucast m) us)"

section \<open>The mailbox\<close>

text \<open>The words of the buffer.\<close>

definition MB_HEADER_LENGTH :: nat where "MB_HEADER_LENGTH = 2"
definition TAG_HEADER_LENGTH :: nat where "TAG_HEADER_LENGTH = 3"
definition POS_OVERALL_LENGTH :: nat where "POS_OVERALL_LENGTH = 0"
definition POS_RV :: nat where "POS_RV = 1"
definition POS_TAG :: nat where "POS_TAG = 2"
definition POS_TAG_ID :: nat where "POS_TAG_ID = 0"
definition POS_TAG_BUFLEN :: nat where "POS_TAG_BUFLEN = 1"
definition POS_TAG_DATALEN :: nat where "POS_TAG_DATALEN = 2"
definition POS_TAG_DATA :: nat where "POS_TAG_DATA = 3"
definition MPI_REQUEST :: u32 where "MPI_REQUEST = 0"

lemmas mbox_defs = MB_HEADER_LENGTH_def TAG_HEADER_LENGTH_def POS_OVERALL_LENGTH_def POS_RV_def POS_TAG_def
  POS_TAG_ID_def POS_TAG_BUFLEN_def POS_TAG_DATALEN_def POS_TAG_DATA_def MPI_REQUEST_def

fun fill_data :: "nat \<Rightarrow> nat \<Rightarrow> (nat \<Rightarrow> u32) option \<Rightarrow> (nat \<Rightarrow> u32) \<Rightarrow> nat \<Rightarrow> u32" where
  "fill_data i 0 data b = b"
| "fill_data i (Suc n) data b =
     fill_data (Suc i) n data
       (b(POS_TAG + POS_TAG_DATA + i := (case data of None \<Rightarrow> 0 | Some f \<Rightarrow> f i)))"

definition create_request :: "u32 \<Rightarrow> u32 \<Rightarrow> u32 \<Rightarrow> (nat \<Rightarrow> u32) option \<Rightarrow> (nat \<Rightarrow> u32) \<Rightarrow> nat \<Rightarrow> u32" where
  "create_request tag buflen len data b =
     (let b = b(POS_TAG + POS_TAG_ID := tag);
          b = b(POS_TAG + POS_TAG_BUFLEN := buflen);
          b = b(POS_TAG + POS_TAG_DATALEN := len AND 0x7FFFFFFF);
          nw = unat (drop_bit 2 buflen);
          b = fill_data 0 nw data b;
          b = b(POS_TAG + POS_TAG_DATA + nw := 0);
          tag_len = b (MB_HEADER_LENGTH + POS_TAG_BUFLEN);
          total_len = of_nat (MB_HEADER_LENGTH * 4) + of_nat (TAG_HEADER_LENGTH * 4) + tag_len + 4;
          b = b(POS_OVERALL_LENGTH := total_len)
      in b(POS_RV := MPI_REQUEST))"

definition MAILBOX_BASE :: u32 where "MAILBOX_BASE = 0xFE00B880"

text \<open>The values of the status register and of the data register.\<close>

fun readmailbox :: "u8 \<Rightarrow> u32 list \<Rightarrow> u32 list \<Rightarrow> (u32 \<times> u32 list \<times> u32 list) option" where
  "readmailbox channel ss [] = None"
| "readmailbox channel ss (x # xs) =
     (case poll (\<lambda>s. s AND 0x40000000 = 0) ss of
        None \<Rightarrow> None
      | Some (_, ss) \<Rightarrow>
          if x AND 0xf \<noteq> ucast (channel AND 0xf) then readmailbox channel ss xs
          else Some (x AND 0xfffffff0, ss, xs))"

definition writemailbox :: "u32 \<Rightarrow> u8 \<Rightarrow> u32 list \<times> devices \<Rightarrow> (u32 list \<times> devices) option" where
  "writemailbox addr channel = (\<lambda>(ss, d).
     let a = addr - KERNBASE;
         a = a + 0x40000000;
         x = a AND 0xfffffff0;
         y = x OR ucast (channel AND 0xf)
     in map_option (\<lambda>(_, ss). (ss, write32 (MAILBOX_BASE + 32) y d)) (poll (\<lambda>s. s AND 0x80000000 = 0) ss))"

record fbi =
  fb_width :: u32
  fb_height :: u32
  fb_vwidth :: u32
  fb_vheight :: u32
  fb_pitch :: u32
  fb_depth :: u32
  fb_x :: u32
  fb_y :: u32
  fb_fbp :: u32
  fb_fbs :: u32

text \<open>\<open>initframebuf\<close> with the address of \<open>fbinfo\<close>: the request it leaves there, and the GPU's answer.\<close>

definition initframebuf :: "u32 \<Rightarrow> u32 \<Rightarrow> u32 \<Rightarrow> u32 \<Rightarrow> u32 list \<Rightarrow> u32 list \<Rightarrow> u32 list \<times> devices \<Rightarrow>
    (fbi \<times> u32 \<times> devices) option" where
  "initframebuf at width height depth rss rxs sd =
     Option.bind (writemailbox at 1 sd) (\<lambda>(_, d).
     map_option (\<lambda>(r, _).
       (\<lparr>fb_width = width, fb_height = height, fb_vwidth = width, fb_vheight = height, fb_pitch = 0,
         fb_depth = depth, fb_x = 0, fb_y = 0, fb_fbp = 0, fb_fbs = 0\<rparr>, r, d)) (readmailbox 1 rss rxs))"

section \<open>What the drivers do\<close>

lemma poll_Some: "poll p vs = Some (v, ws) \<longleftrightarrow> (\<exists>us. vs = us @ v # ws \<and> p v \<and> list_all (\<lambda>u. \<not> p u) us)"
proof (induction vs)
  case (Cons u vs)
  show ?case
  proof (cases "p u")
    case True
    then show ?thesis by (auto simp: Cons_eq_append_conv)
  next
    case False
    then show ?thesis using Cons.IH by (auto simp: Cons_eq_append_conv)
  qed
qed simp

text \<open>The loop of \<open>setgpiofunc\<close> stops at ten, not below it.\<close>

lemma gpio_split_eq:
  "gpio_split f s = (f - of_nat (10 * ((unat f - 1) div 10)), s + of_nat ((unat f - 1) div 10))"
proof (induction f s rule: gpio_split.induct)
  case (1 f s)
  show ?case
  proof (cases "f > 10")
    case True
    then have u: "unat f > 10" "unat (f - 10) = unat f - 10" by (auto simp: word_less_nat_alt unat_sub word_le_nat_alt)
    then have "(unat f - 1) div 10 = Suc ((unat f - 10 - 1) div 10)"
      by (subst div_if) auto
    with 1 True u show ?thesis by (simp add: gpio_split.simps [of f s] algebra_simps)
  next
    case False
    then have "(unat f - 1) div 10 = 0" by (simp add: word_less_nat_alt)
    with False show ?thesis by (simp add: gpio_split.simps [of f s])
  qed
qed

definition pin_field :: "nat \<Rightarrow> u32 \<Rightarrow> u32" where
  "pin_field k v = drop_bit (3 * k) v AND 7"

lemma pin_field_set:
  assumes "alt < 8" "i < 10" "k < 10"
  shows "pin_field k (v AND NOT (push_bit (3 * i) 7) OR push_bit (3 * i) alt) = (if k = i then alt else pin_field k v)"
proof -
  have seven: "(7 :: u32) = mask 3" by (simp add: mask_eq_exp_minus_1)
  have "take_bit 3 alt = alt" using assms(1) by (simp add: take_bit_eq_mod mod_word_less)
  then have alt: "bit alt j \<Longrightarrow> j < 3" for j by (metis bit_take_bit_iff)
  have f: "pin_field k w = take_bit 3 (drop_bit (3 * k) w)" for w
    by (simp add: pin_field_def seven take_bit_eq_mask)
  define u where "u = v AND NOT (push_bit (3 * i) 7) OR push_bit (3 * i) alt"
  have b: "bit u j \<longleftrightarrow> j < 32 \<and> (if 3 * i \<le> j \<and> j < 3 * i + 3 then bit alt (j - 3 * i) else bit v j)" for j
  proof -
    have "bit (push_bit (3 * i) 7 :: u32) j \<longleftrightarrow> j < 32 \<and> 3 * i \<le> j \<and> j < 3 * i + 3"
      unfolding seven by (auto simp: bit_simps)
    moreover have "bit (push_bit (3 * i) alt) j \<longleftrightarrow> j < 32 \<and> 3 * i \<le> j \<and> bit alt (j - 3 * i)"
      by (auto simp: bit_simps)
    moreover have "bit v j \<Longrightarrow> j < 32" by (drule bit_imp_le_length) simp
    ultimately show ?thesis using alt [of "j - 3 * i"] by (auto simp: u_def bit_or_iff bit_and_iff bit_not_iff)
  qed
  show ?thesis
  proof (cases "k = i")
    case True
    have "take_bit 3 (drop_bit (3 * k) u) = alt"
    proof (rule bit_word_eqI)
      fix j assume "j < LENGTH(32)"
      have "3 * k + j < 32" if "j < 3" using that assms(3) by simp
      then show "bit (take_bit 3 (drop_bit (3 * k) u)) j = bit alt j"
        using alt [of j] assms True b [of "3 * k + j"] by (auto simp: bit_take_bit_iff bit_drop_bit_eq)
    qed
    with True f show ?thesis by (simp add: u_def [symmetric])
  next
    case False
    have "take_bit 3 (drop_bit (3 * k) u) = take_bit 3 (drop_bit (3 * k) v)"
    proof (rule bit_word_eqI)
      fix j assume "j < LENGTH(32)"
      have "\<not> (3 * i \<le> 3 * k + j \<and> 3 * k + j < 3 * i + 3)" if "j < 3" using that False by presburger
      moreover have "3 * k + j < 32" if "j < 3" using that assms(3) by simp
      ultimately show "bit (take_bit 3 (drop_bit (3 * k) u)) j = bit (take_bit 3 (drop_bit (3 * k) v)) j"
        using b [of "3 * k + j"] by (auto simp: bit_take_bit_iff bit_drop_bit_eq)
    qed
    with False f show ?thesis by (simp add: u_def [symmetric])
  qed
qed

text \<open>The two bits above the ten fields.\<close>

lemma top_bits_set:
  fixes v alt :: u32
  defines "w \<equiv> v AND NOT (push_bit 30 7) OR push_bit 30 alt"
  shows "take_bit 30 w = take_bit 30 v" "drop_bit 30 w = take_bit 2 alt"
proof -
  have seven: "(7 :: u32) = mask 3" by (simp add: mask_eq_exp_minus_1)
  show "take_bit 30 w = take_bit 30 v"
    unfolding w_def seven by (rule bit_word_eqI) (auto simp: bit_simps)
  show "drop_bit 30 w = take_bit 2 alt"
    unfolding w_def seven by (rule bit_word_eqI) (auto simp: bit_simps)
qed

text \<open>The register and the place in it of the field of a pin.\<close>

definition pin_reg :: "u32 \<Rightarrow> u32" where
  "pin_reg pin = GPFSEL0 + 4 * of_nat (unat pin div 10)"

lemma setgpiofunc_eq:
  assumes "unat pin \<le> 53"
  shows "setgpiofunc pin alt d =
    (let q = (unat pin - 1) div 10; i = unat pin - 10 * q; r = GPFSEL0 + 4 * of_nat q in
     write32 r (regs d r AND NOT (push_bit (3 * i) 7) OR push_bit (3 * i) alt) d)"
proof -
  define q where "q = (unat pin - 1) div 10"
  define i where "i = unat pin - 10 * q"
  have "10 * q \<le> unat pin" unfolding q_def by (metis diff_le_self div_times_less_eq_dividend le_trans mult.commute)
  then have f: "pin - of_nat (10 * q) = of_nat i" by (simp add: i_def of_nat_diff)
  have i: "i \<le> 10" using assms div_mult_mod_eq [of "unat pin - 1" 10] mod_less_divisor [of 10 "unat pin - 1"]
    by (simp add: i_def q_def)
  have "unat (of_nat i + push_bit 1 (of_nat i) :: u32) = 3 * i"
  proof -
    have "of_nat i + push_bit 1 (of_nat i) = (of_nat (3 * i) :: u32)" by (simp add: push_bit_eq_mult)
    then show ?thesis using i by (simp only: unat_of_nat) simp
  qed
  moreover have "\<not> pin > 53" using assms by (simp add: word_less_nat_alt)
  moreover have "gpio_split pin 0 = (of_nat i, of_nat q)" using gpio_split_eq [of pin 0] f by (simp add: q_def)
  moreover have "push_bit 2 (of_nat q) + GPFSEL0 = GPFSEL0 + 4 * of_nat q" by (simp add: push_bit_eq_mult)
  ultimately show ?thesis
    unfolding Let_def q_def [symmetric] i_def [symmetric] by (simp add: setgpiofunc_def Let_def add.commute)
qed

text \<open>C32: \<open>setgpiofunc\<close> makes one write. For most pins it goes to the register of the pin and sets the function of
  that pin and of no other. For the pins 10, 20, 30, 40 and 50 it goes to the register before, which keeps the
  functions of its ten pins and gets the low bits of the function in its two unused bits, so the function of the
  pin is not set.\<close>
theorem gpio_function:
  assumes "unat pin \<le> 53" "alt < 8"
  shows "if pin = 0 \<or> unat pin mod 10 \<noteq> 0
    then \<exists>v. setgpiofunc pin alt d = write32 (pin_reg pin) v d
      \<and> list_all (\<lambda>k. pin_field k v = (if k = unat pin mod 10 then alt else pin_field k (regs d (pin_reg pin)))) [0..<10]
    else \<exists>v. setgpiofunc pin alt d = write32 (pin_reg pin - 4) v d
      \<and> take_bit 30 v = take_bit 30 (regs d (pin_reg pin - 4)) \<and> drop_bit 30 v = take_bit 2 alt
      \<and> regs (setgpiofunc pin alt d) (pin_reg pin) = regs d (pin_reg pin)"
proof -
  define q where "q = (unat pin - 1) div 10"
  define i where "i = unat pin - 10 * q"
  note eq = setgpiofunc_eq [OF assms(1), of alt d, folded q_def, unfolded Let_def, folded i_def]
  show ?thesis
  proof (cases "pin = 0 \<or> unat pin mod 10 \<noteq> 0")
    case True
    have "q = unat pin div 10 \<and> i = unat pin mod 10"
    proof (cases "pin = 0")
      case False
      with True have m: "0 < unat pin mod 10" by simp
      have "unat pin - 1 = 10 * (unat pin div 10) + (unat pin mod 10 - 1)"
        using m mult_div_mod_eq [of 10 "unat pin"] by linarith
      moreover have "unat pin mod 10 - 1 < 10" by (simp add: less_imp_diff_less)
      ultimately have "q = unat pin div 10" unfolding q_def by (metis div_mult_self4 div_less add_0 zero_neq_numeral div_mult_self2 add.commute add.right_neutral)
      then show ?thesis by (simp add: i_def minus_mult_div_eq_mod)
    qed (simp add: q_def i_def)
    then have "q = unat pin div 10" "i = unat pin mod 10" by simp_all
    with True eq pin_field_set [OF assms(2), of i] show ?thesis
      by (auto simp: list_all_iff pin_reg_def)
  next
    case False
    then have p: "unat pin = 10 * (unat pin div 10)" "unat pin \<noteq> 0" using mult_div_mod_eq [of 10 "unat pin"] by (auto simp: unat_eq_0)
    then obtain n where n: "unat pin div 10 = Suc n" by (cases "unat pin div 10") auto
    then have "unat pin - 1 = 10 * n + 9" "unat pin = 10 * n + 10" using p(1) by simp_all
    then have "q = n" "i = 10" by (simp_all add: q_def i_def)
    moreover have "pin_reg pin - 4 = GPFSEL0 + 4 * of_nat n" using n by (simp add: pin_reg_def)
    ultimately have w: "setgpiofunc pin alt d = write32 (pin_reg pin - 4)
        (regs d (pin_reg pin - 4) AND NOT (push_bit 30 7) OR push_bit 30 alt) d"
      using eq by simp
    then show ?thesis using False top_bits_set [of "regs d (pin_reg pin - 4)" alt] by (auto simp: write32_def)
  qed
qed

lemma gpio_function_witness:
  "pin_field 6 (regs (setgpiofunc 16 1 \<lparr>regs = \<lambda>_. 0, out = []\<rparr>) 0xFE200004) = 1
   \<and> regs (setgpiofunc 20 1 \<lparr>regs = \<lambda>_. 0, out = []\<rparr>) 0xFE200008 = 0
   \<and> drop_bit 30 (regs (setgpiofunc 20 1 \<lparr>regs = \<lambda>_. 0, out = []\<rparr>) 0xFE200004) = 1"
  using gpio_function [of 16 1 "\<lparr>regs = \<lambda>_. 0, out = []\<rparr>"] gpio_function [of 20 1 "\<lparr>regs = \<lambda>_. 0, out = []\<rparr>"]
  by (auto simp: pin_reg_def GPFSEL0_def list_all_iff write32_def take_bit_eq_mask mask_eq_exp_minus_1)

text \<open>The two halves of a message to the mailbox are the address, as the GPU sees it, and the channel.\<close>

lemma writemailbox_word:
  assumes "addr AND 0xF = 0" "poll (\<lambda>s. s AND 0x80000000 = 0) ss = Some (v, ss')"
  shows "\<exists>y. writemailbox addr channel (ss, d) = Some (ss', write32 (MAILBOX_BASE + 32) y d)
    \<and> y AND 0xfffffff0 = addr - 0x40000000 \<and> y AND 0xf = ucast (channel AND 0xf)"
proof -
  let ?a = "addr - 0x40000000"
  let ?c = "ucast (channel AND 0xf) :: u32"
  have f: "(0xf :: u32) = mask 4" "(0xfffffff0 :: u32) = NOT (mask 4)" "(0xf :: u8) = mask 4"
    by (simp_all add: mask_eq_exp_minus_1)
  have "take_bit 4 addr = 0" using assms(1) unfolding f by (simp add: take_bit_eq_mask)
  then have "addr = push_bit 4 (drop_bit 4 addr)" using bits_ident [of 4 addr] by simp
  then obtain k where k: "addr = push_bit 4 k" by blast
  have "?a = push_bit 4 (k - 0x4000000)" by (simp add: k push_bit_eq_mult algebra_simps)
  moreover have "push_bit 4 x AND mask 4 = 0" "push_bit 4 x AND NOT (mask 4) = push_bit 4 x" for x :: u32
    by (rule bit_word_eqI; auto simp: bit_simps)+
  ultimately have a: "?a AND mask 4 = 0" and na: "?a AND NOT (mask 4) = ?a" by metis+
  have c: "?c AND mask 4 = ?c" unfolding f by (rule bit_word_eqI) (auto simp: bit_simps)
  then have nc: "?c AND NOT (mask 4) = 0" by (metis and.assoc bit.conj_cancel_right bit.conj_zero_right)
  have "(?a AND 0xfffffff0 OR ?c) AND 0xfffffff0 = ?a" "(?a AND 0xfffffff0 OR ?c) AND 0xf = ?c"
    unfolding f(1,2) na by (simp_all add: bit.conj_disj_distrib2 a na c nc)
  then show ?thesis
    using assms(2) by (intro exI [of _ "?a AND 0xfffffff0 OR ?c"]) (simp add: writemailbox_def KERNBASE_def Let_def)
qed

text \<open>\<open>create_request\<close> writes a message of one tag that ends with a zero word, whose length in bytes is the
  first word, when the length of the data is a multiple of four.\<close>

lemma fill_data_at:
  "fill_data i n data b j =
     (if POS_TAG + POS_TAG_DATA + i \<le> j \<and> j < POS_TAG + POS_TAG_DATA + i + n
      then case data of None \<Rightarrow> 0 | Some f \<Rightarrow> f (j - (POS_TAG + POS_TAG_DATA)) else b j)"
proof (induction n arbitrary: i b)
  case (Suc n)
  show ?case
  proof (cases "j = POS_TAG + POS_TAG_DATA + i")
    case False
    then have "POS_TAG + POS_TAG_DATA + i \<le> j \<longleftrightarrow> POS_TAG + POS_TAG_DATA + Suc i \<le> j" by arith
    with False show ?thesis by (simp add: Suc.IH)
  qed (unfold fill_data.simps Suc.IH, simp only: add_diff_cancel_left', simp)
qed auto

lemma create_request_words:
  fixes buflen len tag :: u32 and data :: "(nat \<Rightarrow> u32) option" and b :: "nat \<Rightarrow> u32"
  assumes "unat buflen mod 4 = 0" "unat buflen + 24 < 2 ^ 32"
  defines "b' \<equiv> create_request tag buflen len data b"
  shows "unat (b' 0) = 4 * (5 + unat buflen div 4 + 1)" "b' 1 = 0" "b' 2 = tag" "b' 3 = buflen"
    "b' 4 = len AND 0x7FFFFFFF"
    "i < unat buflen div 4 \<Longrightarrow> b' (5 + i) = (case data of None \<Rightarrow> 0 | Some f \<Rightarrow> f i)"
    "b' (5 + unat buflen div 4) = 0" "5 + unat buflen div 4 < j \<Longrightarrow> b' j = b j"
proof -
  have nw: "unat (drop_bit 2 buflen) = unat buflen div 4" by (simp add: unat_drop_bit_eq drop_bit_eq_div unat_div)
  have "4 * (unat buflen div 4) = unat buflen" using assms(1) by auto
  moreover have "unat (buflen + 24) = unat buflen + 24" using assms(2) by (simp add: unat_word_ariths)
  ultimately show "unat (b' 0) = 4 * (5 + unat buflen div 4 + 1)"
    by (simp add: b'_def create_request_def Let_def mbox_defs fill_data_at nw add.commute)
qed (simp_all add: b'_def create_request_def Let_def mbox_defs fill_data_at unat_drop_bit_eq drop_bit_eq_div unat_div split: option.split)

end
