(* ===== verification/Start.thy ===== *)
theory Start
  imports Trap Devices
begin

text \<open>
  The start of the kernel: \<open>tvinit\<close> (trap.c), \<open>mailboxinit\<close> (mailbox.c), \<open>framebufferinit\<close> (framebuffer.c) and main.c up
  to the scheduler. The state is that of the whole kernel with the registers of Devices, the address of the mailbox
  buffer and the stack pointers given to the processor modes. The messages on the console are not part of it; the
  boot page table, which \<open>mmuinit1\<close> completes first, is in Boot. A kernel that waits for a device that does not answer,
  or stays in \<open>NotOkLoop\<close>, is \<open>Undef\<close>.
\<close>

record machine = fb_state +
  board :: devices
  mailbuffer :: u32
  mode_sp :: "(u32 \<times> u32) list"

definition on_board :: "(devices \<Rightarrow> devices) \<Rightarrow> ('z machine_scheme, unit) kern" where
  "on_board f = modify (\<lambda>s. s\<lparr>board := f (board s)\<rparr>)"

section \<open>Stacks and vectors\<close>

definition mode_stack :: "u32 \<Rightarrow> ('z machine_scheme, unit) kern" where
  "mode_stack mode =
     call kalloc (\<lambda>p.
     andthen (set_mem p 0 PGSIZE) (modify (\<lambda>s. s\<lparr>mode_sp := mode_sp s @ [(mode, p + 4096)]\<rparr>)))"

definition modes :: "u32 list" where "modes = [0xD1, 0xD2, 0xDB, 0xD7, 0xD6, 0xDF]"

definition tvinit :: "u32 \<Rightarrow> ('z machine_scheme, unit) kern" where
  "tvinit vectors = andthen (move_mem HVECTORS vectors 64) (for_each modes mode_stack)"

section \<open>main\<close>

definition mailboxinit :: "('z machine_scheme, unit) kern" where
  "mailboxinit = call kalloc (\<lambda>p. modify (\<lambda>s. s\<lparr>mailbuffer := p\<rparr>))"

text \<open>The words of the request in memory.\<close>

definition put_request :: "u32 \<Rightarrow> u32 \<Rightarrow> u32 \<Rightarrow> ('z machine_scheme, unit) kern" where
  "put_request tag buflen len =
     modify (\<lambda>s. s\<lparr>mem := fold (\<lambda>i m. store32 m (mailbuffer s + 4 * of_nat i)
        (create_request tag buflen len None (\<lambda>i. load32 (mem s) (mailbuffer s + 4 * of_nat i)) i))
      [0..<6 + unat (drop_bit 2 buflen)] (mem s)\<rparr>)"

text \<open>A mailbox exchange: \<open>ss\<close> and \<open>rs\<close> are the values of the status register before the write and the reads,
  \<open>xs\<close> those of the data register; without an answer in them the kernel still waits.\<close>

definition exchange :: "u32 \<Rightarrow> u8 \<Rightarrow> u32 list \<Rightarrow> u32 list \<Rightarrow> u32 list \<Rightarrow> ('z machine_scheme, u32) kern" where
  "exchange addr channel ss rs xs s =
     (case (writemailbox addr channel (ss, board s), readmailbox channel rs xs) of
        (Some (_, d), Some (r, _)) \<Rightarrow> Ret r (s\<lparr>board := d\<rparr>)
      | _ \<Rightarrow> Undef ''still polling'')"

definition framebufferinit :: "u32 \<Rightarrow> u32 list \<Rightarrow> u32 list \<Rightarrow> u32 list \<Rightarrow> ('z machine_scheme, unit) kern" where
  "framebufferinit at ss rs xs s =
     (case initframebuf at framewidth frameheight 16 rs xs (ss, board s) of
        None \<Rightarrow> Undef ''still polling''
      | Some (f, r, d) \<Rightarrow>
          if r \<noteq> 0 then Undef ''NotOkLoop''
          else Ret () (s\<lparr>board := d, fbi_width := fb_width f, fbi_height := fb_height f\<rparr>))"

definition machinit :: "('z machine_scheme, unit) kern" where
  "machinit = modify (\<lambda>s. s\<lparr>ncli := 0, intena := False\<rparr>)"

definition lsxv6_art :: "string list" where
  "lsxv6_art =
    [''                                     '',
     ''              X     X          6666  '',
     ''               X   X  V     V 6      '',
     ''L       SSSS    X X   V     V 6      '',
     ''L      S         X    V     V  66666 '',
     ''L       SSSS    X X    V   V  6     6'',
     ''L           S  X   X    V V   6     6'',
     ''LLLLLL  SSSS  X     X    V     66666 '',
     ''                                     '']"

definition get_letter_color :: "char \<Rightarrow> u16" where
  "get_letter_color c =
     (if c = CHR ''L'' \<or> c = CHR ''S'' then 0xFFE0
      else if c = CHR ''X'' \<or> c = CHR ''V'' then 0x001F
      else if c = CHR ''6'' then 0xF800
      else 0)"

definition draw_logo_colored :: "font \<Rightarrow> screen \<Rightarrow> screen" where
  "draw_logo_colored font s =
     fold (\<lambda>line s. gpuputc font 10
       (fold (\<lambda>c. gpuputcolored font (of_char c) (get_letter_color c)) line s)) lsxv6_art s"

definition timer3init :: "u32 \<Rightarrow> ('z machine_scheme, unit) kern" where
  "timer3init clo = andthen (on_board (timer3init_regs clo)) (modify (\<lambda>s. s\<lparr>ticks := 0\<rparr>))"

text \<open>What the linker and the hardware supply: the end of the kernel, the addresses of the vectors and of the frame
  buffer's description, the font, the first program, the disk image, the counter and the mailbox registers.\<close>

record supplied =
  kernel_end :: u32
  vectors_at :: u32
  fbinfo_at :: u32
  the_font :: font
  initcode :: "u8 list"
  disk_image :: "u8 list"
  counter :: u32
  fb_mail :: "u32 list \<times> u32 list \<times> u32 list"
  mem_mail :: "u32 list \<times> u32 list \<times> u32 list"

definition MPI_TAG_GET_ARM_MEMORY :: u32 where "MPI_TAG_GET_ARM_MEMORY = 0x00010005"

definition cmain :: "supplied \<Rightarrow> machine devsw \<Rightarrow> (machine, unit) kern" where
  "cmain u dv =
     andthen machinit
     (andthen (on_board uartinit)
     (andthen (framebufferinit (fbinfo_at u) (fst (fb_mail u)) (fst (snd (fb_mail u))) (snd (snd (fb_mail u))))
     (andthen uartkbdinit
     (andthen (on_screen (draw_logo_colored (the_font u)))
     (andthen (kinit1 (kernel_end u) (p2v (8 * 1024 * 1024)))
     (andthen (modify (\<lambda>s. s\<lparr>kpgdir := p2v 0x4000\<rparr>))
     (andthen mailboxinit
     (andthen (put_request MPI_TAG_GET_ARM_MEMORY 8 0)
     (call (reads mailbuffer) (\<lambda>b.
     andthen (exchange b 8 (fst (mem_mail u)) (fst (snd (mem_mail u))) (snd (snd (mem_mail u))))
     (andthen pinit
     (andthen (tvinit (vectors_at u))
     (andthen binit
     (andthen fileinit
     (andthen iinit
     (andthen (ideinit (disk_image u))
     (andthen (timer3init (counter u))
     (andthen (kinit2 (p2v (8 * 1024 * 1024)) (p2v PHYSTOP))
     (userinit dv (initcode u))))))))))))))))))))"

section \<open>The stacks are distinct pages\<close>

lemma kmem_inv_vectors:
  assumes inv: "kmem_inv s ps" and v: "unat v + 64 < 2 ^ 32"
  shows "kmem_inv (s\<lparr>mem := memmove (mem s) HVECTORS v 64\<rparr>) ps"
proof -
  let ?m = "memmove (mem s) HVECTORS v 64"
  have al: "page_aligned HVECTORS" by (simp add: page_aligned_def HVECTORS_def)
  have same: "page_aligned q \<and> same_page ?m (mem s) q" if q: "q \<in> set ps" for q
  proof -
    have ok: "page_ok s q" using inv q by (simp add: kmem_inv_def)
    then have "q \<noteq> HVECTORS" by (auto simp: page_ok_def kfree_bad_def HVECTORS_def v2p_def layout_defs)
    then have ne: "page_of q \<noteq> page_of HVECTORS"
      using aligned_page_of_inj [OF page_ok_aligned [OF ok] al] by blast
    have "?m a = mem s a" if "page_of a = page_of q" for a
    proof -
      have "\<not> unat (a - HVECTORS) < 64" using in_page_iff [OF al, of a] that ne by auto
      then show ?thesis using memmove_eq_copied [where dst = HVECTORS and src = v and n = 64 and m = "mem s"] v by (simp add: copied_def HVECTORS_def)
    qed
    with page_ok_aligned [OF ok] show ?thesis by (simp add: same_page_def)
  qed
  have "flist (mem s) (freelist s) ps" using inv by (simp add: kmem_inv_def)
  then have "flist ?m (freelist s) ps" by (rule flist_frame) (rule same)
  with inv show ?thesis by (simp add: kmem_inv_def page_ok_def kfree_bad_def)
qed

lemma runs_mode_stack:
  assumes lf: "lock_free KmemLock s" and inv: "kmem_inv s (p # ps)"
  shows "runs (mode_stack mode) s (\<lambda>_ t. lock_free KmemLock t \<and> kmem_inv t ps
    \<and> mode_sp t = mode_sp s @ [(mode, p + 4096)])"
proof -
  from runs_kalloc [OF lf inv] obtain t where t: "kalloc s = Ret p t" "balanced s t" "kmem_frame s t" "mem t = mem s"
    "kmem_inv t ps" by (auto simp: runs_iff)
  have ok: "page_ok t p" "p \<notin> set ps" using inv page_ok_frame [OF t(3)] by (simp_all add: kmem_inv_def)
  let ?u = "t\<lparr>mem := memset (mem t) p 0 PGSIZE\<rparr>"
  let ?v = "?u\<lparr>mode_sp := mode_sp t @ [(mode, p + 4096)]\<rparr>"
  have "kmem_inv ?u ps" by (rule kmem_inv_memset [OF t(5) ok])
  then have "kmem_inv ?v ps" by (simp add: kmem_inv_def page_ok_def kfree_bad_def)
  moreover have "mode_sp t = mode_sp s" using t(3) unfolding kmem_frame_def by (rule ssubst) simp
  moreover have "lock_free KmemLock ?v"
    using lf balanced_lock_free [OF t(2)] by (simp add: lock_free_def cli_ok_def holding_def)
  moreover have "mode_stack mode s = Ret () ?v"
    using t(1) by (simp add: mode_stack_def andthen_def call_app set_mem_def modify_def)
  ultimately show ?thesis by (simp add: runs_iff)
qed

lemma runs_mode_stacks:
  "lock_free KmemLock s \<Longrightarrow> kmem_inv s (ps @ qs) \<Longrightarrow> length ps = length ms \<Longrightarrow>
   runs (for_each ms mode_stack) s (\<lambda>_ t. kmem_inv t qs \<and> mode_sp t = mode_sp s @ zip ms (map (\<lambda>p. p + 4096) ps))"
proof (induction ms arbitrary: s ps)
  case Nil
  then show ?case by (simp add: runs_iff return_def)
next
  case (Cons m ms)
  then obtain p ps' where ps: "ps = p # ps'" "length ps' = length ms" by (cases ps) auto
  with Cons.prems have inv: "kmem_inv s (p # ps' @ qs)" by simp
  from runs_mode_stack [OF Cons.prems(1) inv, of m] obtain t where t: "mode_stack m s = Ret () t" "lock_free KmemLock t"
    "kmem_inv t (ps' @ qs)" "mode_sp t = mode_sp s @ [(m, p + 4096)]" by (auto simp: runs_iff)
  from Cons.IH [OF t(2,3) ps(2)] show ?case
    using t(1,4) ps by (auto simp: runs_iff andthen_def call_app)
qed

text \<open>\<open>tvinit\<close> gives each of the six exception modes a stack in a page of its own, taken from the free list,
  and the vectors it copies to HVECTORS damage no free page.\<close>
lemma tvinit_stacks:
  assumes "lock_free KmemLock s" "kmem_inv s (ps @ qs)" "length ps = 6" "unat v + 64 < 2 ^ 32"
  shows "runs (tvinit v) s (\<lambda>_ t. kmem_inv t qs \<and> distinct (ps @ qs)
    \<and> mode_sp t = mode_sp s @ zip modes (map (\<lambda>p. p + 4096) ps))"
proof -
  let ?s = "s\<lparr>mem := memmove (mem s) HVECTORS v 64\<rparr>"
  have "kmem_inv ?s (ps @ qs)" by (rule kmem_inv_vectors [OF assms(2,4)])
  moreover have "lock_free KmemLock ?s" using assms(1) by (simp add: lock_free_def cli_ok_def holding_def)
  moreover have "length ps = length modes" using assms(3) by (simp add: modes_def)
  ultimately have "runs (for_each modes mode_stack) ?s (\<lambda>_ t. kmem_inv t qs
      \<and> mode_sp t = mode_sp ?s @ zip modes (map (\<lambda>p. p + 4096) ps))"
    by (intro runs_mode_stacks)
  moreover have "distinct (ps @ qs)" using assms(2) by (simp add: kmem_inv_def)
  ultimately show ?thesis by (auto simp: runs_iff tvinit_def andthen_def call_app move_mem_def modify_def)
qed

end
