(* ===== verification/Sched.thy ===== *)
theory Sched
  imports Proc
begin

text \<open>
  The loops of \<open>scheduler\<close> (proc.c) around the steps of Proc: a pass over the table that lends the processor
  to each runnable entry it meets, and what that promises to a waiting process.
\<close>

section \<open>A pass over the table\<close>

text \<open>From the switch into a process to the switch back: any steps, until one leaves the processor.\<close>

inductive lent :: "'z ptable_scheme \<Rightarrow> 'z ptable_scheme \<Rightarrow> bool" where
  given_back: "proc_step s t \<Longrightarrow> curr s \<noteq> None \<Longrightarrow> curr t = None \<Longrightarrow> lent s t"
| goes_on: "proc_step s t \<Longrightarrow> curr s \<noteq> None \<Longrightarrow> curr t \<noteq> None \<Longrightarrow> lent t u \<Longrightarrow> lent s u"

text \<open>\<open>sweep j s t ds\<close>: the inner loop, started in \<open>s\<close>, is in \<open>t\<close> before entry \<open>j\<close> and has lent the processor
  to the entries \<open>ds\<close>, in this order.\<close>

inductive sweep :: "nat \<Rightarrow> 'z ptable_scheme \<Rightarrow> 'z ptable_scheme \<Rightarrow> nat list \<Rightarrow> bool" where
  start: "sweep 0 s s []"
| passed: "sweep j s t ds \<Longrightarrow> j < length (procs t) \<Longrightarrow> dispatch j t = Ret () u \<Longrightarrow> sweep (Suc j) s u ds"
| ran: "sweep j s t ds \<Longrightarrow> j < length (procs t) \<Longrightarrow> dispatch j t = Switch u \<Longrightarrow> lent u v \<Longrightarrow>
    sweep (Suc j) s v (ds @ [j])"

inductive_cases sweep_SucE: "sweep (Suc j) s t ds"

section \<open>A runnable process stays runnable until it runs\<close>

definition waits :: "nat \<Rightarrow> 'z ptable_scheme \<Rightarrow> bool" where
  "waits k s \<longleftrightarrow> k < length (procs s) \<and> pstate (procs s ! k) = RUNNABLE"

lemma waits_same: "procs t = procs s \<Longrightarrow> waits k t = waits k s"
  by (simp add: waits_def)

lemma waits_update:
  assumes "waits k s" "procs t = (procs s)[i := p]" "i = k \<longrightarrow> pstate p = RUNNABLE"
  shows "waits k t"
  using assms by (auto simp: waits_def nth_upd)

text \<open>The entry that gives the processor back is the running one.\<close>

lemma waits_switch:
  assumes "waits k s" "pt_inv s"
    and "andthen (upd_curr f) (sched :: ('z ptable_scheme, unit) kern) s = Switch u" "dispatch_return u = Ret () t"
  shows "waits k t"
proof -
  obtain i where i: "curr s = Some i" "i < length (procs s)" "procs u = (procs s)[i := f (procs s ! i)]"
    using switch_effect [OF assms(3)] by blast
  then have "pstate (procs s ! i) = RUNNING" using assms(2) by (simp add: pt_inv_def run_inv_def)
  then have "i \<noteq> k" using assms(1) by (auto simp: waits_def)
  then show ?thesis
    using i assms(1,4) by (intro waits_update [of k s t i "f (procs s ! i)"]) (auto simp: dispatch_return_def modify_def)
qed

lemma pt_inv_same: "procs t = procs s \<Longrightarrow> curr t = curr s \<Longrightarrow> nextpid t = nextpid s \<Longrightarrow> pt_inv t = pt_inv s"
  by (simp add: pt_inv_def)

lemma runnable_step:
  assumes "proc_step s t" and inv: "pt_inv s" and w: "waits k s" and busy: "curr s \<noteq> None"
  shows "waits k t"
  using assms(1)
proof cases
  case (dispatched i)
  with busy show ?thesis by simp
next
  case (yielded u)
  then have "andthen (acquire PtableLock)
      (andthen (upd_curr (\<lambda>p. p\<lparr>pstate := RUNNABLE\<rparr>)) (sched :: ('a ptable_scheme, unit) kern)) s = Switch u"
    by (simp add: yield_def)
  then obtain v where v: "acquire PtableLock s = Ret () v" and
    sw: "andthen (upd_curr (\<lambda>p. p\<lparr>pstate := RUNNABLE\<rparr>)) (sched :: ('a ptable_scheme, unit) kern) v = Switch u"
    by (auto simp: andthen_def call_app acquire_eq split: result.splits if_splits)
  from procs_acquire [OF v] have "waits k v" "pt_inv v" using w inv by (simp_all add: waits_def pt_inv_def)
  from waits_switch [OF this sw yielded(2)] show ?thesis .
next
  case (slept ch lk u)
  let ?sw = "andthen (upd_curr (\<lambda>p. p\<lparr>chan := Some ch, pstate := SLEEPING\<rparr>)) (sched :: ('a ptable_scheme, unit) kern)"
  from sleep_Switch [OF slept(1)] obtain v where "in_order (sleep_locks lk) (return ()) s = Ret () v" and sw: "?sw v = Switch u"
    by blast
  from sleep_locks_effect [OF this(1)] have "waits k v" "pt_inv v" using w inv by (simp_all add: waits_def pt_inv_def)
  from waits_switch [OF this sw slept(2)] show ?thesis .
next
  case (exited u)
  from waits_switch [OF w inv exited] show ?thesis .
next
  case (back_from_yield b)
  with w show ?thesis
    by (auto simp: waits_def yield_return_def sched_return_def andthen_def call_eq_Ret modify_def dest!: procs_release)
next
  case (back_from_sleep b lk)
  then obtain i where "i < length (procs s)" "procs t = (procs s)[i := (procs s ! i)\<lparr>chan := None\<rparr>]"
    by (auto simp: sleep_return_def sched_return_def andthen_def call_eq_Ret modify_def return_def
        upd_curr_def curr_proc_def upd_proc_def dest!: procs_release procs_acquire
        split: option.splits if_splits)
  with w show ?thesis by (auto simp: waits_def nth_upd)
next
  case pass
  with w show ?thesis
    by (auto simp: waits_def sched_pass_def andthen_def call_eq_Ret reads_def modify_def sti_def
        dest!: procs_acquire split: if_splits)
next
  case (woken ch)
  then have "procs t = map (wake ch) (procs s)"
    unfolding wakeup_def by (auto dest!: locked_section_RetD simp: wakeup1_eq modify_def)
  with w show ?thesis by (auto simp: waits_def wake_def)
next
  case (kill n r)
  then have "length (procs t) = length (procs s) \<and>
      (\<forall>j<length (procs s). pstate (procs s ! j) = RUNNABLE \<longrightarrow> pstate (procs t ! j) = RUNNABLE)"
    unfolding kill_def
    by (auto dest!: locked_section_RetD simp: kill_body_def call_eq_Ret reads_def andthen_def
        upd_proc_def modify_def return_def find_index_Some nth_upd split: option.splits)
  with w show ?thesis by (auto simp: waits_def)
next
  case (allocated r)
  from allocproc_effect [OF this] w show ?thesis by (auto simp: waits_def nth_upd)
next
  case (readied i q)
  with w show ?thesis by (auto simp: waits_def upd_proc_def modify_def nth_upd)
next
  case (reaped i)
  with w show ?thesis by (auto simp: waits_def upd_proc_def modify_def nth_upd)
next
  case lock
  with w show ?thesis by (auto simp: waits_def dest!: procs_acquire)
next
  case unlock
  with w show ?thesis by (auto simp: waits_def dest!: procs_release)
next
  case other
  with w show ?thesis by (auto simp: waits_def same_states_def list_all2_conv_all_nth)
qed

lemma lent_keeps:
  "lent s t \<Longrightarrow> pt_inv s \<Longrightarrow> pt_inv t \<and> curr t = None \<and> (waits k s \<longrightarrow> waits k t)"
  by (induction rule: lent.induct) (auto intro: proc_step_inv runnable_step)

lemma dispatch_pass:
  "dispatch j s = Ret () t \<Longrightarrow> t = s \<and> pstate (procs s ! j) \<noteq> RUNNABLE"
  by (auto simp: dispatch_def andthen_def call_eq_Ret reads_def modify_def return_def upd_proc_def split: if_splits)

lemma sweep_keeps:
  assumes "sweep j s t ds" "pt_inv s" "curr s = None"
  shows "pt_inv t \<and> curr t = None \<and> sorted_wrt (<) ds \<and> set ds \<subseteq> {..<j}
    \<and> (waits k s \<longrightarrow> (if k < j then k \<in> set ds else waits k t))"
  using assms
proof (induction rule: sweep.induct)
  case (passed j s t ds u)
  then show ?case using dispatch_pass [OF passed(3)] by (auto simp: less_Suc_eq waits_def split: if_splits)
next
  case (ran j s t ds u v)
  then have t: "pt_inv t" "curr t = None" "sorted_wrt (<) ds" "set ds \<subseteq> {..<j}"
    "waits k s \<longrightarrow> (if k < j then k \<in> set ds else waits k t)" by simp_all
  have u: "pt_inv u" using proc_step_inv [OF dispatched [OF t(2) ran(2,3)] t(1)] .
  have "waits k t \<longrightarrow> k \<noteq> j \<longrightarrow> waits k u"
    using dispatch_effect [OF ran(3)] by (auto simp: waits_def nth_upd)
  then have "waits k s \<longrightarrow> (if k < Suc j then k \<in> set (ds @ [j]) else waits k v)"
    using t(5) lent_keeps [OF ran(4) u, of k] by (auto simp: less_Suc_eq split: if_splits)
  moreover have "sorted_wrt (<) (ds @ [j])" using t(3,4) by (auto simp: sorted_wrt_append)
  ultimately show ?case using lent_keeps [OF ran(4) u, of k] t(4) by auto
qed simp

text \<open>C16: No process starves. A process that is RUNNABLE when the scheduler starts a pass over the table
  is still RUNNABLE when the pass comes to its entry and is given the processor before the pass has gone
  past it, whatever the processes that run before it do; each of them runs once, so fewer than NPROC others
  get a turn.\<close>
theorem no_starvation:
  assumes "pinit b = Ret () s0" and "curr b = None" and "proc_reach s0 s" and "curr s = None"
    and "waits k s" and "k < j" and "sweep j s t ds"
  shows "k \<in> set ds \<and> sorted_wrt (<) ds \<and> set ds \<subseteq> {..<j}"
proof -
  have "procs s0 = replicate NPROC proc0 \<and> curr s0 = None"
    using assms(1,2) by (auto simp: pinit_def initlock_def andthen_def call_app modify_def)
  then have "pt_inv s" using pt_inv_start proc_reach_inv [OF assms(3)] by blast
  with sweep_keeps [OF assms(7) _ assms(4), of k] assms(5,6) show ?thesis by simp
qed

theorem no_starvation_witness:
  "\<exists>(s :: ptable) t ds. proc_reach ptable_start s \<and> waits 0 s \<and> sweep 1 s t ds \<and> 0 \<in> set ds"
proof -
  from first_dispatch obtain s u :: ptable where s: "proc_reach ptable_start s" "curr s = None" "length (procs s) = NPROC"
    "pstate (procs s ! 0) = RUNNABLE" "dispatch 0 s = Switch u" "curr u = Some 0" "length (procs u) = NPROC"
    and u: "holding PtableLock u" "ncli u = 1" "irq_off u" by blast
  define z where "z = u\<lparr>procs := (procs u)[0 := (procs u ! 0)\<lparr>pstate := ZOMBIE\<rparr>]\<rparr>"
  have c: "curr z = Some 0" "0 < length (procs z)" "0 < length (procs u)" using s(6,7) by (simp_all add: z_def NPROC_def)
  have zu: "holding PtableLock z" "ncli z = 1" "irq_off z" "pstate (procs z ! 0) = ZOMBIE"
    using u s(7) by (simp_all add: z_def holding_def NPROC_def)
  have "andthen (upd_curr (\<lambda>p. p\<lparr>pstate := ZOMBIE\<rparr>)) (sched :: (ptable, unit) kern) u = Switch z"
    using upd_curr_eq [OF s(6) c(3), of "\<lambda>p. p\<lparr>pstate := ZOMBIE\<rparr>"] sched_eq [OF c(1,2)] zu
    by (simp add: andthen_def call_app z_def [symmetric])
  then have "proc_step u (z\<lparr>curr := None\<rparr>)" by (rule exited) (simp add: dispatch_return_def modify_def)
  then have "lent u (z\<lparr>curr := None\<rparr>)" using s(6) by (intro given_back) simp_all
  then have sw: "sweep (Suc 0) s (z\<lparr>curr := None\<rparr>) ([] @ [0])"
    using s by (intro sweep.ran [OF sweep.start]) (simp_all add: NPROC_def)
  have w: "waits 0 s" using s by (simp add: waits_def NPROC_def)
  have "curr ptable_start = None" by (simp add: ptable_start_def)
  from no_starvation [OF pinit_start this s(1,2) w _ sw] sw s(1) w show ?thesis by fastforce
qed

end
