(* ===== verification/Space.thy ===== *)
theory Space
  imports Vm
begin

text \<open>
  What the page tables of vm.c stand for. A space has a directory, tables and data pages; \<open>pte\<close> reads the entry
  of a page through the directory, \<open>space_ok\<close> says that all pages of the space are different pages of the pool.
  Every operation is then an update of \<open>pte\<close>.
\<close>

section \<open>Indices\<close>

lemma PDX_nat: "PDX va = of_nat (unat va div 2 ^ 20)"
proof -
  have "(0xFFF :: u32) = mask 12" by (simp add: mask_eq_exp_minus_1)
  then have "PDX va = take_bit 12 (drop_bit 20 va)" by (simp add: PDX_def take_bit_eq_mask)
  also have "\<dots> = drop_bit 20 va" by (rule bit_word_eqI) (auto simp: bit_simps dest: bit_imp_le_length)
  also have "\<dots> = of_nat (unat va div 2 ^ 20)"
    by (metis drop_bit_eq_div unat_drop_bit_eq of_nat_unat ucast_id)
  finally show ?thesis .
qed

lemma PTX_nat: "PTX va = of_nat (unat va div 2 ^ 12 mod 256)"
proof -
  have "(0xFF :: u32) = mask 8" by (simp add: mask_eq_exp_minus_1)
  then have "PTX va = take_bit 8 (drop_bit 12 va)" by (simp add: PTX_def take_bit_eq_mask)
  also have "\<dots> = of_nat (unat (take_bit 8 (drop_bit 12 va)))" by simp
  also have "unat (take_bit 8 (drop_bit 12 va)) = unat va div 2 ^ 12 mod 256"
    by (simp add: unat_drop_bit_eq drop_bit_eq_div take_bit_eq_mod unat_mod unat_div)
  finally show ?thesis .
qed

text \<open>The pages of user space are numbered; there are \<open>2 ^ 18\<close>.\<close>

abbreviation UPAGES :: nat where "UPAGES \<equiv> 262144"

definition page_va :: "nat \<Rightarrow> u32" where
  "page_va v = of_nat (4096 * v)"

lemma unat_page_va: "v \<le> UPAGES \<Longrightarrow> unat (page_va v) = 4096 * v"
  by (simp add: page_va_def unat_of_nat del: of_nat_mult)

lemma page_va_index:
  assumes "v < UPAGES"
  shows "PDX (page_va v) = of_nat (v div 256)" "PTX (page_va v) = of_nat (v mod 256)"
proof -
  have "4096 * v div 2 ^ 20 = v div 256" using div_mult2_eq [of "4096 * v" 4096 256] by simp
  then show "PDX (page_va v) = of_nat (v div 256)" using assms by (simp add: PDX_nat unat_page_va)
  show "PTX (page_va v) = of_nat (v mod 256)" using assms by (simp add: PTX_nat unat_page_va)
qed

lemma page_va_Suc: "page_va v + PGSIZE = page_va (Suc v)"
  by (simp add: page_va_def PGSIZE_def)

lemma page_va_0 [simp]: "page_va 0 = 0"
  by (simp add: page_va_def)

section \<open>The entries of a space\<close>

definition frame :: "u32 \<Rightarrow> u32" where
  "frame e = p2v (PTE_ADDR e)"

definition pde :: "mem \<Rightarrow> u32 \<Rightarrow> nat \<Rightarrow> u32" where
  "pde m d k = load32 m (d + 4 * of_nat k)"

definition pte_addr :: "mem \<Rightarrow> u32 \<Rightarrow> nat \<Rightarrow> u32" where
  "pte_addr m d v = frame (pde m d (v div 256)) + 4 * of_nat (v mod 256)"

definition pte :: "mem \<Rightarrow> u32 \<Rightarrow> nat \<Rightarrow> u32" where
  "pte m d v = (if pde m d (v div 256) = 0 then 0 else load32 m (pte_addr m d v))"

text \<open>The parts of a space and where they are.\<close>

datatype part = Directory | Table nat | Page nat

fun live :: "mem \<Rightarrow> u32 \<Rightarrow> part \<Rightarrow> bool" where
  "live m d Directory \<longleftrightarrow> True"
| "live m d (Table k) \<longleftrightarrow> k < 1024 \<and> pde m d k \<noteq> 0"
| "live m d (Page v) \<longleftrightarrow> v < UPAGES \<and> pte m d v \<noteq> 0"

fun place :: "mem \<Rightarrow> u32 \<Rightarrow> part \<Rightarrow> u32" where
  "place m d Directory = d"
| "place m d (Table k) = frame (pde m d k)"
| "place m d (Page v) = frame (pte m d v)"

definition pages :: "mem \<Rightarrow> u32 \<Rightarrow> u32 set" where
  "pages m d = place m d ` {p. live m d p}"

text \<open>The pages the translation is read from.\<close>

definition table_pages :: "mem \<Rightarrow> u32 \<Rightarrow> u32 set" where
  "table_pages m d = insert d {frame (pde m d k) | k. k < 1024 \<and> pde m d k \<noteq> 0}"

definition space_ok :: "'z kmem_scheme \<Rightarrow> u32 \<Rightarrow> bool" where
  "space_ok s d \<longleftrightarrow> KERNBASE < kend s \<and> inj_on (place (mem s) d) {p. live (mem s) d p}
     \<and> (\<forall>p \<in> pages (mem s) d. page_ok s p)"

lemma table_pages_sub: "table_pages m d \<subseteq> pages m d"
proof -
  have "d \<in> pages m d" unfolding pages_def by (rule image_eqI [of _ _ Directory]) simp_all
  moreover have "frame (pde m d k) \<in> pages m d" if "k < 1024" "pde m d k \<noteq> 0" for k
    unfolding pages_def using that by (intro image_eqI [of _ _ "Table k"]) simp_all
  ultimately show ?thesis by (auto simp: table_pages_def)
qed

lemma part_in_pages: "live m d p \<Longrightarrow> place m d p \<in> pages m d"
  by (simp add: pages_def)

lemma data_not_table:
  assumes "space_ok s d" "v < UPAGES" "pte (mem s) d v \<noteq> 0"
  shows "frame (pte (mem s) d v) \<notin> table_pages (mem s) d"
proof -
  have inj: "inj_on (place (mem s) d) {p. live (mem s) d p}" using assms(1) by (simp add: space_ok_def)
  have "place (mem s) d (Page v) \<noteq> place (mem s) d Directory" using inj_onD [OF inj, of "Page v" Directory] assms by auto
  moreover have "place (mem s) d (Page v) \<noteq> place (mem s) d (Table k)" if "k < 1024" "pde (mem s) d k \<noteq> 0" for k
    using inj_onD [OF inj, of "Page v" "Table k"] assms that by auto
  ultimately show ?thesis by (auto simp: table_pages_def)
qed

lemma data_inj:
  assumes "space_ok s d" "v < UPAGES" "pte (mem s) d v \<noteq> 0" "w < UPAGES" "pte (mem s) d w \<noteq> 0"
    "frame (pte (mem s) d v) = frame (pte (mem s) d w)"
  shows "v = w"
  using assms inj_onD [of "place (mem s) d" "{p. live (mem s) d p}" "Page v" "Page w"] by (auto simp: space_ok_def)

lemma space_page_ok: "space_ok s d \<Longrightarrow> p \<in> pages (mem s) d \<Longrightarrow> page_ok s p"
  by (simp add: space_ok_def)

lemma space_aligned: "space_ok s d \<Longrightarrow> p \<in> pages (mem s) d \<Longrightarrow> page_aligned p"
  by (rule page_ok_aligned) (rule space_page_ok)

lemma space_dir: "space_ok s d \<Longrightarrow> page_ok s d" "space_ok s d \<Longrightarrow> page_aligned d"
  using part_in_pages [of "mem s" d Directory] by (auto intro: space_page_ok space_aligned)

section \<open>What the entries depend on\<close>

lemma unat_index: "k < 1024 \<Longrightarrow> unat (4 * of_nat k :: u32) = 4 * k"
proof -
  assume "k < 1024"
  then have "unat (of_nat (4 * k) :: u32) = 4 * k" by (simp only: unat_of_nat) simp
  then show ?thesis by simp
qed

lemma load32_index_same:
  "same_page m n p \<Longrightarrow> page_aligned p \<Longrightarrow> k < 1024 \<Longrightarrow> load32 m (p + 4 * of_nat k) = load32 n (p + 4 * of_nat k)"
  by (rule load32_same_page) (simp_all add: unat_index)

lemma same_entries:
  assumes "page_aligned d" and tab: "\<And>k. k < 1024 \<Longrightarrow> pde m d k \<noteq> 0 \<Longrightarrow> page_aligned (frame (pde m d k))"
    and same: "\<And>p. p \<in> table_pages m d \<Longrightarrow> same_page n m p"
  shows "k < 1024 \<Longrightarrow> pde n d k = pde m d k" "v < UPAGES \<Longrightarrow> pte n d v = pte m d v"
    "live n d = live m d" "live m d p \<Longrightarrow> place n d p = place m d p" "pages n d = pages m d"
    "table_pages n d = table_pages m d"
proof -
  show P: "pde n d k = pde m d k" if "k < 1024" for k
    unfolding pde_def using assms(1) same [of d] that by (intro load32_index_same) (auto simp: table_pages_def)
  show T: "pte n d v = pte m d v" if "v < UPAGES" for v
  proof (cases "pde m d (v div 256) = 0")
    case False
    have k: "v div 256 < 1024" using that by simp
    then have "frame (pde m d (v div 256)) \<in> table_pages m d" using False by (auto simp: table_pages_def)
    then show ?thesis
      using False P [OF k] tab [OF k False] same
      by (simp add: pte_def pte_addr_def) (intro load32_index_same; simp add: order.strict_trans [OF mod_less_divisor])
  qed (use P that in \<open>simp add: pte_def\<close>)
  show L: "live n d = live m d"
  proof
    fix p show "live n d p = live m d p" using P T by (cases p) auto
  qed
  show S: "place n d p = place m d p" if "live m d p" for p using P T that by (cases p) auto
  show "pages n d = pages m d" unfolding pages_def L using S by (intro image_cong) auto
  show "table_pages n d = table_pages m d" unfolding table_pages_def using P by auto metis
qed

lemma space_frame:
  assumes "space_ok s d" and "kend t = kend s" and same: "\<forall>p \<in> table_pages (mem s) d. same_page (mem t) (mem s) p"
  shows "space_ok t d" "pages (mem t) d = pages (mem s) d" "table_pages (mem t) d = table_pages (mem s) d"
    "v < UPAGES \<Longrightarrow> pte (mem t) d v = pte (mem s) d v" "k < 1024 \<Longrightarrow> pde (mem t) d k = pde (mem s) d k"
proof -
  have tab: "page_aligned (frame (pde (mem s) d k))" if "k < 1024" "pde (mem s) d k \<noteq> 0" for k
    using space_aligned [OF assms(1)] part_in_pages [of "mem s" d "Table k"] that by auto
  note e = same_entries [OF space_dir(2) [OF assms(1)] tab same [rule_format]]
  show "pages (mem t) d = pages (mem s) d" "table_pages (mem t) d = table_pages (mem s) d"
    "v < UPAGES \<Longrightarrow> pte (mem t) d v = pte (mem s) d v" "k < 1024 \<Longrightarrow> pde (mem t) d k = pde (mem s) d k"
    using e by simp_all
  have "inj_on (place (mem t) d) {p. live (mem t) d p}"
    using assms(1) e(3,4) by (auto simp: space_ok_def inj_on_def)
  moreover have "page_ok t = page_ok s" using assms(2) by (auto simp: page_ok_def kfree_bad_def)
  ultimately show "space_ok t d" using assms(1,2) e(5) by (simp add: space_ok_def)
qed

section \<open>Writing entries\<close>

lemma unat_index_byte:
  assumes "page_aligned p" "k < 1024" "a < 4"
  shows "unat (p + 4 * of_nat k + of_nat a) = unat p + 4 * k + a"
proof -
  have "unat (4 * of_nat k + of_nat a :: u32) = unat (of_nat (4 * k + a) :: u32)" by simp
  also have "\<dots> = 4 * k + a" using assms by (simp only: unat_of_nat) simp
  finally have "unat (4 * of_nat k + of_nat a :: u32) = 4 * k + a" .
  then show ?thesis using unat_add_in_page [OF assms(1), of "4 * of_nat k + of_nat a"] assms(2,3) by (simp add: add.assoc)
qed

lemma index_bytes_apart:
  assumes "page_aligned p" "i < 1024" "j < 1024" "i \<noteq> j" "a < 4" "b < 4"
  shows "p + 4 * of_nat i + of_nat a \<noteq> p + 4 * of_nat j + (of_nat b :: u32)"
proof
  assume "p + 4 * of_nat i + of_nat a = p + 4 * of_nat j + (of_nat b :: u32)"
  then have "unat p + 4 * i + a = unat p + 4 * j + b" using assms by (metis unat_index_byte)
  then show False using assms(4-6) by presburger
qed

lemma load32_store32_index:
  assumes "page_aligned p" "i < 1024" "j < 1024"
  shows "load32 (store32 m (p + 4 * of_nat i) w) (p + 4 * of_nat j) = (if j = i then w else load32 m (p + 4 * of_nat j))"
proof (cases "j = i")
  case False
  note n = index_bytes_apart [OF assms(1,3,2) False]
  show ?thesis
    using False n [of 0 0] n [of 0 1] n [of 0 2] n [of 0 3] n [of 1 0] n [of 1 1] n [of 1 2] n [of 1 3]
      n [of 2 0] n [of 2 1] n [of 2 2] n [of 2 3] n [of 3 0] n [of 3 1] n [of 3 2] n [of 3 3]
    by (simp add: load32_def store32_def)
qed simp

lemma load32_zero_page:
  assumes "page_aligned q" "j < 1024"
  shows "load32 (memset m q 0 PGSIZE) (q + 4 * of_nat j) = 0"
proof -
  have "memset m q 0 PGSIZE (q + 4 * of_nat j + of_nat a) = 0" if "a < 4" for a
  proof -
    have "unat (4 * of_nat j + of_nat a :: u32) = unat (of_nat (4 * j + a) :: u32)" by simp
    also have "\<dots> = 4 * j + a" using assms(2) that by (simp only: unat_of_nat) simp
    finally show ?thesis using assms(2) that by (simp add: memset_eq_fill fill_def PGSIZE_def add.assoc)
  qed
  from this [of 0] this [of 1] this [of 2] this [of 3] show ?thesis
    by (simp add: load32_def) (simp add: of_le32_def)
qed

lemma bit_PTE_ADDR: "bit (PTE_ADDR a) n \<longleftrightarrow> bit a n \<and> 12 \<le> n"
proof -
  have "PTE_ADDR a = a AND - 4096" by (simp add: PTE_ADDR_def)
  then show ?thesis by (simp only: bit_and_iff bit_page_mask) (auto dest: bit_imp_le_length)
qed

lemma bit_PTE_FLAGS: "bit (PTE_FLAGS a) n \<longleftrightarrow> bit a n \<and> n < 12"
proof -
  have "PTE_FLAGS a = a AND mask 12" by (simp add: PTE_FLAGS_def mask_eq_exp_minus_1)
  then show ?thesis by (simp only: bit_and_iff bit_mask_iff) (auto dest: bit_imp_le_length)
qed

lemma PTE_ADDR_FLAGS [simp]: "PTE_ADDR (PTE_FLAGS e) = 0"
  by (rule bit_word_eqI) (simp add: bit_PTE_ADDR bit_PTE_FLAGS)

lemma entry_parts: "PTE_ADDR e OR PTE_FLAGS e = e"
  by (rule bit_word_eqI) (auto simp: bit_or_iff bit_PTE_ADDR bit_PTE_FLAGS)

lemma page_aligned_mult [simp]: "page_aligned (4096 * x)"
  unfolding page_aligned_unat by (simp add: unat_word_ariths mod_mod_cancel)

lemma v2p_aligned: "page_aligned q \<Longrightarrow> page_aligned (v2p q)"
proof -
  assume "page_aligned q"
  then have "q = 4096 * (q div 4096)" unfolding page_aligned_def by (metis add_0_right mult_div_mod_eq)
  then have "v2p q = 4096 * (q div 4096 - 0x80000)" by (simp add: v2p_def KERNBASE_def)
  then show ?thesis by (metis page_aligned_mult)
qed

lemma entry_bits:
  assumes "page_aligned a" "PTE_ADDR fl = 0"
  shows "PTE_ADDR (a OR fl) = a" "PTE_FLAGS (a OR fl) = fl"
proof -
  have "bit a n \<Longrightarrow> 12 \<le> n" for n using PTE_ADDR_id [OF assms(1)] bit_PTE_ADDR [of a n] by simp
  moreover have "bit fl n \<Longrightarrow> n < 12" for n using assms(2) bit_PTE_ADDR [of fl n] by (simp add: not_le [symmetric])
  ultimately show "PTE_ADDR (a OR fl) = a" "PTE_FLAGS (a OR fl) = fl"
    by (auto intro!: bit_word_eqI simp: bit_or_iff bit_PTE_ADDR bit_PTE_FLAGS not_le [symmetric])
qed

lemma frame_entry: "page_aligned q \<Longrightarrow> PTE_ADDR fl = 0 \<Longrightarrow> frame (v2p q OR fl) = q"
  by (simp add: frame_def entry_bits v2p_aligned)

lemma PTE_FLAGS_entry: "page_aligned q \<Longrightarrow> PTE_ADDR fl = 0 \<Longrightarrow> PTE_FLAGS (v2p q OR fl) = fl"
  by (simp add: entry_bits v2p_aligned)

lemma COARSE_flag [simp]: "PTE_ADDR COARSE = 0"
  by (simp add: PTE_ADDR_def COARSE_def)

lemma v2p_nonzero:
  assumes "page_ok s q" "KERNBASE < kend s"
  shows "v2p q \<noteq> 0" "v2p q OR fl \<noteq> 0"
proof -
  have "kend s \<le> q" using assms(1) by (auto simp: page_ok_def kfree_bad_def)
  then show n: "v2p q \<noteq> 0" using assms(2) by (auto simp: v2p_def)
  have e: "v2p q = v2p q AND (v2p q OR fl)" by (simp add: bit_eq_iff bit_simps)
  show "v2p q OR fl \<noteq> 0"
  proof
    assume "v2p q OR fl = 0"
    then have "v2p q = v2p q AND 0" using e by metis
    with n show False by simp
  qed
qed

text \<open>A part added.\<close>

lemma space_add:
  assumes ok: "space_ok s d" and kend: "kend t = kend s"
    and live: "{p. live (mem t) d p} = insert a {p. live (mem s) d p}" and new: "\<not> live (mem s) d a"
    and place: "\<And>p. live (mem s) d p \<Longrightarrow> place (mem t) d p = place (mem s) d p" and at: "place (mem t) d a = q"
    and q: "q \<notin> pages (mem s) d" "page_ok s q"
  shows "space_ok t d" "pages (mem t) d = insert q (pages (mem s) d)"
proof -
  have img: "place (mem t) d ` {p. live (mem s) d p} = pages (mem s) d"
    unfolding pages_def using place by (intro image_cong) auto
  then show P: "pages (mem t) d = insert q (pages (mem s) d)" unfolding pages_def live using at by (simp add: pages_def)
  have "inj_on (place (mem t) d) {p. live (mem s) d p}"
    using ok place by (auto simp: space_ok_def inj_on_def)
  then have "inj_on (place (mem t) d) {p. live (mem t) d p}"
    unfolding live using new img at q(1) by simp
  moreover have "page_ok t = page_ok s" using kend by (auto simp: page_ok_def kfree_bad_def)
  ultimately show "space_ok t d" using ok kend q(2) P by (simp add: space_ok_def)
qed

lemma set_pde:
  assumes "page_aligned d" "k < 1024" "j < 1024"
  shows "pde (store32 m (d + 4 * of_nat k) e) d j = (if j = k then e else pde m d j)"
  using load32_store32_index [OF assms] by (simp add: pde_def)

lemma set_pte:
  fixes e :: u32
  assumes ok: "space_ok s d" and v: "v < UPAGES" "pde (mem s) d (v div 256) \<noteq> 0"
  defines "m \<equiv> store32 (mem s) (pte_addr (mem s) d v) e" and "tab \<equiv> frame (pde (mem s) d (v div 256))"
  shows "k < 1024 \<Longrightarrow> pde m d k = pde (mem s) d k"
    "w < UPAGES \<Longrightarrow> pte m d w = (if w = v then e else pte (mem s) d w)"
    "page_aligned p \<Longrightarrow> p \<noteq> tab \<Longrightarrow> same_page m (mem s) p"
proof -
  have k: "v div 256 < 1024" using v(1) by simp
  then have live: "live (mem s) d (Table (v div 256))" using v(2) by simp
  have tab: "page_aligned tab" unfolding tab_def
    using space_aligned [OF ok part_in_pages [OF live]] by simp
  have m: "m = store32 (mem s) (tab + 4 * of_nat (v mod 256)) e" by (simp add: m_def pte_addr_def tab_def)
  have i: "v mod 256 < 1024" for v :: nat using mod_less_divisor [of 256 v] by simp
  show same: "same_page m (mem s) p" if "page_aligned p" "p \<noteq> tab" for p
    unfolding m using tab that i by (intro same_page_store32) (auto simp: unat_index)
  have inj: "inj_on (place (mem s) d) {p. live (mem s) d p}" using ok by (simp add: space_ok_def)
  have "d \<noteq> tab" using inj_onD [OF inj, of "Table (v div 256)" Directory] live by (auto simp: tab_def)
  then have d: "same_page m (mem s) d" by (rule same [OF space_dir(2) [OF ok]])
  show P: "pde m d k = pde (mem s) d k" if "k < 1024" for k
    unfolding pde_def using space_dir(2) [OF ok] d that by (intro load32_index_same)
  show "pte m d w = (if w = v then e else pte (mem s) d w)" if w: "w < UPAGES"
  proof (cases "pde (mem s) d (w div 256) = 0")
    case True
    then show ?thesis using P [of "w div 256"] w v(2) by (auto simp: pte_def)
  next
    case nz: False
    have kw: "w div 256 < 1024" using w by simp
    show ?thesis
    proof (cases "w div 256 = v div 256")
      case True
      have "w = v \<longleftrightarrow> w mod 256 = v mod 256" using True by (metis mult_div_mod_eq)
      then show ?thesis
        using load32_store32_index [OF tab i [of v] i [of w], of "mem s" e] nz P [OF kw] True
        by (simp add: pte_def pte_addr_def m) (simp add: tab_def)
    next
      case False
      have lw: "live (mem s) d (Table (w div 256))" using kw nz by simp
      then have "frame (pde (mem s) d (w div 256)) \<noteq> tab"
        using inj_onD [OF inj, of "Table (w div 256)" "Table (v div 256)"] live False by (auto simp: tab_def)
      moreover have "page_aligned (frame (pde (mem s) d (w div 256)))"
        using space_aligned [OF ok part_in_pages [OF lw]] by simp
      ultimately have "load32 m (pte_addr (mem s) d w) = load32 (mem s) (pte_addr (mem s) d w)"
        unfolding pte_addr_def by (intro load32_index_same same i)
      then show ?thesis using nz P [OF kw] False by (auto simp: pte_def pte_addr_def)
    qed
  qed
qed

lemma add_page:
  assumes ok: "space_ok s d" and v: "v < UPAGES" "pde (mem s) d (v div 256) \<noteq> 0" "pte (mem s) d v = 0"
    and q: "q \<notin> pages (mem s) d" "page_ok s q" and fl: "PTE_ADDR fl = 0"
  defines "m \<equiv> store32 (mem s) (pte_addr (mem s) d v) (v2p q OR fl)"
  shows "space_ok (s\<lparr>mem := m\<rparr>) d" "pages m d = insert q (pages (mem s) d)"
    "table_pages m d = table_pages (mem s) d"
proof -
  note e = set_pte [OF ok v(1,2), of _ "v2p q OR fl", folded m_def]
  have nz: "v2p q OR fl \<noteq> 0" using v2p_nonzero(2) [OF q(2)] ok by (auto simp: space_ok_def)
  have L: "{p. live m d p} = insert (Page v) {p. live (mem s) d p}"
  proof -
    have "live m d p \<longleftrightarrow> p = Page v \<or> live (mem s) d p" for p using e(1,2) nz v(1) by (cases p) (auto split: if_splits)
    then show ?thesis by blast
  qed
  have new: "\<not> live (mem s) d (Page v)" using v(3) by simp
  have S: "place m d p = place (mem s) d p" if "live (mem s) d p" for p
    using that e(1,2) v(3) by (cases p) auto
  have at: "place m d (Page v) = q" using e(2) [OF v(1)] page_ok_aligned [OF q(2)] fl by (simp add: frame_entry)
  note a = space_add [OF ok, of "s\<lparr>mem := m\<rparr>" "Page v" q]
  show "space_ok (s\<lparr>mem := m\<rparr>) d" using a(1) L new S at q by simp
  show "pages m d = insert q (pages (mem s) d)" using a(2) L new S at q by simp
  show "table_pages m d = table_pages (mem s) d" unfolding table_pages_def using e(1) by (auto; metis)
qed

lemma add_table:
  assumes ok: "space_ok s d" and k: "k < 1024" "pde (mem s) d k = 0"
    and q: "q \<notin> pages (mem s) d" "page_ok s q"
  defines "m \<equiv> store32 (memset (mem s) q 0 PGSIZE) (d + 4 * of_nat k) (v2p q OR COARSE)"
  shows "space_ok (s\<lparr>mem := m\<rparr>) d" "pages m d = insert q (pages (mem s) d)"
    "table_pages m d = insert q (table_pages (mem s) d)"
    "j < 1024 \<Longrightarrow> pde m d j = (if j = k then v2p q OR COARSE else pde (mem s) d j)"
    "w < UPAGES \<Longrightarrow> pte m d w = pte (mem s) d w"
    "page_aligned p \<Longrightarrow> p \<noteq> d \<Longrightarrow> p \<noteq> q \<Longrightarrow> same_page m (mem s) p"
proof -
  let ?z = "memset (mem s) q 0 PGSIZE"
  have q': "page_aligned q" using q(2) by (rule page_ok_aligned)
  have d: "page_aligned d" using space_dir(2) [OF ok] .
  have "q \<noteq> d" using q(1) part_in_pages [of "mem s" d Directory] by auto
  have z: "same_page ?z (mem s) p" if "page_aligned p" "p \<noteq> q" for p
    using q' that by (intro same_page_memset) auto
  show same: "same_page m (mem s) p" if "page_aligned p" "p \<noteq> d" "p \<noteq> q" for p
  proof -
    have "same_page m ?z p" unfolding m_def using d that k(1) by (intro same_page_store32) (auto simp: unat_index)
    then show ?thesis using z [OF that(1,3)] by (rule same_page_trans)
  qed
  have zq: "same_page m ?z q" unfolding m_def using d q' \<open>q \<noteq> d\<close> k(1) by (intro same_page_store32) (auto simp: unat_index)
  have fq: "frame (v2p q OR COARSE) = q" using q' by (simp add: frame_entry)
  have nz: "v2p q OR COARSE \<noteq> 0" using v2p_nonzero(2) [OF q(2)] ok by (auto simp: space_ok_def)
  have "pde ?z d j = pde (mem s) d j" if "j < 1024" for j
    unfolding pde_def using z [OF d \<open>q \<noteq> d\<close> [symmetric]] d that by (intro load32_index_same)
  then show P: "pde m d j = (if j = k then v2p q OR COARSE else pde (mem s) d j)" if "j < 1024" for j
    unfolding m_def using set_pde [OF d k(1) that] that by simp
  have i: "w mod 256 < 1024" for w :: nat using mod_less_divisor [of 256 w] by simp
  show T: "pte m d w = pte (mem s) d w" if w: "w < UPAGES" for w
  proof (cases "w div 256 = k")
    case True
    have "load32 m (q + 4 * of_nat (w mod 256)) = 0"
      using load32_index_same [OF zq q' i] load32_zero_page [OF q' i] by simp
    then show ?thesis using P [OF k(1)] k(2) fq True by (simp add: pte_def pte_addr_def)
  next
    case False
    have kw: "w div 256 < 1024" using w by simp
    show ?thesis
    proof (cases "pde (mem s) d (w div 256) = 0")
      case True
      then show ?thesis using P [OF kw] False by (simp add: pte_def)
    next
      case nz: False
      let ?tab = "frame (pde (mem s) d (w div 256))"
      have lw: "live (mem s) d (Table (w div 256))" using kw nz by simp
      have in_pages: "?tab \<in> pages (mem s) d" using part_in_pages [OF lw] by simp
      have "?tab \<noteq> d"
        using ok lw inj_onD [of "place (mem s) d" "{p. live (mem s) d p}" "Table (w div 256)" Directory] by (auto simp: space_ok_def)
      moreover have "?tab \<noteq> q" using in_pages q(1) by blast
      ultimately have "load32 m (pte_addr (mem s) d w) = load32 (mem s) (pte_addr (mem s) d w)"
        unfolding pte_addr_def using space_aligned [OF ok in_pages] by (intro load32_index_same same i)
      then show ?thesis using nz P [OF kw] False by (simp add: pte_def pte_addr_def)
    qed
  qed
  have L: "{p. live m d p} = insert (Table k) {p. live (mem s) d p}"
  proof -
    have "live m d p \<longleftrightarrow> p = Table k \<or> live (mem s) d p" for p using P T nz k(1) by (cases p) (auto split: if_splits)
    then show ?thesis by blast
  qed
  have new: "\<not> live (mem s) d (Table k)" using k(2) by simp
  have S: "place m d p = place (mem s) d p" if "live (mem s) d p" for p
    using that P T k(2) by (cases p) auto
  have at: "place m d (Table k) = q" using P [OF k(1)] fq by simp
  note a = space_add [OF ok, of "s\<lparr>mem := m\<rparr>" "Table k" q]
  show "space_ok (s\<lparr>mem := m\<rparr>) d" using a(1) L new S at q by simp
  show "pages m d = insert q (pages (mem s) d)" using a(2) L new S at q by simp
  have "{frame (pde m d j) | j. j < 1024 \<and> pde m d j \<noteq> 0} = insert q {frame (pde (mem s) d j) | j. j < 1024 \<and> pde (mem s) d j \<noteq> 0}"
    using P k nz fq by (auto; metis)
  then show "table_pages m d = insert q (table_pages (mem s) d)" unfolding table_pages_def by auto
qed

section \<open>Mapping a page\<close>

lemma kmem_inv_mem:
  assumes "kmem_inv s ks" "\<And>q. q \<in> set ks \<Longrightarrow> same_page m (mem s) q"
  shows "kmem_inv (s\<lparr>mem := m\<rparr>) ks"
  using assms page_ok_aligned unfolding kmem_inv_def
  by (auto simp: page_ok_def kfree_bad_def page_aligned_def PGSIZE_def intro: flist_frame)

lemma page_va_aligned [simp]: "page_aligned (page_va v)"
  by (simp add: page_va_def)

lemma PGROUNDDOWN_eq: "PGROUNDDOWN a = PTE_ADDR a"
  by (simp add: PGROUNDDOWN_def PTE_ADDR_def PGSIZE_def)

lemma round_down_page:
  assumes "v < UPAGES" "unat k < 4096"
  shows "PGROUNDDOWN (page_va v + k) = page_va v"
proof -
  have "unat (page_va v + k) = 4096 * v + unat k"
    using unat_add_in_page [OF page_va_aligned assms(2)] assms(1) by (simp add: unat_page_va)
  then have "unat (PGROUNDDOWN (page_va v + k)) = 4096 * v" using assms(2) by (simp add: PGROUNDDOWN_def PGSIZE_def round_down)
  then show ?thesis using assms(1) by (simp add: word_unat_eq_iff unat_page_va)
qed

definition touches :: "'z kmem_scheme \<Rightarrow> 'z kmem_scheme \<Rightarrow> u32 set \<Rightarrow> bool" where
  "touches s t A \<longleftrightarrow> (\<forall>p. page_aligned p \<longrightarrow> p \<notin> A \<longrightarrow> same_page (mem t) (mem s) p)"

lemma walk_eq:
  assumes "v < UPAGES"
  shows "walkpgdir d (page_va v) UVMPDXATTR False s =
    Ret (if pde (mem s) d (v div 256) = 0 then 0 else pte_addr (mem s) d v) s"
  using page_va_index [OF assms]
  by (simp add: walkpgdir_def get32_def pde_def pte_addr_def frame_def call_app reads_def return_def)

lemma runs_walk_eq: "v < UPAGES \<Longrightarrow> runs (walkpgdir d (page_va v) UVMPDXATTR False) s Q
    \<longleftrightarrow> Q (if pde (mem s) d (v div 256) = 0 then 0 else pte_addr (mem s) d v) s"
  by (simp add: runs_def walk_eq)

text \<open>The entry for a page, its table allocated if it is missing.\<close>

lemma runs_walk:
  assumes lf: "lock_free KmemLock s" and inv: "kmem_inv s ks" and ok: "space_ok s d"
    and sep: "pages (mem s) d \<inter> set ks = {}" and v: "v < UPAGES"
  shows "runs (walkpgdir d (page_va v) UVMPDXATTR True) s (\<lambda>r t. balanced s t \<and> kmem_frame s t \<and>
    (if pde (mem s) d (v div 256) \<noteq> 0 then t = s \<and> r = pte_addr (mem s) d v
     else if ks = [] then r = 0 \<and> mem t = mem s \<and> kmem_inv t []
     else r = pte_addr (mem t) d v \<and> r \<noteq> 0 \<and> kmem_inv t (tl ks) \<and> space_ok t d
       \<and> (\<forall>k < 1024. (pde (mem t) d k \<noteq> 0) = (k = v div 256 \<or> pde (mem s) d k \<noteq> 0))
       \<and> (\<forall>w < UPAGES. pte (mem t) d w = pte (mem s) d w)
       \<and> pages (mem t) d = insert (hd ks) (pages (mem s) d) \<and> table_pages (mem t) d = insert (hd ks) (table_pages (mem s) d)
       \<and> touches s t {d, hd ks}))" (is "runs ?walk s ?Q")
proof (cases "pde (mem s) d (v div 256) = 0")
  case False
  then show ?thesis using page_va_index [OF v]
    by (simp add: walkpgdir_def get32_def pde_def pte_addr_def frame_def)
next
  case True
  have k: "v div 256 < 1024" using v by simp
  let ?K = "\<lambda>pgtab. if pgtab = 0 then return 0
       else andthen (set_mem pgtab 0 PGSIZE)
         (andthen (put32 (d + 4 * of_nat (v div 256)) (v2p pgtab OR COARSE))
         (return (pgtab + 4 * of_nat (v mod 256))))"
  have walk: "?walk s = call kalloc ?K s"
    using True unfolding walkpgdir_def page_va_index [OF v] UVMPDXATTR_def by (simp add: get32_def pde_def reads_def)
  have "runs (call kalloc ?K) s ?Q"
  proof (rule runs_call_mono [OF runs_kalloc [OF lf inv]], elim conjE)
    fix a t assume t: "balanced s t" "kmem_frame s t" "mem t = mem s" "kmem_inv t (tl ks)" "a = (if ks = [] then 0 else hd ks)"
    show "runs (?K a) t ?Q"
    proof (cases ks)
      case Nil
      then show ?thesis using t True by simp
    next
      case (Cons q qs)
      let ?m = "store32 (memset (mem s) q 0 PGSIZE) (d + 4 * of_nat (v div 256)) (v2p q OR COARSE)"
      let ?t = "t\<lparr>mem := ?m\<rparr>"
      have q: "q \<notin> pages (mem s) d" "page_ok s q" "q \<noteq> 0" "q \<notin> set qs"
        using sep inv Cons by (auto simp: kmem_inv_def page_ok_def)
      note A = add_table [OF ok k True q(1,2)]
      have same: "same_page ?m (mem s) p" if "p \<in> set qs" for p
        using that sep inv Cons q(4) part_in_pages [of "mem s" d Directory]
        by (intro A(6)) (auto simp: kmem_inv_def intro: page_ok_aligned)
      have "kmem_inv ?t qs" using t(3,4) same Cons by (intro kmem_inv_mem) simp_all
      moreover have "space_ok ?t d" using A(1) t(2) by (simp add: space_ok_def kmem_frame_iff page_ok_def kfree_bad_def)
      moreover have "q + 4 * of_nat (v mod 256) = pte_addr ?m d v"
        using A(4) [OF k] page_ok_aligned [OF q(2)] by (simp add: pte_addr_def frame_entry)
      moreover have "q + 4 * of_nat (v mod 256) \<noteq> 0"
      proof -
        have "unat (q + 4 * of_nat (v mod 256)) = unat q + 4 * (v mod 256)"
          using unat_index_byte [OF page_ok_aligned [OF q(2)], of "v mod 256" 0] mod_less_divisor [of 256 v] by simp
        moreover have "unat q \<noteq> 0" using q(3) by (simp add: unat_eq_0)
        ultimately show ?thesis by auto
      qed
      moreover have "balanced s ?t" "kmem_frame s ?t"
        using t(1,2) by (auto intro: balanced_trans kmem_frame_trans)
      moreover have "v2p q OR COARSE \<noteq> 0" using v2p_nonzero(2) [OF q(2)] ok by (auto simp: space_ok_def)
      ultimately show ?thesis
        using t(3,5) Cons q(3) True A(2-6) k
        by (simp add: set_mem_def put32_def touches_def)
    qed
  qed
  then show ?thesis unfolding runs_def walk .
qed

lemma mappages_one:
  assumes "v < UPAGES"
  shows "mappages d (page_va v) PGSIZE pa UVMPDXATTR fl =
    call (walkpgdir d (page_va v) UVMPDXATTR True) (\<lambda>p. if p = 0 then return (- 1) else call (get32 p) (\<lambda>old.
      andthen (panic_if (old \<noteq> 0) ''remap'') (andthen (put32 p (pa OR fl)) (return 0))))"
proof -
  have "PGROUNDDOWN (page_va v) = page_va v" using round_down_page [OF assms, of 0] by simp
  moreover have "PGROUNDDOWN (page_va v + PGSIZE - 1) = page_va v"
  proof -
    have "unat (PGSIZE - 1) < 4096" by (simp add: PGSIZE_def)
    then have "PGROUNDDOWN (page_va v + (PGSIZE - 1)) = page_va v" by (rule round_down_page [OF assms])
    then show ?thesis by (simp only: add_diff_eq)
  qed
  moreover have "SECTION AND UVMPDXATTR = 0" "COARSE AND UVMPDXATTR \<noteq> 0" by (simp_all add: vm_consts)
  moreover have "(2 ^ 20 + 1 :: nat) = Suc (2 ^ 20)" by simp
  ultimately show ?thesis unfolding mappages_def Let_def by (simp only: map_small.simps if_True if_False simp_thms)
qed

lemma pte_addr_nonzero:
  assumes "space_ok s d" "v < UPAGES" "pde (mem s) d (v div 256) \<noteq> 0"
  shows "pte_addr (mem s) d v \<noteq> 0"
proof -
  have "live (mem s) d (Table (v div 256))" using assms by simp
  then have "page_ok s (frame (pde (mem s) d (v div 256)))" using space_page_ok [OF assms(1) part_in_pages] by fastforce
  then have "page_aligned (frame (pde (mem s) d (v div 256)))" "unat (frame (pde (mem s) d (v div 256))) \<noteq> 0"
    by (simp_all add: page_ok_aligned) (auto simp: page_ok_def unat_gt_0)
  then have "unat (pte_addr (mem s) d v) \<noteq> 0"
    using unat_index_byte [of _ "v mod 256" 0] mod_less_divisor [of 256 v] by (simp add: pte_addr_def)
  then show ?thesis by auto
qed

lemma runs_set_pte:
  assumes ok: "space_ok s d" and v: "v < UPAGES" "pde (mem s) d (v div 256) \<noteq> 0" "pte (mem s) d v = 0"
    and q: "q \<notin> pages (mem s) d" "page_ok s q" and fl: "PTE_ADDR fl = 0"
    and inv: "kmem_inv s ks" and sep: "pages (mem s) d \<inter> set ks = {}"
  shows "runs (put32 (pte_addr (mem s) d v) (v2p q OR fl)) s (\<lambda>_ t. balanced s t \<and> kmem_frame s t \<and> kmem_inv t ks
    \<and> space_ok t d \<and> (\<forall>k < 1024. pde (mem t) d k = pde (mem s) d k)
    \<and> (\<forall>w < UPAGES. pte (mem t) d w = (if w = v then v2p q OR fl else pte (mem s) d w))
    \<and> pages (mem t) d = insert q (pages (mem s) d) \<and> table_pages (mem t) d = table_pages (mem s) d
    \<and> touches s t (table_pages (mem s) d))"
proof -
  let ?m = "store32 (mem s) (pte_addr (mem s) d v) (v2p q OR fl)"
  note P = set_pte [OF ok v(1,2), of _ "v2p q OR fl"] and A = add_page [OF ok v q fl]
  have tab: "frame (pde (mem s) d (v div 256)) \<in> table_pages (mem s) d" using v(1,2) by (auto simp: table_pages_def)
  have "same_page ?m (mem s) p" if "page_aligned p" "p \<notin> table_pages (mem s) d" for p
    using P(3) [OF that(1)] tab that(2) by blast
  then have touch: "touches s (s\<lparr>mem := ?m\<rparr>) (table_pages (mem s) d)" by (simp add: touches_def)
  have "same_page ?m (mem s) p" if "p \<in> set ks" for p
  proof -
    have "page_aligned p" using inv that by (auto simp: kmem_inv_def intro: page_ok_aligned)
    moreover have "p \<notin> table_pages (mem s) d" using that sep table_pages_sub [of "mem s" d] by blast
    ultimately show ?thesis using touch by (simp add: touches_def)
  qed
  then have "kmem_inv (s\<lparr>mem := ?m\<rparr>) ks" by (rule kmem_inv_mem [OF inv])
  with P A touch show ?thesis by (simp add: put32_def)
qed

lemma touches_trans: "touches s t A \<Longrightarrow> touches t u B \<Longrightarrow> A \<subseteq> C \<Longrightarrow> B \<subseteq> C \<Longrightarrow> touches s u C"
  unfolding touches_def by (meson same_page_trans subsetD)

lemma runs_map:
  assumes lf: "lock_free KmemLock s" and inv: "kmem_inv s ks" and ok: "space_ok s d"
    and sep: "pages (mem s) d \<inter> set ks = {}" and v: "v < UPAGES" "pte (mem s) d v = 0"
    and q: "q \<notin> pages (mem s) d" "q \<notin> set ks" "page_ok s q" and fl: "PTE_ADDR fl = 0"
  defines "new \<equiv> pde (mem s) d (v div 256) = 0"
  shows "runs (mappages d (page_va v) PGSIZE (v2p q) UVMPDXATTR fl) s (\<lambda>r t. balanced s t \<and> kmem_frame s t \<and>
    (if new \<and> ks = [] then r = - 1 \<and> mem t = mem s \<and> kmem_inv t []
     else r = 0 \<and> kmem_inv t (if new then tl ks else ks) \<and> space_ok t d
       \<and> (\<forall>k < 1024. (pde (mem t) d k \<noteq> 0) = (k = v div 256 \<or> pde (mem s) d k \<noteq> 0))
       \<and> (\<forall>w < UPAGES. pte (mem t) d w = (if w = v then v2p q OR fl else pte (mem s) d w))
       \<and> pages (mem t) d = insert q (if new then insert (hd ks) (pages (mem s) d) else pages (mem s) d)
       \<and> touches s t (table_pages (mem t) d)))" (is "runs _ s ?Q")
  unfolding mappages_one [OF v(1)]
proof (rule runs_call_mono [OF runs_walk [OF lf inv ok sep v(1)]], elim conjE)
  let ?K = "\<lambda>p. if p = 0 then return (- 1) else call (get32 p) (\<lambda>old.
      andthen (panic_if (old \<noteq> 0) ''remap'') (andthen (put32 p (v2p q OR fl)) (return 0)))"
  fix r t assume t: "balanced s t" "kmem_frame s t"
    and w: "if pde (mem s) d (v div 256) \<noteq> 0 then t = s \<and> r = pte_addr (mem s) d v
     else if ks = [] then r = 0 \<and> mem t = mem s \<and> kmem_inv t []
     else r = pte_addr (mem t) d v \<and> r \<noteq> 0 \<and> kmem_inv t (tl ks) \<and> space_ok t d
       \<and> (\<forall>k < 1024. (pde (mem t) d k \<noteq> 0) = (k = v div 256 \<or> pde (mem s) d k \<noteq> 0))
       \<and> (\<forall>w < UPAGES. pte (mem t) d w = pte (mem s) d w)
       \<and> pages (mem t) d = insert (hd ks) (pages (mem s) d) \<and> table_pages (mem t) d = insert (hd ks) (table_pages (mem s) d)
       \<and> touches s t {d, hd ks}"
  have k: "v div 256 < 1024" using v(1) by simp
  show "runs (?K r) t ?Q"
  proof (cases "new \<and> ks = []")
    case True
    then show ?thesis using t w by (simp add: new_def)
  next
    case False
    let ?ks = "if new then tl ks else ks"
    have f: "r = pte_addr (mem t) d v" "r \<noteq> 0" "kmem_inv t ?ks" "space_ok t d"
        "\<forall>k < 1024. (pde (mem t) d k \<noteq> 0) = (k = v div 256 \<or> pde (mem s) d k \<noteq> 0)"
        "\<forall>w < UPAGES. pte (mem t) d w = pte (mem s) d w"
        "pages (mem t) d = (if new then insert (hd ks) (pages (mem s) d) else pages (mem s) d)"
        "touches s t (table_pages (mem t) d)" "table_pages (mem s) d \<subseteq> table_pages (mem t) d"
      using w False inv ok pte_addr_nonzero [OF ok v(1)]
      by (auto simp: new_def touches_def table_pages_def split: if_splits)
    have nz: "pde (mem t) d (v div 256) \<noteq> 0" using f(5) k by auto
    moreover have "pte (mem t) d v = 0" using f(6) v by simp
    ultimately have old: "load32 (mem t) r = 0" using f(1) by (simp add: pte_def)
    have q': "q \<notin> pages (mem t) d" using f(7) q False by (cases ks) auto
    have "distinct ks" using inv by (simp add: kmem_inv_def)
    then have sep': "pages (mem t) d \<inter> set ?ks = {}" using f(7) sep False by (cases ks) auto
    have "runs (put32 r (v2p q OR fl)) t (\<lambda>_ u. ?Q 0 u)"
      unfolding f(1)
    proof (rule runs_mono [OF runs_set_pte [OF f(4) v(1) nz _ q' _ fl f(3) sep']], goal_cases)
      case 1
      show ?case using f(6) v by simp
    next
      case 2
      show ?case using q(3) t(2) page_ok_frame by blast
    next
      case (3 a u)
      then have u: "touches t u (table_pages (mem t) d)" "table_pages (mem u) d = table_pages (mem t) d" by simp_all
      have "touches s u (table_pages (mem u) d)" unfolding u(2) by (rule touches_trans [OF f(8) u(1)]) simp_all
      moreover have "balanced s u" "kmem_frame s u" using 3 t by (auto intro: balanced_trans kmem_frame_trans)
      ultimately show ?case using 3 f False by (simp add: insert_commute)
    qed
    then show ?thesis using f(2) old by (simp add: get32_def)
  qed
qed

section \<open>Giving a space back\<close>

lemma kfree_touches:
  assumes "lock_free KmemLock s" "kmem_inv s ks" "page_ok s q" "q \<notin> set ks"
  shows "runs (kfree q) s (\<lambda>_ t. balanced s t \<and> kmem_frame s t \<and> kmem_inv t (q # ks) \<and> touches s t {q})"
proof (rule runs_mono [OF runs_kfree [OF assms]], elim conjE, intro conjI)
  fix t assume "kmem_frame s t" and t: "mem t = store32 (memset (mem s) q 1 PGSIZE) q (freelist s)"
  have al: "page_aligned q" using assms(3) by (rule page_ok_aligned)
  have "same_page (mem t) (mem s) p" if "page_aligned p" "p \<noteq> q" for p
  proof -
    have "same_page (mem t) (memset (mem s) q 1 PGSIZE) p"
      using same_page_store32 [OF al that(1), of 0] that(2) t by simp
    then show ?thesis using same_page_memset [OF al that(1)] that(2) by (blast intro: same_page_trans)
  qed
  then show "touches s t {q}" by (simp add: touches_def)
qed

lemma remove_page:
  assumes ok: "space_ok s d" and v: "v < UPAGES" "pte (mem s) d v \<noteq> 0"
  defines "m \<equiv> store32 (mem s) (pte_addr (mem s) d v) 0"
  shows "space_ok (s\<lparr>mem := m\<rparr>) d" "pages m d = pages (mem s) d - {frame (pte (mem s) d v)}"
proof -
  have nz: "pde (mem s) d (v div 256) \<noteq> 0" using v(2) by (auto simp: pte_def)
  note e = set_pte [OF ok v(1) nz, of _ 0, folded m_def]
  have inj: "inj_on (place (mem s) d) {p. live (mem s) d p}" using ok by (simp add: space_ok_def)
  have L: "{p. live m d p} = {p. live (mem s) d p} - {Page v}"
  proof -
    have "live m d p \<longleftrightarrow> p \<noteq> Page v \<and> live (mem s) d p" for p using e(1,2) v(1) by (cases p) (auto split: if_splits)
    then show ?thesis by blast
  qed
  have S: "place m d p = place (mem s) d p" if "live m d p" for p
    using that e(1,2) by (cases p) (auto split: if_splits)
  have "pages m d = place (mem s) d ` ({p. live (mem s) d p} - {Page v})"
    unfolding pages_def L [symmetric] using S by (intro image_cong) auto
  also have "\<dots> = pages (mem s) d - place (mem s) d ` {Page v}"
    unfolding pages_def using v by (intro inj_on_image_set_diff [OF inj]) auto
  finally show P: "pages m d = pages (mem s) d - {frame (pte (mem s) d v)}" by simp
  have "inj_on (place m d) {p. live m d p}" unfolding L using inj S L by (auto simp: inj_on_def set_eq_iff)
  then show "space_ok (s\<lparr>mem := m\<rparr>) d" using ok P by (simp add: space_ok_def page_ok_def kfree_bad_def)
qed

text \<open>After the pages below \<open>v\<close> have been given back.\<close>

definition emptied :: "'z kmem_scheme \<Rightarrow> u32 \<Rightarrow> u32 list \<Rightarrow> nat \<Rightarrow> 'z kmem_scheme \<Rightarrow> bool" where
  "emptied s d ks v t \<longleftrightarrow> balanced s t \<and> kmem_frame s t \<and> space_ok t d \<and> (\<exists>ks'. kmem_inv t ks'
     \<and> pages (mem t) d \<inter> set ks' = {} \<and> pages (mem t) d \<union> set ks' = pages (mem s) d \<union> set ks)
     \<and> (\<forall>k < 1024. pde (mem t) d k = pde (mem s) d k)
     \<and> (\<forall>w < UPAGES. pte (mem t) d w = (if w < v then 0 else pte (mem s) d w)) \<and> touches s t (pages (mem s) d)"

lemma emptied_skip:
  "emptied s d ks v t \<Longrightarrow> v \<le> w \<Longrightarrow> (\<And>x. v \<le> x \<Longrightarrow> x < w \<Longrightarrow> x < UPAGES \<Longrightarrow> pte (mem s) d x = 0) \<Longrightarrow> emptied s d ks w t"
  by (auto simp: emptied_def)

lemma emptied_free:
  assumes lf: "lock_free KmemLock s" and e: "emptied s d ks v t" and v: "v < UPAGES" "pte (mem t) d v \<noteq> 0"
  shows "runs (kfree (frame (pte (mem t) d v))) t (\<lambda>_ u. runs (put32 (pte_addr (mem t) d v) 0) u (\<lambda>_. emptied s d ks (Suc v)))"
proof -
  let ?f = "frame (pte (mem t) d v)"
  from e obtain ks' where ks: "kmem_inv t ks'" "pages (mem t) d \<inter> set ks' = {}" "pages (mem t) d \<union> set ks' = pages (mem s) d \<union> set ks"
    and ok: "space_ok t d" by (auto simp: emptied_def)
  have f: "?f \<in> pages (mem t) d" using part_in_pages [of "mem t" d "Page v"] v by simp
  have lf': "lock_free KmemLock t" using lf e by (auto simp: emptied_def balanced_lock_free)
  have nf: "?f \<notin> set ks'" using f ks(2) by blast
  show ?thesis
  proof (rule runs_mono [OF kfree_touches [OF lf' ks(1) space_page_ok [OF ok f] nf]], elim conjE)
    fix u assume u: "balanced t u" "kmem_frame t u" "kmem_inv u (?f # ks')" "touches t u {?f}"
    have "?f \<notin> table_pages (mem t) d" by (rule data_not_table [OF ok v])
    then have same: "\<forall>p \<in> table_pages (mem t) d. same_page (mem u) (mem t) p"
      using u(4) space_aligned [OF ok] table_pages_sub [of "mem t" d] by (auto simp: touches_def)
    have kend: "kend u = kend t" using u(2) by (simp add: kmem_frame_iff)
    note F = space_frame [OF ok kend same]
    have v': "pte (mem u) d v \<noteq> 0" using F(4) [OF v(1)] v(2) by simp
    then have nz: "pde (mem u) d (v div 256) \<noteq> 0" by (auto simp: pte_def)
    have k: "v div 256 < 1024" using v(1) by simp
    have addr: "pte_addr (mem u) d v = pte_addr (mem t) d v" using F(5) [OF k] by (simp add: pte_addr_def)
    let ?m = "store32 (mem u) (pte_addr (mem u) d v) 0"
    note R = remove_page [OF F(1) v(1) v'] and P = set_pte [OF F(1) v(1) nz, of _ 0]
    have tab: "frame (pde (mem u) d (v div 256)) \<in> table_pages (mem u) d" using k nz by (auto simp: table_pages_def)
    have same': "same_page ?m (mem u) p" if "p \<in> set (?f # ks')" for p
    proof (rule P(3))
      show "page_aligned p" using u(3) that by (auto simp: kmem_inv_def intro: page_ok_aligned)
      show "p \<noteq> frame (pde (mem u) d (v div 256))"
        using tab that \<open>?f \<notin> table_pages (mem t) d\<close> F(3) table_pages_sub [of "mem t" d] ks(2) by auto
    qed
    have "kmem_inv (u\<lparr>mem := ?m\<rparr>) (?f # ks')" by (rule kmem_inv_mem [OF u(3) same'])
    moreover have "pages ?m d = pages (mem t) d - {?f}" using R(2) F(2) F(4) [OF v(1)] by simp
    then have "pages ?m d \<inter> set (?f # ks') = {}" "pages ?m d \<union> set (?f # ks') = pages (mem s) d \<union> set ks"
      using ks f by auto
    ultimately have "\<exists>ks'. kmem_inv (u\<lparr>mem := ?m\<rparr>) ks' \<and> pages ?m d \<inter> set ks' = {} \<and> pages ?m d \<union> set ks' = pages (mem s) d \<union> set ks"
      by blast
    moreover have "touches s (u\<lparr>mem := ?m\<rparr>) (pages (mem s) d)"
    proof -
      have sub: "pages (mem t) d \<subseteq> pages (mem s) d"
      proof -
        have "live (mem s) d p \<and> place (mem t) d p = place (mem s) d p" if "live (mem t) d p" for p
          using that e by (cases p) (auto simp: emptied_def split: if_splits)
        then show ?thesis by (auto simp: pages_def)
      qed
      have "touches u (u\<lparr>mem := ?m\<rparr>) (pages (mem t) d)"
        using P(3) tab F(3) table_pages_sub [of "mem t" d] by (auto simp: touches_def)
      then have "touches t (u\<lparr>mem := ?m\<rparr>) (pages (mem t) d)" using u(4) f by (auto intro: touches_trans)
      then show ?thesis using e sub by (auto simp: emptied_def intro: touches_trans)
    qed
    moreover have "balanced s (u\<lparr>mem := ?m\<rparr>)" "kmem_frame s (u\<lparr>mem := ?m\<rparr>)"
      using e u(1,2) by (auto simp: emptied_def intro: balanced_trans kmem_frame_trans)
    moreover have "\<forall>w < UPAGES. pte ?m d w = (if w < Suc v then 0 else pte (mem s) d w)"
      using P(2) F(4) e by (auto simp: emptied_def less_Suc_eq)
    moreover have "\<forall>k < 1024. pde ?m d k = pde (mem s) d k"
      using P(1) F(5) e by (simp add: emptied_def)
    ultimately show "runs (put32 (pte_addr (mem t) d v) 0) u (\<lambda>_. emptied s d ks (Suc v))"
      using R(1) by (simp add: put32_def emptied_def addr [symmetric])
  qed
qed

lemma page_va_less: "v \<le> UPAGES + 1024 \<Longrightarrow> page_va v < USERBOUND \<longleftrightarrow> v < UPAGES"
proof -
  assume "v \<le> UPAGES + 1024"
  then have "unat (page_va v) = 4096 * v" by (simp add: page_va_def unat_of_nat del: of_nat_mult)
  moreover have "unat USERBOUND = 4096 * UPAGES" by (simp add: USERBOUND_def)
  ultimately show ?thesis by (simp add: word_less_nat_alt)
qed

lemma page_va_jump: "page_va v + (NPTENTRIES - 1) * PGSIZE + PGSIZE = page_va (v + 1024)"
  by (simp add: page_va_def NPTENTRIES_def PGSIZE_def)

text \<open>The loop jumps 1024 pages where a table is missing, which loses nothing when no table follows a missing one.\<close>

lemma runs_dealloc_loop:
  assumes lf: "lock_free KmemLock s" and tables: "\<forall>k < 1024. pde (mem s) d k \<noteq> 0 \<longleftrightarrow> k < K"
  shows "emptied s d ks v t \<Longrightarrow> v \<le> UPAGES + 1024 \<Longrightarrow> UPAGES < n + min v UPAGES \<Longrightarrow>
    runs (dealloc_loop n d (page_va v) USERBOUND) t (\<lambda>_. emptied s d ks UPAGES)"
proof (induction n arbitrary: v t)
  case 0
  then show ?case by (simp add: min_def split: if_splits)
next
  case (Suc n)
  show ?case
  proof (cases "v < UPAGES")
    case False
    then show ?thesis using Suc.prems(1,2) by (simp add: page_va_less) (auto simp: emptied_def)
  next
    case True
    have k: "v div 256 < 1024" using True by simp
    have pde: "pde (mem t) d (v div 256) = pde (mem s) d (v div 256)" using Suc.prems(1) k by (simp add: emptied_def)
    have lt: "page_va v < USERBOUND" using True by (simp add: page_va_less)
    show ?thesis
    proof (cases "pde (mem t) d (v div 256) = 0")
      case none: True
      have "pte (mem s) d x = 0" if "v \<le> x" "x < UPAGES" for x
      proof -
        have "v div 256 \<le> x div 256" "x div 256 < 1024" using that by (simp_all add: div_le_mono)
        then have "pde (mem s) d (x div 256) = 0" using tables k none pde by (metis order.strict_trans1 not_less)
        then show ?thesis by (simp add: pte_def)
      qed
      then have "emptied s d ks (v + 1024) t" by (intro emptied_skip [OF Suc.prems(1), of "v + 1024"]) simp_all
      then have "runs (dealloc_loop n d (page_va (v + 1024)) USERBOUND) t (\<lambda>_. emptied s d ks UPAGES)"
        using True Suc.prems(3) by (intro Suc.IH) simp_all
      then show ?thesis using lt none by (simp add: runs_walk_eq [OF True] page_va_jump)
    next
      case some: False
      have "space_ok t d" using Suc.prems(1) by (simp add: emptied_def)
      then have nz: "pte_addr (mem t) d v \<noteq> 0" using True some by (rule pte_addr_nonzero)
      have e: "load32 (mem t) (pte_addr (mem t) d v) = pte (mem t) d v" using some by (simp add: pte_def)
      have rest: "runs (dealloc_loop n d (page_va (Suc v)) USERBOUND) u (\<lambda>_. emptied s d ks UPAGES)"
        if "emptied s d ks (Suc v) u" for u
        using that True Suc.prems(3) by (intro Suc.IH) simp_all
      note walk = runs_walk_eq [OF True]
      show ?thesis
      proof (cases "pte (mem t) d v = 0")
        case True
        have "emptied s d ks (Suc v) t" using Suc.prems(1) True by (auto simp: emptied_def less_Suc_eq)
        then show ?thesis using lt nz e True rest by (simp add: walk some get32_def page_va_Suc)
      next
        case used: False
        let ?f = "frame (pte (mem t) d v)"
        have ok: "space_ok t d" using Suc.prems(1) by (simp add: emptied_def)
        have "page_ok t ?f" using space_page_ok [OF ok] part_in_pages [of "mem t" d "Page v"] True used by simp
        then have "PTE_ADDR (pte (mem t) d v) \<noteq> 0" using v2p_nonzero(1) [of t ?f] ok by (auto simp: space_ok_def frame_def)
        moreover have "runs (kfree ?f) t (\<lambda>_ u. runs (put32 (pte_addr (mem t) d v) 0) u (\<lambda>_ u.
            runs (dealloc_loop n d (page_va (Suc v)) USERBOUND) u (\<lambda>_. emptied s d ks UPAGES)))"
          using rest by (auto intro!: runs_mono [OF emptied_free [OF lf Suc.prems(1) True used]] elim: runs_mono)
        ultimately show ?thesis using lt nz e used by (simp add: walk some get32_def page_va_Suc frame_def)
      qed
    qed
  qed
qed

text \<open>The tables, then the directory.\<close>

lemma runs_for_each_snoc:
  "runs (for_each (xs @ [x]) f) s Q \<longleftrightarrow> runs (for_each xs f) s (\<lambda>_ t. runs (f x) t (\<lambda>_. Q ()))"
  by (induction xs arbitrary: s) simp_all

lemma runs_free_tables:
  assumes lf: "lock_free KmemLock s" and inv: "kmem_inv s ks" and ok: "space_ok s d" and sep: "pages (mem s) d \<inter> set ks = {}"
  shows "k \<le> 1024 \<Longrightarrow> runs (for_each [0..<k] (free_pde d)) s (\<lambda>_ t. balanced s t \<and> kmem_frame s t \<and> touches s t (table_pages (mem s) d - {d})
    \<and> (\<exists>ks'. kmem_inv t ks' \<and> set ks' = set ks \<union> {frame (pde (mem s) d j) | j. j < k \<and> pde (mem s) d j \<noteq> 0}))"
proof (induction k)
  case 0
  then show ?case using inv by (auto simp: touches_def)
next
  case (Suc k)
  have "runs (for_each [0..<k] (free_pde d)) s (\<lambda>_ t. runs (free_pde d k) t (\<lambda>_ u. balanced s u \<and> kmem_frame s u \<and> touches s u (table_pages (mem s) d - {d})
    \<and> (\<exists>ks'. kmem_inv u ks' \<and> set ks' = set ks \<union> {frame (pde (mem s) d j) | j. j < Suc k \<and> pde (mem s) d j \<noteq> 0})))"
  proof (rule runs_mono [OF Suc.IH], goal_cases)
    case 1
    show ?case using Suc.prems by simp
  next
    case (2 a t)
    then obtain ks' where t: "balanced s t" "kmem_frame s t" "touches s t (table_pages (mem s) d - {d})" "kmem_inv t ks'"
      and ks': "set ks' = set ks \<union> {frame (pde (mem s) d j) | j. j < k \<and> pde (mem s) d j \<noteq> 0}" by blast
    have "same_page (mem t) (mem s) d" using t(3) space_dir(2) [OF ok] by (simp add: touches_def)
    then have pde: "load32 (mem t) (d + 4 * of_nat k) = pde (mem s) d k"
      unfolding pde_def using space_dir(2) [OF ok] Suc.prems by (intro load32_index_same) simp_all
    show ?case
    proof (cases "pde (mem s) d k = 0")
      case True
      then have "{frame (pde (mem s) d j) | j. j < Suc k \<and> pde (mem s) d j \<noteq> 0} = {frame (pde (mem s) d j) | j. j < k \<and> pde (mem s) d j \<noteq> 0}"
        by (auto simp: less_Suc_eq)
      then show ?thesis using t ks' pde True by (auto simp: free_pde_def get32_def)
    next
      case False
      let ?f = "frame (pde (mem s) d k)"
      have inj: "inj_on (place (mem s) d) {p. live (mem s) d p}" using ok by (simp add: space_ok_def)
      have f: "?f \<in> pages (mem s) d" using part_in_pages [of "mem s" d "Table k"] Suc.prems False by simp
      have "?f \<noteq> frame (pde (mem s) d j)" if "j < k" "pde (mem s) d j \<noteq> 0" for j
        using inj_onD [OF inj, of "Table k" "Table j"] that Suc.prems False by auto
      then have nf: "?f \<notin> set ks'" using ks' f sep by auto
      have "?f \<noteq> d" using inj_onD [OF inj, of "Table k" Directory] Suc.prems False by auto
      then have tab: "?f \<in> table_pages (mem s) d - {d}" using Suc.prems False by (auto simp: table_pages_def)
      have "page_ok t ?f" using space_page_ok [OF ok f] page_ok_frame [OF t(2)] by simp
      moreover have "lock_free KmemLock t" using lf t(1) balanced_lock_free by blast
      ultimately have "runs (kfree ?f) t (\<lambda>_ u. balanced t u \<and> kmem_frame t u \<and> kmem_inv u (?f # ks') \<and> touches t u {?f})"
        using t(4) nf by (intro kfree_touches)
      moreover have "set (?f # ks') = set ks \<union> {frame (pde (mem s) d j) | j. j < Suc k \<and> pde (mem s) d j \<noteq> 0}"
        using ks' False by (auto simp: less_Suc_eq)
      ultimately have "runs (kfree ?f) t (\<lambda>_ u. balanced s u \<and> kmem_frame s u \<and> touches s u (table_pages (mem s) d - {d})
    \<and> (\<exists>ks'. kmem_inv u ks' \<and> set ks' = set ks \<union> {frame (pde (mem s) d j) | j. j < Suc k \<and> pde (mem s) d j \<noteq> 0}))"
      proof (elim runs_mono, elim conjE, intro conjI)
        fix u assume u: "balanced t u" "kmem_frame t u" "kmem_inv u (?f # ks')" "touches t u {?f}"
        show "balanced s u" using t(1) u(1) by (rule balanced_trans)
        show "kmem_frame s u" using t(2) u(2) by (rule kmem_frame_trans)
        show "touches s u (table_pages (mem s) d - {d})" using tab by (intro touches_trans [OF t(3) u(4)]) auto
        show "\<exists>ks'. kmem_inv u ks' \<and> set ks' = set ks \<union> {frame (pde (mem s) d j) | j. j < Suc k \<and> pde (mem s) d j \<noteq> 0}"
          using u(3) \<open>set (?f # ks') = _\<close> by (intro exI [of _ "?f # ks'"] conjI)
      qed
      then show ?thesis using pde False by (simp add: free_pde_def get32_def frame_def)
    qed
  qed
  then show ?case by (simp add: runs_for_each_snoc)
qed

lemma dealloc_all: "deallocuvm d USERBOUND 0 = andthen (dealloc_loop (2 ^ 20 + 1) d 0 USERBOUND) (return 0)"
  by (simp add: deallocuvm_def USERBOUND_def PGROUNDUP_def PGSIZE_def)

lemma runs_freevm:
  assumes lf: "lock_free KmemLock s" and inv: "kmem_inv s ks" and ok: "space_ok s d" and sep: "pages (mem s) d \<inter> set ks = {}"
    and tables: "\<forall>k < 1024. pde (mem s) d k \<noteq> 0 \<longleftrightarrow> k < K"
  shows "runs (freevm d) s (\<lambda>_ t. balanced s t \<and> kmem_frame s t \<and> touches s t (pages (mem s) d)
    \<and> (\<exists>ks'. kmem_inv t ks' \<and> set ks' = pages (mem s) d \<union> set ks))"
proof -
  have "emptied s d ks 0 s" using inv ok sep by (auto simp: emptied_def touches_def)
  then have "runs (dealloc_loop (2 ^ 20 + 1) d (page_va 0) USERBOUND) s (\<lambda>_. emptied s d ks UPAGES)"
    by (rule runs_dealloc_loop [OF lf tables]) simp_all
  moreover have "runs (for_each [0..<NPDENTRIES] (free_pde d)) t (\<lambda>_ u. runs (kfree d) u (\<lambda>_ v. balanced s v \<and> kmem_frame s v
      \<and> touches s v (pages (mem s) d) \<and> (\<exists>ks'. kmem_inv v ks' \<and> set ks' = pages (mem s) d \<union> set ks)))"
    if e: "emptied s d ks UPAGES t" for t
  proof -
    from e obtain kt where kt: "kmem_inv t kt" "pages (mem t) d \<inter> set kt = {}" "pages (mem t) d \<union> set kt = pages (mem s) d \<union> set ks"
      and t: "balanced s t" "kmem_frame s t" "space_ok t d" "touches s t (pages (mem s) d)" by (auto simp: emptied_def)
    have lft: "lock_free KmemLock t" using lf t(1) balanced_lock_free by blast
    have tp: "pages (mem t) d = table_pages (mem t) d"
    proof -
      have "live (mem t) d p \<Longrightarrow> p = Directory \<or> (\<exists>k < 1024. p = Table k)" for p using e by (cases p) (auto simp: emptied_def)
      then have "pages (mem t) d \<subseteq> table_pages (mem t) d" by (fastforce simp: pages_def table_pages_def)
      then show ?thesis using table_pages_sub [of "mem t" d] by blast
    qed
    have sub: "pages (mem t) d \<subseteq> pages (mem s) d"
    proof -
      have "table_pages (mem t) d \<subseteq> table_pages (mem s) d" using e by (auto simp: emptied_def table_pages_def)
      then show ?thesis using tp table_pages_sub [of "mem s" d] by blast
    qed
    have "runs (for_each [0..<1024] (free_pde d)) t (\<lambda>_ u. balanced t u \<and> kmem_frame t u \<and> touches t u (table_pages (mem t) d - {d})
        \<and> (\<exists>ks'. kmem_inv u ks' \<and> set ks' = set kt \<union> {frame (pde (mem t) d j) | j. j < 1024 \<and> pde (mem t) d j \<noteq> 0}))"
      by (rule runs_free_tables [OF lft kt(1) t(3) kt(2)]) simp
    then show ?thesis unfolding NPDENTRIES_def
    proof (rule runs_mono, elim conjE exE)
      fix u ku assume u: "balanced t u" "kmem_frame t u" "touches t u (table_pages (mem t) d - {d})" "kmem_inv u ku"
        "set ku = set kt \<union> {frame (pde (mem t) d j) | j. j < 1024 \<and> pde (mem t) d j \<noteq> 0}"
      have d: "d \<in> table_pages (mem t) d" "page_ok u d"
        using space_dir(1) [OF t(3)] page_ok_frame [OF u(2)] by (simp_all add: table_pages_def)
      have "d \<noteq> frame (pde (mem t) d j)" if "j < 1024" "pde (mem t) d j \<noteq> 0" for j
        using t(3) that inj_onD [of "place (mem t) d" "{p. live (mem t) d p}" Directory "Table j"] by (auto simp: space_ok_def)
      then have "d \<notin> set ku" using u(5) kt(2) tp d(1) by auto
      moreover have "set (d # ku) = pages (mem s) d \<union> set ks"
        using u(5) kt(3) tp by (auto simp: table_pages_def)
      moreover have "lock_free KmemLock u" using lft u(1) balanced_lock_free by blast
      moreover have "touches s v (pages (mem s) d)" if "touches u v {d}" for v
      proof -
        have "touches t v (pages (mem s) d)" using u(3) that sub tp d(1) by (auto intro: touches_trans)
        then show ?thesis using t(4) by (auto intro: touches_trans)
      qed
      ultimately show "runs (kfree d) u (\<lambda>_ v. balanced s v \<and> kmem_frame s v
          \<and> touches s v (pages (mem s) d) \<and> (\<exists>ks'. kmem_inv v ks' \<and> set ks' = pages (mem s) d \<union> set ks))"
        using t(1,2) u(1,2) by (intro runs_mono [OF kfree_touches [OF _ u(4) d(2)]]) (auto intro: balanced_trans kmem_frame_trans)
    qed
  qed
  ultimately have "runs (deallocuvm d USERBOUND 0) s (\<lambda>_ t. runs (for_each [0..<NPDENTRIES] (free_pde d)) t (\<lambda>_ u. runs (kfree d) u (\<lambda>_ v.
      balanced s v \<and> kmem_frame s v \<and> touches s v (pages (mem s) d) \<and> (\<exists>ks'. kmem_inv v ks' \<and> set ks' = pages (mem s) d \<union> set ks))))"
    by (simp add: dealloc_all) (auto elim: runs_mono)
  moreover have "d \<noteq> 0" using space_dir(1) [OF ok] by (simp add: page_ok_def)
  ultimately show ?thesis by (simp add: freevm_def)
qed

section \<open>Copying a space\<close>

text \<open>Two pages with the same bytes, in two memories.\<close>

definition same_bytes :: "mem \<Rightarrow> u32 \<Rightarrow> mem \<Rightarrow> u32 \<Rightarrow> bool" where
  "same_bytes m p n q \<longleftrightarrow> (\<forall>i. unat i < 4096 \<longrightarrow> m (p + i) = n (q + i))"

lemma same_page_bytes: "same_page m n p \<Longrightarrow> page_aligned p \<Longrightarrow> same_bytes m p n p"
  by (simp add: same_page_def same_bytes_def)

lemma same_bytes_trans: "same_bytes m p n q \<Longrightarrow> same_bytes n q o' r \<Longrightarrow> same_bytes m p o' r"
  by (simp add: same_bytes_def)

lemma page_ok_bound: "page_ok s p \<Longrightarrow> KERNBASE < kend s \<Longrightarrow> unat p + 4096 < 2 ^ 32"
  using page_ok_iff [of s p] by simp

lemma runs_move_page:
  assumes "page_ok s p" "page_ok s q" "KERNBASE < kend s"
  shows "runs (move_mem p q PGSIZE) s (\<lambda>_ t. balanced s t \<and> kmem_frame s t \<and> freelist t = freelist s \<and> touches s t {p}
    \<and> same_bytes (mem t) p (mem s) q)"
proof -
  let ?m = "memmove (mem s) p q PGSIZE"
  have m: "?m = copied (mem s) p q 4096"
    using page_ok_bound [OF assms(1,3)] page_ok_bound [OF assms(2,3)] memmove_eq_copied [of q PGSIZE p "mem s"] by simp
  have al: "page_aligned p" using assms(1) by (rule page_ok_aligned)
  have "same_page ?m (mem s) r" if "page_aligned r" "r \<noteq> p" for r
  proof -
    have "page_of r \<noteq> page_of p" using aligned_page_of_inj [OF that(1) al] that(2) by blast
    then show ?thesis using in_page_iff [OF al] by (simp add: m copied_def same_page_def)
  qed
  then have "touches s (s\<lparr>mem := ?m\<rparr>) {p}" by (simp add: touches_def)
  moreover have "same_bytes ?m p (mem s) q" by (simp add: same_bytes_def m copied_def)
  ultimately show ?thesis by (simp add: move_mem_def)
qed

lemma kmem_inv_touches:
  assumes "kmem_inv s ks" "touches s t A" "A \<inter> set ks = {}" "kmem_frame s t" "freelist t = freelist s"
  shows "kmem_inv t ks"
proof -
  have same: "page_aligned q \<and> same_page (mem t) (mem s) q" if "q \<in> set ks" for q
  proof -
    have "page_ok s q" "q \<notin> A" using assms(1,3) that by (auto simp: kmem_inv_def)
    then show ?thesis using assms(2) page_ok_aligned [of s q] by (simp add: touches_def)
  qed
  have "flist (mem s) (freelist s) ks" using assms(1) by (simp add: kmem_inv_def)
  then have "flist (mem t) (freelist s) ks" by (rule flist_frame) (rule same)
  then show ?thesis using assms(1,5) page_ok_frame [OF assms(4)] by (simp add: kmem_inv_def)
qed

text \<open>The pages of the pool a copy of \<open>n\<close> pages takes: the directory, the pages, and a table for 256 of them.\<close>

definition copy_needs :: "nat \<Rightarrow> nat" where
  "copy_needs n = 1 + n + (n + 255) div 256"

text \<open>The state after \<open>j\<close> pages of the space \<open>d\<close> of state \<open>s\<close> have been copied to the space \<open>c\<close>; the free list of
  \<open>s\<close> is \<open>ks0\<close>, now \<open>ks\<close>.\<close>

definition copying :: "'z kmem_scheme \<Rightarrow> u32 \<Rightarrow> u32 list \<Rightarrow> u32 \<Rightarrow> nat \<Rightarrow> u32 list \<Rightarrow> 'z kmem_scheme \<Rightarrow> bool" where
  "copying s d ks0 c j ks t \<longleftrightarrow> balanced s t \<and> kmem_frame s t \<and> kmem_inv t ks \<and> space_ok t c
     \<and> pages (mem t) c \<inter> set ks = {} \<and> pages (mem t) c \<union> set ks = set ks0 \<and> length ks + copy_needs j = length ks0
     \<and> (\<forall>v < UPAGES. pte (mem t) c v \<noteq> 0 \<longleftrightarrow> v < j)
     \<and> (\<forall>k < 1024. pde (mem t) c k \<noteq> 0 \<longleftrightarrow> k < (j + 255) div 256)
     \<and> (\<forall>v < j. PTE_FLAGS (pte (mem t) c v) = PTE_FLAGS (pte (mem s) d v)
         \<and> same_bytes (mem t) (frame (pte (mem t) c v)) (mem s) (frame (pte (mem s) d v)))
     \<and> touches s t (set ks0)"

lemma table_needed:
  assumes "\<forall>k < 1024. pde m c k \<noteq> 0 \<longleftrightarrow> k < (j + 255) div 256" "j < UPAGES"
  shows "pde m c (j div 256) = 0 \<longleftrightarrow> 256 dvd j"
    "copy_needs (Suc j) = copy_needs j + (if 256 dvd j then 2 else 1)"
    "k < (Suc j + 255) div 256 \<longleftrightarrow> k = j div 256 \<or> k < (j + 255) div 256"
proof -
  have e: "(Suc j + 255) div 256 = Suc (j div 256)" by simp
  have d: "(j + 255) div 256 = (if 256 dvd j then j div 256 else Suc (j div 256))"
  proof (cases "256 dvd j")
    case False
    then obtain i where "j = Suc i" by (cases j) auto
    then show ?thesis using False div_Suc [of i 256] by (auto simp: dvd_eq_mod_eq_0)
  qed (auto elim!: dvdE)
  have "j div 256 < 1024" using assms(2) by simp
  then show "pde m c (j div 256) = 0 \<longleftrightarrow> 256 dvd j" using assms(1) d by auto
  show "copy_needs (Suc j) = copy_needs j + (if 256 dvd j then 2 else 1)" unfolding copy_needs_def d e by simp
  show "k < (Suc j + 255) div 256 \<longleftrightarrow> k = j div 256 \<or> k < (j + 255) div 256" unfolding d e by auto
qed

lemma copying_parent:
  assumes c: "copying s d ks0 c j ks t" and ok: "space_ok s d" and sep: "pages (mem s) d \<inter> set ks0 = {}"
  shows "space_ok t d" "v < UPAGES \<Longrightarrow> pte (mem t) d v = pte (mem s) d v" "k < 1024 \<Longrightarrow> pde (mem t) d k = pde (mem s) d k"
    "p \<in> pages (mem s) d \<Longrightarrow> same_page (mem t) (mem s) p"
proof -
  show same: "same_page (mem t) (mem s) p" if "p \<in> pages (mem s) d" for p
    using c sep that space_aligned [OF ok that] by (auto simp: copying_def touches_def)
  have "kend t = kend s" using c by (simp add: copying_def kmem_frame_iff)
  moreover have "\<forall>p \<in> table_pages (mem s) d. same_page (mem t) (mem s) p" using same table_pages_sub [of "mem s" d] by auto
  ultimately show "space_ok t d" "v < UPAGES \<Longrightarrow> pte (mem t) d v = pte (mem s) d v" "k < 1024 \<Longrightarrow> pde (mem t) d k = pde (mem s) d k"
    using space_frame [OF ok] by blast+
qed

text \<open>A copy that has to be undone: \<open>A\<close> are its pages and those still free.\<close>

definition undoable :: "'z kmem_scheme \<Rightarrow> u32 list \<Rightarrow> u32 \<Rightarrow> u32 set \<Rightarrow> 'z kmem_scheme \<Rightarrow> bool" where
  "undoable s ks0 c A t \<longleftrightarrow> balanced s t \<and> kmem_frame s t \<and> space_ok t c \<and> touches s t (set ks0)
     \<and> (\<exists>ks. kmem_inv t ks \<and> pages (mem t) c \<inter> set ks = {} \<and> pages (mem t) c \<union> set ks = A) \<and> A \<subseteq> set ks0
     \<and> (\<exists>K. \<forall>k < 1024. pde (mem t) c k \<noteq> 0 \<longleftrightarrow> k < K)"

lemma runs_undo:
  assumes lf: "lock_free KmemLock s" and u: "undoable s ks0 c A t"
  shows "runs (freevm c) t (\<lambda>_ u. balanced s u \<and> kmem_frame s u \<and> touches s u (set ks0) \<and> (\<exists>ks'. kmem_inv u ks' \<and> set ks' = A))"
proof -
  obtain ks K where ks: "kmem_inv t ks" "pages (mem t) c \<inter> set ks = {}" "pages (mem t) c \<union> set ks = A"
    and K: "\<forall>k < 1024. pde (mem t) c k \<noteq> 0 \<longleftrightarrow> k < K"
    and t: "balanced s t" "kmem_frame s t" "space_ok t c" "touches s t (set ks0)" "A \<subseteq> set ks0"
    using u by (auto simp: undoable_def)
  have lf': "lock_free KmemLock t" using lf t(1) balanced_lock_free by blast
  show ?thesis
  proof (rule runs_mono [OF runs_freevm [OF lf' ks(1) t(3) ks(2) K]], elim conjE, intro conjI)
    fix u assume u: "balanced t u" "kmem_frame t u" "touches t u (pages (mem t) c)" "\<exists>ks'. kmem_inv u ks' \<and> set ks' = pages (mem t) c \<union> set ks"
    show "balanced s u" using t(1) u(1) by (rule balanced_trans)
    show "kmem_frame s u" using t(2) u(2) by (rule kmem_frame_trans)
    show "touches s u (set ks0)" using t(5) ks(3) by (intro touches_trans [OF t(4) u(3)]) auto
    show "\<exists>ks'. kmem_inv u ks' \<and> set ks' = A" using u(4) ks(3) by simp
  qed
qed

lemma copying_undoable: "copying s d ks0 c j ks t \<Longrightarrow> undoable s ks0 c (set ks0) t"
  by (auto simp: copying_def undoable_def)

text \<open>One page copied.\<close>

lemma runs_copy_page:
  assumes lf: "lock_free KmemLock s" and c: "copying s d ks0 c j (q # qs) t" and ok: "space_ok s d"
    and sep: "pages (mem s) d \<inter> set ks0 = {}" and j: "j < UPAGES" "pte (mem s) d j \<noteq> 0"
    and t1: "balanced t t1" "kmem_frame t t1" "mem t1 = mem t" "kmem_inv t1 qs"
  defines "e \<equiv> pte (mem s) d j"
  shows "runs (move_mem q (frame e) PGSIZE) t1 (\<lambda>_ t2.
    runs (mappages c (page_va j) PGSIZE (v2p q) UVMPDXATTR (PTE_FLAGS e)) t2 (\<lambda>r t3.
      if 256 dvd j \<and> qs = [] then r = - 1 \<and> undoable s ks0 c (set ks0 - {q}) t3
      else r = 0 \<and> copying s d ks0 c (Suc j) (if 256 dvd j then tl qs else qs) t3))"
proof -
  have ct: "balanced s t" "kmem_frame s t" "kmem_inv t (q # qs)" "space_ok t c"
      "pages (mem t) c \<inter> set (q # qs) = {}" "pages (mem t) c \<union> set (q # qs) = set ks0" "length (q # qs) + copy_needs j = length ks0"
      "\<forall>v < UPAGES. pte (mem t) c v \<noteq> 0 \<longleftrightarrow> v < j" "\<forall>k < 1024. pde (mem t) c k \<noteq> 0 \<longleftrightarrow> k < (j + 255) div 256"
      "\<forall>v < j. PTE_FLAGS (pte (mem t) c v) = PTE_FLAGS (pte (mem s) d v)
         \<and> same_bytes (mem t) (frame (pte (mem t) c v)) (mem s) (frame (pte (mem s) d v))" "touches s t (set ks0)"
    using c by (simp_all add: copying_def)
  have kb: "KERNBASE < kend s" using ok by (simp add: space_ok_def)
  have f: "frame e \<in> pages (mem s) d" using part_in_pages [of "mem s" d "Page j"] j by (simp add: e_def)
  have s1: "kmem_frame s t1" using ct(2) t1(2) by (rule kmem_frame_trans)
  have q: "page_ok s q" "q \<notin> set qs" using ct(3) page_ok_frame [OF ct(2)] by (auto simp: kmem_inv_def)
  have ok1: "page_ok t1 q" "page_ok t1 (frame e)" "KERNBASE < kend t1"
    using page_ok_frame [OF s1] q space_page_ok [OF ok f] s1 kb by (simp_all add: kmem_frame_iff)
  have lf1: "lock_free KmemLock t1" using lf ct(1) t1(1) balanced_lock_free by blast
  have fr: "same_bytes (mem t) (frame e) (mem s) (frame e)"
    by (rule same_page_bytes [OF copying_parent(4) [OF c ok sep f] space_aligned [OF ok f]])
  note need = table_needed [OF ct(9) j(1)]
  show ?thesis
  proof (rule runs_mono [OF runs_move_page [OF ok1]], elim conjE)
    fix t2 assume t2: "balanced t1 t2" "kmem_frame t1 t2" "freelist t2 = freelist t1" "touches t1 t2 {q}" "same_bytes (mem t2) q (mem t1) (frame e)"
    have s2: "balanced s t2" "kmem_frame s t2" "lock_free KmemLock t2"
      using ct(1,2) t1(1,2) t2(1,2) lf1 balanced_lock_free by (blast intro: balanced_trans kmem_frame_trans)+
    have inv2: "kmem_inv t2 qs" using q(2) by (intro kmem_inv_touches [OF t1(4) t2(4) _ t2(2,3)]) simp
    have same: "same_page (mem t2) (mem t) p" if "page_aligned p" "p \<noteq> q" for p
      using t2(4) that t1(3) by (simp add: touches_def)
    have qn: "q \<notin> pages (mem t) c" using ct(5) by simp
    have kend: "kend t2 = kend t" using s2(2) ct(2) by (simp add: kmem_frame_iff)
    have "\<forall>p \<in> table_pages (mem t) c. same_page (mem t2) (mem t) p"
      using same qn space_aligned [OF ct(4)] table_pages_sub [of "mem t" c] by blast
    note F = space_frame [OF ct(4) kend this]
    have k: "j div 256 < 1024" using j(1) by simp
    have new: "pde (mem t2) c (j div 256) = 0 \<longleftrightarrow> 256 dvd j" using F(5) [OF k] need(1) by simp
    have sep2: "pages (mem t2) c \<inter> set qs = {}" "q \<notin> pages (mem t2) c" using ct(5) F(2) by auto
    have "pte (mem t) c j \<noteq> 0 \<longleftrightarrow> j < j" using ct(8) j(1) by blast
    then have j2: "pte (mem t2) c j = 0" using F(4) [OF j(1)] by simp
    have q2: "page_ok t2 q" using page_ok_frame [OF s2(2)] q(1) by simp
    have st2: "touches s t2 (set ks0)"
      using ct(6,11) same t1(3) by (intro touches_trans [OF ct(11), of t2 "{q}"]) (auto simp: touches_def)
    show "runs (mappages c (page_va j) PGSIZE (v2p q) UVMPDXATTR (PTE_FLAGS e)) t2 (\<lambda>r t3.
      if 256 dvd j \<and> qs = [] then r = - 1 \<and> undoable s ks0 c (set ks0 - {q}) t3
      else r = 0 \<and> copying s d ks0 c (Suc j) (if 256 dvd j then tl qs else qs) t3)"
    proof (rule runs_mono [OF runs_map [OF s2(3) inv2 F(1) sep2(1) j(1) j2 sep2(2) q(2) q2 PTE_ADDR_FLAGS]], unfold new, elim conjE)
      fix r t3 assume b: "balanced t2 t3" "kmem_frame t2 t3"
        and m: "if 256 dvd j \<and> qs = [] then r = - 1 \<and> mem t3 = mem t2 \<and> kmem_inv t3 []
     else r = 0 \<and> kmem_inv t3 (if 256 dvd j then tl qs else qs) \<and> space_ok t3 c
       \<and> (\<forall>k < 1024. (pde (mem t3) c k \<noteq> 0) = (k = j div 256 \<or> pde (mem t2) c k \<noteq> 0))
       \<and> (\<forall>w < UPAGES. pte (mem t3) c w = (if w = j then v2p q OR PTE_FLAGS e else pte (mem t2) c w))
       \<and> pages (mem t3) c = insert q (if 256 dvd j then insert (hd qs) (pages (mem t2) c) else pages (mem t2) c)
       \<and> touches t2 t3 (table_pages (mem t3) c)"
      have s3: "balanced s t3" "kmem_frame s t3" using s2(1,2) b by (blast intro: balanced_trans kmem_frame_trans)+
      show "if 256 dvd j \<and> qs = [] then r = - 1 \<and> undoable s ks0 c (set ks0 - {q}) t3
      else r = 0 \<and> copying s d ks0 c (Suc j) (if 256 dvd j then tl qs else qs) t3"
      proof (cases "256 dvd j \<and> qs = []")
        case True
        have mem3: "mem t3 = mem t2" and inv3: "kmem_inv t3 []" "r = - 1" using m True by simp_all
        have "space_ok t3 c"
          using F(1) mem3 b(2) by (simp add: space_ok_def kmem_frame_iff page_ok_def kfree_bad_def)
        moreover have "pages (mem t3) c = set ks0 - {q}" using mem3 F(2) ct(5,6) True by auto
        moreover have "touches s t3 (set ks0)" using st2 mem3 by (simp add: touches_def)
        moreover have "\<forall>k < 1024. pde (mem t3) c k \<noteq> 0 \<longleftrightarrow> k < (j + 255) div 256" using mem3 F(5) ct(9) by simp
        ultimately show ?thesis using True s3 inv3 by (auto simp: undoable_def)
      next
        case False
        let ?qs = "if 256 dvd j then tl qs else qs"
        have m': "r = 0" "kmem_inv t3 ?qs" "space_ok t3 c"
            "\<forall>k < 1024. (pde (mem t3) c k \<noteq> 0) = (k = j div 256 \<or> pde (mem t2) c k \<noteq> 0)"
            "\<forall>w < UPAGES. pte (mem t3) c w = (if w = j then v2p q OR PTE_FLAGS e else pte (mem t2) c w)"
            "pages (mem t3) c = insert q (if 256 dvd j then insert (hd qs) (pages (mem t2) c) else pages (mem t2) c)"
            "touches t2 t3 (table_pages (mem t3) c)"
          using m unfolding if_not_P [OF False] by blast+
        have split: "set (q # qs) = insert q (if 256 dvd j then insert (hd qs) (set ?qs) else set ?qs)"
          using False by (cases qs) simp_all
        have dist: "distinct (q # qs)" using ct(3) by (simp add: kmem_inv_def)
        have "pages (mem t3) c \<inter> set ?qs = {}" unfolding m'(6) F(2) using ct(5) dist False by (cases qs) auto
        moreover have all: "pages (mem t3) c \<union> set ?qs = set ks0" unfolding m'(6) F(2) ct(6) [symmetric] split by (auto split: if_splits)
        moreover have "length ?qs + copy_needs (Suc j) = length ks0" unfolding need(2) ct(7) [symmetric] using False by (cases qs) auto
        moreover have "\<forall>v < UPAGES. pte (mem t3) c v \<noteq> 0 \<longleftrightarrow> v < Suc j"
          using m'(5) F(4) ct(8) v2p_nonzero(2) [OF q(1) kb] by (auto simp: less_Suc_eq)
        moreover have "\<forall>k < 1024. pde (mem t3) c k \<noteq> 0 \<longleftrightarrow> k < (Suc j + 255) div 256"
          using m'(4) F(5) ct(9) need(3) by auto
        moreover have "touches s t3 (set ks0)"
          using all table_pages_sub [of "mem t3" c] by (intro touches_trans [OF st2 m'(7)]) auto
        moreover have "PTE_FLAGS (pte (mem t3) c v) = PTE_FLAGS (pte (mem s) d v)
            \<and> same_bytes (mem t3) (frame (pte (mem t3) c v)) (mem s) (frame (pte (mem s) d v))" if "v < Suc j" for v
        proof -
          have v: "v < UPAGES" "pte (mem t3) c v \<noteq> 0" using that j(1) calculation(4) by auto
          have al: "page_aligned (frame (pte (mem t3) c v))"
            using space_aligned [OF m'(3)] part_in_pages [of "mem t3" c "Page v"] v by simp
          have "same_page (mem t3) (mem t2) (frame (pte (mem t3) c v))"
            using m'(7) data_not_table [OF m'(3) v] al by (simp add: touches_def)
          then have b32: "same_bytes (mem t3) (frame (pte (mem t3) c v)) (mem t2) (frame (pte (mem t3) c v))"
            using al by (rule same_page_bytes)
          show ?thesis
          proof (cases "v = j")
            case True
            have "pte (mem t3) c v = v2p q OR PTE_FLAGS e" using m'(5) v(1) True by simp
            then have "frame (pte (mem t3) c v) = q" "PTE_FLAGS (pte (mem t3) c v) = PTE_FLAGS e"
              using page_ok_aligned [OF q(1)] by (simp_all add: frame_entry PTE_FLAGS_entry)
            then show ?thesis using True b32 t2(5) t1(3) fr by (auto simp: e_def intro: same_bytes_trans)
          next
            case False
            then have lt: "v < j" using that by simp
            have eq: "pte (mem t3) c v = pte (mem t) c v" using m'(5) F(4) v(1) False by simp
            then have "frame (pte (mem t3) c v) \<in> pages (mem t) c" using part_in_pages [of "mem t" c "Page v"] v by simp
            then have "frame (pte (mem t3) c v) \<noteq> q" using qn by blast
            then have "same_bytes (mem t2) (frame (pte (mem t3) c v)) (mem t) (frame (pte (mem t3) c v))"
              using same [OF al] al by (intro same_page_bytes)
            then show ?thesis using b32 ct(10) lt eq by (metis same_bytes_trans)
          qed
        qed
        ultimately have "copying s d ks0 c (Suc j) ?qs t3" unfolding copying_def using m'(2,3) s3 by blast
        then show ?thesis unfolding if_not_P [OF False] using m'(1) by blast
      qed
    qed
  qed
qed

text \<open>The pages below a size.\<close>

definition size_pages :: "u32 \<Rightarrow> nat" where
  "size_pages sz = (unat sz + 4095) div 4096"

lemma size_pages:
  assumes "sz \<le> USERBOUND"
  shows "size_pages sz \<le> UPAGES" "j \<le> UPAGES \<Longrightarrow> page_va j < sz \<longleftrightarrow> j < size_pages sz"
proof -
  have "unat sz \<le> 4096 * UPAGES" using assms by (simp add: word_le_nat_alt USERBOUND_def)
  then show "size_pages sz \<le> UPAGES" by (simp add: size_pages_def)
  have "Suc j \<le> (unat sz + 4095) div 4096 \<longleftrightarrow> Suc j * 4096 \<le> unat sz + 4095"
    by (rule less_eq_div_iff_mult_less_eq) simp
  then have "4096 * j < unat sz \<longleftrightarrow> j < (unat sz + 4095) div 4096" by linarith
  then show "page_va j < sz \<longleftrightarrow> j < size_pages sz" if "j \<le> UPAGES"
    using that by (simp add: size_pages_def word_less_nat_alt unat_page_va)
qed

text \<open>How the copy ends. One page is lost when the pool runs dry between a page and the table for it.\<close>

definition copy_leaks :: "nat \<Rightarrow> nat \<Rightarrow> bool" where
  "copy_leaks n free \<longleftrightarrow> (\<exists>j < n. 256 dvd j \<and> free = Suc (copy_needs j))"

definition copy_done :: "'z kmem_scheme \<Rightarrow> u32 \<Rightarrow> u32 list \<Rightarrow> u32 \<Rightarrow> nat \<Rightarrow> u32 \<Rightarrow> 'z kmem_scheme \<Rightarrow> bool" where
  "copy_done s d ks0 c n r t \<longleftrightarrow>
     (if copy_needs n \<le> length ks0 then r = c \<and> (\<exists>ks. copying s d ks0 c n ks t)
      else r = 0 \<and> balanced s t \<and> kmem_frame s t \<and> touches s t (set ks0)
        \<and> (\<exists>ks. kmem_inv t ks \<and> set ks \<subseteq> set ks0 \<and> length ks = length ks0 - (if copy_leaks n (length ks0) then 1 else 0)))"

lemma copy_needs_mono: "i \<le> j \<Longrightarrow> copy_needs i + (j - i) \<le> copy_needs j"
proof -
  assume "i \<le> j"
  moreover from this have "(i + 255) div 256 \<le> (j + 255) div 256" by (simp add: div_le_mono)
  ultimately show ?thesis by (simp add: copy_needs_def)
qed

lemma copy_needs_jump: "256 dvd j \<Longrightarrow> copy_needs (Suc j) = copy_needs j + 2"
  by (auto simp: copy_needs_def elim!: dvdE)

lemma copy_leaks_iff:
  assumes "j < n"
  shows "copy_leaks n (copy_needs j) \<longleftrightarrow> False" "256 dvd j \<Longrightarrow> copy_leaks n (Suc (copy_needs j))"
  using assms
proof -
  have "Suc (copy_needs i) \<noteq> copy_needs j" if "256 dvd i" for i
    using copy_needs_mono [of "Suc i" j] copy_needs_mono [of j i] copy_needs_jump [OF that] by (cases "i < j") auto
  then show "copy_leaks n (copy_needs j) \<longleftrightarrow> False" unfolding copy_leaks_def by metis
  show "256 dvd j \<Longrightarrow> copy_leaks n (Suc (copy_needs j))" using assms by (auto simp: copy_leaks_def)
qed

lemma undone:
  assumes lf: "lock_free KmemLock s" and u: "undoable s ks0 c A t" and d: "distinct ks0"
    and A: "A = set ks0 \<and> \<not> copy_leaks n (length ks0) \<or> (\<exists>q \<in> set ks0. A = set ks0 - {q}) \<and> copy_leaks n (length ks0)"
    and n: "length ks0 < copy_needs n"
  shows "runs (freevm c) t (\<lambda>_. copy_done s d0 ks0 c n 0)"
proof (rule runs_mono [OF runs_undo [OF lf u]], elim conjE exE)
  fix u ks assume b: "balanced s u" "kmem_frame s u" "touches s u (set ks0)" and ks: "kmem_inv u ks" "set ks = A"
  have "length ks = card A" using ks distinct_card [of ks] by (simp add: kmem_inv_def)
  moreover have "length ks0 = card (set ks0)" using distinct_card [OF d] by simp
  ultimately have "length ks = length ks0 - (if copy_leaks n (length ks0) then 1 else 0)" using A by auto
  moreover have "set ks \<subseteq> set ks0" using A ks(2) by auto
  ultimately show "copy_done s d0 ks0 c n 0 u" using b ks(1) n by (auto simp: copy_done_def)
qed

lemma space_ok_same_mem: "kmem_frame t u \<Longrightarrow> mem u = mem t \<Longrightarrow> space_ok u c = space_ok t c"
  by (simp add: space_ok_def kmem_frame_iff page_ok_def kfree_bad_def)

lemma copying_same_mem:
  assumes "copying s d ks0 c j ks t" "balanced t u" "kmem_frame t u" "mem u = mem t" "kmem_inv u ks"
  shows "copying s d ks0 c j ks u"
proof -
  have "balanced s u" "kmem_frame s u" using assms(1-3) by (auto simp: copying_def intro: balanced_trans kmem_frame_trans)
  moreover have "space_ok u c" using assms(1) space_ok_same_mem [OF assms(3,4)] by (simp add: copying_def)
  moreover have "touches s u (set ks0)" using assms(1,4) by (simp add: copying_def touches_def)
  ultimately show ?thesis using assms(1,4,5) by (simp add: copying_def)
qed

lemma runs_copy_loop:
  assumes lf: "lock_free KmemLock s" and ok: "space_ok s d" and sep: "pages (mem s) d \<inter> set ks0 = {}" and dist: "distinct ks0"
    and sz: "sz \<le> USERBOUND" and present: "\<forall>v < size_pages sz. pte (mem s) d v \<noteq> 0"
  shows "copying s d ks0 c j ks t \<Longrightarrow> j \<le> size_pages sz \<Longrightarrow> size_pages sz < fuel + j \<Longrightarrow>
    runs (copyuvm_loop fuel d c (page_va j) sz) t (copy_done s d ks0 c (size_pages sz))"
proof (induction fuel arbitrary: j ks t)
  case 0
  then show ?case by simp
next
  case (Suc fuel)
  note n = size_pages [OF sz]
  show ?case
  proof (cases "j < size_pages sz")
    case False
    then have "j = size_pages sz" using Suc.prems(2) by simp
    then show ?thesis using Suc.prems(1) n(2) [of j] n(1) by (auto simp: copy_done_def copying_def)
  next
    case True
    have j: "j < UPAGES" "page_va j < sz" using True n by auto
    have e: "pte (mem s) d j \<noteq> 0" using present True by simp
    note P = copying_parent [OF Suc.prems(1) ok sep]
    have te: "pte (mem t) d j = pte (mem s) d j" using P(2) j(1) by simp
    have nz: "pde (mem t) d (j div 256) \<noteq> 0" using te e by (auto simp: pte_def)
    have addr: "pte_addr (mem t) d j \<noteq> 0" by (rule pte_addr_nonzero [OF P(1) j(1) nz])
    have load: "load32 (mem t) (pte_addr (mem t) d j) = pte (mem s) d j" using te nz by (simp add: pte_def)
    have t: "balanced s t" "kmem_frame s t" "kmem_inv t ks" "length ks + copy_needs j = length ks0" "pages (mem t) c \<union> set ks = set ks0"
      using Suc.prems(1) by (simp_all add: copying_def)
    have lft: "lock_free KmemLock t" using lf t(1) balanced_lock_free by blast
    let ?rest = "\<lambda>pg. if pg = 0 then andthen (freevm c) (return 0)
          else andthen (move_mem pg (frame (pte (mem s) d j)) PGSIZE)
            (call (mappages c (page_va j) PGSIZE (v2p pg) UVMPDXATTR (PTE_FLAGS (pte (mem s) d j))) (\<lambda>r.
             if r < 0 then andthen (freevm c) (return 0)
             else copyuvm_loop fuel d c (page_va j + PGSIZE) sz))"
    have "runs (call kalloc ?rest) t (copy_done s d ks0 c (size_pages sz))"
    proof (rule runs_call_mono [OF runs_kalloc [OF lft t(3)]], elim conjE)
      fix a t1 assume t1: "balanced t t1" "kmem_frame t t1" "mem t1 = mem t" "kmem_inv t1 (tl ks)" "a = (if ks = [] then 0 else hd ks)"
      show "runs (?rest a) t1 (copy_done s d ks0 c (size_pages sz))"
      proof (cases ks)
        case Nil
        have "undoable s ks0 c (set ks0) t1"
          using copying_undoable [OF copying_same_mem [OF Suc.prems(1) t1(1-3)]] t1(4) Nil by simp
        moreover have "length ks0 = copy_needs j" using t(4) Nil by simp
        moreover have "copy_needs j < copy_needs (size_pages sz)" using copy_needs_mono [of j "size_pages sz"] True by simp
        ultimately have "runs (freevm c) t1 (\<lambda>_. copy_done s d ks0 c (size_pages sz) 0)"
          using copy_leaks_iff(1) [OF True] by (intro undone [OF lf _ dist]) auto
        then show ?thesis using t1(5) Nil by simp
      next
        case (Cons q qs)
        have "q \<noteq> 0" using t(3) Cons by (simp add: kmem_inv_def page_ok_def)
        moreover have "q \<in> set ks0" using t(5) Cons by auto
        moreover have inv1: "kmem_inv t1 qs" using t1(4) Cons by simp
        note copy = runs_copy_page [OF lf Suc.prems(1) [unfolded Cons] ok sep j(1) e t1(1-3) inv1]
        have fail: "runs (freevm c) u (\<lambda>_. copy_done s d ks0 c (size_pages sz) 0)"
          if "256 dvd j \<and> qs = []" "undoable s ks0 c (set ks0 - {q}) u" for u
        proof -
          have "length ks0 = Suc (copy_needs j)" using t(4) Cons that(1) by simp
          moreover have "copy_needs (Suc j) \<le> copy_needs (size_pages sz)" using copy_needs_mono [of "Suc j" "size_pages sz"] True by simp
          ultimately show ?thesis
            using copy_leaks_iff(2) [OF True] copy_needs_jump [of j] that(1) \<open>q \<in> set ks0\<close> by (intro undone [OF lf that(2) dist]) auto
        qed
        have go: "runs (copyuvm_loop fuel d c (page_va j + PGSIZE) sz) u (copy_done s d ks0 c (size_pages sz))"
          if "copying s d ks0 c (Suc j) ks' u" for ks' u
          unfolding page_va_Suc using that True Suc.prems(3) by (intro Suc.IH) simp_all
        have "runs (move_mem q (frame (pte (mem s) d j)) PGSIZE) t1 (\<lambda>_ t2. runs (mappages c (page_va j) PGSIZE (v2p q) UVMPDXATTR
            (PTE_FLAGS (pte (mem s) d j))) t2 (\<lambda>r u. runs (if r < 0 then andthen (freevm c) (return 0)
             else copyuvm_loop fuel d c (page_va j + PGSIZE) sz) u (copy_done s d ks0 c (size_pages sz))))"
          by (rule runs_mono [OF copy], erule runs_mono) (auto intro: fail go split: if_split_asm)
        then show ?thesis using t1(5) Cons \<open>q \<noteq> 0\<close> by simp
      qed
    qed
    moreover have "copyuvm_loop (Suc fuel) d c (page_va j) sz t = call kalloc ?rest t"
      using j(2) addr load e nz
      by (simp add: call_app_Ret [OF walk_eq [OF j(1)]] get32_def reads_def andthen_def panic_if_def frame_def cong: if_cong)
    ultimately show ?thesis unfolding runs_def by simp
  qed
qed

text \<open>An empty space: a directory of zeros.\<close>

lemma empty_space:
  assumes "page_ok s c" "KERNBASE < kend s" and z: "mem s = memset m c 0 PGSIZE"
  shows "space_ok s c" "pages (mem s) c = {c}" "k < 1024 \<Longrightarrow> pde (mem s) c k = 0" "v < UPAGES \<Longrightarrow> pte (mem s) c v = 0"
proof -
  show P: "pde (mem s) c k = 0" if "k < 1024" for k
    unfolding pde_def z using load32_zero_page [OF page_ok_aligned [OF assms(1)] that] by simp
  show T: "pte (mem s) c v = 0" if "v < UPAGES" for v using P [of "v div 256"] that by (simp add: pte_def)
  have L: "{p. live (mem s) c p} = {Directory}"
  proof -
    have "live (mem s) c p \<longleftrightarrow> p = Directory" for p using P T by (cases p) auto
    then show ?thesis by blast
  qed
  then show pg: "pages (mem s) c = {c}" by (simp add: pages_def)
  show "space_ok s c" unfolding space_ok_def L pg using assms by simp
qed

lemma copyuvm_via:
  assumes "runs kalloc s (\<lambda>a t. if a = 0 then Q 0 t
    else runs (copyuvm_loop (2 ^ 20 + 1) d a (page_va 0) sz) (t\<lparr>mem := memset (mem t) a 0 PGSIZE\<rparr>) Q)"
  shows "runs (copyuvm d sz) s Q"
  using assms unfolding copyuvm_def setupkvm_def by (auto simp: set_mem_def elim!: runs_mono)

section \<open>The memory a program sees\<close>

text \<open>The byte at an address of the program, when it may access it.\<close>

definition user_page :: "mem \<Rightarrow> u32 \<Rightarrow> nat \<Rightarrow> bool" where
  "user_page m d v \<longleftrightarrow> v < UPAGES \<and> pte m d v \<noteq> 0 \<and> pte m d v AND PTX_AP U_AP \<noteq> 0"

definition umem :: "mem \<Rightarrow> u32 \<Rightarrow> u32 \<Rightarrow> u8 option" where
  "umem m d a = (if user_page m d (unat a div 4096)
     then Some (m (frame (pte m d (unat a div 4096)) + of_nat (unat a mod 4096))) else None)"

text \<open>Every page of a range has a property; the process may use the whole range; it has page tables for it.\<close>

definition over :: "(nat \<Rightarrow> bool) \<Rightarrow> u32 \<Rightarrow> nat \<Rightarrow> bool" where
  "over P a n \<longleftrightarrow> unat a + n \<le> 4096 * UPAGES \<and> (\<forall>i < n. P ((unat a + i) div 4096))"

definition accessible :: "mem \<Rightarrow> u32 \<Rightarrow> u32 \<Rightarrow> nat \<Rightarrow> bool" where
  "accessible m d a n \<longleftrightarrow> over (user_page m d) a n"

definition tabled :: "mem \<Rightarrow> u32 \<Rightarrow> u32 \<Rightarrow> nat \<Rightarrow> bool" where
  "tabled m d a n \<longleftrightarrow> over (\<lambda>v. pde m d (v div 256) \<noteq> 0) a n"

lemma page_va_split:
  assumes "unat a div 4096 < UPAGES"
  shows "PGROUNDDOWN a = page_va (unat a div 4096)" "a - page_va (unat a div 4096) = of_nat (unat a mod 4096)"
proof -
  have "unat (page_va (unat a div 4096)) = 4096 * (unat a div 4096)" using assms by (simp add: unat_page_va)
  then show "PGROUNDDOWN a = page_va (unat a div 4096)"
    by (simp add: word_unat_eq_iff PGROUNDDOWN_def PGSIZE_def round_down)
  have "a = of_nat (4096 * (unat a div 4096) + unat a mod 4096)" by simp
  then show "a - page_va (unat a div 4096) = of_nat (unat a mod 4096)"
    unfolding page_va_def of_nat_add by (metis add_diff_cancel_left')
qed

lemma frame_page_ok:
  assumes "space_ok s d" "user_page (mem s) d v"
  shows "page_ok s (frame (pte (mem s) d v))" "frame (pte (mem s) d v) \<in> pages (mem s) d"
proof -
  show "frame (pte (mem s) d v) \<in> pages (mem s) d"
    using assms(2) part_in_pages [of "mem s" d "Page v"] by (simp add: user_page_def)
  then show "page_ok s (frame (pte (mem s) d v))" by (rule space_page_ok [OF assms(1)])
qed

lemma uva2ka_eq:
  assumes "space_ok s d" "user_page (mem s) d v"
  shows "uva2ka d (page_va v) s = Ret (frame (pte (mem s) d v)) s" "frame (pte (mem s) d v) \<noteq> 0"
proof -
  have v: "v < UPAGES" "pte (mem s) d v \<noteq> 0" "pte (mem s) d v AND PTX_AP U_AP \<noteq> 0" using assms(2) by (simp_all add: user_page_def)
  then have nz: "pde (mem s) d (v div 256) \<noteq> 0" by (auto simp: pte_def)
  have "pte_addr (mem s) d v \<noteq> 0" by (rule pte_addr_nonzero [OF assms(1) v(1) nz])
  moreover have "load32 (mem s) (pte_addr (mem s) d v) = pte (mem s) d v" using nz by (simp add: pte_def)
  ultimately show "uva2ka d (page_va v) s = Ret (frame (pte (mem s) d v)) s"
    using v nz by (simp add: uva2ka_def call_app_Ret [OF walk_eq [OF v(1)]] get32_def reads_def frame_def call_app)
  show "frame (pte (mem s) d v) \<noteq> 0" using frame_page_ok(1) [OF assms] by (simp add: page_ok_def)
qed

text \<open>Bytes written in one page of the program.\<close>

lemma in_page_range:
  assumes "page_aligned f" "off + n \<le> 4096" "i < 4096"
  shows "unat (f + of_nat i - (f + of_nat off)) < n \<longleftrightarrow> off \<le> i \<and> i < off + n"
    "off \<le> i \<Longrightarrow> unat (f + of_nat i - (f + of_nat off)) = i - off"
proof -
  have d: "f + of_nat i - (f + of_nat off) = (of_nat i - of_nat off :: u32)" by simp
  have u: "unat (of_nat i :: u32) = i" "unat (of_nat off :: u32) = off" using assms by (simp_all add: unat_of_nat)
  show e: "off \<le> i \<Longrightarrow> unat (f + of_nat i - (f + of_nat off)) = i - off"
    unfolding d using u by (simp add: unat_sub_if')
  have "i < off \<Longrightarrow> unat (f + of_nat i - (f + of_nat off)) = i + 2 ^ 32 - off"
    unfolding d using u by (simp add: unat_sub_if')
  then show "unat (f + of_nat i - (f + of_nat off)) < n \<longleftrightarrow> off \<le> i \<and> i < off + n"
    using e assms(2) by (cases "off \<le> i") auto
qed

lemma store_chunk:
  assumes ok: "space_ok s d" and v: "user_page (mem s) d v" and n: "off + length bs \<le> 4096"
  defines "m \<equiv> store_bytes (frame (pte (mem s) d v) + of_nat off) bs (mem s)"
  shows "space_ok (s\<lparr>mem := m\<rparr>) d" "touches s (s\<lparr>mem := m\<rparr>) {frame (pte (mem s) d v)}" "pages m d = pages (mem s) d"
    "w < UPAGES \<Longrightarrow> pte m d w = pte (mem s) d w"
    "umem m d x = (if unat x div 4096 = v \<and> off \<le> unat x mod 4096 \<and> unat x mod 4096 < off + length bs
       then Some (bs ! (unat x mod 4096 - off)) else umem (mem s) d x)"
proof -
  let ?f = "frame (pte (mem s) d v)"
  have al: "page_aligned ?f" using frame_page_ok(1) [OF ok v] by (rule page_ok_aligned)
  have v': "v < UPAGES" "pte (mem s) d v \<noteq> 0" using v by (simp_all add: user_page_def)
  have same: "same_page m (mem s) p" if p: "page_aligned p" "p \<noteq> ?f" for p
    unfolding same_page_def
  proof (intro allI impI)
    fix a assume a: "page_of a = page_of p"
    then have "page_of a \<noteq> page_of ?f" using aligned_page_of_inj [OF p(1) al] p(2) by metis
    moreover have "page_of a = page_of ?f" if less: "unat (a - (?f + of_nat off)) < length bs"
    proof -
      define y where "y = a - (?f + of_nat off)"
      have "unat y + off < 4096" using less n by (simp add: y_def)
      moreover have "unat (of_nat off :: u32) = off" using n by (simp add: unat_of_nat)
      ultimately have "unat (y + of_nat off) < 4096" by (simp add: unat_word_ariths)
      then have "unat (a - ?f) < 4096" by (simp add: y_def)
      then show ?thesis using in_page_iff [OF al] by simp
    qed
    ultimately show "m a = mem s a" by (auto simp: m_def store_bytes_def)
  qed
  then show "touches s (s\<lparr>mem := m\<rparr>) {?f}" by (simp add: touches_def)
  have "\<forall>p \<in> table_pages (mem s) d. same_page (mem (s\<lparr>mem := m\<rparr>)) (mem s) p"
    using same data_not_table [OF ok v'] space_aligned [OF ok] table_pages_sub [of "mem s" d] by auto
  note F = space_frame [OF ok _ this, simplified]
  show "space_ok (s\<lparr>mem := m\<rparr>) d" "pages m d = pages (mem s) d" "w < UPAGES \<Longrightarrow> pte m d w = pte (mem s) d w"
    using F(1,2,4) by simp_all
  show "umem m d x = (if unat x div 4096 = v \<and> off \<le> unat x mod 4096 \<and> unat x mod 4096 < off + length bs
       then Some (bs ! (unat x mod 4096 - off)) else umem (mem s) d x)"
  proof (cases "user_page (mem s) d (unat x div 4096)")
    case False
    then have "\<not> user_page m d (unat x div 4096)" using F(4) by (auto simp: user_page_def)
    with False v show ?thesis by (auto simp: umem_def)
  next
    case True
    let ?w = "unat x div 4096" and ?i = "unat x mod 4096"
    have w: "?w < UPAGES" "pte (mem s) d ?w \<noteq> 0" using True by (simp_all add: user_page_def)
    have "user_page m d ?w" using True F(4) [OF w(1)] by (simp add: user_page_def)
    then have u: "umem m d x = Some (m (frame (pte (mem s) d ?w) + of_nat ?i))" using F(4) [OF w(1)] by (simp add: umem_def)
    have i: "?i < 4096" by simp
    show ?thesis
    proof (cases "?w = v")
      case True
      have "m (?f + of_nat ?i) = (if off \<le> ?i \<and> ?i < off + length bs then bs ! (?i - off) else mem s (?f + of_nat ?i))"
        using in_page_range [OF al n i] by (simp add: m_def store_bytes_def)
      then show ?thesis using u True \<open>user_page (mem s) d ?w\<close> by (simp add: umem_def)
    next
      case False
      let ?g = "frame (pte (mem s) d ?w)"
      have "?g \<noteq> ?f" using data_inj [OF ok w v'] False by blast
      moreover have al': "page_aligned ?g" using frame_page_ok(1) [OF ok True] by (rule page_ok_aligned)
      ultimately have "same_page m (mem s) ?g" by (intro same)
      moreover have "unat (of_nat ?i :: u32) < 4096" using i by (simp add: unat_of_nat)
      ultimately have "m (?g + of_nat ?i) = mem s (?g + of_nat ?i)" using al' by (simp add: same_page_def)
      then show ?thesis using u False True by (simp add: umem_def)
    qed
  qed
qed

lemma page_split_nat: "a = 4096 * (a div 4096) + a mod 4096" "a mod 4096 < (4096 :: nat)"
  by simp_all

lemma page_above: "(a :: nat) = 4096 * q + r \<Longrightarrow> r < 4096 \<Longrightarrow> 4096 * q \<le> a \<and> a < 4096 * Suc q \<and> 4096 * Suc q = a + (4096 - r)"
  by simp

text \<open>The first page of a range, and the rest of the range.\<close>

lemma over_pages: "over P a n \<Longrightarrow> i < n \<Longrightarrow> (unat a + i) div 4096 < UPAGES"
  by (auto simp: over_def div_less_iff_less_mult)

lemma over_first:
  assumes "over P a n" "0 < n"
  shows "P (unat a div 4096)" "unat a div 4096 < UPAGES"
  using assms over_pages [OF assms] by (auto simp: over_def)

lemma over_next:
  assumes "over P a n" "4096 - unat a mod 4096 < n"
  shows "over P (page_va (Suc (unat a div 4096))) (n - (4096 - unat a mod 4096))"
    "unat (page_va (Suc (unat a div 4096))) = unat a + (4096 - unat a mod 4096)"
proof -
  have e: "4096 * Suc (unat a div 4096) = unat a + (4096 - unat a mod 4096)"
    using page_above [OF page_split_nat] by blast
  have b: "unat a + n \<le> 4096 * UPAGES" using assms(1) by (simp add: over_def)
  have "4096 * Suc (unat a div 4096) \<le> 4096 * UPAGES" using e b assms(2) by linarith
  then have "Suc (unat a div 4096) \<le> UPAGES" by simp
  then show u: "unat (page_va (Suc (unat a div 4096))) = unat a + (4096 - unat a mod 4096)"
    using unat_page_va e by simp
  define k where "k = 4096 - unat a mod 4096"
  have "P ((unat a + k + i) div 4096)" if "i < n - k" for i
    using assms(1) that by (simp add: over_def add.assoc)
  then show "over P (page_va (Suc (unat a div 4096))) (n - (4096 - unat a mod 4096))"
    using b assms(2) unfolding over_def u k_def [symmetric] by simp
qed

lemma over_step:
  assumes "over Q a n" "P (unat a div 4096)"
    and "4096 - unat a mod 4096 < n \<Longrightarrow> over P (page_va (Suc (unat a div 4096))) (n - (4096 - unat a mod 4096))"
  shows "over P a n"
  unfolding over_def
proof (intro conjI allI impI)
  show "unat a + n \<le> 4096 * UPAGES" using assms(1) by (simp add: over_def)
  fix i assume i: "i < n"
  define k where "k = 4096 - unat a mod 4096"
  show "P ((unat a + i) div 4096)"
  proof (cases "i < k")
    case True
    have "unat a + i = 4096 * (unat a div 4096) + (unat a mod 4096 + i)" by simp
    moreover have "unat a mod 4096 + i < 4096" using True by (simp add: k_def)
    ultimately have "(unat a + i) div 4096 = unat a div 4096" by (metis add.right_neutral div_less div_mult_self4 zero_neq_numeral add.commute)
    then show ?thesis using assms(2) by simp
  next
    case False
    then have n: "k < n" "unat a + i = unat a + k + (i - k)" "i - k < n - k" using i by simp_all
    note N = over_next(2) [OF assms(1) n(1) [unfolded k_def]]
    show ?thesis using assms(3) n unfolding over_def N k_def [symmetric] by auto
  qed
qed

lemma accessible_tabled: "accessible m d a n \<Longrightarrow> tabled m d a n"
  by (auto simp: accessible_def tabled_def over_def user_page_def pte_def)

lemma over_cong:
  assumes "\<And>v. v < UPAGES \<Longrightarrow> P v = Q v"
  shows "over P a n = over Q a n"
  using assms over_pages [of P a n] over_pages [of Q a n] by (auto simp: over_def)

lemma accessible_same:
  "(\<And>v. v < UPAGES \<Longrightarrow> pte n d v = pte m d v) \<Longrightarrow> accessible n d a k = accessible m d a k"
proof -
  assume "\<And>v. v < UPAGES \<Longrightarrow> pte n d v = pte m d v"
  then have "user_page n d v = user_page m d v" for v by (auto simp: user_page_def)
  then show ?thesis by (simp add: accessible_def over_def)
qed

lemma tabled_same: "(\<And>v. v < 1024 \<Longrightarrow> pde n d v = pde m d v) \<Longrightarrow> tabled n d a k = tabled m d a k"
  unfolding tabled_def by (rule over_cong) simp

lemma map_shift: "n \<le> k \<Longrightarrow> map (\<lambda>i. f (b + of_nat n + of_nat i)) [0..<k - n] = map (\<lambda>i. f (b + (of_nat i :: u32))) [n..<k]"
  by (intro nth_equalityI) (simp_all add: add.assoc)

lemma upt_split: "n \<le> k \<Longrightarrow> [0..<k] = [0..<n] @ [n..<k]"
  by (metis le_add_diff_inverse upt_add_eq_append le0)

lemma copyin_loop_reads:
  assumes ok: "space_ok s d"
  shows "accessible (mem s) d a len \<Longrightarrow> len < k \<Longrightarrow>
    copyin_loop k d a len acc s = Ret (Some (acc @ map (\<lambda>i. the (umem (mem s) d (a + of_nat i))) [0..<len])) s"
proof (induction k arbitrary: a len acc)
  case 0
  then show ?case by simp
next
  case (Suc k)
  show ?case
  proof (cases "len = 0")
    case False
    let ?v = "unat a div 4096" and ?o = "unat a mod 4096"
    let ?n = "min (4096 - ?o) len" and ?f = "frame (pte (mem s) d (unat a div 4096))"
    have v: "user_page (mem s) d ?v" "?v < UPAGES" using over_first [OF Suc.prems(1) [unfolded accessible_def]] False by simp_all
    note S = page_va_split [OF v(2)] and U = uva2ka_eq [OF ok v(1)]
    have o: "unat (of_nat ?o :: u32) = ?o" by (simp add: unat_of_nat)
    have chunk: "load_bytes (?f + of_nat ?o) ?n (mem s) = map (\<lambda>i. the (umem (mem s) d (a + of_nat i))) [0..<?n]"
      unfolding load_bytes_def
    proof (rule map_cong [OF refl])
      fix i assume "i \<in> set [0..<?n]"
      then have i: "?o + i < 4096" "i < len" by auto
      have "unat a + i < 2 ^ 32" using Suc.prems(1) i(2) by (simp add: accessible_def over_def)
      then have "unat (a + of_nat i) = unat a + i" using i by (simp add: unat_word_ariths unat_of_nat)
      moreover have "unat a + i = 4096 * ?v + (?o + i)" by simp
      then have "(unat a + i) div 4096 = ?v" "(unat a + i) mod 4096 = ?o + i" using i(1) by (metis div_mult_self4 div_less add_0 zero_neq_numeral add.commute, metis mod_mult_self4 mod_less add.commute)
      ultimately show "mem s (?f + of_nat ?o + of_nat i) = the (umem (mem s) d (a + of_nat i))"
        using v(1) by (simp add: umem_def add.assoc)
    qed
    have "copyin_loop (Suc k) d a len acc s = copyin_loop k d (page_va (Suc ?v)) (len - ?n) (acc @ load_bytes (?f + of_nat ?o) ?n (mem s)) s"
      using False U o by (simp add: Let_def S U reads_def page_va_Suc)
    also have "\<dots> = Ret (Some (acc @ map (\<lambda>i. the (umem (mem s) d (a + of_nat i))) [0..<len])) s"
    proof (cases "4096 - ?o < len")
      case True
      note N = over_next [OF Suc.prems(1) [unfolded accessible_def] True, folded accessible_def]
      have n: "?n = 4096 - ?o" using True by simp
      have "page_va (Suc ?v) = of_nat (unat (page_va (Suc ?v)))" by simp
      also have "\<dots> = a + of_nat ?n" unfolding N(2) n of_nat_add by simp
      finally have "page_va (Suc ?v) = a + of_nat ?n" .
      then have rest: "map (\<lambda>i. the (umem (mem s) d (page_va (Suc ?v) + of_nat i))) [0..<len - ?n]
          = map (\<lambda>i. the (umem (mem s) d (a + of_nat i))) [?n..<len]"
        by (simp only:) (rule map_shift, simp)
      have "copyin_loop k d (page_va (Suc ?v)) (len - ?n) acc' s
          = Ret (Some (acc' @ map (\<lambda>i. the (umem (mem s) d (page_va (Suc ?v) + of_nat i))) [0..<len - ?n])) s" for acc'
        using N(1) Suc.prems(2) True by (intro Suc.IH) (simp_all add: n)
      moreover have "[0..<len] = [0..<?n] @ [?n..<len]" by (rule upt_split) simp
      ultimately show ?thesis unfolding chunk rest by simp
    next
      case last: False
      then have "?n = len" "len - ?n = 0" by simp_all
      moreover obtain k' where "k = Suc k'" using False Suc.prems(2) by (cases k) auto
      ultimately show ?thesis unfolding chunk by simp
    qed
    finally show ?thesis .
  next
    case True
    then show ?thesis by simp
  qed
qed

text \<open>A range with tables whose pages are not all the process's is refused.\<close>

lemma uva2ka_refuses:
  assumes "space_ok s d" "v < UPAGES" "pde (mem s) d (v div 256) \<noteq> 0" "\<not> user_page (mem s) d v"
  shows "uva2ka d (page_va v) s = Ret 0 s"
proof -
  have "pte_addr (mem s) d v \<noteq> 0" by (rule pte_addr_nonzero [OF assms(1-3)])
  moreover have "load32 (mem s) (pte_addr (mem s) d v) = pte (mem s) d v" using assms(3) by (simp add: pte_def)
  ultimately show ?thesis using assms(2-4)
    by (auto simp: uva2ka_def call_app_Ret [OF walk_eq [OF assms(2)]] get32_def reads_def call_app user_page_def)
qed

lemma not_accessible:
  assumes "tabled m d a n" "\<not> accessible m d a n"
  shows "0 < n" "user_page m d (unat a div 4096) \<Longrightarrow>
    4096 - unat a mod 4096 < n \<and> \<not> accessible m d (page_va (Suc (unat a div 4096))) (n - (4096 - unat a mod 4096))"
proof -
  show "0 < n" using assms by (auto simp: accessible_def tabled_def over_def)
  assume "user_page m d (unat a div 4096)"
  then show "4096 - unat a mod 4096 < n \<and> \<not> accessible m d (page_va (Suc (unat a div 4096))) (n - (4096 - unat a mod 4096))"
    using over_step [of _ a n "user_page m d"] assms unfolding accessible_def tabled_def by blast
qed

text \<open>Bytes of a list put at an address.\<close>

definition overlay :: "u32 \<Rightarrow> u8 list \<Rightarrow> (u32 \<Rightarrow> u8 option) \<Rightarrow> u32 \<Rightarrow> u8 option" where
  "overlay a bs f x = (if unat a \<le> unat x \<and> unat x < unat a + length bs then Some (bs ! (unat x - unat a)) else f x)"

lemma overlay_chunk:
  assumes "length bs \<le> 4096 - unat a mod 4096"
  shows "(unat x div 4096 = unat a div 4096 \<and> unat a mod 4096 \<le> unat x mod 4096 \<and> unat x mod 4096 < unat a mod 4096 + length bs)
      \<longleftrightarrow> unat a \<le> unat x \<and> unat x < unat a + length bs"
    "unat a \<le> unat x \<Longrightarrow> unat x < unat a + length bs \<Longrightarrow> unat x mod 4096 - unat a mod 4096 = unat x - unat a"
proof -
  have key: "(x div 4096 = a div 4096 \<and> a mod 4096 \<le> x mod 4096 \<and> x mod 4096 < a mod 4096 + n) \<longleftrightarrow> a \<le> x \<and> x < a + n"
    if n: "n \<le> 4096 - a mod 4096" for a x n :: nat
  proof
    assume x: "x div 4096 = a div 4096 \<and> a mod 4096 \<le> x mod 4096 \<and> x mod 4096 < a mod 4096 + n"
    define q r s where "q = a div 4096" "r = a mod 4096" "s = x mod 4096"
    then have "a = 4096 * q + r" "x = 4096 * q + s" "r \<le> s" "s < r + n" using x page_split_nat(1) [of x] by auto
    then show "a \<le> x \<and> x < a + n" by simp
  next
    assume x: "a \<le> x \<and> x < a + n"
    define i where "i = x - a"
    have i: "x = 4096 * (a div 4096) + (a mod 4096 + i)" "a mod 4096 + i < 4096" "i < n"
      using x n page_split_nat(2) [of a] by (auto simp: i_def)
    then have "x div 4096 = a div 4096" "x mod 4096 = a mod 4096 + i" by (metis div_mult_self4 div_less add_0 zero_neq_numeral add.commute, metis mod_mult_self4 mod_less add.commute)
    then show "x div 4096 = a div 4096 \<and> a mod 4096 \<le> x mod 4096 \<and> x mod 4096 < a mod 4096 + n" using i(3) by simp
  qed
  show e: "(unat x div 4096 = unat a div 4096 \<and> unat a mod 4096 \<le> unat x mod 4096 \<and> unat x mod 4096 < unat a mod 4096 + length bs)
      \<longleftrightarrow> unat a \<le> unat x \<and> unat x < unat a + length bs"
    by (rule key [OF assms])
  assume "unat a \<le> unat x" "unat x < unat a + length bs"
  then have "unat x div 4096 = unat a div 4096" "unat a mod 4096 \<le> unat x mod 4096" using e by simp_all
  then show "unat x mod 4096 - unat a mod 4096 = unat x - unat a"
    using page_split_nat(1) [of "unat a"] page_split_nat(1) [of "unat x"] by (metis diff_cancel2 add.commute)
qed

lemma overlay_overlay:
  assumes "unat b = unat a + n" "n \<le> length bs"
  shows "overlay b (drop n bs) (overlay a (take n bs) f) = overlay a bs f"
proof
  fix x :: u32
  have "unat x < unat a + n \<Longrightarrow> unat a \<le> unat x \<Longrightarrow> unat x - unat a < n" by simp
  then show "overlay b (drop n bs) (overlay a (take n bs) f) x = overlay a bs f x"
    using assms by (auto simp: overlay_def)
qed

text \<open>The state in which the bytes \<open>bs\<close> have been put at \<open>a\<close>.\<close>

definition written :: "'z kmem_scheme \<Rightarrow> u32 \<Rightarrow> u32 \<Rightarrow> u8 list \<Rightarrow> 'z kmem_scheme \<Rightarrow> bool" where
  "written s d a bs t \<longleftrightarrow> space_ok t d \<and> balanced s t \<and> kmem_frame s t \<and> freelist t = freelist s
     \<and> pages (mem t) d = pages (mem s) d \<and> table_pages (mem t) d = table_pages (mem s) d
     \<and> (\<forall>v < UPAGES. pte (mem t) d v = pte (mem s) d v) \<and> (\<forall>k < 1024. pde (mem t) d k = pde (mem s) d k)
     \<and> umem (mem t) d = overlay a bs (umem (mem s) d) \<and> touches s t (pages (mem s) d - table_pages (mem s) d)"

lemma written_nothing: "space_ok s d \<Longrightarrow> written s d a [] s"
  by (auto simp: written_def touches_def overlay_def fun_eq_iff)

lemma written_more:
  assumes "written s d a (take n bs) t" "written t d b (take k (drop n bs)) u" "unat b = unat a + n" "n \<le> length bs"
  shows "written s d a (take (n + k) bs) u"
proof -
  have "overlay b (drop n (take (n + k) bs)) (overlay a (take n (take (n + k) bs)) f) = overlay a (take (n + k) bs) f" for f
    using assms(3,4) by (intro overlay_overlay) simp_all
  then have "umem (mem u) d = overlay a (take (n + k) bs) (umem (mem s) d)"
    using assms(1,2) by (simp add: written_def drop_take)
  moreover have "balanced s u" "kmem_frame s u" "touches s u (pages (mem s) d - table_pages (mem s) d)"
    using assms(1,2) by (auto simp: written_def intro: balanced_trans kmem_frame_trans touches_trans)
  ultimately show ?thesis using assms(1,2) by (simp add: written_def)
qed

text \<open>One page of copyout.\<close>

lemma copyout_page:
  assumes ok: "space_ok s d" and ne: "bs \<noteq> []" and v: "user_page (mem s) d (unat a div 4096)"
  defines "n \<equiv> min (4096 - unat a mod 4096) (length bs)"
  shows "\<exists>t. copyout_loop (Suc k) d a bs s = copyout_loop k d (page_va (Suc (unat a div 4096))) (drop n bs) t
    \<and> written s d a (take n bs) t"
proof -
  let ?v = "unat a div 4096" and ?o = "unat a mod 4096"
  let ?f = "frame (pte (mem s) d (unat a div 4096))"
  let ?t = "s\<lparr>mem := store_bytes (?f + of_nat ?o) (take n bs) (mem s)\<rparr>"
  have vU: "?v < UPAGES" using v by (simp add: user_page_def)
  note S = page_va_split [OF vU] and U = uva2ka_eq [OF ok v]
  have o: "unat (of_nat ?o :: u32) = ?o" by (simp add: unat_of_nat)
  have fit: "?o + length (take n bs) \<le> 4096" using page_split_nat(2) [of "unat a"] by (simp add: n_def)
  note C = store_chunk [OF ok v fit]
  have um: "umem (mem ?t) d = overlay a (take n bs) (umem (mem s) d)"
  proof
    fix x
    have "length (take n bs) \<le> 4096 - ?o" by (simp add: n_def)
    note O = overlay_chunk [OF this, of x]
    have m: "mem ?t = store_bytes (?f + of_nat ?o) (take n bs) (mem s)" by simp
    show "umem (mem ?t) d x = overlay a (take n bs) (umem (mem s) d) x"
      unfolding m C(5) O(1) overlay_def by (intro if_cong refl) (erule conjE, simp only: O(2))
  qed
  have f: "?f \<in> pages (mem s) d - table_pages (mem s) d"
    using frame_page_ok(2) [OF ok v] data_not_table [OF ok] v by (auto simp: user_page_def)
  have touch: "touches s ?t (pages (mem s) d - table_pages (mem s) d)" using C(2) f by (auto simp: touches_def)
  have "\<forall>p \<in> table_pages (mem s) d. same_page (mem ?t) (mem s) p"
    using C(2) f space_aligned [OF ok] table_pages_sub [of "mem s" d] unfolding touches_def by blast
  note F = space_frame [OF ok _ this, simplified]
  have "copyout_loop (Suc k) d a bs s = copyout_loop k d (page_va (Suc ?v)) (drop n bs) ?t"
    using ne U o by (simp add: Let_def S andthen_def modify_def call_app page_va_Suc n_def)
  moreover have "written s d a (take n bs) ?t"
    unfolding written_def um using F touch by simp
  ultimately show ?thesis by blast
qed

lemma written_ranges:
  "written s d a bs t \<Longrightarrow> accessible (mem t) d b k = accessible (mem s) d b k"
  "written s d a bs t \<Longrightarrow> tabled (mem t) d b k = tabled (mem s) d b k"
  by (auto simp: written_def intro!: accessible_same tabled_same)

lemma runs_copyout_loop:
  "space_ok s d \<Longrightarrow> tabled (mem s) d a (length bs) \<Longrightarrow> length bs < k \<Longrightarrow>
    \<exists>r t j. copyout_loop k d a bs s = Ret r t \<and> written s d a (take j bs) t
      \<and> (if accessible (mem s) d a (length bs) then r = 0 \<and> j = length bs else r = - 1 \<and> j < length bs)"
proof (induction k arbitrary: a bs s)
  case 0
  then show ?case by simp
next
  case (Suc k)
  let ?v = "unat a div 4096" and ?o = "unat a mod 4096"
  let ?n = "min (4096 - ?o) (length bs)"
  note tab = Suc.prems(2) [unfolded tabled_def]
  consider (empty) "bs = []" | (refused) "bs \<noteq> []" "\<not> user_page (mem s) d ?v" | (page) "bs \<noteq> []" "user_page (mem s) d ?v" by blast
  then show ?case
  proof cases
    case empty
    then show ?thesis using written_nothing [OF Suc.prems(1), of a] tab by (auto simp: accessible_def over_def)
  next
    case refused
    then have pos: "0 < length bs" by simp
    note F = over_first [OF tab pos]
    have "\<not> accessible (mem s) d a (length bs)" using refused over_first(1) [of _ a "length bs"] unfolding accessible_def by blast
    moreover have "copyout_loop (Suc k) d a bs s = Ret (- 1) s"
      using refused uva2ka_refuses [OF Suc.prems(1) F(2,1)] by (simp add: Let_def page_va_split [OF F(2)] call_app return_def)
    ultimately show ?thesis using written_nothing [OF Suc.prems(1), of a] pos by (intro exI [of _ "- 1"] exI [of _ s] exI [of _ 0]) simp
  next
    case page
    obtain t where t: "copyout_loop (Suc k) d a bs s = copyout_loop k d (page_va (Suc ?v)) (drop ?n bs) t"
        "written s d a (take ?n bs) t"
      using copyout_page [OF Suc.prems(1) page] by blast
    show ?thesis
    proof (cases "4096 - ?o < length bs")
      case last: False
      then have n: "drop ?n bs = []" "take ?n bs = bs" by simp_all
      obtain k' where "k = Suc k'" using page Suc.prems(3) by (cases k) auto
      then have "copyout_loop (Suc k) d a bs s = Ret 0 t" using t(1) n(1) by simp
      moreover have "accessible (mem s) d a (length bs)"
        unfolding accessible_def using page(2) last by (intro over_step [OF tab]) auto
      ultimately show ?thesis using t(2) n(2) by (intro exI [of _ 0] exI [of _ t] exI [of _ "length bs"]) simp
    next
      case True
      note N = over_next [OF tab True, folded tabled_def]
      have n: "?n = 4096 - ?o" using True by simp
      have acc: "accessible (mem s) d a (length bs) \<longleftrightarrow> accessible (mem t) d (page_va (Suc ?v)) (length (drop ?n bs))"
        unfolding written_ranges [OF t(2)] using over_step [where P = "user_page (mem s) d", OF tab page(2)] over_next(1) [OF _ True] n
        by (auto simp: accessible_def)
      have "space_ok t d" using t(2) by (simp add: written_def)
      moreover have "tabled (mem t) d (page_va (Suc ?v)) (length (drop ?n bs))"
        unfolding written_ranges [OF t(2)] using N(1) n by simp
      moreover have "length (drop ?n bs) < k" using Suc.prems(3) True page by simp
      ultimately obtain r u j where u: "copyout_loop k d (page_va (Suc ?v)) (drop ?n bs) t = Ret r u"
          "written t d (page_va (Suc ?v)) (take j (drop ?n bs)) u"
          "if accessible (mem s) d a (length bs) then r = 0 \<and> j = length (drop ?n bs) else r = - 1 \<and> j < length (drop ?n bs)"
        using Suc.IH [of t "page_va (Suc ?v)" "drop ?n bs"] unfolding acc by blast
      have "written s d a (take (?n + j) bs) u" using N(2) n True by (intro written_more [OF t(2) u(2)]) simp_all
      then show ?thesis using t(1) u(1,3) True
        by (intro exI [of _ r] exI [of _ u] exI [of _ "?n + j"]) (auto split: if_splits)
    qed
  qed
qed

lemma copyin_loop_refuses:
  assumes ok: "space_ok s d"
  shows "tabled (mem s) d a len \<Longrightarrow> \<not> accessible (mem s) d a len \<Longrightarrow> len < k \<Longrightarrow> copyin_loop k d a len acc s = Ret None s"
proof (induction k arbitrary: a len acc)
  case 0
  then show ?case by simp
next
  case (Suc k)
  let ?v = "unat a div 4096" and ?o = "unat a mod 4096"
  note A = not_accessible [OF Suc.prems(1,2)]
  note F = over_first [OF Suc.prems(1) [unfolded tabled_def] A(1)]
  note S = page_va_split [OF F(2)]
  show ?case
  proof (cases "user_page (mem s) d ?v")
    case False
    then show ?thesis using A(1) uva2ka_refuses [OF ok F(2,1)] by (simp add: Let_def S call_app return_def)
  next
    case True
    have n: "min (4096 - ?o) len = 4096 - ?o" and o: "unat (of_nat ?o :: u32) = ?o" using A(2) [OF True] by (simp_all add: unat_of_nat)
    note N = over_next(1) [OF Suc.prems(1) [unfolded tabled_def] conjunct1 [OF A(2) [OF True]], folded tabled_def]
    have "copyin_loop k d (page_va (Suc ?v)) (len - (4096 - ?o)) acc' s = Ret None s" for acc'
      using A(2) [OF True] Suc.prems(3) by (intro Suc.IH [OF N]) auto
    then show ?thesis using A(1) uva2ka_eq [OF ok True] n o by (simp add: Let_def S reads_def page_va_Suc call_app)
  qed
qed

text \<open>What a program sees depends on its own pages only.\<close>

lemma umem_same:
  assumes ok: "space_ok s d" and same: "\<And>p. p \<in> pages (mem s) d \<Longrightarrow> same_page m (mem s) p"
  shows "umem m d = umem (mem s) d"
proof
  fix a :: u32
  have "\<forall>p \<in> table_pages (mem s) d. same_page (mem (s\<lparr>mem := m\<rparr>)) (mem s) p" using same table_pages_sub [of "mem s" d] by auto
  note F = space_frame(4) [OF ok _ this, simplified]
  let ?v = "unat a div 4096"
  have u: "user_page m d ?v = user_page (mem s) d ?v" using F by (auto simp: user_page_def)
  show "umem m d a = umem (mem s) d a"
  proof (cases "user_page (mem s) d ?v")
    case True
    have al: "page_aligned (frame (pte (mem s) d ?v))" using frame_page_ok(1) [OF ok True] by (rule page_ok_aligned)
    have "m (frame (pte (mem s) d ?v) + of_nat (unat a mod 4096)) = mem s (frame (pte (mem s) d ?v) + of_nat (unat a mod 4096))"
      using same [OF frame_page_ok(2) [OF ok True]] al by (simp add: same_page_def unat_of_nat)
    then show ?thesis using True u F [of ?v] by (simp add: umem_def user_page_def)
  qed (use u in \<open>simp add: umem_def\<close>)
qed

lemma user_bits: "e AND PTX_AP U_AP = PTE_FLAGS e AND PTX_AP U_AP"
proof -
  have "PTX_AP U_AP = 0xFFF AND PTX_AP U_AP" by (simp add: vm_consts)
  then show ?thesis unfolding PTE_FLAGS_def by (metis and.assoc)
qed

text \<open>A copy shows what the original shows.\<close>

lemma umem_copy:
  assumes "\<And>v. v < UPAGES \<Longrightarrow> pte m c v \<noteq> 0 \<longleftrightarrow> v < n" and "n \<le> UPAGES" and "\<And>v. v < n \<Longrightarrow> pte m' d v \<noteq> 0"
    and "\<And>v. v < n \<Longrightarrow> PTE_FLAGS (pte m c v) = PTE_FLAGS (pte m' d v) \<and> same_bytes m (frame (pte m c v)) m' (frame (pte m' d v))"
  shows "umem m c a = (if unat a div 4096 < n then umem m' d a else None)"
proof (cases "unat a div 4096 < n")
  case True
  let ?v = "unat a div 4096"
  have "user_page m c ?v = user_page m' d ?v"
    using assms(1) [of ?v] assms(2,3) assms(4) [OF True] True by (simp add: user_page_def user_bits [of "pte _ _ _"])
  moreover have "m (frame (pte m c ?v) + of_nat (unat a mod 4096)) = m' (frame (pte m' d ?v) + of_nat (unat a mod 4096))"
    using assms(4) [OF True] by (simp add: same_bytes_def unat_of_nat)
  ultimately show ?thesis using True by (simp add: umem_def)
next
  case False
  then show ?thesis using assms(1) [of "unat a div 4096"] by (auto simp: umem_def user_page_def)
qed

section \<open>A concrete space\<close>

text \<open>A pool of three free pages, and a space with one data page, read and written by its program.\<close>

definition vm_pool :: kmem where
  "vm_pool = kmem_one\<lparr>freelist := 0x80103000,
     mem := store32 (store32 (\<lambda>_. 0) 0x80103000 0x80104000) 0x80104000 0x80105000\<rparr>"

definition vm_dir :: kmem where
  "vm_dir = vm_pool\<lparr>mem := memset (mem vm_pool) 0x80100000 0 PGSIZE\<rparr>"

definition vm_table :: kmem where
  "vm_table = vm_dir\<lparr>mem := store32 (memset (mem vm_dir) 0x80101000 0 PGSIZE) (0x80100000 + 4 * of_nat 0) (v2p 0x80101000 OR COARSE)\<rparr>"

definition vm_start :: kmem where
  "vm_start = vm_table\<lparr>mem := store32 (mem vm_table) (pte_addr (mem vm_table) 0x80100000 0) (v2p 0x80102000 OR UVMPTXATTR)\<rparr>"

lemma vm_free: "kmem_inv vm_pool [0x80103000, 0x80104000, 0x80105000]"
proof -
  have "load32 (store32 (store32 (\<lambda>_. 0) 0x80103000 0x80104000) 0x80104000 0x80105000) 0x80103000 = 0x80104000"
       "load32 (store32 (store32 (\<lambda>_. 0) 0x80103000 0x80104000) 0x80104000 0x80105000) 0x80105000 = 0"
    by (simp_all add: load32_def store32_def) (simp_all add: of_le32_def)
  then show ?thesis by (simp add: vm_pool_def kmem_one_def kmem_inv_def page_ok_def kfree_bad_def layout_defs v2p_def)
qed

lemma vm_page_ok:
  "page_ok vm_dir 0x80100000" "page_ok vm_dir 0x80101000" "page_ok vm_table 0x80102000" "KERNBASE < kend vm_dir"
  by (simp_all add: vm_table_def vm_dir_def vm_pool_def kmem_one_def page_ok_def kfree_bad_def layout_defs v2p_def)

lemma vm_start_facts:
  "lock_free KmemLock vm_start" "kmem_inv vm_start [0x80103000, 0x80104000, 0x80105000]" "space_ok vm_start 0x80100000"
  "pages (mem vm_start) 0x80100000 = {0x80102000, 0x80101000, 0x80100000}" "user_page (mem vm_start) 0x80100000 0"
  "\<not> user_page (mem vm_start) 0x80100000 1"
proof -
  let ?ks = "[0x80103000, 0x80104000, 0x80105000] :: u32 list"
  show "lock_free KmemLock vm_start"
    using kmem_one_facts(1) [of KmemLock] by (simp add: vm_start_def vm_table_def vm_dir_def vm_pool_def lock_free_def cli_ok_def holding_def)
  have md: "mem vm_dir = memset (mem vm_pool) 0x80100000 0 PGSIZE" by (simp add: vm_dir_def)
  note D = empty_space [OF vm_page_ok(1,4) md]
  have 0: "(0 :: nat) < 1024" "(0 :: nat) < UPAGES" "(0 :: nat) div 256 = 0" by simp_all
  have q: "0x80101000 \<notin> pages (mem vm_dir) 0x80100000" unfolding D(2) by simp
  note T = add_table [OF D(1) 0(1) D(3) [OF 0(1)] q vm_page_ok(2)]
  have mt: "mem vm_table = store32 (memset (mem vm_dir) 0x80101000 0 PGSIZE) (0x80100000 + 4 * of_nat 0) (v2p 0x80101000 OR COARSE)"
    by (simp add: vm_table_def)
  have T': "space_ok vm_table 0x80100000" "pages (mem vm_table) 0x80100000 = {0x80101000, 0x80100000}"
      "pde (mem vm_table) 0x80100000 (0 div 256) \<noteq> 0" "pte (mem vm_table) 0x80100000 0 = 0"
      "\<And>p. page_aligned p \<Longrightarrow> p \<noteq> 0x80100000 \<Longrightarrow> p \<noteq> 0x80101000 \<Longrightarrow> same_page (mem vm_table) (mem vm_dir) p"
    using T(1,2,6) T(4) [OF 0(1)] T(5) [OF 0(2)] D(2) D(4) [OF 0(2)] v2p_nonzero(2) [OF vm_page_ok(2,4)]
    unfolding mt [symmetric] by (simp_all add: vm_table_def)
  have p: "0x80102000 \<notin> pages (mem vm_table) 0x80100000" unfolding T'(2) by simp
  have fl: "PTE_ADDR UVMPTXATTR = 0" by (simp add: PTE_ADDR_def vm_consts)
  note P = add_page [OF T'(1) 0(2) T'(3,4) p vm_page_ok(3) fl]
  note E = set_pte [OF T'(1) 0(2) T'(3), of _ "v2p 0x80102000 OR UVMPTXATTR"]
  have ms: "mem vm_start = store32 (mem vm_table) (pte_addr (mem vm_table) 0x80100000 0) (v2p 0x80102000 OR UVMPTXATTR)"
    by (simp add: vm_start_def)
  show "space_ok vm_start 0x80100000" "pages (mem vm_start) 0x80100000 = {0x80102000, 0x80101000, 0x80100000}"
    using P(1,2) T'(2) unfolding ms [symmetric] by (simp_all add: vm_start_def)
  have pte0: "pte (mem vm_start) 0x80100000 0 = v2p 0x80102000 OR UVMPTXATTR" using E(2) [OF 0(2)] unfolding ms [symmetric] by simp
  have 1: "(1 :: nat) < UPAGES" by simp
  have "pte (mem vm_table) 0x80100000 1 = 0" using T(5) [OF 1] D(4) [OF 1] unfolding mt [symmetric] by simp
  then have "pte (mem vm_start) 0x80100000 1 = 0" using E(2) [OF 1] unfolding ms [symmetric] by simp
  then show "\<not> user_page (mem vm_start) 0x80100000 1" by (simp add: user_page_def)
  show "user_page (mem vm_start) 0x80100000 0" using pte0 by (simp add: user_page_def) (simp add: v2p_def vm_consts KERNBASE_def)
  have tab: "frame (pde (mem vm_table) 0x80100000 (0 div 256)) = 0x80101000"
    using T(4) [OF 0(1)] page_ok_aligned [OF vm_page_ok(2)] unfolding mt [symmetric] by (simp add: frame_entry)
  have "same_page (mem vm_start) (mem vm_pool) r" if "r \<in> set ?ks" for r
  proof -
    have r: "page_aligned r" "r \<noteq> 0x80100000" "r \<noteq> 0x80101000" using that by (auto simp: page_aligned_def)
    have "same_page (mem vm_start) (mem vm_table) r" using E(3) [OF r(1)] r(3) tab unfolding ms [symmetric] by simp
    moreover have "same_page (mem vm_dir) (mem vm_pool) r"
      unfolding md using r same_page_memset page_ok_aligned [OF vm_page_ok(1)] by metis
    ultimately show ?thesis using T'(5) [OF r] by (blast intro: same_page_trans)
  qed
  then have "kmem_inv (vm_pool\<lparr>mem := mem vm_start\<rparr>) ?ks" by (rule kmem_inv_mem [OF vm_free])
  then show "kmem_inv vm_start ?ks" by (simp add: vm_start_def vm_table_def vm_dir_def)
qed

lemma runs_copyuvm:
  assumes lf: "lock_free KmemLock s" and inv: "kmem_inv s ks" and ok: "space_ok s d" and sep: "pages (mem s) d \<inter> set ks = {}"
    and sz: "sz \<le> USERBOUND" and present: "\<forall>v < size_pages sz. pte (mem s) d v \<noteq> 0"
  shows "runs (copyuvm d sz) s (\<lambda>c t. balanced s t \<and> kmem_frame s t \<and> (\<forall>p \<in> pages (mem s) d. same_page (mem t) (mem s) p) \<and>
    (if copy_needs (size_pages sz) \<le> length ks then
       space_ok t c \<and> (\<exists>ks'. kmem_inv t ks' \<and> length ks' + copy_needs (size_pages sz) = length ks
            \<and> pages (mem t) c \<inter> set ks' = {} \<and> pages (mem t) c \<union> set ks' = set ks)
       \<and> (\<forall>v < UPAGES. pte (mem t) c v \<noteq> 0 \<longleftrightarrow> v < size_pages sz)
       \<and> (\<forall>v < size_pages sz. PTE_FLAGS (pte (mem t) c v) = PTE_FLAGS (pte (mem s) d v)
            \<and> same_bytes (mem t) (frame (pte (mem t) c v)) (mem s) (frame (pte (mem s) d v)))
       \<and> (\<forall>a. umem (mem t) c a = (if unat a div 4096 < size_pages sz then umem (mem s) d a else None))
     else c = 0 \<and> (\<exists>ks'. kmem_inv t ks' \<and> set ks' \<subseteq> set ks
       \<and> length ks' = length ks - (if copy_leaks (size_pages sz) (length ks) then 1 else 0))))" (is "runs _ s ?Q")
proof (cases ks)
  case Nil
  have "runs kalloc s (\<lambda>a t. a = 0 \<and> ?Q 0 t)"
    by (rule runs_mono [OF runs_kalloc [OF lf inv]]) (auto simp: Nil copy_needs_def copy_leaks_def)
  then show ?thesis by (intro copyuvm_via) (erule runs_mono, simp only: simp_thms if_True, blast)
next
  case (Cons c qs)
  have c: "page_ok s c" "c \<noteq> 0" "distinct ks" "c \<notin> set qs" using inv Cons by (auto simp: kmem_inv_def page_ok_def)
  have kb: "KERNBASE < kend s" using ok by (simp add: space_ok_def)
  have result: "?Q r t" if r: "copy_done s d ks c (size_pages sz) r t" for r t
  proof -
    have f: "balanced s t" "kmem_frame s t" "touches s t (set ks)"
      using r by (auto simp: copy_done_def copying_def split: if_splits)
    then have "\<forall>p \<in> pages (mem s) d. same_page (mem t) (mem s) p" using sep space_aligned [OF ok] by (auto simp: touches_def)
    moreover have "\<forall>a. umem (mem t) c a = (if unat a div 4096 < size_pages sz then umem (mem s) d a else None)"
      if "copying s d ks c (size_pages sz) ks' t" for ks'
      using that size_pages(1) [OF sz] present by (intro allI umem_copy) (simp_all add: copying_def)
    ultimately show ?thesis using r f(1,2) unfolding copy_done_def by (auto simp: copying_def)
  qed
  have loop: "runs (copyuvm_loop (2 ^ 20 + 1) d c (page_va 0) sz) (t\<lparr>mem := memset (mem t) c 0 PGSIZE\<rparr>) ?Q"
    if t: "balanced s t" "kmem_frame s t" "mem t = mem s" "kmem_inv t qs" for t
  proof -
    let ?t = "t\<lparr>mem := memset (mem s) c 0 PGSIZE\<rparr>"
    have ct: "page_ok ?t c" "KERNBASE < kend ?t" using c(1) kb t(2) by (simp_all add: page_ok_def kfree_bad_def kmem_frame_iff)
    note E = empty_space [OF ct, of "mem s", simplified]
    have touch: "touches s ?t {c}"
      using same_page_memset [OF page_ok_aligned [OF c(1)]] by (auto simp: touches_def)
    have "kmem_inv ?t qs" using touch c(4) t(3) by (intro kmem_inv_touches [OF t(4), of _ "{c}"]) (auto simp: touches_def)
    moreover have "touches s ?t (set ks)" using touch Cons by (auto simp: touches_def)
    moreover have "balanced s ?t" "kmem_frame s ?t" using t(1,2) by (auto intro: balanced_trans kmem_frame_trans)
    ultimately have "copying s d ks c 0 qs ?t" using E c(4) Cons by (simp add: copying_def copy_needs_def)
    then have "runs (copyuvm_loop (2 ^ 20 + 1) d c (page_va 0) sz) ?t (copy_done s d ks c (size_pages sz))"
      using size_pages(1) [OF sz] by (intro runs_copy_loop [OF lf ok sep c(3) sz present]) simp_all
    then show ?thesis unfolding t(3) by (rule runs_mono) (rule result)
  qed
  show ?thesis
  proof (rule copyuvm_via, rule runs_mono [OF runs_kalloc [OF lf inv]], elim conjE)
    fix a t assume t: "balanced s t" "kmem_frame s t" "mem t = mem s" "kmem_inv t (tl ks)" and "a = (if ks = [] then 0 else hd ks)"
    then have "a = c" "kmem_inv t qs" using Cons by simp_all
    then show "if a = 0 then ?Q 0 t
      else runs (copyuvm_loop (2 ^ 20 + 1) d a (page_va 0) sz) (t\<lparr>mem := memset (mem t) a 0 PGSIZE\<rparr>) ?Q"
      unfolding \<open>a = c\<close> if_not_P [OF c(2)] using loop [OF t(1-3)] by blast
  qed
qed

section \<open>Properties\<close>

text \<open>C17: copyuvm, on which fork rests. For a space whose pages below the size are present, it needs one page for
  the directory, one for each page and one table for 256 of them. If the pool has them, the new space maps the pages
  below the size and no others, with the same protection and the same bytes, in pages of the pool that are its own;
  the pages of the parent are as they were. If the pool runs dry, it returns null and everything it took is back on
  the free list, except the page whose table could not be allocated, which is lost.\<close>

theorem copyuvm_copies:
  assumes lf: "lock_free KmemLock s" and inv: "kmem_inv s ks" and ok: "space_ok s d" and sep: "pages (mem s) d \<inter> set ks = {}"
    and sz: "sz \<le> USERBOUND" and present: "\<forall>v < size_pages sz. pte (mem s) d v \<noteq> 0"
  shows "runs (copyuvm d sz) s (\<lambda>c t. (\<forall>p \<in> pages (mem s) d. same_page (mem t) (mem s) p) \<and>
    (if copy_needs (size_pages sz) \<le> length ks then
       space_ok t c \<and> (\<exists>ks'. kmem_inv t ks' \<and> length ks' + copy_needs (size_pages sz) = length ks
            \<and> pages (mem t) c \<inter> set ks' = {} \<and> pages (mem t) c \<union> set ks' = set ks)
       \<and> (\<forall>v < UPAGES. pte (mem t) c v \<noteq> 0 \<longleftrightarrow> v < size_pages sz)
       \<and> (\<forall>v < size_pages sz. PTE_FLAGS (pte (mem t) c v) = PTE_FLAGS (pte (mem s) d v)
            \<and> same_bytes (mem t) (frame (pte (mem t) c v)) (mem s) (frame (pte (mem s) d v)))
       \<and> (\<forall>a. umem (mem t) c a = (if unat a div 4096 < size_pages sz then umem (mem s) d a else None))
     else c = 0 \<and> (\<exists>ks'. kmem_inv t ks' \<and> set ks' \<subseteq> set ks
       \<and> length ks' = length ks - (if copy_leaks (size_pages sz) (length ks) then 1 else 0))))"
  using runs_copyuvm [OF assms] by (rule runs_mono) blast

text \<open>Three free pages are what the copy of one page needs.\<close>

theorem copyuvm_copies_witness:
  "runs (copyuvm 0x80100000 4096) vm_start (\<lambda>c t. space_ok t c \<and> pages (mem t) c = {0x80103000, 0x80104000, 0x80105000}
     \<and> umem (mem t) c 7 = umem (mem vm_start) 0x80100000 7 \<and> umem (mem t) c 7 \<noteq> None \<and> umem (mem t) c 4096 = None)"
proof -
  let ?ks = "[0x80103000, 0x80104000, 0x80105000] :: u32 list"
  have sz: "(4096 :: u32) \<le> USERBOUND" "size_pages 4096 = 1" "copy_needs 1 = 3"
    by (simp_all add: USERBOUND_def size_pages_def copy_needs_def)
  have "pages (mem vm_start) 0x80100000 \<inter> set ?ks = {}" unfolding vm_start_facts(4) by simp
  moreover have "\<forall>v < size_pages 4096. pte (mem vm_start) 0x80100000 v \<noteq> 0"
    using vm_start_facts(5) by (simp add: sz user_page_def)
  moreover have "umem (mem vm_start) 0x80100000 7 \<noteq> None" using vm_start_facts(5) by (simp add: umem_def)
  ultimately show ?thesis
    using copyuvm_copies [OF vm_start_facts(1-3), of 4096] sz vm_start_facts(4)
    by (auto elim!: runs_mono)
qed

text \<open>C18: copyout and copyin, which exec, wait and the system calls use to reach into a process, on a range for which
  the process has page tables. If it may use every page of the range, copyout returns 0 and puts exactly those bytes
  at exactly those addresses of the process, across page boundaries, and copyin then reads the bytes back. If it may not
  use one of the pages, both refuse: copyin has no result and copyout returns -1, with at most a proper prefix of its
  bytes written. Neither changes another process or the free list.\<close>

theorem copyout_copyin:
  assumes ok: "space_ok s d" and inv: "kmem_inv s ks" and sep: "pages (mem s) d \<inter> set ks = {}"
    and tab: "tabled (mem s) d a (length bs)"
  shows "runs (copyout d a bs) s (\<lambda>r t. space_ok t d \<and> kmem_inv t ks
    \<and> (\<forall>d'. space_ok s d' \<longrightarrow> pages (mem s) d' \<inter> pages (mem s) d = {} \<longrightarrow> umem (mem t) d' = umem (mem s) d')
    \<and> (if accessible (mem s) d a (length bs)
       then r = 0 \<and> umem (mem t) d = overlay a bs (umem (mem s) d) \<and> copyin d a (length bs) t = Ret (Some bs) t
       else r = - 1 \<and> (\<exists>j < length bs. umem (mem t) d = overlay a (take j bs) (umem (mem s) d))
         \<and> copyin d a (length bs) t = Ret None t))"
proof -
  obtain r t j where run: "copyout d a bs s = Ret r t" and w: "written s d a (take j bs) t"
    and r: "if accessible (mem s) d a (length bs) then r = 0 \<and> j = length bs else r = - 1 \<and> j < length bs"
    using runs_copyout_loop [OF ok tab, of "Suc (length bs)"] unfolding copyout_def by blast
  have t: "space_ok t d" "kmem_frame s t" "freelist t = freelist s" "umem (mem t) d = overlay a (take j bs) (umem (mem s) d)"
    "touches s t (pages (mem s) d - table_pages (mem s) d)"
    using w by (simp_all add: written_def)
  have "kmem_inv t ks" using sep by (intro kmem_inv_touches [OF inv t(5) _ t(2,3)]) auto
  moreover have "umem (mem t) d' = umem (mem s) d'" if d': "space_ok s d'" "pages (mem s) d' \<inter> pages (mem s) d = {}" for d'
    using t(5) d'(2) space_aligned [OF d'(1)] by (intro umem_same [OF d'(1)]) (auto simp: touches_def)
  moreover have "copyin d a (length bs) t = Ret (Some bs) t" if acc: "accessible (mem s) d a (length bs)"
  proof -
    have j: "take j bs = bs" using r acc by simp
    have "map (\<lambda>i. the (umem (mem t) d (a + of_nat i))) [0..<length bs] = bs"
    proof (rule nth_equalityI)
      fix i assume "i < length (map (\<lambda>i. the (umem (mem t) d (a + of_nat i))) [0..<length bs])"
      then have i: "i < length bs" by simp
      then have "unat a + i < 2 ^ 32" using acc by (simp add: accessible_def over_def)
      then have "unat (a + of_nat i) = unat a + i" by (simp add: unat_word_ariths unat_of_nat)
      then show "map (\<lambda>i. the (umem (mem t) d (a + of_nat i))) [0..<length bs] ! i = bs ! i"
        using i t(4) j by (simp add: overlay_def)
    qed simp
    then show ?thesis
      using copyin_loop_reads [OF t(1), of a "length bs" "Suc (length bs)" "[]"] acc unfolding written_ranges [OF w]
      by (simp add: copyin_def)
  qed
  moreover have "copyin d a (length bs) t = Ret None t" if "\<not> accessible (mem s) d a (length bs)"
    using copyin_loop_refuses [OF t(1), of a "length bs" "Suc (length bs)"] tab that unfolding written_ranges [OF w]
    by (simp add: copyin_def)
  ultimately show ?thesis using run t(1,4) r unfolding runs_def by auto
qed

theorem copyout_copyin_witness:
  "runs (copyout 0x80100000 4093 [1, 2, 3]) vm_start (\<lambda>r t. r = 0 \<and> umem (mem t) 0x80100000 4094 = Some 2
     \<and> copyin 0x80100000 4093 3 t = Ret (Some [1, 2, 3]) t)
   \<and> runs (copyout 0x80100000 4093 [1, 2, 3, 4]) vm_start (\<lambda>r t. r = - 1)"
proof -
  let ?ks = "[0x80103000, 0x80104000, 0x80105000] :: u32 list"
  let ?m = "mem vm_start" and ?d = "0x80100000 :: u32"
  have sep: "pages ?m ?d \<inter> set ?ks = {}" unfolding vm_start_facts(4) by simp
  note u = vm_start_facts(5,6)
  then have p: "pde ?m ?d 0 \<noteq> 0" by (auto simp: user_page_def pte_def)
  have d: "(4093 + i) div 4096 = (if i < 3 then 0 else 1)" if "i < 4" for i :: nat using that by auto
  have tab: "tabled ?m ?d 4093 (length [1, 2, 3 :: u8])" "tabled ?m ?d 4093 (length [1, 2, 3, 4 :: u8])"
    using p d by (simp_all add: tabled_def over_def)
  have acc: "accessible ?m ?d 4093 (length [1, 2, 3 :: u8])" "\<not> accessible ?m ?d 4093 (length [1, 2, 3, 4 :: u8])"
    using u d by (auto simp: accessible_def over_def intro!: exI [of _ "3 :: nat"])
  note C = copyout_copyin [OF vm_start_facts(3,2) sep]
  have "runs (copyout ?d 4093 [1, 2, 3]) vm_start (\<lambda>r t. r = 0 \<and> umem (mem t) ?d 4094 = Some 2
     \<and> copyin ?d 4093 3 t = Ret (Some [1, 2, 3]) t)"
    by (rule runs_mono [OF C [OF tab(1)]]) (use acc(1) in \<open>auto simp: overlay_def numeral_3_eq_3\<close>)
  moreover have "runs (copyout ?d 4093 [1, 2, 3, 4]) vm_start (\<lambda>r t. r = - 1)"
    by (rule runs_mono [OF C [OF tab(2)]]) (use acc(2) in auto)
  ultimately show ?thesis ..
qed

end
