(* ===== verification/Boot.thy ===== *)
theory Boot
  imports Space
begin

text \<open>
  The page table of the boot (mmu.c): \<open>mmuinit0\<close> fills it in physical memory before the processor is
  told to use it, and \<open>mmuinit1\<close> takes the identity mapping out again. The two assembly
  sequences that switch the unit off and on, the serial line set up before and the flushing of caches are not
  part of the memory modelled here.
\<close>

section \<open>The tables\<close>

definition K_PDX_BASE :: u32 where "K_PDX_BASE = 0x4000"
definition K_PTX_BASE :: u32 where "K_PTX_BASE = 0x3000"
definition PA_START :: u32 where "PA_START = 0"
definition RAMSIZE :: u32 where "RAMSIZE = 0xC000000"
definition GPUMEMBASE :: u32 where "GPUMEMBASE = 0x40000000"
definition GPUMEMSIZE :: u32 where "GPUMEMSIZE = 1024 * MBYTE"

lemmas boot_defs = K_PDX_BASE_def K_PTX_BASE_def PA_START_def RAMSIZE_def GPUMEMBASE_def GPUMEMSIZE_def

definition put_pde :: "u32 \<Rightarrow> u32 \<Rightarrow> mem \<Rightarrow> mem" where
  "put_pde va e m = store32 m (K_PDX_BASE + 4 * PDX va) e"

definition put_pte :: "u32 \<Rightarrow> u32 \<Rightarrow> mem \<Rightarrow> mem" where
  "put_pte va e m = store32 m (K_PTX_BASE + 4 * PTX va) e"

text \<open>The loops, with one unit of fuel more than they have iterations.\<close>

fun zero_words :: "nat \<Rightarrow> u32 \<Rightarrow> u32 \<Rightarrow> mem \<Rightarrow> mem" where
  "zero_words 0 p lim m = m"
| "zero_words (Suc n) p lim m = (if p < lim then zero_words n (p + 4) lim (store32 m p 0) else m)"

fun boot_sections :: "nat \<Rightarrow> u32 \<Rightarrow> u32 \<Rightarrow> u32 \<Rightarrow> u32 \<Rightarrow> mem \<Rightarrow> mem" where
  "boot_sections 0 va pa lim attr m = m"
| "boot_sections (Suc n) va pa lim attr m =
     (if pa < lim then boot_sections n (va + MBYTE) (pa + MBYTE) lim attr (put_pde va (pa OR attr) m) else m)"

definition ram_attr :: u32 where "ram_attr = PDX_AP K_RW OR SECTION OR CACHED OR BUFFERED"
definition io_attr :: u32 where "io_attr = PDX_AP K_RW OR SECTION"

definition mmuinit0 :: "mem \<Rightarrow> mem" where
  "mmuinit0 m =
     (let m = zero_words 5121 0x3000 0x8000 m;
          m = boot_sections 4097 KERNBASE PA_START (PA_START + RAMSIZE) ram_attr m;
          m = put_pde PA_START (PA_START OR ram_attr) m;
          m = boot_sections 4097 DEVSPACE PHYSIO (PHYSIO + IOSIZE) io_attr m;
          m = boot_sections 4097 GPUMEMBASE GPUMEMBASE (GPUMEMBASE + GPUMEMSIZE) io_attr m;
          m = put_pde HVECTORS (K_PTX_BASE OR COARSE) m
      in put_pte HVECTORS (PA_START OR PTX_AP K_RW OR SMALL) m)"

definition mmuinit1 :: "mem \<Rightarrow> mem" where
  "mmuinit1 m = put_pde PA_START 0 m"

section \<open>The table walk of the processor\<close>

text \<open>The physical address of a virtual one and whether the access is cached: an entry of the first level is a
  section or points to a table of small pages.\<close>

definition walk :: "mem \<Rightarrow> u32 \<Rightarrow> (u32 \<times> bool) option" where
  "walk m va =
     (let e = load32 m (K_PDX_BASE + 4 * PDX va) in
      if e AND 3 = 2 then Some ((e AND 0xFFF00000) + (va AND 0xFFFFF), e AND 8 \<noteq> 0)
      else if e AND 3 = 1 then
        let t = load32 m ((e AND 0xFFFFFC00) + 4 * PTX va) in
        if t AND 2 = 2 then Some ((t AND 0xFFFFF000) + (va AND 0xFFF), t AND 8 \<noteq> 0) else None
      else None)"

text \<open>What the kernel expects: the memory at KERNBASE, cached; the GPU's memory where it is and the
  devices at DEVSPACE, not cached; the first page at HVECTORS; and the first megabyte at its own address while
  \<open>ident\<close>.\<close>

definition boot_map :: "bool \<Rightarrow> u32 \<Rightarrow> (u32 \<times> bool) option" where
  "boot_map ident va =
     (if KERNBASE \<le> va \<and> va < KERNBASE + RAMSIZE then Some (va - KERNBASE, True)
      else if GPUMEMBASE \<le> va \<and> va < KERNBASE then Some (va, False)
      else if DEVSPACE \<le> va \<and> va < DEVSPACE + IOSIZE then Some (va - DEVSPACE + PHYSIO, False)
      else if HVECTORS \<le> va \<and> va < HVECTORS + PGSIZE then Some (va - HVECTORS, False)
      else if ident \<and> va < MBYTE then Some (va, True)
      else None)"

section \<open>Words of the tables\<close>

definition word_at :: "mem \<Rightarrow> nat \<Rightarrow> u32" where
  "word_at m w = load32 m (0x3000 + 4 * of_nat w)"

lemma word_addr_apart:
  assumes "v < 5120" "w < 5120" "v \<noteq> w" "i < 4" "j < 4"
  shows "(0x3000 :: u32) + 4 * of_nat v + of_nat i \<noteq> 0x3000 + 4 * of_nat w + of_nat j"
proof
  assume "(0x3000 :: u32) + 4 * of_nat v + of_nat i = 0x3000 + 4 * of_nat w + of_nat j"
  then have "(of_nat (0x3000 + 4 * v + i) :: u32) = of_nat (0x3000 + 4 * w + j)" by simp
  then have "0x3000 + 4 * v + i = 0x3000 + 4 * w + j"
    using assms by (subst (asm) word_of_nat_eq_iff) (simp add: take_bit_nat_eq_self)
  with assms show False by arith
qed

lemma word_at_store:
  assumes "v < 5120" "w < 5120"
  shows "word_at (store32 m (0x3000 + 4 * of_nat v) x) w = (if w = v then x else word_at m w)"
proof (cases "w = v")
  case False
  note n = word_addr_apart [OF assms False [symmetric]]
  show ?thesis
    using False n [of 0 0] n [of 0 1] n [of 0 2] n [of 0 3] n [of 1 0] n [of 1 1] n [of 1 2] n [of 1 3]
      n [of 2 0] n [of 2 1] n [of 2 2] n [of 2 3] n [of 3 0] n [of 3 1] n [of 3 2] n [of 3 3]
    by (simp add: word_at_def load32_def store32_def)
qed (simp add: word_at_def load32_store32)

lemma pdx_bound: "unat (va :: u32) div 2 ^ 20 < 4096"
  using unat_lt32 [of va] by (simp add: less_mult_imp_div_less)

text \<open>The first level is the words from 1024 on, the second the 256 before its 768 unused ones.\<close>

definition l1_word :: "u32 \<Rightarrow> nat" where "l1_word va = 1024 + unat va div 2 ^ 20"
definition l2_word :: "u32 \<Rightarrow> nat" where "l2_word va = unat va div 2 ^ 12 mod 256"

lemma l1_addr: "K_PDX_BASE + 4 * PDX va = 0x3000 + 4 * of_nat (l1_word va)"
  by (simp add: PDX_nat K_PDX_BASE_def l1_word_def algebra_simps)

lemma l2_addr: "K_PTX_BASE + 4 * PTX va = 0x3000 + 4 * of_nat (l2_word va)"
  by (simp add: PTX_nat K_PTX_BASE_def l2_word_def)

lemma l_words: "l1_word va < 5120" "1024 \<le> l1_word va" "l2_word va < 1024"
  using pdx_bound [of va] by (simp_all add: l1_word_def l2_word_def)

lemma word_at_put:
  "w < 5120 \<Longrightarrow> word_at (put_pde va e m) w = (if w = l1_word va then e else word_at m w)"
  "w < 5120 \<Longrightarrow> word_at (put_pte va e m) w = (if w = l2_word va then e else word_at m w)"
  using l_words [of va] by (simp_all add: put_pde_def put_pte_def l1_addr l2_addr word_at_store)

lemma word_at_zero_words:
  "v + k = 5120 \<Longrightarrow> k < n \<Longrightarrow> w < 5120 \<Longrightarrow>
   word_at (zero_words n (0x3000 + 4 * of_nat v) 0x8000 m) w = (if v \<le> w then 0 else word_at m w)"
proof (induction k arbitrary: v n m)
  case 0
  then obtain n' where "n = Suc n'" by (cases n) auto
  with 0 show ?case by simp
next
  case (Suc k)
  then obtain n' where n: "n = Suc n'" by (cases n) auto
  have "unat (0x3000 + 4 * of_nat v :: u32) = 0x3000 + 4 * v"
    using Suc.prems(1) unat_of_nat [of "0x3000 + 4 * v", where 'a = 32] by simp
  then have "(0x3000 + 4 * of_nat v :: u32) < 0x8000" using Suc.prems(1) by (simp add: word_less_nat_alt)
  then show ?case
    using Suc.IH [of "Suc v" n' "store32 m (0x3000 + 4 * of_nat v) 0"] Suc.prems n
      word_at_store [of v w m 0]
    by (simp add: algebra_simps)
qed

lemma MBYTE_mult: "of_nat (d * 2 ^ 20) + MBYTE = of_nat (Suc d * 2 ^ 20)"
  by (simp add: MBYTE_def)

lemma unat_sections: "d < 4096 \<Longrightarrow> unat (of_nat (d * 2 ^ 20) :: u32) = d * 2 ^ 20"
  by (simp add: unat_of_nat del: of_nat_mult)

lemma word_at_sections:
  assumes "k < n" "d + k \<le> 4096" "p + k < 4096" "w < 5120"
  shows "word_at (boot_sections n (of_nat (d * 2 ^ 20)) (of_nat (p * 2 ^ 20)) (of_nat ((p + k) * 2 ^ 20)) a m) w =
    (if 1024 + d \<le> w \<and> w < 1024 + d + k then of_nat ((p + (w - 1024 - d)) * 2 ^ 20) OR a else word_at m w)"
  using assms
proof (induction k arbitrary: d p n m)
  case 0
  then obtain n' where "n = Suc n'" by (cases n) auto
  with 0 show ?case by auto
next
  case (Suc k)
  then obtain n' where n: "n = Suc n'" by (cases n) auto
  have d: "l1_word (of_nat (d * 2 ^ 20)) = 1024 + d"
    using unat_sections [of d] Suc.prems(2) by (simp add: l1_word_def del: of_nat_mult)
  have lt: "(of_nat (p * 2 ^ 20) :: u32) < of_nat ((p + Suc k) * 2 ^ 20)"
    using unat_sections [of p] unat_sections [of "p + Suc k"] Suc.prems(3)
    by (simp add: word_less_nat_alt del: of_nat_mult of_nat_add)
  have "boot_sections n (of_nat (d * 2 ^ 20)) (of_nat (p * 2 ^ 20)) (of_nat ((p + Suc k) * 2 ^ 20)) a m =
      boot_sections n' (of_nat (Suc d * 2 ^ 20)) (of_nat (Suc p * 2 ^ 20)) (of_nat ((Suc p + k) * 2 ^ 20)) a
        (put_pde (of_nat (d * 2 ^ 20)) (of_nat (p * 2 ^ 20) OR a) m)"
    using lt by (simp only: n boot_sections.simps if_True MBYTE_mult add_Suc add_Suc_right)
  moreover have "w = 1024 + d \<or> 1024 + Suc d \<le> w \<or> w < 1024 + d" by arith
  moreover have "p + (w - 1024 - d) = Suc p + (w - 1024 - Suc d)" if "1024 + Suc d \<le> w" using that by arith
  ultimately show ?case
    using Suc.IH [of n' "Suc d" "Suc p" "put_pde (of_nat (d * 2 ^ 20)) (of_nat (p * 2 ^ 20) OR a) m"] Suc.prems n d
    by (auto simp: word_at_put simp del: of_nat_mult of_nat_add)
qed

section \<open>The map of the boot\<close>

lemma mmuinit0_word:
  assumes "w < 5120"
  shows "word_at (mmuinit0 m) w =
    (if w = 0xF0 then PTX_AP K_RW OR SMALL
     else if w = 1024 + 0xFFF then K_PTX_BASE OR COARSE
     else if 1024 + 0x400 \<le> w \<and> w < 1024 + 0x800 then of_nat ((w - 1024) * 2 ^ 20) OR io_attr
     else if 1024 + 0xFE0 \<le> w \<and> w < 1024 + 0xFF0 then of_nat ((0x200 + (w - 1024 - 0xFE0)) * 2 ^ 20) OR io_attr
     else if w = 1024 then ram_attr
     else if 1024 + 0x800 \<le> w \<and> w < 1024 + 0x8C0 then of_nat ((w - 1024 - 0x800) * 2 ^ 20) OR ram_attr
     else 0)"
proof -
  define m1 where "m1 = zero_words 5121 0x3000 0x8000 m"
  define m2 where "m2 = boot_sections 4097 KERNBASE PA_START (PA_START + RAMSIZE) ram_attr m1"
  define m3 where "m3 = put_pde PA_START (PA_START OR ram_attr) m2"
  define m4 where "m4 = boot_sections 4097 DEVSPACE PHYSIO (PHYSIO + IOSIZE) io_attr m3"
  define m5 where "m5 = boot_sections 4097 GPUMEMBASE GPUMEMBASE (GPUMEMBASE + GPUMEMSIZE) io_attr m4"
  have 1: "word_at m1 w = 0"
    using word_at_zero_words [of 0 5120 5121 w] assms by (simp add: m1_def)
  have 2: "word_at m2 w = (if 1024 + 0x800 \<le> w \<and> w < 1024 + 0x8C0
      then of_nat ((w - 1024 - 0x800) * 2 ^ 20) OR ram_attr else word_at m1 w)"
    using word_at_sections [where k = "0xC0" and n = 4097 and d = "0x800" and p = 0 and w = w and a = ram_attr and m = m1] assms
    by (simp add: m2_def boot_defs layout_defs)
  have 3: "word_at m3 w = (if w = 1024 then ram_attr else word_at m2 w)"
    using word_at_put(1) [OF assms, of PA_START _ m2] by (simp add: m3_def PA_START_def l1_word_def)
  have 4: "word_at m4 w = (if 1024 + 0xFE0 \<le> w \<and> w < 1024 + 0xFF0
      then of_nat ((0x200 + (w - 1024 - 0xFE0)) * 2 ^ 20) OR io_attr else word_at m3 w)"
    using word_at_sections [where k = 16 and n = 4097 and d = "0xFE0" and p = "0x200" and w = w and a = io_attr and m = m3] assms
    by (simp add: m4_def vm_consts layout_defs)
  have 5: "word_at m5 w = (if 1024 + 0x400 \<le> w \<and> w < 1024 + 0x800
      then of_nat ((0x400 + (w - 1024 - 0x400)) * 2 ^ 20) OR io_attr else word_at m4 w)"
    using word_at_sections [where k = "0x400" and n = 4097 and d = "0x400" and p = "0x400" and w = w and a = io_attr and m = m4] assms
    by (simp add: m5_def boot_defs layout_defs)
  have "mmuinit0 m = put_pte HVECTORS (PA_START OR PTX_AP K_RW OR SMALL) (put_pde HVECTORS (K_PTX_BASE OR COARSE) m5)"
    by (simp add: mmuinit0_def m5_def m4_def m3_def m2_def m1_def Let_def)
  moreover have "l1_word HVECTORS = 1024 + 0xFFF" "l2_word HVECTORS = 0xF0"
    by (simp_all add: l1_word_def l2_word_def HVECTORS_def)
  moreover have "0x400 + (w - 1024 - 0x400) = w - 1024" if "1024 + 0x400 \<le> w" using that by arith
  ultimately show ?thesis
    using word_at_put [OF assms] 1 2 3 4 5 by (cases "w = 1024") (simp_all add: PA_START_def)
qed

lemma mmuinit1_word:
  "w < 5120 \<Longrightarrow> word_at (mmuinit1 m) w = (if w = 1024 then 0 else word_at m w)"
  using word_at_put(1) [of w PA_START 0 m] by (simp add: mmuinit1_def PA_START_def l1_word_def)

lemma walk_l1: "load32 m (K_PDX_BASE + 4 * PDX va) = word_at m (l1_word va)"
  by (simp add: l1_addr word_at_def)

lemma walk_none: "word_at m (l1_word va) = 0 \<Longrightarrow> walk m va = None"
  by (simp add: walk_def walk_l1)

lemma section_entry:
  fixes b a :: u32
  assumes "b = push_bit 20 c" "a AND 0xFFF00000 = 0"
  shows "(b OR a) AND 0xFFF00000 = b" "(b OR a) AND 3 = a AND 3" "(b OR a) AND 8 = a AND 8"
proof -
  have m: "(0xFFF00000 :: u32) = NOT (mask 20)" by (simp add: mask_eq_exp_minus_1)
  have "b AND 0xFFF00000 = b" unfolding m assms(1)
    by (rule bit_word_eqI) (auto simp: bit_simps)
  then show "(b OR a) AND 0xFFF00000 = b" by (simp add: bit.conj_disj_distrib2 assms(2))
  have "b AND mask 20 = 0" unfolding assms(1) by (rule bit_word_eqI) (auto simp: bit_simps)
  then have "b AND (mask 20 AND k) = 0" for k by (metis and.assoc and_zero_eq zero_and_eq)
  from this [of 3] this [of 8] show "(b OR a) AND 3 = a AND 3" "(b OR a) AND 8 = a AND 8"
    by (simp_all add: bit.conj_disj_distrib2 mask_eq_exp_minus_1)
qed

lemma of_nat_mbyte: "(of_nat (q * 2 ^ 20) :: u32) = push_bit 20 (of_nat q)"
  by (simp add: push_bit_eq_mult)

lemma walk_section:
  assumes "word_at m (l1_word va) = of_nat (q * 2 ^ 20) OR a" "a = ram_attr \<or> a = io_attr"
  shows "walk m va = Some (of_nat (q * 2 ^ 20) + (va AND 0xFFFFF), a = ram_attr)"
proof -
  have "a AND 0xFFF00000 = 0" "a AND 3 = 2" "(a AND 8 \<noteq> 0) = (a = ram_attr)"
    using assms(2) by (auto simp: ram_attr_def io_attr_def vm_consts)
  then show ?thesis using section_entry [OF of_nat_mbyte, of a q] assms(1)
    by (simp add: walk_def walk_l1 del: of_nat_mult)
qed

lemma split_bits:
  fixes va :: u32
  shows "va = of_nat (unat va div 2 ^ n * 2 ^ n) + take_bit n va"
proof -
  have "unat (take_bit n va) = take_bit n (unat va)" by (simp only: unsigned_take_bit_eq)
  then have "unat (take_bit n va) = unat va mod 2 ^ n" by (simp only: take_bit_eq_mod)
  then have "take_bit n va = of_nat (unat va mod 2 ^ n)" by (metis of_nat_unat ucast_id)
  then have "of_nat (unat va div 2 ^ n * 2 ^ n) + take_bit n va = of_nat (unat va div 2 ^ n * 2 ^ n + unat va mod 2 ^ n)"
    by (simp del: of_nat_mult)
  then show ?thesis by (simp only: div_mult_mod_eq) simp
qed

lemma va_split: "va = of_nat (unat va div 2 ^ 20 * 2 ^ 20) + (va AND 0xFFFFF)" for va :: u32
  using split_bits [where n = 20 and va = va] by (simp add: take_bit_eq_mask mask_eq_exp_minus_1 del: of_nat_mult)

lemma walk_section_at:
  assumes w: "word_at m (l1_word va) = of_nat ((unat va div 2 ^ 20 - d + p) * 2 ^ 20) OR a" and a: "a = ram_attr \<or> a = io_attr"
    and d: "d \<le> unat va div 2 ^ 20"
  shows "walk m va = Some (va - of_nat (d * 2 ^ 20) + of_nat (p * 2 ^ 20), a = ram_attr)"
proof -
  define i where "i = unat va div 2 ^ 20"
  have "(of_nat ((i - d + p) * 2 ^ 20) :: u32) + of_nat (d * 2 ^ 20) = of_nat (i * 2 ^ 20) + of_nat (p * 2 ^ 20)"
    using d by (simp only: of_nat_add [symmetric] i_def) (simp add: algebra_simps diff_mult_distrib2)
  then have "of_nat ((i - d + p) * 2 ^ 20) + (va AND 0xFFFFF) = va - of_nat (d * 2 ^ 20) + of_nat (p * 2 ^ 20)"
    using va_split [of va] unfolding i_def [symmetric] by (simp add: algebra_simps del: of_nat_mult)
  with walk_section [OF w a] show ?thesis by (simp add: i_def del: of_nat_mult)
qed

text \<open>The ranges of the map as ranges of the index of the first level.\<close>

lemma range_index:
  "KERNBASE \<le> va \<and> va < KERNBASE + RAMSIZE \<longleftrightarrow> 0x800 \<le> unat va div 2 ^ 20 \<and> unat va div 2 ^ 20 < 0x8C0"
  "GPUMEMBASE \<le> va \<and> va < KERNBASE \<longleftrightarrow> 0x400 \<le> unat va div 2 ^ 20 \<and> unat va div 2 ^ 20 < 0x800"
  "DEVSPACE \<le> va \<and> va < DEVSPACE + IOSIZE \<longleftrightarrow> 0xFE0 \<le> unat va div 2 ^ 20 \<and> unat va div 2 ^ 20 < 0xFF0"
  "va < MBYTE \<longleftrightarrow> unat va div 2 ^ 20 = 0"
  "HVECTORS \<le> va \<Longrightarrow> unat va div 2 ^ 20 = 0xFFF"
proof -
  have le: "a \<le> unat va div 2 ^ 20 \<longleftrightarrow> a * 2 ^ 20 \<le> unat va" for a by (simp add: less_eq_div_iff_mult_less_eq)
  have lt: "unat va div 2 ^ 20 < a \<longleftrightarrow> unat va < a * 2 ^ 20" for a by (simp add: div_less_iff_less_mult)
  show "KERNBASE \<le> va \<and> va < KERNBASE + RAMSIZE \<longleftrightarrow> 0x800 \<le> unat va div 2 ^ 20 \<and> unat va div 2 ^ 20 < 0x8C0"
    unfolding le lt by (simp add: boot_defs layout_defs word_le_nat_alt word_less_nat_alt)
  show "GPUMEMBASE \<le> va \<and> va < KERNBASE \<longleftrightarrow> 0x400 \<le> unat va div 2 ^ 20 \<and> unat va div 2 ^ 20 < 0x800"
    unfolding le lt by (simp add: boot_defs layout_defs word_le_nat_alt word_less_nat_alt)
  show "DEVSPACE \<le> va \<and> va < DEVSPACE + IOSIZE \<longleftrightarrow> 0xFE0 \<le> unat va div 2 ^ 20 \<and> unat va div 2 ^ 20 < 0xFF0"
    unfolding le lt by (simp add: vm_consts layout_defs word_le_nat_alt word_less_nat_alt)
  show "va < MBYTE \<longleftrightarrow> unat va div 2 ^ 20 = 0"
    using lt [of 1] by (simp add: layout_defs word_less_nat_alt)
  assume "HVECTORS \<le> va"
  then have "0xFFF \<le> unat va div 2 ^ 20" unfolding le by (simp add: HVECTORS_def word_le_nat_alt)
  with pdx_bound [of va] show "unat va div 2 ^ 20 = 0xFFF" by simp
qed

text \<open>The last megabyte holds one small page.\<close>

lemma walk_vectors:
  assumes i: "unat va div 2 ^ 20 = 0xFFF" and e: "word_at m (1024 + 0xFFF) = K_PTX_BASE OR COARSE"
    and t: "\<And>j. j < 256 \<Longrightarrow> word_at m j = (if j = 0xF0 then PTX_AP K_RW OR SMALL else 0)"
  shows "walk m va = (if HVECTORS \<le> va \<and> va < HVECTORS + PGSIZE then Some (va - HVECTORS, False) else None)"
proof -
  have l1: "load32 m (K_PDX_BASE + 4 * PDX va) = 0x3001"
    using i e by (simp add: walk_l1 l1_word_def K_PTX_BASE_def COARSE_def)
  have l2: "load32 m (0x3000 + 4 * PTX va) = (if l2_word va = 0xF0 then PTX_AP K_RW OR SMALL else 0)"
    using t [of "l2_word va"] l2_addr [of va] by (simp add: word_at_def l2_word_def K_PTX_BASE_def)
  have w: "walk m va = (if l2_word va = 0xF0 then Some (va AND 0xFFF, False) else None)"
    by (simp add: walk_def l1 l2 Let_def vm_consts)
  define j where "j = unat va div 2 ^ 12"
  have "j div 256 = unat va div 2 ^ 20" by (simp add: j_def div_mult2_eq [symmetric])
  then have j: "l2_word va = 0xF0 \<longleftrightarrow> j = 0xFFFF0"
  proof -
    have "l2_word va = j mod 256" by (simp add: l2_word_def j_def)
    moreover have "j div 256 = 0xFFF" using \<open>j div 256 = _\<close> i by simp
    ultimately show ?thesis using div_mult_mod_eq [of j 256] by auto
  qed
  have "HVECTORS \<le> va \<and> va < HVECTORS + PGSIZE \<longleftrightarrow> 0xFFFF0 * 2 ^ 12 \<le> unat va \<and> unat va < 0xFFFF1 * 2 ^ 12"
    by (simp add: HVECTORS_def PGSIZE_def word_le_nat_alt word_less_nat_alt)
  also have "\<dots> \<longleftrightarrow> 0xFFFF0 \<le> j \<and> j < 0xFFFF1"
    by (simp only: j_def less_eq_div_iff_mult_less_eq [of "2 ^ 12"] div_less_iff_less_mult [of "2 ^ 12"] zero_less_power zero_less_numeral)
  also have "\<dots> \<longleftrightarrow> j = 0xFFFF0" by arith
  finally have r: "HVECTORS \<le> va \<and> va < HVECTORS + PGSIZE \<longleftrightarrow> j = 0xFFFF0" .
  have "va AND 0xFFF = va - HVECTORS" if "j = 0xFFFF0"
  proof -
    have "va = of_nat (j * 2 ^ 12) + (va AND 0xFFF)"
      using split_bits [where n = 12 and va = va] by (simp add: take_bit_eq_mask mask_eq_exp_minus_1 j_def del: of_nat_mult)
    with that have "va = HVECTORS + (va AND 0xFFF)" by (simp add: HVECTORS_def)
    then show ?thesis by (metis add_diff_cancel_left')
  qed
  with w r j show ?thesis by simp
qed

lemma boot_walk:
  assumes M: "\<And>w. w < 5120 \<Longrightarrow> word_at M w = (if w = 1024 \<and> \<not> ident then 0 else word_at (mmuinit0 m) w)"
  shows "walk M va = boot_map ident va"
proof -
  define i where "i = unat va div 2 ^ 20"
  have l1: "l1_word va = 1024 + i" "i < 4096" using pdx_bound [of va] by (simp_all add: l1_word_def i_def)
  have w: "word_at M (l1_word va) =
    (if i = 0xFFF then K_PTX_BASE OR COARSE
     else if 0x400 \<le> i \<and> i < 0x800 then of_nat ((i - 0 + 0) * 2 ^ 20) OR io_attr
     else if 0xFE0 \<le> i \<and> i < 0xFF0 then of_nat ((i - 0xFE0 + 0x200) * 2 ^ 20) OR io_attr
     else if i = 0 then if ident then of_nat ((i - 0 + 0) * 2 ^ 20) OR ram_attr else 0
     else if 0x800 \<le> i \<and> i < 0x8C0 then of_nat ((i - 0x800 + 0) * 2 ^ 20) OR ram_attr
     else 0)"
    using M [of "1024 + i"] l1 by (simp add: mmuinit0_word add.commute)
  have ne: "ram_attr \<noteq> io_attr" by (simp add: ram_attr_def io_attr_def vm_consts)
  note b = boot_map_def range_index [of va, folded i_def]
  note sec = walk_section_at [where m = M and va = va, folded i_def]
  consider "i = 0xFFF" | "0x400 \<le> i \<and> i < 0x800" | "0xFE0 \<le> i \<and> i < 0xFF0" | "i = 0" | "0x800 \<le> i \<and> i < 0x8C0"
    | "i \<noteq> 0xFFF \<and> \<not> (0x400 \<le> i \<and> i < 0x800) \<and> \<not> (0xFE0 \<le> i \<and> i < 0xFF0) \<and> i \<noteq> 0 \<and> \<not> (0x800 \<le> i \<and> i < 0x8C0)"
    by blast
  then show ?thesis
  proof cases
    case 1
    have "word_at M j = (if j = 0xF0 then PTX_AP K_RW OR SMALL else 0)" if "j < 256" for j
      using that M [of j] mmuinit0_word [of j m] by simp
    moreover have "word_at M (1024 + 0xFFF) = K_PTX_BASE OR COARSE" using w l1(1) 1 by simp
    ultimately have "walk M va = (if HVECTORS \<le> va \<and> va < HVECTORS + PGSIZE then Some (va - HVECTORS, False) else None)"
      using walk_vectors [of va M] 1 by (simp add: i_def)
    then show ?thesis using 1 by (simp add: b)
  next
    case 2
    then show ?thesis using sec [of 0 0 io_attr] w ne by (simp add: b)
  next
    case 3
    have "walk M va = Some (va - of_nat (0xFE0 * 2 ^ 20) + of_nat (0x200 * 2 ^ 20), io_attr = ram_attr)"
      by (rule sec) (use 3 w in simp_all)
    then have "walk M va = Some (va - DEVSPACE + PHYSIO, False)" using ne by (simp add: DEVSPACE_def PHYSIO_def)
    then show ?thesis using 3 by (simp add: b)
  next
    case 4
    moreover have "\<not> HVECTORS \<le> va" using 4 range_index(5) [of va] by (auto simp: i_def)
    ultimately show ?thesis using sec [of 0 0 ram_attr] w walk_none [of M va] by (simp add: b)
  next
    case 5
    have "walk M va = Some (va - of_nat (0x800 * 2 ^ 20) + of_nat (0 * 2 ^ 20), ram_attr = ram_attr)"
      by (rule sec) (use 5 w in simp_all)
    then have "walk M va = Some (va - KERNBASE, True)" by (simp add: KERNBASE_def)
    then show ?thesis using 5 by (simp add: b)
  next
    case 6
    have "\<not> (HVECTORS \<le> va \<and> va < HVECTORS + PGSIZE)"
      using 6 range_index(5) [of va] by (auto simp: i_def)
    moreover have "walk M va = None" using 6 w by (intro walk_none) auto
    ultimately show ?thesis using 6 unfolding b by auto
  qed
qed

text \<open>C31: After \<open>mmuinit0\<close> the table walk of the processor gives, for every virtual address, exactly the map the
  kernel counts on, with RAM cached and devices not, and \<open>mmuinit1\<close> removes the identity map of the
  first megabyte and nothing else.\<close>
theorem boot_map_walk:
  "walk (mmuinit0 m) va = boot_map True va \<and> walk (mmuinit1 (mmuinit0 m)) va = boot_map False va"
  using boot_walk [where ident = True] boot_walk [where ident = False] mmuinit1_word by simp

end
