(* ===== verification/Fork.thy ===== *)
theory Fork
  imports Process Space
begin

text \<open>
  What fork does: the child is a copy of the parent, in memory of its own, with the open files of the parent.
\<close>

section \<open>Frames\<close>

text \<open>The state of the file system, which allocproc and the copying of memory leave alone.\<close>

lemma ptable_more_rest:
  fixes s t :: "'z file_state_scheme"
  assumes "ptable.more t = ptable.more s"
  shows "files t = files s" "inodes t = inodes s"
  using assms by (cases s; cases t; auto)+

lemma kmem_frame_rest:
  fixes s t :: "'z file_state_scheme"
  assumes "kmem_frame s t"
  shows "procs t = procs s" "curr t = curr s" "nextpid t = nextpid s" "files t = files s" "inodes t = inodes s"
  using assms by (cases s; cases t; auto simp: kmem_frame_def)+

text \<open>Only the process table and the tables of files and inodes have changed.\<close>

definition tables_frame :: "'z file_state_scheme \<Rightarrow> 'z file_state_scheme \<Rightarrow> bool" where
  "tables_frame s t \<longleftrightarrow> balanced s t \<and> mem t = mem s \<and> freelist t = freelist s \<and> kend t = kend s \<and> curr t = curr s
     \<and> nextpid t = nextpid s"

lemma tables_frame_trans: "tables_frame s t \<Longrightarrow> tables_frame t u \<Longrightarrow> tables_frame s u"
  by (auto simp: tables_frame_def intro: balanced_trans)

lemma tables_frame_upd [simp]: "tables_frame s (s\<lparr>procs := ps\<rparr>)" "tables_frame s s"
  by (simp_all add: tables_frame_def)

lemma file_entered_simps [simp]:
  "files (entered l s) = files s" "files (left l s) = files s" "inodes (entered l s) = inodes s" "inodes (left l s) = inodes s"
  by (simp_all add: entered_def left_def)

lemma runs_filedup:
  assumes lf: "lock_free FtableLock s" and f: "f < length (files s)" "1 \<le> f_ref (files s ! f)"
  shows "runs (filedup f) s (\<lambda>g t. g = f \<and> tables_frame s t \<and> procs t = procs s \<and> inodes t = inodes s
    \<and> files t = (files s)[f := (files s ! f)\<lparr>f_ref := f_ref (files s ! f) + 1\<rparr>])"
proof -
  let ?t = "(entered FtableLock s)\<lparr>files := (files s)[f := (files s ! f)\<lparr>f_ref := f_ref (files s ! f) + 1\<rparr>]\<rparr>"
  have b: "balanced (entered FtableLock s) ?t" by (simp add: balanced_def holding_def)
  have "filedup f s = Ret f (left FtableLock ?t)"
    unfolding filedup_def using lf f b
    by (intro locked_section_eq) (simp_all add: lock_free_def get_file_def call_app andthen_def panic_if_def upd_file_def modify_def)
  moreover have "balanced s (left FtableLock ?t)" by (rule bracket_balanced [OF lf b])
  ultimately show ?thesis by (simp add: runs_def tables_frame_def)
qed

lemma runs_idup:
  assumes lf: "lock_free IcacheLock s" and ip: "ip < length (inodes s)"
  shows "runs (idup ip) s (\<lambda>r t. r = ip \<and> tables_frame s t \<and> procs t = procs s \<and> files t = files s
    \<and> inodes t = (inodes s)[ip := (inodes s ! ip)\<lparr>i_ref := i_ref (inodes s ! ip) + 1\<rparr>])"
proof -
  let ?t = "(entered IcacheLock s)\<lparr>inodes := (inodes s)[ip := (inodes s ! ip)\<lparr>i_ref := i_ref (inodes s ! ip) + 1\<rparr>]\<rparr>"
  have b: "balanced (entered IcacheLock s) ?t" by (simp add: balanced_def holding_def)
  have "locked_section IcacheLock (call (get_inode ip) (\<lambda>_. upd_inode ip (\<lambda>i. i\<lparr>i_ref := i_ref i + 1\<rparr>))) s = Ret () (left IcacheLock ?t)"
    using lf ip b by (intro locked_section_eq) (simp_all add: lock_free_def get_inode_def call_app upd_inode_def modify_def)
  moreover have "balanced s (left IcacheLock ?t)" by (rule bracket_balanced [OF lf b])
  ultimately show ?thesis by (simp add: idup_def andthen_def runs_def tables_frame_def)
qed

section \<open>The open files\<close>

text \<open>After the first \<open>n\<close> descriptors.\<close>

definition dups :: "'z file_state_scheme \<Rightarrow> nat \<Rightarrow> nat \<Rightarrow> nat \<Rightarrow> 'z file_state_scheme \<Rightarrow> bool" where
  "dups s c i n t \<longleftrightarrow> tables_frame s t \<and> inodes t = inodes s
     \<and> procs t = (procs s)[i := (procs s ! i)\<lparr>ofile := take n (ofile (procs s ! c)) @ replicate (NOFILE - n) None\<rparr>]
     \<and> length (files t) = length (files s)
     \<and> (\<forall>f < length (files s). files t ! f = (files s ! f)\<lparr>f_ref := f_ref (files s ! f)
          + int (count_list (take n (ofile (procs s ! c))) (Some f))\<rparr>)"

lemma runs_dups:
  assumes lf: "lock_free FtableLock s" and c: "curr s = Some c" "c < length (procs s)" "i < length (procs s)" "i \<noteq> c"
    and len: "length (ofile (procs s ! c)) = NOFILE" and new: "ofile (procs s ! i) = replicate NOFILE None"
    and refs: "\<forall>f. Some f \<in> set (ofile (procs s ! c)) \<longrightarrow> f < length (files s) \<and> 1 \<le> f_ref (files s ! f)"
  shows "n \<le> NOFILE \<Longrightarrow> runs (for_each [0..<n] (dup_fd i)) s (\<lambda>_. dups s c i n)"
proof (induction n)
  case 0
  have "(procs s)[i := (procs s ! i)\<lparr>ofile := replicate NOFILE None\<rparr>] = procs s"
    using new c(3) by (metis (no_types, lifting) list_update_id proc.surjective proc.update_convs(11))
  then show ?case by (simp add: dups_def)
next
  case (Suc n)
  let ?o = "ofile (procs s ! c)"
  have "runs (dup_fd i n) t (\<lambda>_. dups s c i (Suc n))" if d: "dups s c i n t" for t
  proof -
    have t: "curr t = Some c" "procs t ! c = procs s ! c" "c < length (procs t)" "lock_free FtableLock t"
      using d c lf balanced_lock_free by (auto simp: dups_def tables_frame_def)
    have n: "n < length ?o" using Suc.prems len by simp
    have tk: "take (Suc n) ?o = take n ?o @ [?o ! n]" by (rule take_Suc_conv_app_nth [OF n])
    have rep: "replicate (NOFILE - n) None = None # replicate (NOFILE - Suc n) (None :: nat option)"
      using Suc.prems by (metis Suc_diff_le diff_Suc_Suc replicate_Suc Suc_le_lessD Suc_diff_Suc)
    show ?thesis
    proof (cases "?o ! n")
      case None
      have "dups s c i (Suc n) t" using d None unfolding dups_def tk rep by simp
      then show ?thesis using t None by (simp add: dup_fd_def get_curr_def curr_proc_def runs_def call_app reads_def)
    next
      case (Some f)
      then have "Some f \<in> set ?o" using n by (metis nth_mem)
      then have f: "f < length (files s)" "1 \<le> f_ref (files s ! f)" using refs by blast+
      then have ft: "f < length (files t)" "1 \<le> f_ref (files t ! f)" using d by (auto simp: dups_def)
      have "runs (filedup f) t (\<lambda>g u. runs (upd_proc i (\<lambda>p. p\<lparr>ofile := (ofile p)[n := Some g]\<rparr>)) u (\<lambda>_. dups s c i (Suc n)))"
      proof (rule runs_mono [OF runs_filedup [OF t(4) ft]], elim conjE)
        fix g u assume u: "g = f" "tables_frame t u" "procs u = procs t" "inodes u = inodes t"
          "files u = (files t)[f := (files t ! f)\<lparr>f_ref := f_ref (files t ! f) + 1\<rparr>]"
        let ?u = "u\<lparr>procs := (procs u)[i := (procs u ! i)\<lparr>ofile := (ofile (procs u ! i))[n := Some f]\<rparr>]\<rparr>"
        have "tables_frame s ?u" using d u(2) by (auto simp: dups_def intro: tables_frame_trans)
        moreover have "procs ?u = (procs s)[i := (procs s ! i)\<lparr>ofile := take (Suc n) ?o @ replicate (NOFILE - Suc n) None\<rparr>]"
          using d c(3) n Some unfolding dups_def tk rep by (simp add: u(3) list_update_append)
        moreover have "files ?u ! h = (files s ! h)\<lparr>f_ref := f_ref (files s ! h) + int (count_list (take (Suc n) ?o) (Some h))\<rparr>"
          if "h < length (files s)" for h
          using d that f(1) Some unfolding dups_def tk by (simp add: u(5) nth_list_update)
        moreover have "length (files ?u) = length (files s)" "inodes ?u = inodes s" using d u(4,5) by (simp_all add: dups_def)
        ultimately have "dups s c i (Suc n) ?u" unfolding dups_def by blast
        then show "runs (upd_proc i (\<lambda>p. p\<lparr>ofile := (ofile p)[n := Some g]\<rparr>)) u (\<lambda>_. dups s c i (Suc n))"
          using u(1) by (simp add: upd_proc_def)
      qed
      then have "runs (call (filedup f) (\<lambda>g. upd_proc i (\<lambda>p. p\<lparr>ofile := (ofile p)[n := Some g]\<rparr>))) t (\<lambda>_. dups s c i (Suc n))"
        by simp
      moreover have "dup_fd i n t = call (filedup f) (\<lambda>g. upd_proc i (\<lambda>p. p\<lparr>ofile := (ofile p)[n := Some g]\<rparr>)) t"
        using t Some by (simp add: dup_fd_def get_curr_def curr_proc_def call_app reads_def)
      ultimately show ?thesis unfolding runs_def by simp
    qed
  qed
  then have "runs (for_each [0..<n] (dup_fd i)) s (\<lambda>_ t. runs (dup_fd i n) t (\<lambda>_. dups s c i (Suc n)))"
    using Suc by (auto elim: runs_mono)
  then show ?case by (simp add: runs_for_each_snoc)
qed

section \<open>The rest of fork\<close>

text \<open>fork from the copy of the memory on.\<close>

definition fork_rest :: "nat \<Rightarrow> proc \<Rightarrow> u32 \<Rightarrow> ('z file_state_scheme, int) kern" where
  "fork_rest np cp d =
     andthen (upd_proc np (\<lambda>p. p\<lparr>pgdir := d\<rparr>))
     (if d = 0 then
        call (reads (\<lambda>s. kstack (procs s ! np))) (\<lambda>k.
        andthen (kfree k)
        (andthen (upd_proc np (\<lambda>p. p\<lparr>kstack := 0, pstate := UNUSED\<rparr>)) (return (- 1))))
      else
        call curr_proc (\<lambda>c.
        andthen (upd_proc np (\<lambda>p. p\<lparr>sz := sz cp, parent := Some c, tf := (tf cp)\<lparr>tf_r0 := 0\<rparr>\<rparr>))
        (andthen (for_each [0 ..< NOFILE] (dup_fd np))
        (call curr_cwd (\<lambda>ip.
         call (idup ip) (\<lambda>ip.
         andthen (upd_proc np (\<lambda>p. p\<lparr>cwd := Some ip\<rparr>))
         (call (reads (\<lambda>s. procs s ! np)) (\<lambda>child.
          andthen (upd_proc np (\<lambda>p. p\<lparr>pstate := RUNNABLE\<rparr>))
          (call (defined (safestrcpy (pname child) (pname cp) 16)) (\<lambda>nm.
           andthen (upd_proc np (\<lambda>p. p\<lparr>pname := nm\<rparr>)) (return (pid child))))))))))))"

lemma fork_eq: "fork = call allocproc (\<lambda>r. case r of
       None \<Rightarrow> return (- 1)
     | Some np \<Rightarrow> call (get_curr (\<lambda>p. p)) (\<lambda>cp. call (copyuvm (pgdir cp) (sz cp)) (fork_rest np cp)))"
  unfolding fork_def fork_rest_def by (rule refl)

lemma runs_fork_rest:
  fixes u :: "'z file_state_scheme"
  assumes lf: "lock_free FtableLock u" "lock_free IcacheLock u"
    and c: "curr u = Some c" "c < length (procs u)" "i < length (procs u)" "i \<noteq> c"
    and p: "p = procs u ! c" "length (ofile p) = NOFILE" "length (pname p) = 16" "0 \<in> set (pname p)" "cwd p = Some ip"
    and q: "q = procs u ! i" "ofile q = replicate NOFILE None" "length (pname q) = 16"
    and refs: "\<forall>f. Some f \<in> set (ofile p) \<longrightarrow> f < length (files u) \<and> 1 \<le> f_ref (files u ! f)"
    and ip: "ip < length (inodes u)" and d: "d \<noteq> 0"
  shows "runs (fork_rest i p d) u (\<lambda>r t. r = pid q \<and> mem t = mem u \<and> nextpid t = nextpid u
    \<and> (\<exists>nm. cstr 16 nm = cstr 15 (pname p) \<and> procs t = (procs u)[i := q\<lparr>pgdir := d, sz := sz p, parent := Some c,
          tf := (tf p)\<lparr>tf_r0 := 0\<rparr>, ofile := ofile p, cwd := Some ip, pstate := RUNNABLE, pname := nm\<rparr>])
    \<and> (\<forall>f < length (files u). files t ! f = (files u ! f)\<lparr>f_ref := f_ref (files u ! f) + int (count_list (ofile p) (Some f))\<rparr>)
    \<and> inodes t = (inodes u)[ip := (inodes u ! ip)\<lparr>i_ref := i_ref (inodes u ! ip) + 1\<rparr>])" (is "runs _ u ?Q")
proof -
  let ?q = "q\<lparr>pgdir := d, sz := sz p, parent := Some c, tf := (tf p)\<lparr>tf_r0 := 0\<rparr>\<rparr>"
  let ?u = "u\<lparr>procs := (procs u)[i := ?q]\<rparr>"
  have "(16 :: nat) \<le> length (pname q)" "enough 16 (pname p)" using q(3) p(4) by (simp_all add: enough_def)
  then obtain nm where nm: "safestrcpy (pname q) (pname p) 16 = Some nm" "cstr 16 nm = cstr 15 (pname p)"
    using safestrcpy_copies [of 16 "pname q" "pname p"] q(3) by auto
  have lu: "lock_free l ?u = lock_free l u" for l by (simp add: lock_free_def holding_def cli_ok_def)
  have dup: "runs (for_each [0..<NOFILE] (dup_fd i)) ?u (\<lambda>_. dups ?u c i NOFILE)"
    using lf c p q refs by (intro runs_dups) (simp_all add: lu)
  let ?tail = "\<lambda>ip. andthen (upd_proc i (\<lambda>p. p\<lparr>cwd := Some ip\<rparr>))
         (call (reads (\<lambda>s. procs s ! i)) (\<lambda>child.
          andthen (upd_proc i (\<lambda>p. p\<lparr>pstate := RUNNABLE\<rparr>))
          (call (defined (safestrcpy (pname child) (pname p) 16)) (\<lambda>nm.
           andthen (upd_proc i (\<lambda>p. p\<lparr>pname := nm\<rparr>)) (return (pid child))))))"
  have tail: "runs curr_cwd v (\<lambda>ip w. runs (idup ip) w (\<lambda>ip x. runs (?tail ip) x ?Q))" if v: "dups ?u c i NOFILE v" for v
  proof -
    have "balanced ?u v" using v by (simp add: dups_def tables_frame_def)
    then have lv: "lock_free IcacheLock v" using lf(2) lu balanced_lock_free by blast
    have V: "mem v = mem u" "nextpid v = nextpid u" "curr v = Some c" "inodes v = inodes u"
      "procs v = (procs u)[i := ?q\<lparr>ofile := ofile p\<rparr>]" "length (files v) = length (files u)"
      "\<forall>f < length (files u). files v ! f = (files u ! f)\<lparr>f_ref := f_ref (files u ! f) + int (count_list (ofile p) (Some f))\<rparr>"
      using v c p(1,2) by (simp_all add: dups_def tables_frame_def)
    have iv: "ip < length (inodes v)" using ip V(4) by simp
    have "runs (idup ip) v (\<lambda>ip x. runs (?tail ip) x ?Q)"
      by (rule runs_mono [OF runs_idup [OF lv iv]])
        (use V c nm q in \<open>auto simp: upd_proc_def tables_frame_def defined_def\<close>)
    moreover have "curr_cwd v = Ret ip v"
      using V(3,5) c p(1,5) by (simp add: curr_cwd_def get_curr_def curr_proc_def call_app reads_def)
    ultimately show ?thesis by (simp add: runs_def)
  qed
  have "runs (for_each [0..<NOFILE] (dup_fd i)) ?u (\<lambda>_ v. runs curr_cwd v (\<lambda>ip w. runs (idup ip) w (\<lambda>ip x. runs (?tail ip) x ?Q)))"
    using dup by (rule runs_mono) (rule tail)
  then have "runs (andthen (for_each [0..<NOFILE] (dup_fd i)) (call curr_cwd (\<lambda>ip. call (idup ip) ?tail))) ?u ?Q"
    by (simp only: runs_andthen_iff runs_call_iff)
  moreover have "fork_rest i p d u = andthen (for_each [0..<NOFILE] (dup_fd i)) (call curr_cwd (\<lambda>ip. call (idup ip) ?tail)) ?u"
    using d c q(1) unfolding fork_rest_def by (simp add: upd_proc_def andthen_def call_app modify_def curr_proc_def)
  ultimately show ?thesis unfolding runs_def by simp
qed

section \<open>The memory of the parent\<close>

text \<open>The new kernel stack is not one of the parent's pages.\<close>

lemma clear_page_frame:
  assumes ok: "space_ok s d" and k: "page_aligned k" "k \<notin> pages (mem s) d" and t: "mem t = memset (mem s) k 0 PGSIZE" "kend t = kend s"
  shows "space_ok t d" "pages (mem t) d = pages (mem s) d" "v < UPAGES \<Longrightarrow> pte (mem t) d v = pte (mem s) d v"
    "umem (mem t) d = umem (mem s) d" "p \<in> pages (mem s) d \<Longrightarrow> same_page (mem t) (mem s) p"
proof -
  show same: "same_page (mem t) (mem s) p" if "p \<in> pages (mem s) d" for p
    unfolding t(1) using space_aligned [OF ok that] k that by (intro same_page_memset) auto
  then have tp: "\<forall>p \<in> table_pages (mem s) d. same_page (mem t) (mem s) p" using table_pages_sub [of "mem s" d] by auto
  show "space_ok t d" "pages (mem t) d = pages (mem s) d" "v < UPAGES \<Longrightarrow> pte (mem t) d v = pte (mem s) d v"
    using space_frame [OF ok t(2) tp] by simp_all
  show "umem (mem t) d = umem (mem s) d" by (rule umem_same [OF ok same])
qed

section \<open>Properties\<close>

text \<open>What a fork needs of a state: the running process \<open>c\<close> with its memory, its files and its directory, and a free
  slot \<open>i\<close> as the last process left it.\<close>

definition fork_ready :: "'z file_state_scheme \<Rightarrow> nat \<Rightarrow> nat \<Rightarrow> bool" where
  "fork_ready s c i \<longleftrightarrow> (\<forall>l \<in> {PtableLock, KmemLock, FtableLock, IcacheLock}. lock_free l s)
     \<and> curr s = Some c \<and> c < length (procs s) \<and> pstate (procs s ! c) = RUNNING
     \<and> find_index (\<lambda>p. pstate p = UNUSED) (procs s) = Some i \<and> ofile (procs s ! i) = replicate NOFILE None
     \<and> length (pname (procs s ! i)) = 16 \<and> nextpid s < 0x7FFFFFFF
     \<and> length (ofile (procs s ! c)) = NOFILE \<and> length (pname (procs s ! c)) = 16 \<and> 0 \<in> set (pname (procs s ! c))
     \<and> (\<forall>f. Some f \<in> set (ofile (procs s ! c)) \<longrightarrow> f < length (files s) \<and> 1 \<le> f_ref (files s ! f))
     \<and> (\<exists>ip < length (inodes s). cwd (procs s ! c) = Some ip)
     \<and> space_ok s (pgdir (procs s ! c)) \<and> sz (procs s ! c) \<le> USERBOUND
     \<and> (\<forall>v < size_pages (sz (procs s ! c)). pte (mem s) (pgdir (procs s ! c)) v \<noteq> 0)"

text \<open>What the child has of the parent, and what it does not share.\<close>

definition child_of :: "proc \<Rightarrow> mem \<Rightarrow> nat \<Rightarrow> proc \<Rightarrow> mem \<Rightarrow> bool" where
  "child_of p m c q n \<longleftrightarrow> pstate q = RUNNABLE \<and> parent q = Some c \<and> sz q = sz p \<and> tf q = (tf p)\<lparr>tf_r0 := 0\<rparr>
     \<and> ofile q = ofile p \<and> cwd q = cwd p \<and> cstr 16 (pname q) = cstr 15 (pname p)
     \<and> (\<forall>a. umem n (pgdir q) a = (if unat a div 4096 < size_pages (sz p) then umem m (pgdir p) a else None))
     \<and> pages n (pgdir q) \<inter> pages n (pgdir p) = {}"

text \<open>After allocproc and the copy of the memory, with the result \<open>d\<close> of copyuvm.\<close>

definition fork_copied :: "'z file_state_scheme \<Rightarrow> nat \<Rightarrow> nat \<Rightarrow> u32 \<Rightarrow> u32 list \<Rightarrow> u32 \<Rightarrow> 'z file_state_scheme \<Rightarrow> bool" where
  "fork_copied s c i k ks d u \<longleftrightarrow> (let p = procs s ! c; n = size_pages (sz p) in
     balanced s u \<and> curr u = curr s \<and> nextpid u = nextpid s + 1 \<and> procs u = (procs s)[i := newborn k (nextpid s) (procs s ! i)]
     \<and> files u = files s \<and> inodes u = inodes s \<and> kend u = kend s
     \<and> (\<forall>q \<in> pages (mem s) (pgdir p). same_page (mem u) (mem s) q)
     \<and> (if copy_needs n \<le> length ks then space_ok u d \<and> pages (mem u) d \<subseteq> set ks
          \<and> (\<forall>a. umem (mem u) d a = (if unat a div 4096 < n then umem (mem s) (pgdir p) a else None))
        else d = 0 \<and> (\<exists>ks'. kmem_inv u ks' \<and> set ks' \<subseteq> set ks \<and> length ks' = length ks - (if copy_leaks n (length ks) then 1 else 0))))"

lemma fork_readyD:
  assumes "fork_ready s c i"
  shows "lock_free PtableLock s" "lock_free KmemLock s" "lock_free FtableLock s" "lock_free IcacheLock s"
    "curr s = Some c" "c < length (procs s)" "i < length (procs s)" "i \<noteq> c" "find_index (\<lambda>p. pstate p = UNUSED) (procs s) = Some i"
    "ofile (procs s ! i) = replicate NOFILE None" "length (pname (procs s ! i)) = 16" "nextpid s < 0x7FFFFFFF"
    "length (ofile (procs s ! c)) = NOFILE" "length (pname (procs s ! c)) = 16" "0 \<in> set (pname (procs s ! c))"
    "\<forall>f. Some f \<in> set (ofile (procs s ! c)) \<longrightarrow> f < length (files s) \<and> 1 \<le> f_ref (files s ! f)"
    "space_ok s (pgdir (procs s ! c))" "sz (procs s ! c) \<le> USERBOUND"
    "\<forall>v < size_pages (sz (procs s ! c)). pte (mem s) (pgdir (procs s ! c)) v \<noteq> 0"
  using assms unfolding fork_ready_def by (auto simp: find_index_Some)

text \<open>fork up to the copy.\<close>

lemma fork_via:
  assumes ready: "fork_ready s c i" and inv: "kmem_inv s (k # ks)" and sep: "pages (mem s) (pgdir (procs s ! c)) \<inter> set (k # ks) = {}"
    and rest: "\<And>d u. fork_copied s c i k ks d u \<Longrightarrow> runs (fork_rest i (procs s ! c) d) u Q"
  shows "runs fork s Q"
proof -
  let ?p = "procs s ! c" and ?d = "pgdir (procs s ! c)"
  note R = fork_readyD [OF ready]
  have kk: "page_aligned k" "k \<notin> pages (mem s) ?d" using inv sep page_ok_aligned by (auto simp: kmem_inv_def)
  show ?thesis
    unfolding fork_eq
  proof (rule runs_call_mono [OF runs_allocproc [OF R(1,2) inv R(9,12)]], elim conjE)
    fix r and t :: "'a file_state_scheme"
    assume r: "r = Some i" and t: "nextpid t = nextpid s + 1" "kmem_inv t ks" "balanced s t" "curr t = curr s"
      "procs t = (procs s)[i := newborn k (nextpid s) (procs s ! i)]" "kend t = kend s" "mem t = memset (mem s) k 0 PGSIZE"
      "ptable.more t = ptable.more s"
    note F = clear_page_frame [OF R(17) kk t(7,6)] and M = ptable_more_rest [OF t(8)]
    have pt: "procs t ! c = ?p" using t(5) R(8) by simp
    have sep': "pages (mem t) ?d \<inter> set ks = {}" using F(2) sep by auto
    have pres: "\<forall>v < size_pages (sz ?p). pte (mem t) ?d v \<noteq> 0" using F(3) R(19) size_pages(1) [OF R(18)] by simp
    have lk: "lock_free KmemLock t" using balanced_lock_free [OF t(3)] R(2) by simp
    have "runs (copyuvm ?d (sz ?p)) t (\<lambda>d u. runs (fork_rest i ?p d) u Q)"
    proof (rule runs_mono [OF runs_copyuvm [OF lk t(2) F(1) sep' R(18) pres]], rule rest)
      fix d and u :: "'a file_state_scheme"
      assume u: "balanced t u \<and> kmem_frame t u \<and> (\<forall>p \<in> pages (mem t) ?d. same_page (mem u) (mem t) p) \<and>
        (if copy_needs (size_pages (sz ?p)) \<le> length ks then
           space_ok u d \<and> (\<exists>ks'. kmem_inv u ks' \<and> length ks' + copy_needs (size_pages (sz ?p)) = length ks
                \<and> pages (mem u) d \<inter> set ks' = {} \<and> pages (mem u) d \<union> set ks' = set ks)
           \<and> (\<forall>v < UPAGES. pte (mem u) d v \<noteq> 0 \<longleftrightarrow> v < size_pages (sz ?p))
           \<and> (\<forall>v < size_pages (sz ?p). PTE_FLAGS (pte (mem u) d v) = PTE_FLAGS (pte (mem t) ?d v)
                \<and> same_bytes (mem u) (frame (pte (mem u) d v)) (mem t) (frame (pte (mem t) ?d v)))
           \<and> (\<forall>a. umem (mem u) d a = (if unat a div 4096 < size_pages (sz ?p) then umem (mem t) ?d a else None))
         else d = 0 \<and> (\<exists>ks'. kmem_inv u ks' \<and> set ks' \<subseteq> set ks
           \<and> length ks' = length ks - (if copy_leaks (size_pages (sz ?p)) (length ks) then 1 else 0)))"
      then have f: "balanced s u" "kmem_frame t u" using t(3) by (auto intro: balanced_trans)
      note K = kmem_frame_rest [OF f(2)]
      have "kend u = kend t" using f(2) by (simp add: kmem_frame_iff)
      moreover have "\<forall>q \<in> pages (mem s) ?d. same_page (mem u) (mem s) q" using u F(2,5) by (blast intro: same_page_trans)
      ultimately show "fork_copied s c i k ks d u"
        unfolding fork_copied_def Let_def using f(1) K t M u F(4) by (simp only: if_bool_eq_conj) (auto split: if_splits)
    qed
    then have "runs (call (copyuvm ?d (sz ?p)) (fork_rest i ?p)) t Q" by (simp only: runs_call_iff)
    moreover have "(case r of None \<Rightarrow> return (- 1) | Some np \<Rightarrow>
        call (get_curr (\<lambda>p. p)) (\<lambda>cp. call (copyuvm (pgdir cp) (sz cp)) (fork_rest np cp))) t = call (copyuvm ?d (sz ?p)) (fork_rest i ?p) t"
      using r t(4) R(5,6) t(5) pt by (simp add: get_curr_def curr_proc_def call_app reads_def)
    ultimately show "runs (case r of None \<Rightarrow> return (- 1) | Some np \<Rightarrow>
        call (get_curr (\<lambda>p. p)) (\<lambda>cp. call (copyuvm (pgdir cp) (sz cp)) (fork_rest np cp))) t Q"
      unfolding runs_def by simp
  qed
qed

text \<open>What fork has done when it returns the child, and when it has failed.\<close>

definition fork_done :: "'z file_state_scheme \<Rightarrow> nat \<Rightarrow> nat \<Rightarrow> int \<Rightarrow> 'z file_state_scheme \<Rightarrow> bool" where
  "fork_done s c i r t \<longleftrightarrow> r = nextpid s \<and> nextpid t = nextpid s + 1 \<and> pid (procs t ! i) = nextpid s
    \<and> child_of (procs s ! c) (mem s) c (procs t ! i) (mem t)
    \<and> (\<forall>f < length (files s). files t ! f = (files s ! f)\<lparr>f_ref := f_ref (files s ! f) + int (count_list (ofile (procs s ! c)) (Some f))\<rparr>)
    \<and> (\<forall>j < length (inodes s). inodes t ! j = (inodes s ! j)\<lparr>i_ref := i_ref (inodes s ! j) + (if cwd (procs s ! c) = Some j then 1 else 0)\<rparr>)"

definition fork_failed :: "'z file_state_scheme \<Rightarrow> nat \<Rightarrow> nat \<Rightarrow> u32 list \<Rightarrow> int \<Rightarrow> 'z file_state_scheme \<Rightarrow> bool" where
  "fork_failed s c i ps r t \<longleftrightarrow> r = - 1 \<and> pstate (procs t ! i) = UNUSED \<and> files t = files s \<and> inodes t = inodes s
    \<and> (\<exists>qs. kmem_inv t qs \<and> set qs \<subseteq> set ps \<and> length qs = length ps
         - (if ps \<noteq> [] \<and> copy_leaks (size_pages (sz (procs s ! c))) (length ps - 1) then 1 else 0))"

definition rest_untouched :: "'z file_state_scheme \<Rightarrow> nat \<Rightarrow> nat \<Rightarrow> 'z file_state_scheme \<Rightarrow> bool" where
  "rest_untouched s c i t \<longleftrightarrow> length (procs t) = length (procs s) \<and> (\<forall>j < length (procs s). j \<noteq> i \<longrightarrow> procs t ! j = procs s ! j)
    \<and> umem (mem t) (pgdir (procs s ! c)) = umem (mem s) (pgdir (procs s ! c))"

lemma runs_fork_child:
  assumes ready: "fork_ready s c i" and sep: "pages (mem s) (pgdir (procs s ! c)) \<inter> set (k # ks) = {}"
    and room: "copy_needs (size_pages (sz (procs s ! c))) \<le> length ks" and u: "fork_copied s c i k ks d u"
  shows "runs (fork_rest i (procs s ! c) d) u (\<lambda>r t. rest_untouched s c i t \<and> fork_done s c i r t)"
proof -
  let ?p = "procs s ! c" and ?d = "pgdir (procs s ! c)"
  note R = fork_readyD [OF ready]
  obtain ip where ip: "ip < length (inodes s)" "cwd ?p = Some ip" using ready by (auto simp: fork_ready_def)
  have U: "balanced s u" "curr u = Some c" "nextpid u = nextpid s + 1" "procs u = (procs s)[i := newborn k (nextpid s) (procs s ! i)]"
    "files u = files s" "inodes u = inodes s" "kend u = kend s" "\<And>q. q \<in> pages (mem s) ?d \<Longrightarrow> same_page (mem u) (mem s) q"
    "space_ok u d" "pages (mem u) d \<subseteq> set ks"
    "\<forall>a. umem (mem u) d a = (if unat a div 4096 < size_pages (sz ?p) then umem (mem s) ?d a else None)"
    using u room R(5) by (simp_all add: fork_copied_def Let_def)
  have d: "d \<noteq> 0" using space_dir(1) [OF U(9)] by (simp add: page_ok_def)
  have um: "umem (mem u) ?d = umem (mem s) ?d" by (rule umem_same [OF R(17) U(8)])
  have "\<forall>q \<in> table_pages (mem s) ?d. same_page (mem u) (mem s) q" using U(8) table_pages_sub [of "mem s" ?d] by blast
  then have "pages (mem u) ?d = pages (mem s) ?d" by (intro space_frame(2) [OF R(17) U(7)])
  then have dis: "pages (mem u) d \<inter> pages (mem u) ?d = {}" using sep U(10) by auto
  have pu: "procs u ! c = ?p" "c < length (procs u)" "i < length (procs u)" using U(4) R(6-8) by simp_all
  have lu: "lock_free FtableLock u" "lock_free IcacheLock u" using balanced_lock_free [OF U(1)] R(3,4) by simp_all
  have qi: "ofile (procs u ! i) = replicate NOFILE None" "length (pname (procs u ! i)) = 16" "pid (procs u ! i) = nextpid s"
    using U(4) R(7,10,11) by (simp_all add: newborn_def)
  have iu: "ip < length (inodes u)" using ip(1) U(6) by simp
  have refs: "\<forall>f. Some f \<in> set (ofile ?p) \<longrightarrow> f < length (files u) \<and> 1 \<le> f_ref (files u ! f)" using R(16) U(5) by simp
  show ?thesis
  proof (rule runs_mono [OF runs_fork_rest [OF lu U(2) pu(2,3) R(8) pu(1) [symmetric] R(13-15) ip(2) refl qi(1,2) refs iu d]], elim conjE exE)
    fix r nm and v :: "'a file_state_scheme" assume v: "r = pid (procs u ! i)" "mem v = mem u" "nextpid v = nextpid u" "cstr 16 nm = cstr 15 (pname ?p)"
      "procs v = (procs u)[i := (procs u ! i)\<lparr>pgdir := d, sz := sz ?p, parent := Some c,
        tf := (tf ?p)\<lparr>tf_r0 := 0\<rparr>, ofile := ofile ?p, cwd := Some ip, pstate := RUNNABLE, pname := nm\<rparr>]"
      "\<forall>f < length (files u). files v ! f = (files u ! f)\<lparr>f_ref := f_ref (files u ! f) + int (count_list (ofile ?p) (Some f))\<rparr>"
      "inodes v = (inodes u)[ip := (inodes u ! ip)\<lparr>i_ref := i_ref (inodes u ! ip) + 1\<rparr>]"
    have "child_of ?p (mem s) c (procs v ! i) (mem v)"
      using v(2,4,5) pu ip(2) dis U(11) by (simp add: child_of_def)
    moreover have "\<forall>j < length (procs s). j \<noteq> i \<longrightarrow> procs v ! j = procs s ! j" "length (procs v) = length (procs s)"
      using v(5) U(4) by simp_all
    moreover have "\<forall>j < length (inodes s). inodes v ! j = (inodes s ! j)\<lparr>i_ref := i_ref (inodes s ! j) + (if cwd ?p = Some j then 1 else 0)\<rparr>"
      using v(7) U(6) ip by (simp add: nth_list_update)
    ultimately show "rest_untouched s c i v \<and> fork_done s c i r v"
      using v pu qi U(3,5) um by (simp add: rest_untouched_def fork_done_def)
  qed
qed

text \<open>Without the memory for the copy the kernel stack goes back.\<close>

lemma runs_fork_undo:
  assumes ready: "fork_ready s c i" and inv: "kmem_inv s (k # ks)" and sep: "pages (mem s) (pgdir (procs s ! c)) \<inter> set (k # ks) = {}"
    and room: "\<not> copy_needs (size_pages (sz (procs s ! c))) \<le> length ks" and u: "fork_copied s c i k ks d u"
  shows "runs (fork_rest i (procs s ! c) d) u (\<lambda>r t. rest_untouched s c i t \<and> fork_failed s c i (k # ks) r t)"
proof -
  let ?p = "procs s ! c" and ?d = "pgdir (procs s ! c)" and ?n = "size_pages (sz (procs s ! c))"
  note R = fork_readyD [OF ready]
  obtain qs where U: "balanced s u" "procs u = (procs s)[i := newborn k (nextpid s) (procs s ! i)]"
    "files u = files s" "inodes u = inodes s" "kend u = kend s" "\<And>q. q \<in> pages (mem s) ?d \<Longrightarrow> same_page (mem u) (mem s) q"
    "d = 0" "kmem_inv u qs" "set qs \<subseteq> set ks" "length qs = length ks - (if copy_leaks ?n (length ks) then 1 else 0)"
    using u room by (auto simp: fork_copied_def Let_def)
  have k: "page_ok s k" "k \<notin> set ks" "page_aligned k" "k \<notin> pages (mem s) ?d" using inv sep page_ok_aligned by (auto simp: kmem_inv_def)
  let ?u = "u\<lparr>procs := (procs u)[i := (procs u ! i)\<lparr>pgdir := 0\<rparr>]\<rparr>"
  have lu: "lock_free KmemLock ?u" using balanced_lock_free [OF U(1), of KmemLock] R(2) by (simp add: lock_free_def holding_def cli_ok_def)
  have iu: "kmem_inv ?u qs" by (rule iffD2 [OF kmem_inv_eq U(8)]) simp_all
  have ku: "page_ok ?u k" "k \<notin> set qs" using k(1,2) U(5,9) by (auto simp: page_ok_def kfree_bad_def)
  let ?fin = "andthen (upd_proc i (\<lambda>p. p\<lparr>kstack := 0, pstate := UNUSED\<rparr>)) (return (- 1)) :: ('a file_state_scheme, int) kern"
  have "runs (andthen (kfree k) ?fin) ?u (\<lambda>r t. rest_untouched s c i t \<and> fork_failed s c i (k # ks) r t)"
    unfolding andthen_def [of "kfree k"]
  proof (rule runs_call_mono [OF runs_kfree [OF lu iu ku]], elim conjE)
    fix t :: "'a file_state_scheme"
    assume t: "kmem_frame ?u t" "kmem_inv t (k # qs)" "mem t = store32 (memset (mem ?u) k 1 PGSIZE) k (freelist ?u)"
    let ?t = "t\<lparr>procs := (procs t)[i := (procs t ! i)\<lparr>kstack := 0, pstate := UNUSED\<rparr>]\<rparr>"
    note K = kmem_frame_rest [OF t(1), simplified]
    have same: "same_page (mem ?t) (mem s) q" if q: "q \<in> pages (mem s) ?d" for q
    proof -
      have al: "page_aligned q" "k \<noteq> q" using space_aligned [OF R(17) q] k(4) q by auto
      have "same_page (mem t) (memset (mem u) k 1 PGSIZE) q"
        unfolding t(3) using same_page_store32 [OF k(3) al, of 0] by simp
      moreover have "same_page (memset (mem u) k 1 PGSIZE) (mem s) q"
        using same_page_memset [OF k(3) al] U(6) [OF q] by (rule same_page_trans)
      ultimately have "same_page (mem t) (mem s) q" by (rule same_page_trans)
      then show ?thesis by simp
    qed
    have "umem (mem ?t) ?d = umem (mem s) ?d" by (rule umem_same [OF R(17) same])
    then have un: "rest_untouched s c i ?t" using K(1) U(2) by (simp add: rest_untouched_def)
    have "kmem_inv ?t (k # qs)" by (rule iffD2 [OF kmem_inv_eq t(2)]) simp_all
    moreover have "set (k # qs) \<subseteq> set (k # ks)" using U(9) by auto
    moreover have "length (k # qs) = length (k # ks) - (if copy_leaks ?n (length (k # ks) - 1) then 1 else 0)"
      using U(10) by (auto simp: copy_leaks_def)
    moreover have "pstate (procs ?t ! i) = UNUSED" using K(1) U(2) R(7) by simp
    moreover have "files ?t = files s" "inodes ?t = inodes s" using K U(3,4) by simp_all
    ultimately have "fork_failed s c i (k # ks) (- 1) ?t"
      unfolding fork_failed_def by (intro conjI exI [of _ "k # qs"]) (simp only: simp_thms list.simps)+
    with un show "runs ?fin t (\<lambda>r t. rest_untouched s c i t \<and> fork_failed s c i (k # ks) r t)" by (simp add: upd_proc_def)
  qed
  moreover have "fork_rest i ?p d u = andthen (kfree k) ?fin ?u"
    using U(2,7) R(7) by (simp add: fork_rest_def upd_proc_def andthen_def call_app modify_def reads_def newborn_def)
  ultimately show ?thesis unfolding runs_def by simp
qed

text \<open>Without a page for the kernel stack.\<close>

lemma runs_allocproc_none:
  assumes lf: "lock_free PtableLock s" "lock_free KmemLock s" and inv: "kmem_inv s []"
    and i: "find_index (\<lambda>p. pstate p = UNUSED) (procs s) = Some i" and n: "nextpid s < 0x7FFFFFFF"
  shows "runs allocproc s (\<lambda>r t. r = None \<and> kmem_inv t [] \<and> mem t = mem s \<and> ptable.more t = ptable.more s
    \<and> procs t = (procs s)[i := (procs s ! i)\<lparr>pid := nextpid s, kstack := 0, pstate := UNUSED\<rparr>])"
  unfolding allocproc_def
proof (rule runs_call_mono [OF runs_find_unused [OF lf(1) i n]], elim conjE)
  fix r and t :: "'a ptable_scheme"
  assume r: "r = Some i" and t: "procs t = (procs s)[i := (procs s ! i)\<lparr>pstate := EMBRYO, pid := nextpid s\<rparr>]"
    "balanced s t" and mt: "mem t = mem s" "freelist t = freelist s" "kend t = kend s" "ptable.more t = ptable.more s"
  have il: "i < length (procs s)" using i by (simp add: find_index_Some)
  have lf': "lock_free KmemLock t" using t(2) lf(2) by (simp add: balanced_lock_free)
  have inv': "kmem_inv t []" using inv kmem_inv_eq [OF mt(1-3)] by simp
  have "runs (call kalloc (\<lambda>k. andthen (upd_proc i (\<lambda>p. p\<lparr>kstack := k\<rparr>))
         (if k = 0 then andthen (upd_proc i (\<lambda>p. p\<lparr>pstate := UNUSED\<rparr>)) (return None)
          else andthen (set_mem k 0 PGSIZE) (andthen (upd_proc i (\<lambda>p. p\<lparr>tf := tf0,
                ctx := ctx0\<lparr>ctx_pc := Forkret, ctx_lr := Trapret\<rparr>\<rparr>)) (return (Some i)))))) t
    (\<lambda>r t. r = None \<and> kmem_inv t [] \<and> mem t = mem s \<and> ptable.more t = ptable.more s
    \<and> procs t = (procs s)[i := (procs s ! i)\<lparr>pid := nextpid s, kstack := 0, pstate := UNUSED\<rparr>])"
  proof (rule runs_call_mono [OF runs_kalloc [OF lf' inv']], elim conjE)
    fix q :: u32 and u :: "'a ptable_scheme"
    assume u: "kmem_frame t u" "mem u = mem t" "kmem_inv u (tl [])" "q = (if [] = [] then 0 else hd [])"
    have "procs u = procs t \<and> ptable.more u = ptable.more t" using u(1) unfolding kmem_frame_def by (rule ssubst) simp
    moreover have "kmem_inv (u\<lparr>procs := ps\<rparr>) []" for ps using u(3) kmem_inv_eq [of "u\<lparr>procs := ps\<rparr>" u "[]"] by simp
    ultimately show "runs (andthen (upd_proc i (\<lambda>p. p\<lparr>kstack := q\<rparr>))
         (if q = 0 then andthen (upd_proc i (\<lambda>p. p\<lparr>pstate := UNUSED\<rparr>)) (return None)
          else andthen (set_mem q 0 PGSIZE) (andthen (upd_proc i (\<lambda>p. p\<lparr>tf := tf0,
                ctx := ctx0\<lparr>ctx_pc := Forkret, ctx_lr := Trapret\<rparr>\<rparr>)) (return (Some i))))) u
      (\<lambda>r t. r = None \<and> kmem_inv t [] \<and> mem t = mem s \<and> ptable.more t = ptable.more s
      \<and> procs t = (procs s)[i := (procs s ! i)\<lparr>pid := nextpid s, kstack := 0, pstate := UNUSED\<rparr>])"
      using u(2,4) t(1) mt(1,4) il by (simp add: upd_proc_def)
  qed
  then show "runs (case r of None \<Rightarrow> return None
     | Some i \<Rightarrow> call kalloc (\<lambda>k. andthen (upd_proc i (\<lambda>p. p\<lparr>kstack := k\<rparr>))
         (if k = 0 then andthen (upd_proc i (\<lambda>p. p\<lparr>pstate := UNUSED\<rparr>)) (return None)
          else andthen (set_mem k 0 PGSIZE) (andthen (upd_proc i (\<lambda>p. p\<lparr>tf := tf0,
                ctx := ctx0\<lparr>ctx_pc := Forkret, ctx_lr := Trapret\<rparr>\<rparr>)) (return (Some i)))))) t
    (\<lambda>r t. r = None \<and> kmem_inv t [] \<and> mem t = mem s \<and> ptable.more t = ptable.more s
    \<and> procs t = (procs s)[i := (procs s ! i)\<lparr>pid := nextpid s, kstack := 0, pstate := UNUSED\<rparr>])"
    unfolding r option.case .
qed

lemma runs_fork_no_stack:
  assumes ready: "fork_ready s c i" and inv: "kmem_inv s []"
  shows "runs fork s (\<lambda>r t. rest_untouched s c i t \<and> fork_failed s c i [] r t)"
  unfolding fork_eq
proof (rule runs_call_mono)
  note R = fork_readyD [OF ready]
  show "runs allocproc s (\<lambda>r t. r = None \<and> kmem_inv t [] \<and> mem t = mem s \<and> ptable.more t = ptable.more s
    \<and> procs t = (procs s)[i := (procs s ! i)\<lparr>pid := nextpid s, kstack := 0, pstate := UNUSED\<rparr>])"
    by (rule runs_allocproc_none [OF R(1,2) inv R(9,12)])
  fix r :: "nat option" and t :: "'a file_state_scheme"
  assume t: "r = None \<and> kmem_inv t [] \<and> mem t = mem s \<and> ptable.more t = ptable.more s
    \<and> procs t = (procs s)[i := (procs s ! i)\<lparr>pid := nextpid s, kstack := 0, pstate := UNUSED\<rparr>]"
  then have "ptable.more t = ptable.more s" by blast
  note M = ptable_more_rest [OF this]
  from t M R(7) show "runs (case r of None \<Rightarrow> return (- 1) | Some np \<Rightarrow>
        call (get_curr (\<lambda>p. p)) (\<lambda>cp. call (copyuvm (pgdir cp) (sz cp)) (fork_rest np cp))) t
      (\<lambda>r t. rest_untouched s c i t \<and> fork_failed s c i [] r t)"
    by (simp add: rest_untouched_def fork_failed_def)
qed

text \<open>C15: fork, with a free slot and \<open>ps\<close> the free pages. With a page for the kernel stack and pages for the copy, it
  returns the identifier of a child that is RUNNABLE in the slot, has the parent's registers but 0 for the value of its
  own fork, its memory byte for byte in pages of its own, its open files, its working directory and its name; each
  open file has one reference more for each descriptor and the directory one more. With fewer pages it returns -1, the
  slot is free again, files and inodes are as they were, and the pages it took are free again, but for the one
  copyuvm loses when it has no page for a table. In either case the parent, its memory and every other process are
  as they were.\<close>

theorem fork_duplicates:
  assumes ready: "fork_ready s c i" and inv: "kmem_inv s ps" and sep: "pages (mem s) (pgdir (procs s ! c)) \<inter> set ps = {}"
  shows "runs fork s (\<lambda>r t. rest_untouched s c i t
    \<and> (if Suc (copy_needs (size_pages (sz (procs s ! c)))) \<le> length ps then fork_done s c i r t else fork_failed s c i ps r t))"
proof (cases ps)
  case Nil
  then show ?thesis using runs_fork_no_stack [OF ready] inv by simp
next
  case (Cons k ks)
  note I = inv [unfolded Cons] and S = sep [unfolded Cons]
  show ?thesis
  proof (rule fork_via [OF ready I S])
    fix d u assume u: "fork_copied s c i k ks d u"
    show "runs (fork_rest i (procs s ! c) d) u (\<lambda>r t. rest_untouched s c i t
      \<and> (if Suc (copy_needs (size_pages (sz (procs s ! c)))) \<le> length ps then fork_done s c i r t else fork_failed s c i ps r t))"
      using runs_fork_child [OF ready S _ u] runs_fork_undo [OF ready I S _ u]
      by (cases "copy_needs (size_pages (sz (procs s ! c))) \<le> length ks") (simp_all add: Cons)
  qed
qed

text \<open>A machine with four free pages. Process 0 runs in the space of one page, holds file 0 as its descriptors 0 and 1
  and inode 0 as its directory; process 1 is a free slot.\<close>

definition fork_start :: file_state where
  "fork_start = fs_state.extend (log_state.extend
     (log_boot\<lparr>mem := store32 (mem vm_start) 0x80106000 0x80103000, freelist := 0x80106000,
        procs := [proc0\<lparr>pstate := RUNNING, pid := 1, sz := 4096, pgdir := 0x80100000,
          ofile := Some 0 # Some 0 # replicate 14 None, cwd := Some 0\<rparr>, proc0], curr := Some 0, nextpid := 2\<rparr>)
     \<lparr>inodes = [inode0]\<rparr>) \<lparr>files = [file0\<lparr>f_ref := 2\<rparr>]\<rparr>"

lemma fork_start_simps [simp]:
  "mem fork_start = store32 (mem vm_start) 0x80106000 0x80103000" "freelist fork_start = 0x80106000" "kend fork_start = 0x80008000"
  "procs fork_start = [proc0\<lparr>pstate := RUNNING, pid := 1, sz := 4096, pgdir := 0x80100000,
     ofile := Some 0 # Some 0 # replicate 14 None, cwd := Some 0\<rparr>, proc0]"
  "curr fork_start = Some 0" "nextpid fork_start = 2" "inodes fork_start = [inode0]" "files fork_start = [file0\<lparr>f_ref := 2\<rparr>]"
  by (simp_all add: fork_start_def log_boot_def bio_start_def pipe_start_def ptable_start_def
      fs_state.defs log_state.defs bcache.defs ide_state.defs pipe_state.defs ptable.defs)

lemma fork_start_lock: "lock_free l fork_start"
  using bio_start_facts(1) [of l]
  by (simp add: fork_start_def log_boot_def fs_state.defs log_state.defs bcache.defs lock_free_def cli_ok_def holding_def)

lemma fork_start_memory:
  "kmem_inv fork_start [0x80106000, 0x80103000, 0x80104000, 0x80105000]" "space_ok fork_start 0x80100000"
  "pages (mem fork_start) 0x80100000 = {0x80102000, 0x80101000, 0x80100000}" "user_page (mem fork_start) 0x80100000 0"
proof -
  let ?ks = "[0x80103000, 0x80104000, 0x80105000] :: u32 list" and ?m = "store32 (mem vm_start) 0x80106000 0x80103000"
  have kend: "kend vm_start = 0x80008000" by (simp add: vm_start_def vm_table_def vm_dir_def vm_pool_def kmem_one_def)
  have same: "same_page ?m (mem vm_start) p" if "page_aligned p" "p \<noteq> 0x80106000" for p
    using same_page_store32 [of "0x80106000" p 0] that by (simp add: page_aligned_def)
  have "\<forall>p \<in> table_pages (mem vm_start) 0x80100000. same_page ?m (mem vm_start) p"
    using table_pages_sub [of "mem vm_start" "0x80100000"] unfolding vm_start_facts(4)
    by (auto intro!: same simp: page_aligned_def)
  note F = space_frame [OF vm_start_facts(3) _ this [folded fork_start_simps(1)], unfolded kend fork_start_simps(3), OF refl]
  show "space_ok fork_start 0x80100000" "pages (mem fork_start) 0x80100000 = {0x80102000, 0x80101000, 0x80100000}"
    using F(1,2) vm_start_facts(4) by simp_all
  show "user_page (mem fork_start) 0x80100000 0" using vm_start_facts(5) F(4) by (simp add: user_page_def)
  have "kmem_inv (vm_start\<lparr>mem := ?m\<rparr>) ?ks"
    using same by (intro kmem_inv_mem [OF vm_start_facts(2)]) (auto simp: page_aligned_def)
  moreover have "freelist vm_start = 0x80103000" by (simp add: vm_start_def vm_table_def vm_dir_def vm_pool_def)
  ultimately show "kmem_inv fork_start [0x80106000, 0x80103000, 0x80104000, 0x80105000]"
    by (simp add: kmem_inv_def page_ok_def kfree_bad_def kend layout_defs v2p_def)
qed

lemma fork_start_ready: "fork_ready fork_start 0 1"
proof -
  have "space_ok fork_start 0x80100000" "pte (mem fork_start) 0x80100000 0 \<noteq> 0"
    using fork_start_memory(2,4) by (simp_all add: user_page_def)
  then show ?thesis
    using fork_start_lock by (simp add: fork_ready_def proc0_def NOFILE_def size_pages_def USERBOUND_def)
qed

theorem fork_duplicates_witness:
  "runs fork fork_start (\<lambda>r t. r = 2 \<and> pstate (procs t ! 1) = RUNNABLE \<and> tf_r0 (tf (procs t ! 1)) = 0
     \<and> umem (mem t) (pgdir (procs t ! 1)) 7 = umem (mem fork_start) 0x80100000 7 \<and> f_ref (files t ! 0) = 4 \<and> i_ref (inodes t ! 0) = 1)
   \<and> runs fork (fork_start\<lparr>freelist := 0\<rparr>) (\<lambda>r t. r = - 1 \<and> pstate (procs t ! 1) = UNUSED)"
proof
  let ?ks = "[0x80106000, 0x80103000, 0x80104000, 0x80105000] :: u32 list" and ?e = "fork_start\<lparr>freelist := 0\<rparr>"
  have d: "pgdir (procs fork_start ! 0) = 0x80100000" "size_pages 4096 = 1" "copy_needs 1 = 3"
    by (simp_all add: size_pages_def copy_needs_def)
  have "pages (mem fork_start) (pgdir (procs fork_start ! 0)) \<inter> set ?ks = {}"
    unfolding d(1) fork_start_memory(3) by simp
  from fork_duplicates [OF fork_start_ready fork_start_memory(1) this]
  show "runs fork fork_start (\<lambda>r t. r = 2 \<and> pstate (procs t ! 1) = RUNNABLE \<and> tf_r0 (tf (procs t ! 1)) = 0
     \<and> umem (mem t) (pgdir (procs t ! 1)) 7 = umem (mem fork_start) 0x80100000 7 \<and> f_ref (files t ! 0) = 4 \<and> i_ref (inodes t ! 0) = 1)"
    by (rule runs_mono) (auto simp: fork_done_def child_of_def inode0_def d(2) copy_needs_def)
  have "space_ok ?e p = space_ok fork_start p" for p by (simp add: space_ok_def page_ok_def kfree_bad_def)
  moreover have "lock_free l ?e = lock_free l fork_start" for l by (simp add: lock_free_def holding_def cli_ok_def)
  ultimately have "fork_ready ?e 0 1" using fork_start_ready by (simp add: fork_ready_def)
  moreover have "kmem_inv ?e []" by (simp add: kmem_inv_def)
  ultimately show "runs fork ?e (\<lambda>r t. r = - 1 \<and> pstate (procs t ! 1) = UNUSED)"
    by (intro runs_mono [OF fork_duplicates [of ?e 0 1 "[]"]]) (simp_all add: fork_failed_def)
qed

end
