(* ===== verification/Keylines.thy ===== *)
theory Keylines
  imports Keyboard
begin

text \<open>
  What the line discipline of uart\_keyboard.c promises: a buffer of complete lines for the readers and the line
  being typed, behind the ring of 128 bytes and its three indices that count up for ever.
\<close>

section \<open>Lines\<close>

text \<open>One character typed: the complete lines and the line being edited.\<close>

definition type_char :: "int \<Rightarrow> u8 list \<times> u8 list \<Rightarrow> u8 list \<times> u8 list" where
  "type_char c = (\<lambda>(done, line).
     if c = CTRL_P then (done, line)
     else if c = CTRL_U then (done, [])
     else if c = CTRL_H \<or> c = DEL then (done, butlast line)
     else if c \<noteq> 0 \<and> length done + length line < INPUT_BUF then
       let c = (if c = CR then NL else c); line = line @ [of_int c] in
       if c = NL \<or> c = CTRL_D \<or> length done + length line = INPUT_BUF then (done @ line, []) else (done, line)
     else (done, line))"

text \<open>A read of \<open>n\<close> bytes: it ends after a newline, at a CTRL-D, which only a read with nothing before it
  consumes, or when it has its bytes; else it waits.\<close>

fun take_line :: "nat \<Rightarrow> u8 list \<Rightarrow> u8 list \<Rightarrow> read_end \<times> u8 list" where
  "take_line 0 acc ready = (Got acc, ready)"
| "take_line (Suc n) acc [] = (Waiting (Suc n) acc, [])"
| "take_line (Suc n) acc (c # ready) =
     (if c = of_int CTRL_D then (Got acc, if acc \<noteq> [] then c # ready else ready)
      else if c = of_int NL then (Got (acc @ [c]), ready)
      else take_line n (acc @ [c]) ready)"

section \<open>The ring\<close>

definition ring_bytes :: "u8 list \<Rightarrow> u32 \<Rightarrow> nat \<Rightarrow> u8 list" where
  "ring_bytes b i n = map (\<lambda>k. b ! slot (i + of_nat k)) [0..<n]"

definition kbd_lines :: "kbd \<Rightarrow> u8 list \<times> u8 list" where
  "kbd_lines q = (ring_bytes (kbuf q) (kr q) (unat (kw q - kr q)), ring_bytes (kbuf q) (kw q) (unat (ke q - kw q)))"

definition kbd_ok :: "kbd \<Rightarrow> bool" where
  "kbd_ok q \<longleftrightarrow> length (kbuf q) = INPUT_BUF \<and> unat (kw q - kr q) + unat (ke q - kw q) \<le> INPUT_BUF
     \<and> of_int NL \<notin> set (snd (kbd_lines q))"

lemma slot_nat: "slot (i + of_nat k) = (unat i + k) mod 128"
proof -
  have "slot (i + of_nat k) = unat (i + of_nat k) mod 128"
    by (simp add: slot_def INPUT_BUF_def unat_mod_distrib)
  also have "unat (i + of_nat k :: u32) = (unat i + k) mod 2 ^ 32"
    by (simp add: unat_word_ariths unat_of_nat mod_add_right_eq)
  also have "(unat i + k) mod 2 ^ 32 mod 128 = (unat i + k) mod 128"
    by (rule mod_mod_cancel) simp
  finally show ?thesis .
qed

lemma slot_lt: "slot i < 128"
  using slot_nat [of i 0] by simp

lemma slot_less: "j < k \<Longrightarrow> k < 128 \<Longrightarrow> slot (i + of_nat j) \<noteq> slot (i + of_nat k)"
proof
  assume *: "j < k" "k < 128" "slot (i + of_nat j) = slot (i + of_nat k)"
  then have "(unat i + k) mod 128 = (unat i + j) mod 128" unfolding slot_nat by simp
  then have "128 dvd (unat i + k) - (unat i + j)" using *(1) by (subst mod_eq_dvd_iff_nat [symmetric]) simp_all
  with * show False by (auto dest: dvd_imp_le)
qed

lemma ring_bytes_simps:
  "length (ring_bytes b i n) = n" "ring_bytes b i 0 = []"
  "ring_bytes b i (Suc n) = ring_bytes b i n @ [b ! slot (i + of_nat n)]"
  by (simp_all add: ring_bytes_def)

lemma ring_bytes_add: "ring_bytes b i (m + n) = ring_bytes b i m @ ring_bytes b (i + of_nat m) n"
  by (induction n) (simp_all add: ring_bytes_simps add.assoc)

lemma ring_bytes_Cons: "ring_bytes b i (Suc n) = b ! slot i # ring_bytes b (i + 1) n"
  using ring_bytes_add [of b i 1 n] by (simp add: ring_bytes_simps(3) [of b i 0, simplified] ring_bytes_simps(2))

lemma ring_bytes_put:
  assumes "length b = 128" "m + n \<le> k" "k < 128"
  shows "ring_bytes (b[slot (i + of_nat k) := x]) (i + of_nat m) n = ring_bytes b (i + of_nat m) n"
proof -
  have "b[slot (i + of_nat k) := x] ! slot (i + of_nat m + of_nat j) = b ! slot (i + of_nat m + of_nat j)" if "j < n" for j
  proof -
    have "slot (i + of_nat (m + j)) \<noteq> slot (i + of_nat k)" using slot_less [of "m + j" k i] that assms by simp
    then show ?thesis by (simp add: add.assoc)
  qed
  then show ?thesis by (simp add: ring_bytes_def)
qed

section \<open>Typing\<close>

text \<open>The indices as lengths.\<close>

definition ring_at :: "kbd \<Rightarrow> nat \<Rightarrow> nat \<Rightarrow> bool" where
  "ring_at q m n \<longleftrightarrow> length (kbuf q) = 128 \<and> m + n \<le> 128 \<and> kw q = kr q + of_nat m \<and> ke q = kr q + of_nat (m + n)"

lemma ring_at_lines:
  assumes "ring_at q m n"
  shows "kbd_lines q = (ring_bytes (kbuf q) (kr q) m, ring_bytes (kbuf q) (kr q + of_nat m) n)"
    "unat (kw q - kr q) = m" "unat (ke q - kw q) = n" "unat (ke q - kr q) = m + n"
proof -
  have "m \<le> 128" "n \<le> 128" "m + n \<le> 128" using assms by (simp_all add: ring_at_def)
  then have u: "unat (of_nat m :: u32) = m" "unat (of_nat n :: u32) = n" "unat (of_nat (m + n) :: u32) = m + n"
    by (simp_all only: unat_of_nat) simp_all
  show "unat (kw q - kr q) = m" "unat (ke q - kw q) = n" "unat (ke q - kr q) = m + n"
    using assms u by (simp_all add: ring_at_def)
  then show "kbd_lines q = (ring_bytes (kbuf q) (kr q) m, ring_bytes (kbuf q) (kr q + of_nat m) n)"
    using assms by (simp add: kbd_lines_def ring_at_def)
qed

lemma kbd_ok_ring:
  "kbd_ok q \<longleftrightarrow> (\<exists>m n. ring_at q m n \<and> of_int NL \<notin> set (snd (kbd_lines q)))"
proof
  assume ok: "kbd_ok q"
  have "kr q + of_nat (unat (kw q - kr q)) = kw q" "kw q + of_nat (unat (ke q - kw q)) = ke q" by simp_all
  then have "ring_at q (unat (kw q - kr q)) (unat (ke q - kw q))"
    using ok unfolding ring_at_def kbd_ok_def INPUT_BUF_def of_nat_add by (metis add.assoc)
  with ok show "\<exists>m n. ring_at q m n \<and> of_int NL \<notin> set (snd (kbd_lines q))" by (auto simp: kbd_ok_def)
next
  assume "\<exists>m n. ring_at q m n \<and> of_int NL \<notin> set (snd (kbd_lines q))"
  then obtain m n where "ring_at q m n" "of_int NL \<notin> set (snd (kbd_lines q))" by blast
  then show "kbd_ok q" using ring_at_lines [of q m n] by (simp add: kbd_ok_def ring_at_def INPUT_BUF_def)
qed

lemma kill_line_all:
  assumes "ring_at q m n" "of_int NL \<notin> set (ring_bytes (kbuf q) (kr q + of_nat m) n)"
  shows "kill_line q = q\<lparr>ke := kw q\<rparr>"
  using assms
proof (induction n arbitrary: q)
  case 0
  then show ?case by (simp add: kill_line.simps [of q] ring_at_def)
next
  case (Suc n)
  have e: "ke q - 1 = kr q + of_nat (m + n)" "ke q \<noteq> kw q"
    using Suc.prems(1) ring_at_lines(3) [OF Suc.prems(1)] by (auto simp: ring_at_def)
  have "kbuf q ! slot (ke q - 1) \<noteq> of_int NL"
    using Suc.prems(2) unfolding e(1) by (auto simp: ring_bytes_simps add.assoc)
  then have "kill_line q = kill_line (q\<lparr>ke := ke q - 1\<rparr>)" using e(2) by (simp add: kill_line.simps [of q])
  also have "\<dots> = q\<lparr>ke := ke q - 1\<rparr>\<lparr>ke := kw q\<rparr>"
    using Suc.IH [of "q\<lparr>ke := ke q - 1\<rparr>"] Suc.prems e(1) by (simp add: ring_at_def ring_bytes_simps)
  finally show ?case by simp
qed

lemma put_char_ring:
  assumes q: "ring_at q m n" and lt: "m + n < 128"
  shows "ring_at (put_char x q) m (Suc n)" "kr (put_char x q) = kr q"
    "ring_bytes (kbuf (put_char x q)) (kr q) m = ring_bytes (kbuf q) (kr q) m"
    "ring_bytes (kbuf (put_char x q)) (kr q + of_nat m) (Suc n) = ring_bytes (kbuf q) (kr q + of_nat m) n @ [x]"
proof -
  have e: "ke q = kr q + of_nat (m + n)" "length (kbuf q) = 128" using q by (simp_all add: ring_at_def)
  show "ring_at (put_char x q) m (Suc n)" "kr (put_char x q) = kr q"
    using q lt by (simp_all add: ring_at_def put_char_def)
  show "ring_bytes (kbuf (put_char x q)) (kr q) m = ring_bytes (kbuf q) (kr q) m"
    using ring_bytes_put [OF e(2), of 0 m "m + n" "kr q" x] lt by (simp add: put_char_def e(1))
  have "ring_bytes (kbuf (put_char x q)) (kr q + of_nat m) n = ring_bytes (kbuf q) (kr q + of_nat m) n"
    using ring_bytes_put [OF e(2), of m n "m + n" "kr q" x] lt by (simp add: put_char_def e(1))
  moreover have "kbuf (put_char x q) ! slot (kr q + of_nat m + of_nat n) = x"
    using e slot_lt [of "ke q"] by (simp add: put_char_def add.assoc)
  ultimately show "ring_bytes (kbuf (put_char x q)) (kr q + of_nat m) (Suc n) = ring_bytes (kbuf q) (kr q + of_nat m) n @ [x]"
    by (simp add: ring_bytes_simps)
qed

lemma commit_ring:
  assumes "ring_at q m n"
  shows "ring_at (q\<lparr>kw := ke q\<rparr>) (m + n) 0"
    "kbd_lines (q\<lparr>kw := ke q\<rparr>) = (fst (kbd_lines q) @ snd (kbd_lines q), [])"
proof -
  show r: "ring_at (q\<lparr>kw := ke q\<rparr>) (m + n) 0" using assms by (simp add: ring_at_def)
  show "kbd_lines (q\<lparr>kw := ke q\<rparr>) = (fst (kbd_lines q) @ snd (kbd_lines q), [])"
    using ring_at_lines(1) [OF r] ring_at_lines(1) [OF assms] by (simp add: ring_bytes_add ring_bytes_simps)
qed

lemma full_iff:
  assumes "ring_at q m n"
  shows "ke q = kr q + of_nat INPUT_BUF \<longleftrightarrow> m + n = 128"
proof -
  have "ke q = kr q + 128 \<longleftrightarrow> ke q - kr q = 128" by (auto simp: algebra_simps)
  also have "\<dots> \<longleftrightarrow> unat (ke q - kr q) = 128" by (simp add: word_unat_eq_iff)
  finally show ?thesis using ring_at_lines(4) [OF assms] by (simp add: INPUT_BUF_def)
qed

lemma byte_eq: "0 \<le> c \<Longrightarrow> c < 256 \<Longrightarrow> (of_int c :: u8) = of_int NL \<longleftrightarrow> c = NL"
  unfolding word_of_int_eq_iff by (simp add: take_bit_eq_mod NL_def)

lemma kbd_char_lines:
  assumes ok: "kbd_ok q" and c: "0 \<le> c" "c < 256"
  shows "kbd_ok (fst (kbd_char c q)) \<and> kbd_lines (fst (kbd_char c q)) = type_char c (kbd_lines q)"
proof -
  obtain m n where q: "ring_at q m n" and nl: "of_int NL \<notin> set (snd (kbd_lines q))" using ok kbd_ok_ring by blast
  note l = ring_at_lines [OF q]
  have len: "length (fst (kbd_lines q)) = m" "length (snd (kbd_lines q)) = n" by (simp_all add: l(1) ring_bytes_simps)
  consider "c = CTRL_P" | "c = CTRL_U" | "c = CTRL_H \<or> c = DEL"
    | "c \<notin> {CTRL_P, CTRL_U, CTRL_H, DEL}" "c = 0 \<or> m + n \<ge> 128"
    | "c \<notin> {CTRL_P, CTRL_U, CTRL_H, DEL}" "c \<noteq> 0" "m + n < 128" by force
  then show ?thesis
  proof cases
    case 1
    then show ?thesis using ok by (simp add: kbd_char_def type_char_def split: prod.split)
  next
    case 2
    have "kill_line q = q\<lparr>ke := kw q\<rparr>" using kill_line_all [OF q] nl l(1) by simp
    moreover have r: "ring_at (q\<lparr>ke := kw q\<rparr>) m 0" using q by (simp add: ring_at_def)
    ultimately show ?thesis
      using 2 l(1) ring_at_lines(1) [OF r]
      by (auto simp: kbd_char_def type_char_def kbd_ok_ring CTRL_P_def CTRL_U_def ring_bytes_simps intro: exI)
  next
    case 3
    show ?thesis
    proof (cases n)
      case 0
      then have "ke q = kw q" using q by (simp add: ring_at_def)
      with 3 ok l len 0 show ?thesis
        by (auto simp: kbd_char_def type_char_def CTRL_H_def DEL_def CTRL_P_def CTRL_U_def ring_bytes_simps split: prod.split)
    next
      case (Suc k)
      have r: "ring_at (q\<lparr>ke := ke q - 1\<rparr>) m k" using q Suc by (simp add: ring_at_def)
      have "kbd_lines (q\<lparr>ke := ke q - 1\<rparr>) = (fst (kbd_lines q), butlast (snd (kbd_lines q)))"
        using ring_at_lines(1) [OF r] l(1) Suc by (simp add: ring_bytes_simps)
      moreover have "ke q \<noteq> kw q" using l(3) Suc by auto
      ultimately show ?thesis using 3 r nl
        by (auto simp: kbd_char_def type_char_def kbd_ok_ring CTRL_H_def DEL_def CTRL_P_def CTRL_U_def
            dest: in_set_butlastD split: prod.split)
    qed
  next
    case 4
    then show ?thesis using ok l(4) len
      by (auto simp: kbd_char_def type_char_def INPUT_BUF_def split: prod.split)
  next
    case 5
    define x :: u8 where "x = of_int (if c = CR then NL else c)"
    note p = put_char_ring [OF q 5(3), of x]
    note pl = ring_at_lines [OF p(1)]
    have lines: "kbd_lines (put_char x q) = (fst (kbd_lines q), snd (kbd_lines q) @ [x])"
      using pl(1) p l(1) by simp
    have full: "ke (put_char x q) = kr q + of_nat INPUT_BUF \<longleftrightarrow> m + Suc n = 128"
      using full_iff [OF p(1)] p(2) by simp
    define d where "d = (if c = CR then NL else c)"
    define stop where "stop \<longleftrightarrow> d = NL \<or> d = CTRL_D \<or> m + Suc n = 128"
    have x: "x = of_int NL \<longleftrightarrow> d = NL" using byte_eq [of d] c by (auto simp: x_def d_def NL_def)
    have put: "fst (kbd_char c q) = (let q = put_char x q in if stop then q\<lparr>kw := ke q\<rparr> else q)"
    proof -
      have "kbd_char c q = (let q = put_char x q in
          if d = NL \<or> d = CTRL_D \<or> ke q = kr q + of_nat INPUT_BUF then (q\<lparr>kw := ke q\<rparr>, True) else (q, False))"
        using 5 l(4) by (simp only: kbd_char_def x_def d_def Let_def) (simp add: INPUT_BUF_def)
      then show ?thesis using full p(2) by (simp add: Let_def stop_def)
    qed
    have type: "type_char c (kbd_lines q) =
        (let line = snd (kbd_lines q) @ [x] in if stop then (fst (kbd_lines q) @ line, []) else (fst (kbd_lines q), line))"
      using 5 len by (cases "kbd_lines q") (simp add: type_char_def x_def d_def stop_def INPUT_BUF_def Let_def)
    show ?thesis
    proof (cases stop)
      case True
      then show ?thesis using commit_ring [OF p(1)] lines put type by (auto simp: kbd_ok_ring Let_def)
    next
      case False
      then show ?thesis using p(1) lines put type nl x by (auto simp: kbd_ok_ring Let_def stop_def)
    qed
  qed
qed

section \<open>The interrupt handler\<close>

lemma proc_frame_input: "proc_frame s t \<Longrightarrow> input t = input s"
  by (cases s; cases t) (auto simp: proc_frame_def)

lemma balanced_input [simp]: "balanced s (s\<lparr>input := q\<rparr>)"
  by (simp add: balanced_def holding_def)

lemma entered_input [simp]: "input (entered l s) = input s" "input (left l s) = input s"
  by (simp_all add: entered_def left_def)

text \<open>What a reader does not see of an interrupt.\<close>

definition typed_frame :: "'z kbd_state_scheme \<Rightarrow> 'z kbd_state_scheme \<Rightarrow> bool" where
  "typed_frame s t \<longleftrightarrow> balanced s t \<and> curr t = curr s \<and> map killed (procs t) = map killed (procs s)"

lemma runs_kbd_one:
  assumes "kbd_ok (input s)" "lock_free PtableLock s" "0 \<le> c" "c < 256"
  shows "runs (kbd_one c) s (\<lambda>_ t. typed_frame s t \<and> kbd_ok (input t)
    \<and> kbd_lines (input t) = type_char c (kbd_lines (input s)))"
proof -
  let ?s = "s\<lparr>input := fst (kbd_char c (input s))\<rparr>"
  have ok: "kbd_ok (input ?s)" "kbd_lines (input ?s) = type_char c (kbd_lines (input s))"
    using kbd_char_lines [OF assms(1,3,4)] by simp_all
  have "lock_free PtableLock ?s" using assms(2) balanced_lock_free [OF balanced_input] by blast
  then have "runs (wakeup InputChan) ?s (\<lambda>_ t. typed_frame s t \<and> input t = input ?s)"
  proof (rule runs_mono [OF runs_wakeup], elim conjE)
    fix t assume t: "balanced ?s t" "proc_frame ?s t" "procs t = map (wake InputChan) (procs ?s)"
    have "balanced s t" using balanced_input t(1) by (rule balanced_trans)
    moreover have "curr t = curr s" using t(2) by (simp add: proc_frame_iff)
    ultimately show "typed_frame s t \<and> input t = input ?s"
      using t(3) proc_frame_input [OF t(2)] by (auto simp: typed_frame_def wake_def)
  qed
  moreover have "typed_frame s ?s" by (simp add: typed_frame_def)
  ultimately show ?thesis using ok
    by (auto simp: kbd_one_def split: prod.split elim: runs_mono)
qed

lemma runs_kbd_chars:
  assumes "kbd_ok (input s)" "lock_free PtableLock s" "\<forall>c \<in> set cs. 0 \<le> c \<and> c < 256"
  shows "runs (for_each cs kbd_one) s (\<lambda>_ t. typed_frame s t \<and> kbd_ok (input t)
    \<and> kbd_lines (input t) = fold type_char cs (kbd_lines (input s)))"
  using assms
proof (induction cs arbitrary: s)
  case Nil
  then show ?case by (simp add: typed_frame_def)
next
  case (Cons c cs)
  have one: "runs (kbd_one c) s (\<lambda>_ t. typed_frame s t \<and> kbd_ok (input t)
      \<and> kbd_lines (input t) = type_char c (kbd_lines (input s)))"
    using Cons.prems by (intro runs_kbd_one) auto
  have rest: "runs (for_each cs kbd_one) t (\<lambda>_ u. typed_frame s u \<and> kbd_ok (input u)
      \<and> kbd_lines (input u) = fold type_char (c # cs) (kbd_lines (input s)))"
    if t: "typed_frame s t \<and> kbd_ok (input t) \<and> kbd_lines (input t) = type_char c (kbd_lines (input s))" for t
  proof -
    have "lock_free PtableLock t" using t Cons.prems(2) balanced_lock_free by (auto simp: typed_frame_def)
    then show ?thesis using t Cons.prems(3)
      by (intro runs_mono [OF Cons.IH [of t]]) (auto simp: typed_frame_def intro: balanced_trans)
  qed
  show ?case by (simp only: for_each.simps runs_andthen_iff) (rule runs_mono [OF one rest])
qed

section \<open>Reading\<close>

lemma ring_at_read:
  assumes "ring_at q (Suc m) n"
  shows "ring_at (q\<lparr>kr := kr q + 1\<rparr>) m n"
    "kbd_lines q = (kbuf q ! slot (kr q) # fst (kbd_lines (q\<lparr>kr := kr q + 1\<rparr>)), snd (kbd_lines (q\<lparr>kr := kr q + 1\<rparr>)))"
proof -
  show r: "ring_at (q\<lparr>kr := kr q + 1\<rparr>) m n" using assms by (simp add: ring_at_def add.assoc)
  show "kbd_lines q = (kbuf q ! slot (kr q) # fst (kbd_lines (q\<lparr>kr := kr q + 1\<rparr>)), snd (kbd_lines (q\<lparr>kr := kr q + 1\<rparr>)))"
    using ring_at_lines(1) [OF r] ring_at_lines(1) [OF assms] by (simp add: ring_bytes_Cons add.assoc)
qed

lemma kbd_read_loop_lines:
  assumes "kbd_ok (input s)" "curr_killed s = Ret False s" "\<And>q. curr_killed (s\<lparr>input := q\<rparr>) = Ret False (s\<lparr>input := q\<rparr>)"
  shows "\<exists>q. kbd_read_loop n acc s = Ret (fst (take_line n acc (fst (kbd_lines (input s))))) (s\<lparr>input := q\<rparr>)
    \<and> kbd_ok q \<and> kbd_lines q = (snd (take_line n acc (fst (kbd_lines (input s)))), snd (kbd_lines (input s)))"
  using assms
proof (induction n arbitrary: acc s)
  case 0
  then show ?case by (auto intro!: exI [of _ "input s"])
next
  case (Suc n)
  obtain m k where q: "ring_at (input s) m k" "of_int NL \<notin> set (snd (kbd_lines (input s)))"
    using Suc.prems(1) kbd_ok_ring by blast
  show ?case
  proof (cases m)
    case 0
    then have "kr (input s) = kw (input s)" "fst (kbd_lines (input s)) = []"
      using q(1) ring_at_lines(1) [OF q(1)] by (simp_all add: ring_at_def ring_bytes_simps)
    then show ?thesis using Suc.prems(1,2)
      by (auto simp: call_app reads_def intro!: exI [of _ "input s"] prod_eqI)
  next
    case (Suc m')
    let ?q = "(input s)\<lparr>kr := kr (input s) + 1\<rparr>" and ?s = "s\<lparr>input := (input s)\<lparr>kr := kr (input s) + 1\<rparr>\<rparr>"
    let ?c = "kbuf (input s) ! slot (kr (input s))"
    note r = ring_at_read [OF q(1) [unfolded Suc]]
    have ne: "kr (input s) \<noteq> kw (input s)" using ring_at_lines(2) [OF q(1)] Suc by auto
    have ok: "kbd_ok ?q" using r q(2) by (auto simp: kbd_ok_ring)
    have loop: "kbd_read_loop (Suc n) acc s =
        (if ?c = of_int CTRL_D then (if acc \<noteq> [] then Ret (Got acc) s else Ret (Got acc) ?s)
         else if ?c = of_int NL then Ret (Got (acc @ [?c])) ?s else kbd_read_loop n (acc @ [?c]) ?s)"
      using ne by (simp add: call_app andthen_def reads_def modify_def Let_def)
    have take: "take_line (Suc n) acc (fst (kbd_lines (input s))) =
        (if ?c = of_int CTRL_D then (Got acc, if acc \<noteq> [] then fst (kbd_lines (input s)) else fst (kbd_lines ?q))
         else if ?c = of_int NL then (Got (acc @ [?c]), fst (kbd_lines ?q)) else take_line n (acc @ [?c]) (fst (kbd_lines ?q)))"
      by (simp add: r(2))
    have snd: "snd (kbd_lines ?q) = snd (kbd_lines (input s))" by (simp add: r(2))
    consider "?c = of_int CTRL_D" "acc \<noteq> []" | "?c = of_int CTRL_D" "acc = []" | "?c \<noteq> of_int CTRL_D" "?c = of_int NL"
      | "?c \<noteq> of_int CTRL_D" "?c \<noteq> of_int NL" by blast
    then show ?thesis
    proof cases
      case 1
      then show ?thesis unfolding loop take using Suc.prems(1) by (intro exI [of _ "input s"]) simp
    next
      case 2
      then show ?thesis unfolding loop take using ok snd by (intro exI [of _ ?q]) (simp add: prod_eq_iff)
    next
      case 3
      then show ?thesis unfolding loop take using ok snd by (intro exI [of _ ?q]) (simp add: prod_eq_iff)
    next
      case 4
      have "\<exists>q. kbd_read_loop n (acc @ [?c]) ?s = Ret (fst (take_line n (acc @ [?c]) (fst (kbd_lines (input ?s))))) (?s\<lparr>input := q\<rparr>)
          \<and> kbd_ok q \<and> kbd_lines q = (snd (take_line n (acc @ [?c]) (fst (kbd_lines (input ?s)))), snd (kbd_lines (input ?s)))"
        using ok Suc.prems(3) by (intro Suc.IH) simp_all
      then show ?thesis unfolding loop take using 4 snd by simp
    qed
  qed
qed

text \<open>C21: the line discipline. For any characters from the serial line, the interrupt handler edits the line being
  typed (backspace, kill line, carriage return for newline, a full buffer committed as it is, what does not fit
  dropped) and hands a line over when it ends, exactly as \<open>type_char\<close> does on lists, whatever the three indices
  have wrapped to; a read that follows takes from the complete lines what \<open>take_line\<close> takes, never from the line
  still being edited, and leaves the rest.\<close>

theorem keyboard_lines:
  assumes "kbd_ok (input s)" and "lock_free InputLock s" and "lock_free PtableLock s"
    and "\<forall>c \<in> set cs. c < 256" and "curr s = Some i" and "i < length (procs s)" and "\<not> killed (procs s ! i)"
  shows "runs (uartkbdintr cs) s (\<lambda>_ t.
    kbd_ok (input t) \<and> kbd_lines (input t) = fold type_char (takeWhile (\<lambda>c. 0 \<le> c) cs) (kbd_lines (input s))
    \<and> runs (kbd_read_loop n []) t (\<lambda>r u. (r, fst (kbd_lines (input u))) = take_line n [] (fst (kbd_lines (input t)))
        \<and> kbd_ok (input u) \<and> snd (kbd_lines (input u)) = snd (kbd_lines (input t))))"
  unfolding uartkbdintr_def
proof (rule runs_locked_section)
  let ?cs = "takeWhile (\<lambda>c. 0 \<le> c) cs" and ?e = "entered InputLock s"
  show "\<not> holding InputLock s" "cli_ok s" using assms(2) by (simp_all add: lock_free_def)
  have "\<forall>c \<in> set ?cs. 0 \<le> c \<and> c < 256" using assms(4) by (auto dest: set_takeWhileD)
  moreover have "lock_free PtableLock ?e" using assms(3) by (simp add: lock_free_def)
  ultimately have "runs (for_each ?cs kbd_one) ?e (\<lambda>_ t. typed_frame ?e t \<and> kbd_ok (input t)
      \<and> kbd_lines (input t) = fold type_char ?cs (kbd_lines (input s)))"
    using assms(1) runs_kbd_chars [of ?e ?cs] by simp
  then show "runs (for_each ?cs kbd_one) ?e (\<lambda>_ t. balanced ?e t \<and>
      kbd_ok (input (left InputLock t)) \<and> kbd_lines (input (left InputLock t)) = fold type_char ?cs (kbd_lines (input s))
      \<and> runs (kbd_read_loop n []) (left InputLock t) (\<lambda>r u.
          (r, fst (kbd_lines (input u))) = take_line n [] (fst (kbd_lines (input (left InputLock t))))
          \<and> kbd_ok (input u) \<and> snd (kbd_lines (input u)) = snd (kbd_lines (input (left InputLock t)))))"
  proof (rule runs_mono, elim conjE, intro conjI)
    fix t assume t: "typed_frame ?e t" "kbd_ok (input t)" "kbd_lines (input t) = fold type_char ?cs (kbd_lines (input s))"
    let ?t = "left InputLock t"
    show "balanced ?e t" using t(1) by (simp add: typed_frame_def)
    show "kbd_ok (input ?t)" "kbd_lines (input ?t) = fold type_char ?cs (kbd_lines (input s))" using t by simp_all
    have f: "curr t = curr s" "map killed (procs t) = map killed (procs s)" using t(1) by (simp_all add: typed_frame_def)
    then have "length (procs t) = length (procs s)" by (metis length_map)
    then have "curr ?t = Some i" "i < length (procs ?t)" "\<not> killed (procs ?t ! i)"
      using f assms(5-7) nth_map [of i "procs t" killed] nth_map [of i "procs s" killed] by simp_all
    then have "curr_killed (?t\<lparr>input := q\<rparr>) = Ret False (?t\<lparr>input := q\<rparr>)" "curr_killed ?t = Ret False ?t" for q
      by (simp_all add: curr_killed_def get_curr_def curr_proc_def call_app reads_def)
    from kbd_read_loop_lines [OF _ this(2,1), of n "[]"] t(2)
    show "runs (kbd_read_loop n []) ?t (\<lambda>r u. (r, fst (kbd_lines (input u))) = take_line n [] (fst (kbd_lines (input ?t)))
          \<and> kbd_ok (input u) \<and> snd (kbd_lines (input u)) = snd (kbd_lines (input ?t)))"
      by (auto simp: runs_iff prod_eq_iff)
  qed
qed

text \<open>A system whose shell waits for its input, the indices about to wrap. It is given \<open>lx\<close>, a backspace, \<open>s\<close>,
  a carriage return and the first two characters of the next line.\<close>

definition kbd_start :: kbd_state where
  "kbd_start = process_state.extend (file_state.extend (fs_state.extend (log_state.extend
       (log_boot\<lparr>procs := [proc0\<lparr>pstate := RUNNING, pid := 1\<rparr>], curr := Some 0\<rparr>)
     \<lparr>inodes = []\<rparr>) \<lparr>files = []\<rparr>) \<lparr>fork_first = False\<rparr>)
     \<lparr>input = \<lparr>kbuf = replicate 128 0, kr = 0xFFFFFFFE, kw = 0xFFFFFFFE, ke = 0xFFFFFFFE\<rparr>\<rparr>"

lemma kbd_start_facts:
  "kbd_ok (input kbd_start)" "kbd_lines (input kbd_start) = ([], [])" "lock_free l kbd_start"
  "curr kbd_start = Some 0" "0 < length (procs kbd_start)" "\<not> killed (procs kbd_start ! 0)"
  using bio_start_facts(1) [of l]
  by (simp_all add: kbd_start_def log_boot_def proc0_def process_state.defs file_state.defs fs_state.defs log_state.defs
      bcache.defs lock_free_def cli_ok_def holding_def kbd_ok_def kbd_lines_def ring_bytes_def INPUT_BUF_def)

theorem keyboard_lines_witness:
  "runs (uartkbdintr [108, 120, 127, 115, 13, 101, 99, -1]) kbd_start (\<lambda>_ t.
     runs (kbd_read_loop 100 []) t (\<lambda>r u. r = Got [108, 115, 10] \<and> kbd_lines (input u) = ([], [101, 99])))"
proof -
  let ?cs = "[108, 120, 127, 115, 13, 101, 99, -1] :: int list"
  have typed: "fold type_char (takeWhile (\<lambda>c. 0 \<le> c) ?cs) ([], []) = ([108, 115, 10], [101, 99])"
    by (simp add: type_char_def CTRL_P_def CTRL_U_def CTRL_H_def CTRL_D_def DEL_def NL_def CR_def INPUT_BUF_def)
  have "take_line (Suc (Suc (Suc 97))) [] [108, 115, 10] = (Got [108, 115, 10], [])"
    by (simp del: Suc_numeral add: CTRL_D_def NL_def)
  then have taken: "take_line 100 [] [108, 115, 10] = (Got [108, 115, 10], [])" by simp
  have "\<forall>c \<in> set ?cs. c < 256" by simp
  from keyboard_lines [OF kbd_start_facts(1,3,3) this kbd_start_facts(4-6), of 100] show ?thesis
    unfolding kbd_start_facts(2) typed
    by (auto elim!: runs_mono simp: taken prod_eq_iff)
qed

end
