(* ===== verification/Blocks.thy ===== *)
theory Blocks
  imports Fs
begin

text \<open>
  The file system's use of a transaction, and the allocation of blocks: \<open>balloc\<close> takes the first
  block whose bit is clear, \<open>bfree\<close> gives it back, and nothing else changes.
\<close>

section \<open>Reading and updating blocks in a transaction\<close>

text \<open>\<open>tx s V hs\<close>: a transaction is open that has logged the sectors \<open>hs\<close>, and the file system now
  holds \<open>V\<close>; \<open>V\<close> matters only below the log.\<close>

definition tx :: "'z log_state_scheme \<Rightarrow> (u32 \<Rightarrow> u8 list) \<Rightarrow> u32 list \<Rightarrow> bool" where
  "tx s V hs \<longleftrightarrow> (\<exists>w D V'. in_trans s w D V' {} hs \<and> (\<forall>x < log_start s. V' x = V x)) \<and> log_size s = 10
     \<and> unat (log_start s) + LOGSIZE \<le> unat (disksize s)"

lemma tx_below: "tx s V hs \<Longrightarrow> x < log_start s \<Longrightarrow> x < disksize s"
  by (simp add: tx_def word_less_nat_alt)

lemma tx_cong: "tx s V hs \<Longrightarrow> \<forall>x < log_start s. V x = V' x \<Longrightarrow> tx s V' hs"
  by (auto simp: tx_def)

lemma tx_read:
  assumes "tx s V hs" and "x < log_start s"
  shows "\<exists>i t u. bread 1 x s = Ret i t \<and> get_data i t = Ret (V x) t \<and> brelse i t = Ret () u \<and> tx u V hs \<and> log_same s u"
proof -
  obtain w D V' where tr: "in_trans s w D V' {} hs" "\<forall>x < log_start s. V' x = V x"
    using assms(1) by (auto simp: tx_def)
  have c: "cache s w D V' (set hs) {}" and fits: "log_fits (log_start s) (disksize s) hs"
    using tr(1) by (simp_all add: in_trans_def)
  have card: "card (set hs) < NBUF" using fits by (simp add: log_fits_def distinct_card)
  obtain i t where t: "bread 1 x s = Ret i t" "kept s t" "cache t w D V' (set hs) {(i, x)}"
    using bc.rd [OF c tx_below [OF assms]] card by (auto elim: runsE)
  have "V' x = D x \<or> x \<in> set hs" using in_trans_clean [OF tr(1)] by blast
  then obtain u where u: "brelse i t = Ret () u" "kept t u" "cache u w D V' (set hs) {}"
    using runs_unitD [OF bc.rel [OF t(3), of i x]] by auto
  have k: "kept s u" using t(2) u(2) kept_trans by blast
  have "get_data i t = Ret (V x) t" using bc.dat [OF t(3), of i x] tr(2) assms(2) by simp
  moreover have "in_trans u w D V' {} hs" using tr(1) u(3) kept_log [OF k] by (simp add: in_trans_def)
  then have "tx u V hs" using assms(1) tr(2) kept_log [OF k] by (auto simp: tx_def)
  ultimately show ?thesis using t(1) u(1) kept_log_same [OF k] by blast
qed

lemma tx_update:
  assumes "tx s V hs" and "1 < x" "x < log_start s" and "Suc (length hs) < LOGSIZE"
  shows "\<exists>t. update_block x f s = Ret () t \<and> tx t (V(x := f (V x))) (absorb x hs) \<and> log_same s t"
proof -
  obtain w D V' where tr: "in_trans s w D V' {} hs" "\<forall>x < log_start s. V' x = V x" and sz: "log_size s = 10"
      "unat (log_start s) + LOGSIZE \<le> unat (disksize s)"
    using assms(1) by (auto simp: tx_def)
  obtain t b where t: "update_block x f s = Ret () t" "log_start s < b" "log_same s t"
      "in_trans t (w @ [(b, f (V' x))]) (D(b := f (V' x))) (V'(x := f (V' x), b := f (V' x))) {} (absorb x hs)"
    using runs_update [OF tr(1) sz(1) assms(2,3) sz(2) assms(4), of f] by blast
  have "\<forall>y < log_start t. (V'(x := f (V' x), b := f (V' x))) y = (V(x := f (V x))) y"
    using t(2,3) tr(2) assms(3) by (auto simp: log_same_def)
  then have "tx t (V(x := f (V x))) (absorb x hs)"
    using t(3,4) sz by (auto simp: tx_def log_same_def simp del: fun_upd_apply)
  with t(1,3) show ?thesis by blast
qed

text \<open>An update that begins by looking at the block, and one that overwrites it.\<close>

lemma update_block_eq:
  assumes "bread 1 x s = Ret i t" and "get_data i t = Ret d t"
  shows "update_block x f s = andthen (put_data i (f d)) (andthen (log_write i) (brelse i)) t"
  using assms by (simp add: update_block_def call_app)

lemma tx_bzero:
  assumes "tx s V hs" and "1 < x" "x < log_start s" and "Suc (length hs) < LOGSIZE"
  shows "\<exists>t. bzero 1 x s = Ret () t \<and> tx t (V(x := replicate BSIZE 0)) (absorb x hs) \<and> log_same s t"
proof -
  obtain i t where t: "bread 1 x s = Ret i t" "get_data i t = Ret (V x) t" using tx_read [OF assms(1,3)] by blast
  have "bzero 1 x s = update_block x (\<lambda>_. replicate BSIZE 0) s"
    using update_block_eq [OF t, of "\<lambda>_. replicate BSIZE 0"] t(1) by (simp add: bzero_def call_app)
  then show ?thesis using tx_update [OF assms, of "\<lambda>_. replicate BSIZE 0"] by simp
qed

lemma tx_readsb:
  assumes "tx s V hs" and "1 < log_start s"
  shows "\<exists>t. readsb 1 s = Ret (dec_superblock (V 1)) t \<and> tx t V hs \<and> log_same s t"
proof -
  obtain i t u where t: "bread 1 1 s = Ret i t" "get_data i t = Ret (V 1) t" "brelse i t = Ret () u" "tx u V hs" "log_same s u"
    using tx_read [OF assms] by blast
  then show ?thesis by (simp add: readsb_def call_app andthen_def)
qed

section \<open>The bitmap\<close>

text \<open>The layout of the bitmap: one bit per block, 4096 to a sector, in the sectors after the inodes.
  \<open>used\<close> says that the bit of a block is set, \<open>marked\<close> that the bit of a block has been set or cleared
  and that every other bit and every other sector is as it was.\<close>

definition block_bit :: "u8 list \<Rightarrow> nat \<Rightarrow> bool" where
  "block_bit d k \<longleftrightarrow> bit (d ! (k div 8)) (k mod 8)"

definition bitmap_sector :: "u32 \<Rightarrow> u32 \<Rightarrow> u32" where
  "bitmap_sector nin b = b div 4096 + nin div 8 + 3"

definition used :: "(u32 \<Rightarrow> u8 list) \<Rightarrow> u32 \<Rightarrow> u32 \<Rightarrow> bool" where
  "used V nin b \<longleftrightarrow> block_bit (V (bitmap_sector nin b)) (unat b mod 4096)"

definition marked :: "bool \<Rightarrow> (u32 \<Rightarrow> u8 list) \<Rightarrow> u32 \<Rightarrow> u32 \<Rightarrow> (u32 \<Rightarrow> u8 list) \<Rightarrow> bool" where
  "marked v V nin b W \<longleftrightarrow> length (W (bitmap_sector nin b)) = BSIZE
     \<and> (\<forall>k < 4096. block_bit (W (bitmap_sector nin b)) k \<longleftrightarrow>
          (if k = unat b mod 4096 then v else block_bit (V (bitmap_sector nin b)) k))
     \<and> (\<forall>x. x \<noteq> bitmap_sector nin b \<longrightarrow> W x = V x)"

text \<open>The same with the arithmetic of the code.\<close>

definition take_block :: "(u32 \<Rightarrow> u8 list) \<Rightarrow> u32 \<Rightarrow> u32 \<Rightarrow> u32 \<Rightarrow> u8 list" where
  "take_block V nin b = V(BBLOCK b nin := set_bit_at (V (BBLOCK b nin)) (unat b mod 4096))"

definition drop_block :: "(u32 \<Rightarrow> u8 list) \<Rightarrow> u32 \<Rightarrow> u32 \<Rightarrow> u32 \<Rightarrow> u8 list" where
  "drop_block V nin b = V(BBLOCK b nin := clear_bit_at (V (BBLOCK b nin)) (unat b mod 4096))"

lemma bitmap_sector_code: "bitmap_sector nin b = BBLOCK b nin"
  by (simp add: bitmap_sector_def BBLOCK_def BPB_def IPB_def)

lemma bit_byte: "(x :: u8) AND push_bit k 1 \<noteq> 0 \<longleftrightarrow> bit x k" if "k < 8"
proof
  assume "bit x k"
  then have "bit (x AND push_bit k 1) k" using that by (simp add: bit_simps)
  then show "x AND push_bit k 1 \<noteq> 0" by (metis bit_0_eq bot_fun_def bot_bool_def)
next
  assume "x AND push_bit k 1 \<noteq> 0"
  then obtain n where "bit (x AND push_bit k 1) n" by (metis bit_eqI bit_0_eq bot_fun_def bot_bool_def)
  then show "bit x k" using that by (auto simp: bit_simps)
qed

lemma bit_at_iff: "bit_at d bi \<longleftrightarrow> bit (d ! (bi div 8)) (bi mod 8)"
  unfolding bit_at_def by (rule bit_byte) simp

lemma used_code: "used V nin b \<longleftrightarrow> bit_at (V (BBLOCK b nin)) (unat b mod 4096)"
  by (simp add: used_def bitmap_sector_code block_bit_def bit_at_iff)

lemma same_bit: "j = i \<longleftrightarrow> j div 8 = i div 8 \<and> j mod 8 = i mod (8 :: nat)"
  by (metis mult_div_mod_eq)

lemma bit_at_set: "length d = BSIZE \<Longrightarrow> i < 4096 \<Longrightarrow> bit_at (set_bit_at d i) j \<longleftrightarrow> j = i \<or> bit_at d j"
  unfolding bit_at_iff set_bit_at_def same_bit [of j i]
  by (cases "i div 8 = j div 8") (auto simp: bit_simps BSIZE_def)

lemma bit_at_clear: "length d = BSIZE \<Longrightarrow> i < 4096 \<Longrightarrow> bit_at (clear_bit_at d i) j \<longleftrightarrow> j \<noteq> i \<and> bit_at d j"
  unfolding bit_at_iff clear_bit_at_def same_bit [of j i]
  by (cases "i div 8 = j div 8") (auto simp: bit_simps BSIZE_def)

lemma marked_take: "length (V (BBLOCK b nin)) = BSIZE \<Longrightarrow> marked True V nin b (take_block V nin b)"
  by (auto simp: marked_def bitmap_sector_code take_block_def bit_at_set block_bit_def bit_at_iff [symmetric])
    (simp add: set_bit_at_def)

lemma marked_drop: "length (V (BBLOCK b nin)) = BSIZE \<Longrightarrow> marked False V nin b (drop_block V nin b)"
  by (auto simp: marked_def bitmap_sector_code drop_block_def bit_at_clear block_bit_def bit_at_iff [symmetric])
    (simp add: clear_bit_at_def)

lemma clear_set: "length d = BSIZE \<Longrightarrow> i < 4096 \<Longrightarrow> \<not> bit_at d i \<Longrightarrow> clear_bit_at (set_bit_at d i) i = d"
proof -
  assume d: "length d = BSIZE" "i < 4096" "\<not> bit_at d i"
  then have "((d ! (i div 8)) OR push_bit (i mod 8) 1) AND NOT (push_bit (i mod 8) 1) = d ! (i div 8)"
    by (intro bit_eqI) (auto simp: bit_simps bit_at_iff)
  with d show ?thesis by (simp add: clear_bit_at_def set_bit_at_def BSIZE_def)
qed

text \<open>The blocks of one bitmap block are consecutive.\<close>

lemma BBLOCK_add:
  assumes "page_aligned b" and "bi < 4096"
  shows "unat (b + of_nat bi) = unat b + bi" "BBLOCK (b + of_nat bi) nin = BBLOCK b nin"
    "unat (b + of_nat bi) mod 4096 = bi"
proof -
  have n: "unat (of_nat bi :: u32) = bi" using assms(2) by (intro unat_of_nat32) simp
  then have k: "unat (of_nat bi :: u32) < 4096" using assms(2) by simp
  show u: "unat (b + of_nat bi) = unat b + bi" using unat_add_in_page [OF assms(1) k] n by simp
  have "(b + of_nat bi) div 4096 = b div 4096" using page_of_add [OF assms(1) k] by (simp add: page_of_def)
  then show "BBLOCK (b + of_nat bi) nin = BBLOCK b nin" by (simp add: BBLOCK_def BPB_def)
  show "unat (b + of_nat bi) mod 4096 = bi"
    using assms page_aligned_unat [of b] unfolding u by (simp add: mod_add_eq [symmetric])
qed

text \<open>A file system of \<open>nb\<close> blocks whose bitmap lies between the super block and the log at \<open>st\<close>.\<close>

definition bitmap_ok :: "(u32 \<Rightarrow> u8 list) \<Rightarrow> u32 \<Rightarrow> u32 \<Rightarrow> u32 \<Rightarrow> bool" where
  "bitmap_ok V st nb nin \<longleftrightarrow> (\<forall>b < nb. 1 < bitmap_sector nin b \<and> bitmap_sector nin b < st
     \<and> length (V (bitmap_sector nin b)) = BSIZE)"

text \<open>The first free block, which balloc takes.\<close>

definition first_free :: "(u32 \<Rightarrow> u8 list) \<Rightarrow> u32 \<Rightarrow> u32 \<Rightarrow> u32 \<Rightarrow> bool" where
  "first_free V nin nb a \<longleftrightarrow> a < nb \<and> \<not> used V nin a \<and> (\<forall>c < a. used V nin c)"

lemma first_clear_Some: "first_clear d n = Some bi \<longleftrightarrow> bi < n \<and> \<not> bit_at d bi \<and> (\<forall>j < bi. bit_at d j)"
  by (auto simp: first_clear_def find_index_Some)

lemma first_clear_None: "first_clear d n = None \<longleftrightarrow> (\<forall>j < n. bit_at d j)"
  by (auto simp: first_clear_def find_index_None)

text \<open>One bitmap block covers the blocks from \<open>b\<close> on, up to 4096 of them.\<close>

lemma bitmap_range:
  assumes "page_aligned b" and "b \<le> c" and "unat c < unat b + 4096"
  shows "c = b + of_nat (unat c - unat b)" "BBLOCK c nin = BBLOCK b nin" "unat c mod 4096 = unat c - unat b"
proof -
  have k: "unat c - unat b < 4096" "unat b \<le> unat c" using assms(2,3) by (simp_all add: word_le_nat_alt)
  note B = BBLOCK_add [OF assms(1) k(1)]
  have "unat (b + of_nat (unat c - unat b)) = unat c" using B(1) k(2) by simp
  then show c: "c = b + of_nat (unat c - unat b)" by (simp only: word_unat_eq_iff)
  show "BBLOCK c nin = BBLOCK b nin" by (subst c) (rule B(2))
  show "unat c mod 4096 = unat c - unat b" using B(1,3) k(2) by simp
qed

text \<open>A bitmap sector without a free block.\<close>

lemma full_sector:
  assumes "page_aligned b" "first_clear (V (BBLOCK b nin)) (min (unat BPB) (unat nb - unat b)) = None"
    and "b \<le> c" "c < nb" "unat c < unat b + 4096"
  shows "used V nin c"
proof -
  have "unat c - unat b < min (unat BPB) (unat nb - unat b)"
    using assms(3-5) by (simp add: BPB_def word_le_nat_alt word_less_nat_alt less_diff_conv2)
  with assms(2) bitmap_range(2,3) [OF assms(1,3,5)] show ?thesis
    unfolding first_clear_None used_code by metis
qed

text \<open>The first free block is in the sector of \<open>b\<close>, or after it.\<close>

lemma free_in_sector:
  assumes "page_aligned b" "first_clear (V (BBLOCK b nin)) (min (unat BPB) (unat nb - unat b)) = Some bi"
    and "b \<le> a" "a < nb" "\<not> used V nin a" "\<forall>c. b \<le> c \<longrightarrow> c < a \<longrightarrow> used V nin c"
  shows "bi < 4096" "a = b + of_nat bi"
proof -
  from assms(2) have bi: "bi < 4096" "unat b + bi < unat nb" "\<not> bit_at (V (BBLOCK b nin)) bi" "\<forall>j < bi. bit_at (V (BBLOCK b nin)) j"
    by (auto simp: first_clear_Some BPB_def)
  show "bi < 4096" by (rule bi(1))
  let ?a = "b + of_nat bi"
  note B = BBLOCK_add [OF assms(1) bi(1)]
  have a': "\<not> used V nin ?a" "b \<le> ?a"
    by (unfold used_code B(2,3)) (rule bi(3), simp add: word_le_nat_alt B(1))
  have low: "used V nin c" if "b \<le> c" "c < ?a" for c
  proof -
    have "unat c < unat b + bi" using that(2) B(1) by (simp add: word_less_nat_alt)
    moreover from this have r: "unat c < unat b + 4096" using bi(1) by linarith
    ultimately show ?thesis
      using bi(4) bitmap_range [OF assms(1) that(1) r] that(1)
      by (simp add: used_code word_le_nat_alt less_diff_conv2)
  qed
  show "a = ?a" using low [of a] a' assms(3,5,6) by (metis linorder_neqE)
qed

text \<open>The start of the next sector.\<close>

lemma next_sector:
  assumes "page_aligned b" "unat b + 4096 < 2 ^ 32"
  shows "unat (b + 4096) = unat b + 4096" "page_aligned (b + 4096)"
proof -
  show u: "unat (b + 4096) = unat b + 4096" using assms(2) by (simp add: unat_word_ariths)
  show "page_aligned (b + 4096)" using assms(1) unfolding page_aligned_unat u by simp
qed

lemma runs_balloc_loop:
  assumes "tx s V hs" and "bitmap_ok V (log_start s) (sb_size sb) (sb_ninodes sb)" and "length hs + 2 < LOGSIZE"
    and "page_aligned b" and "unat (sb_size sb) - unat b < 4096 * n"
    and "b \<le> a" "a < sb_size sb" "\<not> used V (sb_ninodes sb) a" "\<forall>c. b \<le> c \<longrightarrow> c < a \<longrightarrow> used V (sb_ninodes sb) c"
    and "1 < a" "a < log_start s"
  shows "\<exists>t. balloc_loop n 1 sb b s = Ret a t \<and> log_same s t
    \<and> tx t ((take_block V (sb_ninodes sb) a)(a := replicate BSIZE 0)) (absorb a (absorb (BBLOCK a (sb_ninodes sb)) hs))"
  using assms
proof (induction n arbitrary: b s)
  case 0
  then show ?case by (auto simp: word_le_nat_alt word_less_nat_alt)
next
  case (Suc n)
  let ?nin = "sb_ninodes sb" and ?sz = "sb_size sb"
  let ?m = "BBLOCK b ?nin" and ?N = "min (unat BPB) (unat ?sz - unat b)"
  note a = Suc.prems(6-11)
  have b: "b < ?sz" using a(1,2) by simp
  have ok: "1 < ?m" "?m < log_start s" using Suc.prems(2) b by (auto simp: bitmap_ok_def bitmap_sector_code)
  obtain i t u where t: "bread 1 ?m s = Ret i t" "get_data i t = Ret (V ?m) t" "brelse i t = Ret () u"
      "tx u V hs" "log_same s u"
    using tx_read [OF Suc.prems(1) ok(2)] by blast
  show ?case
  proof (cases "first_clear (V ?m) ?N")
    case None
    have far: "unat b + 4096 \<le> unat a" using full_sector [where V = V, OF Suc.prems(4) None a(1,2)] a(3) by fastforce
    then have "unat b + 4096 < 2 ^ 32" using unat_lt32 [of a] by linarith
    note B = next_sector [OF Suc.prems(4) this]
    have up: "b + 4096 \<le> c \<Longrightarrow> b \<le> c" for c using B(1) by (simp add: word_le_nat_alt)
    have "\<exists>t. balloc_loop n 1 sb (b + 4096) u = Ret a t \<and> log_same u t
      \<and> tx t ((take_block V ?nin a)(a := replicate BSIZE 0)) (absorb a (absorb (BBLOCK a ?nin) hs))"
    proof (rule Suc.IH [OF t(4) _ Suc.prems(3) B(2)])
      show "bitmap_ok V (log_start u) ?sz ?nin" "a < log_start u" using Suc.prems(2) a(6) t(5) by (simp_all add: log_same_def)
      show "unat ?sz - unat (b + 4096) < 4096 * n" using Suc.prems(5) far a(2) B(1) by (simp add: word_less_nat_alt)
      show "b + 4096 \<le> a" using far B(1) by (simp add: word_le_nat_alt)
      show "\<forall>c. b + 4096 \<le> c \<longrightarrow> c < a \<longrightarrow> used V ?nin c" using a(4) up by blast
    qed (use a in auto)
    moreover have "balloc_loop (Suc n) 1 sb b s = balloc_loop n 1 sb (b + 4096) u"
      using b t(1-3) None by (simp add: call_app andthen_def BPB_def)
    ultimately show ?thesis using log_same_trans [OF t(5)] by metis
  next
    case (Some bi)
    note F = free_in_sector [where V = V, OF Suc.prems(4) Some a(1-4)]
    note B = BBLOCK_add [OF Suc.prems(4) F(1), folded F(2)]
    have room: "Suc (length hs) < LOGSIZE" "Suc (length (absorb ?m hs)) < LOGSIZE"
      using Suc.prems(3) by (auto simp: absorb_def)
    obtain v where v: "update_block ?m (\<lambda>d. set_bit_at d bi) s = Ret () v"
        "tx v (V(?m := set_bit_at (V ?m) bi)) (absorb ?m hs)" "log_same s v"
      using tx_update [OF Suc.prems(1) ok room(1), of "\<lambda>d. set_bit_at d bi"] by blast
    have "a < log_start v" using a(6) v(3) by (simp add: log_same_def)
    then obtain y where y: "bzero 1 a v = Ret () y"
        "tx y ((V(?m := set_bit_at (V ?m) bi))(a := replicate BSIZE 0)) (absorb a (absorb ?m hs))" "log_same v y"
      using tx_bzero [OF v(2) a(5) _ room(2)] by blast
    have "andthen (put_data i (set_bit_at (V ?m) bi)) (andthen (log_write i) (brelse i)) t = Ret () v"
      using update_block_eq [OF t(1,2), of "\<lambda>d. set_bit_at d bi"] v(1) by simp
    then have "balloc_loop (Suc n) 1 sb b s = Ret a y"
      using b t(1,2) Some y(1) F(2) [symmetric] by (auto simp: call_app andthen_def split: result.splits)
    moreover have "V(?m := set_bit_at (V ?m) bi) = take_block V ?nin a"
      using B(2,3) by (simp add: take_block_def)
    ultimately show ?thesis using y(2) B(2) log_same_trans [OF v(3) y(3)] by (simp del: fun_upd_apply)
  qed
qed

lemma balloc_loop_full:
  assumes "tx s V hs" and "bitmap_ok V (log_start s) (sb_size sb) (sb_ninodes sb)" and "page_aligned b"
    and "unat (sb_size sb) - unat b \<le> 4096 * n" and "unat (sb_size sb) + 4096 \<le> 2 ^ 32"
    and "\<forall>c. b \<le> c \<longrightarrow> c < sb_size sb \<longrightarrow> used V (sb_ninodes sb) c"
  shows "balloc_loop (Suc n) 1 sb b s = Panic ''balloc: out of blocks''"
  using assms
proof (induction n arbitrary: b s)
  case 0
  then have "\<not> b < sb_size sb" by (simp add: word_less_nat_alt)
  then show ?case by (simp add: panic_def)
next
  case (Suc n)
  let ?nin = "sb_ninodes sb" and ?sz = "sb_size sb"
  let ?m = "BBLOCK b ?nin"
  show ?case
  proof (cases "b < ?sz")
    case True
    have "?m < log_start s" using Suc.prems(2) True by (simp add: bitmap_ok_def bitmap_sector_code)
    then obtain i t u where t: "bread 1 ?m s = Ret i t" "get_data i t = Ret (V ?m) t" "brelse i t = Ret () u"
        "tx u V hs" "log_same s u"
      using tx_read [OF Suc.prems(1)] by blast
    have None: "first_clear (V ?m) (min (unat BPB) (unat ?sz - unat b)) = None"
      unfolding first_clear_None
    proof (intro allI impI)
      fix j assume j: "j < min (unat BPB) (unat ?sz - unat b)"
      then have j': "j < 4096" by (simp add: BPB_def)
      note B = BBLOCK_add [OF Suc.prems(3) j']
      have "used V ?nin (b + of_nat j)"
        using Suc.prems(6) B(1) j by (auto simp: word_le_nat_alt word_less_nat_alt)
      then show "bit_at (V ?m) j" unfolding used_code B(2,3) .
    qed
    have "unat b + 4096 < 2 ^ 32" using True Suc.prems(5) by (simp add: word_less_nat_alt)
    note B = next_sector [OF Suc.prems(3) this]
    have "balloc_loop (Suc n) 1 sb (b + 4096) u = Panic ''balloc: out of blocks''"
    proof (rule Suc.IH [OF t(4) _ B(2) _ Suc.prems(5)])
      show "bitmap_ok V (log_start u) ?sz ?nin" using Suc.prems(2) t(5) by (simp add: log_same_def)
      show "unat ?sz - unat (b + 4096) \<le> 4096 * n" using Suc.prems(4) B(1) by simp
      show "\<forall>c. b + 4096 \<le> c \<longrightarrow> c < ?sz \<longrightarrow> used V ?nin c" using Suc.prems(6) B(1) by (simp add: word_le_nat_alt)
    qed
    then show ?thesis using True t(1-3) None by (simp add: call_app andthen_def BPB_def)
  qed (simp add: panic_def)
qed

lemma runs_balloc:
  assumes "tx s V hs" and sb: "dec_superblock (V 1) = sb" and "1 < log_start s"
    and "bitmap_ok V (log_start s) (sb_size sb) (sb_ninodes sb)" and "length hs + 2 < LOGSIZE"
    and "first_free V (sb_ninodes sb) (sb_size sb) a" "1 < a" "a < log_start s"
  shows "\<exists>t. balloc 1 s = Ret a t \<and> log_same s t
    \<and> tx t ((take_block V (sb_ninodes sb) a)(a := replicate BSIZE 0)) (absorb a (absorb (BBLOCK a (sb_ninodes sb)) hs))"
proof -
  obtain u where u: "readsb 1 s = Ret sb u" "tx u V hs" "log_same s u" using tx_readsb [OF assms(1,3)] sb by blast
  have "\<exists>t. balloc_loop (2 ^ 20 + 1) 1 sb 0 u = Ret a t \<and> log_same u t
    \<and> tx t ((take_block V (sb_ninodes sb) a)(a := replicate BSIZE 0)) (absorb a (absorb (BBLOCK a (sb_ninodes sb)) hs))"
  proof (rule runs_balloc_loop [OF u(2) _ assms(5)])
    show "bitmap_ok V (log_start u) (sb_size sb) (sb_ninodes sb)" "a < log_start u"
      using assms(4,8) u(3) by (simp_all add: log_same_def)
    show "unat (sb_size sb) - unat (0 :: u32) < 4096 * (2 ^ 20 + 1)" using unat_lt32 [of "sb_size sb"] by simp
  qed (use assms(6,7) in \<open>auto simp: page_aligned_def first_free_def\<close>)
  moreover have "balloc 1 s = balloc_loop (2 ^ 20 + 1) 1 sb 0 u" using u(1) by (simp only: balloc_def call_app result.case)
  ultimately show ?thesis using log_same_trans [OF u(3)] by auto
qed

lemma runs_bfree:
  assumes "tx s V hs" and sb: "dec_superblock (V 1) = sb" and st: "1 < log_start s"
    and m: "1 < BBLOCK b (sb_ninodes sb)" "BBLOCK b (sb_ninodes sb) < log_start s" and "Suc (length hs) < LOGSIZE"
  shows "if used V (sb_ninodes sb) b
    then \<exists>t. bfree 1 b s = Ret () t \<and> tx t (drop_block V (sb_ninodes sb) b) (absorb (BBLOCK b (sb_ninodes sb)) hs) \<and> log_same s t
    else bfree 1 b s = Panic ''freeing free block''"
proof -
  let ?m = "BBLOCK b (sb_ninodes sb)" and ?bi = "unat b mod 4096"
  obtain u where u: "readsb 1 s = Ret sb u" "tx u V hs" "log_same s u" using tx_readsb [OF assms(1) st] sb by blast
  have m': "?m < log_start u" using m(2) u(3) by (simp add: log_same_def)
  obtain i t where t: "bread 1 ?m u = Ret i t" "get_data i t = Ret (V ?m) t" using tx_read [OF u(2) m'] by blast
  have bi: "unat (b mod BPB) = ?bi" by (simp add: BPB_def unat_mod_distrib)
  have eq: "bfree 1 b s = andthen (panic_if (\<not> bit_at (V ?m) ?bi) ''freeing free block'')
      (andthen (put_data i (clear_bit_at (V ?m) ?bi)) (andthen (log_write i) (brelse i))) t"
    using u(1) t by (simp add: bfree_def call_app Let_def bi)
  show ?thesis
  proof (cases "used V (sb_ninodes sb) b")
    case True
    obtain v where v: "update_block ?m (\<lambda>d. clear_bit_at d ?bi) u = Ret () v"
        "tx v (V(?m := clear_bit_at (V ?m) ?bi)) (absorb ?m hs)" "log_same u v"
      using tx_update [OF u(2) m(1) m' assms(6), of "\<lambda>d. clear_bit_at d ?bi"] by blast
    have "bfree 1 b s = Ret () v"
      using eq True update_block_eq [OF t, of "\<lambda>d. clear_bit_at d ?bi"] v(1)
      by (simp add: used_code andthen_def call_app panic_if_def return_def)
    then show ?thesis using True v(2) log_same_trans [OF u(3) v(3)] by (simp add: drop_block_def)
  next
    case False
    then show ?thesis using eq by (simp add: used_code andthen_def call_app panic_if_def panic_def)
  qed
qed

section \<open>Properties\<close>

text \<open>C10: balloc returns the first block whose bit is clear in the bitmap; it sets the bit of that block and no
  other bit, fills the block with zeros, and changes nothing else of the file system. Both changes are logged in the
  transaction. Which blocks after it are free does not matter.\<close>

theorem balloc_first_free:
  assumes "tx s V hs" and "dec_superblock (V 1) = sb" and "1 < log_start s"
    and "bitmap_ok V (log_start s) (sb_size sb) (sb_ninodes sb)" and "length hs \<le> 7"
    and "first_free V (sb_ninodes sb) (sb_size sb) a" "1 < a" "a < log_start s"
  shows "runs (balloc 1) s (\<lambda>r t. r = a \<and> (\<exists>W. marked True V (sb_ninodes sb) a W
    \<and> tx t (W(a := replicate BSIZE 0)) (absorb a (absorb (bitmap_sector (sb_ninodes sb) a) hs))))"
proof -
  have "length (V (BBLOCK a (sb_ninodes sb))) = BSIZE"
    using assms(4,6) by (simp add: bitmap_ok_def first_free_def bitmap_sector_code)
  note M = marked_take [of V a "sb_ninodes sb", OF this]
  have "length hs + 2 < LOGSIZE" using assms(5) by (simp add: LOGSIZE_def)
  with runs_balloc [OF assms(1-4) _ assms(6-8)] M show ?thesis
    unfolding runs_def bitmap_sector_code by (auto simp del: fun_upd_apply)
qed

text \<open>When no block is free, balloc panics.\<close>

theorem balloc_out_of_blocks:
  assumes "tx s V hs" and "dec_superblock (V 1) = sb" and "1 < log_start s"
    and "bitmap_ok V (log_start s) (sb_size sb) (sb_ninodes sb)" and "unat (sb_size sb) + 4096 \<le> 2 ^ 32"
    and "\<forall>c < sb_size sb. used V (sb_ninodes sb) c"
  shows "balloc 1 s = Panic ''balloc: out of blocks''"
proof -
  obtain u where u: "readsb 1 s = Ret sb u" "tx u V hs" "log_same s u" using tx_readsb [OF assms(1,3)] assms(2) by blast
  have "balloc_loop (Suc (2 ^ 20)) 1 sb 0 u = Panic ''balloc: out of blocks''"
    using assms(4-6) u(3) by (intro balloc_loop_full [OF u(2)]) (simp_all add: log_same_def page_aligned_def)
  then show ?thesis using u(1) by (simp add: balloc_def call_app)
qed

text \<open>C11: bfree clears the bit of its block and no other bit, and changes nothing else, if the bit is set; it panics
  if it is clear.\<close>

theorem bfree_frees:
  assumes "tx s V hs" and "dec_superblock (V 1) = sb" and "1 < log_start s"
    and "1 < bitmap_sector (sb_ninodes sb) b" "bitmap_sector (sb_ninodes sb) b < log_start s"
    and "length (V (bitmap_sector (sb_ninodes sb) b)) = BSIZE" and "length hs \<le> 8"
  shows "if used V (sb_ninodes sb) b
    then runs (bfree 1 b) s (\<lambda>_ t. \<exists>W. marked False V (sb_ninodes sb) b W \<and> tx t W (absorb (bitmap_sector (sb_ninodes sb) b) hs))
    else bfree 1 b s = Panic ''freeing free block''"
proof -
  note M = marked_drop [of V b "sb_ninodes sb", OF assms(6) [unfolded bitmap_sector_code]]
  have "Suc (length hs) < LOGSIZE" using assms(7) by (simp add: LOGSIZE_def)
  with runs_bfree [OF assms(1-3) assms(4,5) [unfolded bitmap_sector_code]] M show ?thesis
    unfolding runs_def bitmap_sector_code by (auto split: if_splits)
qed

text \<open>A block that balloc returned and bfree gives back leaves the bitmap as it was, and the next
  balloc returns the same block again.\<close>

theorem balloc_bfree_balloc:
  assumes "tx s V hs" and "dec_superblock (V 1) = sb" and "1 < log_start s"
    and "bitmap_ok V (log_start s) (sb_size sb) (sb_ninodes sb)" and "length hs \<le> 5"
    and "first_free V (sb_ninodes sb) (sb_size sb) a" "1 < a" "a < log_start s"
    and "\<forall>c < sb_size sb. bitmap_sector (sb_ninodes sb) c \<noteq> a"
  shows "runs (balloc 1) s (\<lambda>r t. r = a \<and> runs (bfree 1 a) t (\<lambda>_ u.
    (\<exists>hs'. tx u (V(a := replicate BSIZE 0)) hs') \<and> runs (balloc 1) u (\<lambda>b _. b = a)))"
proof -
  let ?nin = "sb_ninodes sb"
  have fa: "a < sb_size sb" "\<not> used V ?nin a" "\<forall>c < a. used V ?nin c" using assms(6) by (simp_all add: first_free_def)
  have "length hs + 2 < LOGSIZE" using assms(5) by (simp add: LOGSIZE_def)
  then obtain t where a: "balloc 1 s = Ret a t" "log_same s t"
      "tx t ((take_block V ?nin a)(a := replicate BSIZE 0)) (absorb a (absorb (BBLOCK a ?nin) hs))"
    using runs_balloc [OF assms(1-4) _ assms(6-8)] by (auto simp del: fun_upd_apply)
  let ?m = "BBLOCK a ?nin"
  let ?V1 = "(take_block V ?nin a)(a := replicate BSIZE 0)" and ?V2 = "V(a := replicate BSIZE 0)"
  have ok: "1 < BBLOCK c ?nin" "BBLOCK c ?nin < log_start s" "length (V (BBLOCK c ?nin)) = BSIZE" "BBLOCK c ?nin \<noteq> a"
    if "c < sb_size sb" for c
    using assms(4,9) that by (auto simp: bitmap_ok_def bitmap_sector_code)
  note oa = ok [OF fa(1)]
  have ne: "?m \<noteq> a" "1 \<noteq> a" "1 \<noteq> ?m" using oa assms(7) by auto
  have sb1: "dec_superblock (?V1 1) = sb" using assms(2) ne by (simp add: take_block_def)
  have st: "1 < log_start t" "?m < log_start t" using assms(3) oa(2) a(2) by (simp_all add: log_same_def)
  have us: "used ?V1 ?nin a" using ne oa(3) by (simp add: used_code take_block_def bit_at_set)
  have "drop_block ?V1 ?nin a = ?V2"
    using ne oa(3) fa(2) by (auto simp: drop_block_def take_block_def used_code clear_set fun_eq_iff)
  moreover have "Suc (length (absorb a (absorb ?m hs))) < LOGSIZE" using assms(5) by (auto simp: absorb_def LOGSIZE_def)
  ultimately obtain u where u: "bfree 1 a t = Ret () u" "tx u ?V2 (absorb ?m (absorb a (absorb ?m hs)))" "log_same t u"
    using runs_bfree [OF a(3) sb1 st(1) oa(1) st(2)] us by (auto simp del: fun_upd_apply)
  have same: "V (BBLOCK c ?nin) = ?V2 (BBLOCK c ?nin)" if "c < sb_size sb" for c using ok(4) [OF that] by auto
  have "used ?V2 ?nin c \<longleftrightarrow> used V ?nin c" if "c < sb_size sb" for c using same [OF that] by (simp add: used_code)
  then have ff: "first_free ?V2 ?nin (sb_size sb) a" using fa less_trans unfolding first_free_def by blast
  have stu: "log_start u = log_start s" using a(2) u(3) by (simp add: log_same_def)
  have "bitmap_ok ?V2 (log_start u) (sb_size sb) ?nin"
    unfolding bitmap_ok_def stu bitmap_sector_code using ok same by metis
  moreover have "dec_superblock (?V2 1) = sb" using assms(2) ne by simp
  moreover have "length (absorb ?m (absorb a (absorb ?m hs))) + 2 < LOGSIZE"
    using assms(5) by (auto simp: absorb_def LOGSIZE_def)
  ultimately obtain v where "balloc 1 u = Ret a v"
    using runs_balloc [OF u(2) _ _ _ _ ff assms(7)] assms(3,8) stu by (metis (no_types, lifting))
  with a(1) u(1,2) show ?thesis by (auto simp: runs_def simp del: fun_upd_apply)
qed

section \<open>The properties at a concrete state\<close>

lemma tx_begin:
  assumes "quiet s st"
  shows "\<exists>t. begin_trans s = Ret () t \<and> tx t (disk s) [] \<and> log_start t = st"
proof -
  obtain t where t: "begin_trans s = Ret () t" "log_same (s\<lparr>log_busy := True\<rparr>) t"
      "in_trans t (dtrace s) (disk s) (disk s) {} []"
    using runs_begin [OF assms] by blast
  then show ?thesis using assms by (auto simp: tx_def quiet_def log_same_def)
qed

text \<open>A disk as mkfs leaves it: the blocks below 8 are in use, and every block from there on is free.\<close>

definition mkfs_bitmap :: "u8 list" where
  "mkfs_bitmap = (- 1) # replicate (BSIZE - 1) 0"

lemma mkfs_bitmap_bits: "k < 4096 \<Longrightarrow> bit_at mkfs_bitmap k \<longleftrightarrow> k < 8"
proof (cases "k div 8")
  case 0
  then have "k < 8" by simp
  then show ?thesis using 0 by (simp add: bit_at_iff mkfs_bitmap_def bit_simps)
next
  case (Suc n)
  assume "k < 4096"
  then have "n < BSIZE - 1" using Suc by (simp add: BSIZE_def)
  moreover have "\<not> k < 8" using Suc by auto
  ultimately show ?thesis using Suc by (simp add: bit_at_iff mkfs_bitmap_def)
qed

lemma tx_booted:
  obtains s V where "andthen (andthen binit initlog) (andthen begin_trans (update_block 3 (\<lambda>_. mkfs_bitmap))) log_boot = Ret () s"
    and "tx s V [3]" and "log_start s = 1014" and "dec_superblock (V 1) = \<lparr>sb_size = 1024, sb_nblocks = 0, sb_ninodes = 0, sb_nlog = 10\<rparr>"
    and "bitmap_ok V 1014 1024 0" and "\<forall>b < 1024. used V 0 b \<longleftrightarrow> b < 8" and "\<forall>b < 1024. bitmap_sector 0 b = 3"
    and "length (V 3) = BSIZE"
proof -
  obtain s where s: "andthen binit initlog log_boot = Ret () s" "quiet s 1014" "\<forall>x < 1014. disk s x = fresh_disk x"
    by (rule log_booted)
  obtain t where t: "begin_trans s = Ret () t" "tx t (disk s) []" "log_start t = 1014" using tx_begin [OF s(2)] by blast
  let ?V = "(disk s)(3 := mkfs_bitmap)"
  have "(1 :: u32) < 3" "(3 :: u32) < 1014" by simp_all
  then obtain u where u: "update_block 3 (\<lambda>_. mkfs_bitmap) t = Ret () u" "tx u ?V [3]" "log_same t u"
    using tx_update [OF t(2), of 3 "\<lambda>_. mkfs_bitmap"] t(3) by (auto simp: LOGSIZE_def absorb_def simp del: fun_upd_apply)
  have B: "bitmap_sector 0 b = 3" if "b < 1024" for b
  proof -
    have "unat (b div 4096) = 0" using that by (simp add: unat_div_distrib word_less_nat_alt)
    then have "b div 4096 = 0" by (simp only: unat_eq_0)
    then show ?thesis by (simp add: bitmap_sector_def)
  qed
  have us: "used ?V 0 b \<longleftrightarrow> b < 8" if "b < 1024" for b
  proof -
    have "unat b < 1024" using that by (simp add: word_less_nat_alt)
    then show ?thesis
      by (simp add: used_code bitmap_sector_code [symmetric] B [OF that] mkfs_bitmap_bits word_less_nat_alt)
  qed
  have len: "length mkfs_bitmap = BSIZE" by (simp add: mkfs_bitmap_def BSIZE_def)
  have "bitmap_ok ?V 1014 1024 0"
    unfolding bitmap_ok_def using B len by auto
  moreover have "?V 1 = fresh_disk 1" using s(3) by simp
  then have "dec_superblock (?V 1) = \<lparr>sb_size = 1024, sb_nblocks = 0, sb_ninodes = 0, sb_nlog = 10\<rparr>"
    by (simp add: fresh_disk_def dec_superblock_def patch_def BSIZE_def)
  moreover have "andthen (andthen binit initlog) (andthen begin_trans (update_block 3 (\<lambda>_. mkfs_bitmap))) log_boot = Ret () u"
    using s(1) t(1) u(1) by (simp add: andthen_def [of _ "andthen _ _"] call_app) (simp add: andthen_def call_app)
  ultimately show ?thesis using u(2,3) t(3) us B len by (intro that [of u ?V]) (simp_all add: log_same_def)
qed

lemma first_free_8: "\<forall>b < 1024. used V 0 b \<longleftrightarrow> b < 8 \<Longrightarrow> first_free V 0 1024 8"
  by (auto simp: first_free_def word_less_nat_alt)

abbreviation mkfs_like_boot :: "(log_state, unit) kern" where
  "mkfs_like_boot \<equiv> andthen (andthen binit initlog) (andthen begin_trans (update_block 3 (\<lambda>_. mkfs_bitmap)))"

theorem balloc_first_free_witness:
  "\<exists>s. mkfs_like_boot log_boot = Ret () s \<and> runs (balloc 1) s (\<lambda>r t. r = 8)"
proof -
  obtain s V where s: "mkfs_like_boot log_boot = Ret () s" "tx s V [3]" "log_start s = 1014"
      "dec_superblock (V 1) = \<lparr>sb_size = 1024, sb_nblocks = 0, sb_ninodes = 0, sb_nlog = 10\<rparr>"
      "bitmap_ok V 1014 1024 0" "\<forall>b < 1024. used V 0 b \<longleftrightarrow> b < 8"
    by (rule tx_booted)
  have "runs (balloc 1) s (\<lambda>r t. r = 8 \<and> (\<exists>W. marked True V 0 8 W \<and> tx t (W(8 := replicate BSIZE 0)) (absorb 8 (absorb (bitmap_sector 0 8) [3]))))"
    using balloc_first_free [OF s(2,4), of 8] s(3,5) first_free_8 [OF s(6)] by (simp del: fun_upd_apply)
  then show ?thesis using s(1) by (blast intro: runs_mono)
qed

theorem bfree_frees_witness:
  "\<exists>s. mkfs_like_boot log_boot = Ret () s \<and> runs (bfree 1 7) s (\<lambda>_ t. \<exists>V hs. tx t V hs)
     \<and> bfree 1 8 s = Panic ''freeing free block''"
proof -
  obtain s V where s: "mkfs_like_boot log_boot = Ret () s" "tx s V [3]" "log_start s = 1014"
      "dec_superblock (V 1) = \<lparr>sb_size = 1024, sb_nblocks = 0, sb_ninodes = 0, sb_nlog = 10\<rparr>"
      "\<forall>b < 1024. used V 0 b \<longleftrightarrow> b < 8" "\<forall>b < 1024. bitmap_sector 0 b = 3" "length (V 3) = BSIZE"
    by (rule tx_booted)
  have B: "used V 0 7" "\<not> used V 0 8" "bitmap_sector 0 7 = 3" "bitmap_sector 0 8 = 3" using s(5,6) by simp_all
  have "runs (bfree 1 7) s (\<lambda>_ t. \<exists>W. marked False V 0 7 W \<and> tx t W (absorb (bitmap_sector 0 7) [3]))"
    using bfree_frees [OF s(2,4), of 7] s(3,7) B by simp
  moreover have "bfree 1 8 s = Panic ''freeing free block''"
    using bfree_frees [OF s(2,4), of 8] s(3,7) B by simp
  ultimately show ?thesis using s(1) by (blast intro: runs_mono)
qed

theorem balloc_bfree_balloc_witness:
  "\<exists>s. mkfs_like_boot log_boot = Ret () s
     \<and> runs (balloc 1) s (\<lambda>a t. runs (bfree 1 a) t (\<lambda>_ u. runs (balloc 1) u (\<lambda>b _. b = a)))"
proof -
  obtain s V where s: "mkfs_like_boot log_boot = Ret () s" "tx s V [3]" "log_start s = 1014"
      "dec_superblock (V 1) = \<lparr>sb_size = 1024, sb_nblocks = 0, sb_ninodes = 0, sb_nlog = 10\<rparr>"
      "bitmap_ok V 1014 1024 0" "\<forall>b < 1024. used V 0 b \<longleftrightarrow> b < 8" "\<forall>b < 1024. bitmap_sector 0 b = 3"
    by (rule tx_booted)
  have "runs (balloc 1) s (\<lambda>a t. a = 8 \<and> runs (bfree 1 8) t (\<lambda>_ u.
    (\<exists>hs'. tx u (V(8 := replicate BSIZE 0)) hs') \<and> runs (balloc 1) u (\<lambda>b _. b = 8)))"
    using balloc_bfree_balloc [OF s(2,4), of 8] s(3,5,7) first_free_8 [OF s(6)] by (simp del: fun_upd_apply)
  then show ?thesis using s(1) by (auto intro!: runs_mono elim!: runs_mono simp del: fun_upd_apply)
qed

end
