(* ===== verification/Inodes.thy ===== *)
theory Inodes
  imports Blocks
begin

text \<open>
  Inodes: the inode cache, the contents of a file as the blocks its inode maps, and reading and
  writing them.
\<close>

section \<open>What the cache of inodes may change\<close>

definition icache_frame :: "'z fs_state_scheme \<Rightarrow> 'z fs_state_scheme \<Rightarrow> bool" where
  "icache_frame s t \<longleftrightarrow> balanced s t \<and> t = s\<lparr>irq_off := irq_off t, ncli := ncli t, intena := intena t,
     locks := locks t, inodes := inodes t\<rparr>"

lemma icache_frame_upd [simp]: "icache_frame s (s\<lparr>inodes := ips\<rparr>)"
  by (simp add: icache_frame_def balanced_def holding_def)

lemma icache_frame_sel:
  assumes "icache_frame s t"
  shows "bufs t = bufs s" "disk t = disk s" "dtrace t = dtrace s" "bnext t = bnext s" "bprev t = bprev s"
    "disksize t = disksize s" "lh_n t = lh_n s" "lh_sector t = lh_sector s" "log_start t = log_start s"
    "log_size t = log_size s" "log_busy t = log_busy s" "log_dev t = log_dev s" "balanced s t"
    "procs t = procs s"
  using assms by (cases s, cases t, simp add: icache_frame_def)+

lemma cache_frame: "icache_frame s t \<Longrightarrow> cache s w D V X H \<Longrightarrow> cache t w D V X H"
  using icache_frame_sel [of s t] cache_same [of s w D V X H t] by simp

lemma in_trans_frame: "icache_frame s t \<Longrightarrow> in_trans s w D V H hs \<Longrightarrow> in_trans t w D V H hs"
  using icache_frame_sel [of s t] cache_frame [of s t w D V "set hs" H] by (simp add: in_trans_def)

lemma tx_frame: "icache_frame s t \<Longrightarrow> tx s V hs \<Longrightarrow> tx t V hs"
  using icache_frame_sel [of s t] in_trans_frame [of s t] unfolding tx_def by metis

lemma kept_inodes: "kept s t \<Longrightarrow> inodes t = inodes s"
  by (cases s; cases t) (simp add: kept_iff)

lemma log_same_inodes: "log_same s t \<Longrightarrow> inodes t = inodes s"
  by (cases s; cases t) (simp add: log_same_def)

section \<open>Reading blocks\<close>

text \<open>What reading a file needs of a state: the blocks below \<open>m\<close> can be read one at a time and contain
  \<open>V\<close>, whatever is done to the cache of inodes meanwhile.\<close>

locale block_reader =
  fixes R :: "'z fs_state_scheme \<Rightarrow> bool" and m :: u32 and V :: "u32 \<Rightarrow> u8 list"
  assumes rd: "R s \<Longrightarrow> x < m \<Longrightarrow> \<exists>i t. bread 1 x s = Ret i t \<and> inodes t = inodes s \<and> get_data i t = Ret (V x) t
      \<and> (\<forall>ips. \<exists>u. brelse i (t\<lparr>inodes := ips\<rparr>) = Ret () u \<and> R u \<and> inodes u = ips)"
    and frame: "R s \<Longrightarrow> icache_frame s t \<Longrightarrow> R t"
    and free: "R s \<Longrightarrow> lock_free IcacheLock s"

text \<open>A file as its inode maps it: the address of its block \<open>k\<close>, directly or through the indirect
  block; the blocks are all there; and its byte at \<open>p\<close>.\<close>

definition addr_of :: "(u32 \<Rightarrow> u8 list) \<Rightarrow> dinode \<Rightarrow> nat \<Rightarrow> u32" where
  "addr_of V c k = (if k < NDIRECT then d_addrs c ! k
     else of_le32 (drop (4 * (k - NDIRECT)) (V (d_addrs c ! NDIRECT))))"

definition mapped :: "(u32 \<Rightarrow> u8 list) \<Rightarrow> u32 \<Rightarrow> dinode \<Rightarrow> nat \<Rightarrow> bool" where
  "mapped V m c n \<longleftrightarrow> n \<le> MAXFILE \<and> (\<forall>k < n. addr_of V c k \<noteq> 0 \<and> addr_of V c k < m \<and> length (V (addr_of V c k)) = BSIZE)
     \<and> (NDIRECT < n \<longrightarrow> d_addrs c ! NDIRECT \<noteq> 0 \<and> d_addrs c ! NDIRECT < m)"

definition file_byte :: "(u32 \<Rightarrow> u8 list) \<Rightarrow> dinode \<Rightarrow> nat \<Rightarrow> u8" where
  "file_byte V c p = V (addr_of V c (p div BSIZE)) ! (p mod BSIZE)"

definition file_bytes :: "(u32 \<Rightarrow> u8 list) \<Rightarrow> dinode \<Rightarrow> nat \<Rightarrow> nat \<Rightarrow> u8 list" where
  "file_bytes V c off n = map (file_byte V c) [off ..< off + n]"

lemma length_file_bytes [simp]: "length (file_bytes V c off n) = n"
  by (simp add: file_bytes_def)

lemma nth_file_bytes: "i < n \<Longrightarrow> file_bytes V c off n ! i = file_byte V c (off + i)"
  by (simp add: file_bytes_def)

text \<open>A pass of the loops stays inside one block.\<close>

lemma chunk_block: "j < chunk off cnt \<Longrightarrow> (unat off + j) div BSIZE = unat off div BSIZE"
    "j < chunk off cnt \<Longrightarrow> (unat off + j) mod BSIZE = unat off mod BSIZE + j"
    "unat off mod BSIZE + chunk off cnt \<le> BSIZE"
proof -
  show "unat off mod BSIZE + chunk off cnt \<le> BSIZE" by (simp add: chunk_def BSIZE_def)
  assume "j < chunk off cnt"
  then have "unat off mod BSIZE + j < BSIZE" by (simp add: chunk_def less_diff_conv)
  moreover have "unat off + j = (unat off mod BSIZE + j) + unat off div BSIZE * BSIZE" by simp
  ultimately show "(unat off + j) div BSIZE = unat off div BSIZE" "(unat off + j) mod BSIZE = unat off mod BSIZE + j"
    by (metis add.right_neutral add.commute div_less div_mult_self1 not_less_zero, metis mod_less mod_mult_self1)
qed

lemma file_bytes_chunk:
  assumes "length (V (addr_of V c (unat off div BSIZE))) = BSIZE" and "chunk off cnt \<le> cnt"
  shows "slice (unat off mod BSIZE) (chunk off cnt) (V (addr_of V c (unat off div BSIZE)))
      @ file_bytes V c (unat off + chunk off cnt) (cnt - chunk off cnt) = file_bytes V c (unat off) cnt"
proof -
  let ?k = "chunk off cnt"
  have "file_bytes V c (unat off) ?k = slice (unat off mod BSIZE) ?k (V (addr_of V c (unat off div BSIZE)))"
    using chunk_block(1,2) [of _ off cnt] chunk_block(3) [of off cnt] assms(1)
    by (intro nth_equalityI) (simp_all add: file_bytes_def file_byte_def slice_def)
  moreover have "[unat off ..< unat off + ?k] @ [unat off + ?k ..< unat off + cnt] = [unat off ..< unat off + cnt]"
    using assms(2) upt_add_eq_append [of "unat off" "unat off + ?k" "cnt - ?k"] by simp
  then have "file_bytes V c (unat off) ?k @ file_bytes V c (unat off + ?k) (cnt - ?k) = file_bytes V c (unat off) cnt"
    using assms(2) by (simp add: file_bytes_def flip: map_append)
  ultimately show ?thesis by simp
qed

lemma unat_block: "unat (off div of_nat BSIZE :: u32) = unat off div BSIZE"
  by (simp add: BSIZE_def unat_div_distrib)

lemma get_inode_eq: "ip < length (inodes s) \<Longrightarrow> get_inode ip s = Ret (inodes s ! ip) s"
  by (simp add: get_inode_def)

lemma sint_of_unat: "unat (w :: u32) = k \<Longrightarrow> k < 2 ^ 31 \<Longrightarrow> sint w = int k"
  by (simp add: sint_uint uint_nat signed_take_bit_int_eq_self)

context block_reader
begin

lemma read_release:
  assumes "R s" and "x < m"
  shows "\<exists>i t u. bread 1 x s = Ret i t \<and> inodes t = inodes s \<and> get_data i t = Ret (V x) t
    \<and> brelse i t = Ret () u \<and> R u \<and> inodes u = inodes s"
proof -
  obtain i t where t: "bread 1 x s = Ret i t" "inodes t = inodes s" "get_data i t = Ret (V x) t"
      "\<forall>ips. \<exists>u. brelse i (t\<lparr>inodes := ips\<rparr>) = Ret () u \<and> R u \<and> inodes u = ips"
    using rd [OF assms] by blast
  have "t\<lparr>inodes := inodes t\<rparr> = t" by simp
  with t(4) obtain u where "brelse i t = Ret () u" "R u" "inodes u = inodes t" by metis
  with t show ?thesis by auto
qed

lemma bmap_mapped:
  assumes "R s" and ip: "ip < length (inodes s)" "i_dev (inodes s ! ip) = 1"
    and "mapped V m (i_copy (inodes s ! ip)) n" and "unat bn < n"
  shows "\<exists>t. bmap ip bn s = Ret (addr_of V (i_copy (inodes s ! ip)) (unat bn)) t \<and> R t \<and> inodes t = inodes s"
proof (cases "unat bn < NDIRECT")
  case True
  with assms show ?thesis
    by (intro exI [of _ s])
      (auto simp: bmap_def addr_slot_def call_app get_inode_eq addr_of_def mapped_def Let_def)
next
  case False
  let ?c = "i_copy (inodes s ! ip)" and ?k = "unat bn - NDIRECT"
  let ?ia = "d_addrs ?c ! NDIRECT"
  have ia: "?ia \<noteq> 0" "?ia < m" and k: "?k < NINDIRECT" and a: "addr_of V ?c (unat bn) \<noteq> 0"
    using assms(4,5) False by (auto simp: mapped_def MAXFILE_def)
  obtain i t u where t: "bread 1 ?ia s = Ret i t" "inodes t = inodes s" "get_data i t = Ret (V ?ia) t"
      "brelse i t = Ret () u" "R u" "inodes u = inodes s"
    using read_release [OF assms(1) ia(2)] by blast
  have "bmap ip bn s = Ret (addr_of V ?c (unat bn)) u"
    using False k ia(1) a t(1-4) ip
    by (simp add: bmap_def addr_slot_def call_app get_inode_eq addr_of_def Let_def andthen_def)
  with t(5,6) show ?thesis by blast
qed

lemma readi_loop_bytes:
  assumes "R s" and "ip < length (inodes s)" "i_dev (inodes s ! ip) = 1"
    and "i_copy (inodes s ! ip) = c" and "mapped V m c n" and "unat off + cnt \<le> n * BSIZE"
  shows "\<exists>t. readi_loop ip off cnt s = Ret (file_bytes V c (unat off) cnt) t \<and> R t \<and> inodes t = inodes s"
  using assms
proof (induction ip off cnt arbitrary: s rule: readi_loop.induct)
  case (1 ip off cnt)
  show ?case
  proof (cases "cnt = 0")
    case True
    then show ?thesis using 1(2) by (simp add: readi_loop.simps [of ip off] file_bytes_def)
  next
    case False
    let ?k = "chunk off cnt" and ?b = "unat off div BSIZE"
    let ?a = "addr_of V c ?b"
    have "?b < n" using 1(7) False by (simp add: less_mult_imp_div_less)
    then have b: "unat (off div of_nat BSIZE :: u32) < n" and a: "?a < m" "length (V ?a) = BSIZE"
      using 1(6) by (auto simp: unat_block mapped_def)
    obtain t where t: "bmap ip (off div of_nat BSIZE) s = Ret ?a t" "R t" "inodes t = inodes s"
      using bmap_mapped [OF 1(2,3,4) _ b] 1(5,6) by (auto simp: unat_block)
    obtain i u v where u: "bread 1 ?a t = Ret i u" "inodes u = inodes t" "get_data i u = Ret (V ?a) u"
        "brelse i u = Ret () v" "R v" "inodes v = inodes t"
      using read_release [OF t(2) a(1)] by blast
    have le: "?k \<le> cnt" by (rule chunk_le)
    have "n * BSIZE \<le> 71680" using 1(6) by (simp add: mapped_def MAXFILE_def NDIRECT_def NINDIRECT_def BSIZE_def)
    then have off: "unat (off + of_nat ?k) = unat off + ?k"
      using 1(7) le by (simp add: unat_word_ariths unat_of_nat)
    obtain y where y: "readi_loop ip (off + of_nat ?k) (cnt - ?k) v
        = Ret (file_bytes V c (unat off + ?k) (cnt - ?k)) y" "R y" "inodes y = inodes v"
      using 1(1) [OF False refl u(5)] 1(3-7) t(3) u(6) le unfolding off by auto
    have "readi_loop ip off cnt s = Ret (file_bytes V c (unat off) cnt) y"
      using False t(1,3) u(1-4) y(1) 1(3,4) file_bytes_chunk [of V c off cnt, OF a(2) le]
      by (simp add: readi_loop.simps [of ip off] Let_def call_app get_inode_eq andthen_def)
    with y(2,3) u(6) t(3) show ?thesis by auto
  qed
qed

lemma readi_reads:
  assumes "R s" and ip: "ip < length (inodes s)" "i_dev (inodes s ! ip) = 1"
    and c: "i_copy (inodes s ! ip) = c" "d_type c \<noteq> T_DEV" and mp: "mapped V m c k" "unat (d_size c) \<le> k * BSIZE"
    and off: "off \<le> d_size c" "\<not> off + n < off"
  shows "\<exists>t. readi dv ip off n s = Ret (int (min (unat n) (unat (d_size c) - unat off)),
      file_bytes V c (unat off) (min (unat n) (unat (d_size c) - unat off))) t \<and> R t \<and> inodes t = inodes s"
proof -
  let ?n = "if off + n > d_size c then d_size c - off else n" and ?k = "min (unat n) (unat (d_size c) - unat off)"
  have sz: "unat (d_size c) \<le> 71680"
    using mp by (simp add: mapped_def MAXFILE_def NDIRECT_def NINDIRECT_def BSIZE_def)
  have sum: "unat (off + n) = unat off + unat n" using off(2) by (simp add: not_less unat_plus_simple [THEN iffD1] word_le_plus_either)
  have n: "unat ?n = ?k"
    using off(1) sum by (auto simp: word_less_nat_alt word_le_nat_alt unat_sub)
  then have sn: "sint ?n = int ?k" using sz by (intro sint_of_unat) simp_all
  have "unat off + ?k \<le> k * BSIZE" using mp(2) off(1) by (simp add: word_le_nat_alt)
  then obtain t where t: "readi_loop ip off ?k s = Ret (file_bytes V c (unat off) ?k) t" "R t" "inodes t = inodes s"
    using readi_loop_bytes [OF assms(1) ip c(1) mp(1)] by blast
  have "readi dv ip off n s = Ret (int ?k, file_bytes V c (unat off) ?k) t"
  proof (cases "off + n > d_size c")
    case True
    with off c ip t(1) n sn show ?thesis by (simp add: readi_def call_app get_inode_eq Let_def not_less)
  next
    case False
    moreover have "\<not> d_size c < off" using off(1) by simp
    ultimately show ?thesis
      using off(2) c ip t(1) n sn by (simp add: readi_def call_app get_inode_eq Let_def)
  qed
  with t(2,3) show ?thesis by blast
qed

end

text \<open>Two states that files can be read in: a cache with a buffer to spare, whatever it holds, and an open
  transaction.\<close>

definition cached :: "'z fs_state_scheme \<Rightarrow> u32 \<Rightarrow> (u32 \<Rightarrow> u8 list) \<Rightarrow> bool" where
  "cached s m V \<longleftrightarrow> (\<exists>w D V' X. cache s w D V' X {} \<and> card X < NBUF \<and> (\<forall>x < m. V' x = V x))
     \<and> m \<le> disksize s \<and> lock_free IcacheLock s"

definition in_tx :: "'z fs_state_scheme \<Rightarrow> u32 \<Rightarrow> (u32 \<Rightarrow> u8 list) \<Rightarrow> u32 list \<Rightarrow> bool" where
  "in_tx s m V hs \<longleftrightarrow> tx s V hs \<and> log_start s = m \<and> lock_free IcacheLock s"

text \<open>Reading a block in either, with the inodes changed before it is released.\<close>

lemma read_then_release:
  assumes "cache s w D V X {}" and "x < disksize s" and "card X < NBUF" and "lock_free IcacheLock s"
  shows "\<exists>i t. bread 1 x s = Ret i t \<and> inodes t = inodes s \<and> get_data i t = Ret (V x) t
    \<and> (\<forall>ips. \<exists>u. brelse i (t\<lparr>inodes := ips\<rparr>) = Ret () u \<and> inodes u = ips \<and> cache u w D V X {}
      \<and> lock_free IcacheLock u \<and> kept (s\<lparr>inodes := ips\<rparr>) u)"
proof -
  obtain i t where t: "bread 1 x s = Ret i t" "kept s t" "cache t w D V X {(i, x)}"
    using bc.rd [OF assms(1,2)] assms(3) by (auto elim: runsE)
  have v: "V x = D x \<or> x \<in> X" using clean_view [OF assms(1)] by blast
  have "\<exists>u. brelse i (t\<lparr>inodes := ips\<rparr>) = Ret () u \<and> inodes u = ips \<and> cache u w D V X {}
      \<and> lock_free IcacheLock u \<and> kept (s\<lparr>inodes := ips\<rparr>) u" for ips
  proof -
    have "cache (t\<lparr>inodes := ips\<rparr>) w D V X {(i, x)}" using cache_frame [OF icache_frame_upd t(3)] .
    from runs_unitD [OF bc.rel [OF this, of i x]] v obtain u where
      u: "brelse i (t\<lparr>inodes := ips\<rparr>) = Ret () u" "kept (t\<lparr>inodes := ips\<rparr>) u" "cache u w D V X {}" by auto
    have k: "kept (s\<lparr>inodes := ips\<rparr>) (t\<lparr>inodes := ips\<rparr>)"
      using t(2) by (cases s, cases t) (simp add: kept_iff balanced_def holding_def)
    with u(2) have k2: "kept (s\<lparr>inodes := ips\<rparr>) u" by (rule kept_trans [rotated])
    then have "lock_free IcacheLock u"
      using assms(4) balanced_lock_free [of "s\<lparr>inodes := ips\<rparr>" u IcacheLock]
      by (simp add: kept_iff lock_free_def cli_ok_def holding_def)
    then show ?thesis using u k2 kept_inodes [OF u(2)] by auto
  qed
  then show ?thesis using t kept_inodes [OF t(2)] bc.dat [OF t(3), of i x] by blast
qed

interpretation cr: block_reader "\<lambda>s. cached s m V" m V for m V
proof
  fix s t :: "'a fs_state_scheme" and x
  assume R: "cached s m V"
  show "lock_free IcacheLock s" using R by (simp add: cached_def)
  obtain w D V' X where c: "cache s w D V' X {}" "card X < NBUF" "\<forall>x < m. V' x = V x"
    using R by (auto simp: cached_def)
  show "cached t m V" if "icache_frame s t"
    using cache_frame [OF that c(1)] c(2,3) R icache_frame_sel [OF that] by (auto simp: cached_def balanced_lock_free)
  assume x: "x < m"
  then have "x < disksize s" using R by (auto simp: cached_def intro: less_le_trans)
  from read_then_release [OF c(1) this c(2)] R obtain i t where
    t: "bread 1 x s = Ret i t" "inodes t = inodes s" "get_data i t = Ret (V' x) t"
      "\<forall>ips. \<exists>u. brelse i (t\<lparr>inodes := ips\<rparr>) = Ret () u \<and> inodes u = ips \<and> cache u w D V' X {}
        \<and> lock_free IcacheLock u \<and> kept (s\<lparr>inodes := ips\<rparr>) u"
    by (auto simp: cached_def)
  have "cached u m V" if "cache u w D V' X {}" "lock_free IcacheLock u" "kept (s\<lparr>inodes := ips\<rparr>) u" for u ips
    using that c(2,3) R by (auto simp: cached_def kept_iff)
  then show "\<exists>i t. bread 1 x s = Ret i t \<and> inodes t = inodes s \<and> get_data i t = Ret (V x) t
      \<and> (\<forall>ips. \<exists>u. brelse i (t\<lparr>inodes := ips\<rparr>) = Ret () u \<and> cached u m V \<and> inodes u = ips)"
    using t c(3) x by metis
qed

interpretation tr: block_reader "\<lambda>s. in_tx s m V hs" m V for m V hs
proof
  fix s t :: "'a fs_state_scheme" and x
  assume R: "in_tx s m V hs"
  show "lock_free IcacheLock s" using R by (simp add: in_tx_def)
  show "in_tx t m V hs" if "icache_frame s t"
    using tx_frame [OF that] R icache_frame_sel [OF that] by (auto simp: in_tx_def balanced_lock_free)
  assume x: "x < m"
  obtain w D V' where tr: "in_trans s w D V' {} hs" "\<forall>x < m. V' x = V x"
    using R by (auto simp: in_tx_def tx_def)
  have c: "cache s w D V' (set hs) {}" and fits: "log_fits m (disksize s) hs"
    using tr(1) R by (simp_all add: in_trans_def in_tx_def)
  have card: "card (set hs) < NBUF" using fits by (simp add: log_fits_def distinct_card)
  have "x < disksize s" using tx_below [of s V hs x] R x by (simp add: in_tx_def)
  from read_then_release [OF c this card] R obtain i t where
    t: "bread 1 x s = Ret i t" "inodes t = inodes s" "get_data i t = Ret (V' x) t"
      "\<forall>ips. \<exists>u. brelse i (t\<lparr>inodes := ips\<rparr>) = Ret () u \<and> inodes u = ips \<and> cache u w D V' (set hs) {}
        \<and> lock_free IcacheLock u \<and> kept (s\<lparr>inodes := ips\<rparr>) u"
    by (auto simp: in_tx_def)
  have "in_tx u m V hs" if u: "cache u w D V' (set hs) {}" "lock_free IcacheLock u" "kept (s\<lparr>inodes := ips\<rparr>) u" for u ips
  proof -
    have "in_trans u w D V' {} hs" using tr(1) u(1) kept_log [OF u(3)] by (simp add: in_trans_def)
    then show ?thesis
      using R u(2) tr(2) kept_log [OF u(3)] by (auto simp: in_tx_def tx_def)
  qed
  then show "\<exists>i t. bread 1 x s = Ret i t \<and> inodes t = inodes s \<and> get_data i t = Ret (V x) t
      \<and> (\<forall>ips. \<exists>u. brelse i (t\<lparr>inodes := ips\<rparr>) = Ret () u \<and> in_tx u m V hs \<and> inodes u = ips)"
    using t tr(2) x by metis
qed

section \<open>Writing blocks of a file\<close>

text \<open>The blocks of a file are distinct, and none is its indirect block or the super block.\<close>

definition separate :: "(u32 \<Rightarrow> u8 list) \<Rightarrow> dinode \<Rightarrow> nat \<Rightarrow> bool" where
  "separate V c n \<longleftrightarrow> (\<forall>i < n. \<forall>j < n. i \<noteq> j \<longrightarrow> addr_of V c i \<noteq> addr_of V c j)
     \<and> (\<forall>i < n. 1 < addr_of V c i \<and> (NDIRECT < n \<longrightarrow> addr_of V c i \<noteq> d_addrs c ! NDIRECT))"

definition overwritten :: "nat \<Rightarrow> u8 list \<Rightarrow> (nat \<Rightarrow> u8) \<Rightarrow> nat \<Rightarrow> u8" where
  "overwritten off bs f p = (if off \<le> p \<and> p < off + length bs then bs ! (p - off) else f p)"

lemma overwritten_cong: "f p = g p \<Longrightarrow> overwritten off bs f p = overwritten off bs g p"
  by (simp add: overwritten_def)

lemma overwritten_twice:
  assumes "k \<le> length bs"
  shows "overwritten (off + k) (drop k bs) (overwritten off (take k bs) f) p = overwritten off bs f p"
  using assms by (auto simp: overwritten_def)

lemma block_patch:
  assumes mp: "mapped V m c n" and sep: "separate V c n" and b: "b < n" and k: "k + length bs \<le> BSIZE"
  defines "V' \<equiv> V(addr_of V c b := patch k bs (V (addr_of V c b)))"
  shows "i < n \<Longrightarrow> addr_of V' c i = addr_of V c i" "mapped V' m c n" "separate V' c n"
    "p < n * BSIZE \<Longrightarrow> file_byte V' c p = overwritten (b * BSIZE + k) bs (file_byte V c) p"
proof -
  let ?a = "addr_of V c b"
  have len: "length (V ?a) = BSIZE" using mp b by (simp add: mapped_def)
  have ad: "addr_of V' c i = addr_of V c i" if "i < n" for i
    using that sep b by (auto simp: addr_of_def V'_def separate_def)
  then show "i < n \<Longrightarrow> addr_of V' c i = addr_of V c i" .
  show "mapped V' m c n" using mp ad len k by (auto simp: mapped_def V'_def)
  show "separate V' c n" using sep ad by (auto simp: separate_def)
  assume p: "p < n * BSIZE"
  let ?q = "p div BSIZE" and ?r = "p mod BSIZE"
  have q: "?q < n" using p by (simp add: less_mult_imp_div_less)
  have r: "?r < BSIZE" by (simp add: BSIZE_def)
  have p': "p = ?q * BSIZE + ?r" by simp
  show "file_byte V' c p = overwritten (b * BSIZE + k) bs (file_byte V c) p"
  proof (cases "?q = b")
    case True
    have 1: "b * BSIZE + k \<le> p \<longleftrightarrow> k \<le> ?r" "p < b * BSIZE + k + length bs \<longleftrightarrow> ?r < k + length bs"
      "p - (b * BSIZE + k) = ?r - k"
      using True by (subst p', simp)+
    have "file_byte V' c p = patch k bs (V ?a) ! ?r" using True ad [OF b] by (simp add: file_byte_def V'_def)
    also have "\<dots> = (if k \<le> ?r \<and> ?r < k + length bs then bs ! (?r - k) else V ?a ! ?r)"
      using k r len by (intro nth_patch) simp_all
    finally show ?thesis unfolding overwritten_def 1 using True by (simp add: file_byte_def)
  next
    case False
    have "\<not> (b * BSIZE + k \<le> p \<and> p < b * BSIZE + k + length bs)"
    proof
      assume "b * BSIZE + k \<le> p \<and> p < b * BSIZE + k + length bs"
      then have "b * BSIZE \<le> p" "p < Suc b * BSIZE" using k by simp_all
      then have "?q = b" by (intro div_nat_eqI) (simp_all add: mult.commute)
      with False show False by simp
    qed
    moreover have "addr_of V c ?q \<noteq> ?a" using sep q b False by (simp add: separate_def)
    ultimately show ?thesis using ad [OF q] by (auto simp: file_byte_def overwritten_def V'_def)
  qed
qed

text \<open>The blocks a range of bytes touches, and what a pass of the loop leaves of them.\<close>

definition touched :: "nat \<Rightarrow> nat \<Rightarrow> nat" where
  "touched off cnt = (if cnt = 0 then 0 else Suc ((off mod BSIZE + cnt - 1) div BSIZE))"

lemma touched_step:
  assumes "0 < cnt"
  shows "touched off cnt = Suc (touched (off + min cnt (BSIZE - off mod BSIZE)) (cnt - min cnt (BSIZE - off mod BSIZE)))"
proof (cases "off mod BSIZE + cnt \<le> BSIZE")
  case True
  then have "min cnt (BSIZE - off mod BSIZE) = cnt" by simp
  moreover have "(off mod BSIZE + cnt - 1) div BSIZE = 0" using True assms by (simp add: BSIZE_def)
  ultimately show ?thesis using assms by (simp add: touched_def)
next
  case False
  let ?r = "off mod BSIZE"
  have r: "?r < BSIZE" by (simp add: BSIZE_def)
  then have m: "min cnt (BSIZE - ?r) = BSIZE - ?r" using False by simp
  have "(off + (BSIZE - ?r)) mod BSIZE = 0"
  proof -
    have "off + (BSIZE - ?r) = BSIZE + off div BSIZE * BSIZE"
      using div_mult_mod_eq [of off BSIZE] r by linarith
    then show ?thesis by simp
  qed
  moreover have "cnt - (BSIZE - ?r) \<noteq> 0" using False r by linarith
  ultimately have 1: "touched (off + (BSIZE - ?r)) (cnt - (BSIZE - ?r)) = Suc ((cnt - (BSIZE - ?r) - 1) div BSIZE)"
    by (simp add: touched_def)
  have "?r + cnt - 1 = (cnt - (BSIZE - ?r) - 1) + BSIZE" using False r by linarith
  moreover have "(d + BSIZE) div BSIZE = Suc (d div BSIZE)" for d by (simp add: BSIZE_def)
  ultimately have "(?r + cnt - 1) div BSIZE = Suc ((cnt - (BSIZE - ?r) - 1) div BSIZE)" by (simp only:)
  then show ?thesis using assms by (simp only: m 1) (simp add: touched_def)
qed

lemma in_tx_update:
  assumes "in_tx s m V hs" and "1 < x" "x < m" and "Suc (length hs) < LOGSIZE"
  shows "\<exists>t. update_block x f s = Ret () t \<and> in_tx t m (V(x := f (V x))) (absorb x hs) \<and> inodes t = inodes s"
proof -
  have tx: "tx s V hs" "x < log_start s" "lock_free IcacheLock s" "log_start s = m"
    using assms(1,3) by (simp_all add: in_tx_def)
  obtain t where t: "update_block x f s = Ret () t" "tx t (V(x := f (V x))) (absorb x hs)" "log_same s t"
    using tx_update [OF tx(1) assms(2) tx(2) assms(4)] by blast
  have "lock_free IcacheLock t" using tx(3) t(3) balanced_lock_free by (auto simp: log_same_def)
  then show ?thesis using t tx(4) log_same_inodes [OF t(3)] by (auto simp: in_tx_def log_same_def)
qed

lemma writei_loop_writes:
  assumes "in_tx s m V hs" and "ip < length (inodes s)" "i_dev (inodes s ! ip) = 1"
    and "i_copy (inodes s ! ip) = c" and "mapped V m c n" "separate V c n"
    and "unat off + length bs \<le> n * BSIZE" and "length hs + touched (unat off) (length bs) < LOGSIZE"
  shows "\<exists>t V' hs'. writei_loop ip off bs s = Ret () t \<and> in_tx t m V' hs' \<and> inodes t = inodes s
    \<and> mapped V' m c n \<and> separate V' c n \<and> (\<forall>i < n. addr_of V' c i = addr_of V c i)
    \<and> (\<forall>x. x \<notin> addr_of V c ` {..< n} \<longrightarrow> V' x = V x)
    \<and> (\<forall>p < n * BSIZE. file_byte V' c p = overwritten (unat off) bs (file_byte V c) p)"
  using assms
proof (induction ip off bs arbitrary: s V hs rule: writei_loop.induct)
  case (1 ip off bs)
  show ?case
  proof (cases "bs = []")
    case True
    then show ?thesis
      using 1(2,6,7) by (intro exI [of _ s] exI [of _ V]) (auto simp: writei_loop.simps [of ip off] overwritten_def)
  next
    case False
    let ?k = "chunk off (length bs)" and ?b = "unat off div BSIZE" and ?r = "unat off mod BSIZE"
    let ?a = "addr_of V c ?b" and ?xs = "take (chunk off (length bs)) bs"
    let ?V = "V(?a := patch ?r ?xs (V ?a))"
    have "unat off < n * BSIZE" using 1(8) False by (cases bs) simp_all
    then have bn: "?b < n" by (simp add: less_mult_imp_div_less)
    then have b: "unat (off div of_nat BSIZE :: u32) < n" and a: "?a < m" "1 < ?a"
      using 1(6,7) by (auto simp: unat_block mapped_def separate_def)
    have le: "?k \<le> length bs" by (rule chunk_le)
    have xs: "length ?xs = ?k" "?r + length ?xs \<le> BSIZE" using le chunk_block(3) [of off "length bs"] by simp_all
    note P = block_patch [OF 1(6,7) bn xs(2)]
    obtain t where t: "bmap ip (off div of_nat BSIZE) s = Ret ?a t" "in_tx t m V hs" "inodes t = inodes s"
      using tr.bmap_mapped [OF 1(2,3,4) _ b] 1(5,6) by (auto simp: unat_block)
    have ts: "touched (unat off) (length bs) = Suc (touched (unat off + ?k) (length bs - ?k))"
      using touched_step [of "length bs" "unat off"] False by (simp add: chunk_def)
    obtain i u where u: "bread 1 ?a t = Ret i u" "get_data i u = Ret (V ?a) u"
      using tr.read_release [OF t(2) a(1)] by blast
    obtain v where v: "update_block ?a (patch ?r ?xs) t = Ret () v" "in_tx v m ?V (absorb ?a hs)" "inodes v = inodes t"
      using in_tx_update [OF t(2) a(2,1), of "patch ?r ?xs"] 1(9) ts by auto
    have "n * BSIZE \<le> 71680" using 1(6) by (simp add: mapped_def MAXFILE_def NDIRECT_def NINDIRECT_def BSIZE_def)
    then have off: "unat (off + of_nat ?k) = unat off + ?k"
      using 1(8) le by (simp add: unat_word_ariths unat_of_nat)
    have "\<exists>y V' hs'. writei_loop ip (off + of_nat ?k) (drop ?k bs) v = Ret () y \<and> in_tx y m V' hs' \<and> inodes y = inodes v
      \<and> mapped V' m c n \<and> separate V' c n \<and> (\<forall>i < n. addr_of V' c i = addr_of ?V c i)
      \<and> (\<forall>x. x \<notin> addr_of ?V c ` {..< n} \<longrightarrow> V' x = ?V x)
      \<and> (\<forall>p < n * BSIZE. file_byte V' c p = overwritten (unat (off + of_nat ?k)) (drop ?k bs) (file_byte ?V c) p)"
    proof (rule 1(1) [OF False refl v(2) _ _ _ P(2,3)])
      have "length (absorb ?a hs) \<le> Suc (length hs)" by (simp add: absorb_def)
      then show "length (absorb ?a hs) + touched (unat (off + of_nat ?k)) (length (drop ?k bs)) < LOGSIZE"
        using 1(9) ts unfolding off by simp
      show "unat (off + of_nat ?k) + length (drop ?k bs) \<le> n * BSIZE" using 1(8) le unfolding off by simp
    qed (use 1(3-5) t(3) v(3) in simp_all)
    then obtain y V' hs' where y: "writei_loop ip (off + of_nat ?k) (drop ?k bs) v = Ret () y" "in_tx y m V' hs'"
        "inodes y = inodes v" "mapped V' m c n" "separate V' c n" "\<forall>i < n. addr_of V' c i = addr_of ?V c i"
        "\<forall>x. x \<notin> addr_of ?V c ` {..< n} \<longrightarrow> V' x = ?V x"
        "\<forall>p < n * BSIZE. file_byte V' c p = overwritten (unat off + ?k) (drop ?k bs) (file_byte ?V c) p"
      unfolding off by blast
    have "addr_of ?V c ` {..< n} = addr_of V c ` {..< n}" using P(1) by (intro image_cong) simp_all
    moreover have "?a \<in> addr_of V c ` {..< n}" using bn by simp
    ultimately have other: "V' x = V x" if "x \<notin> addr_of V c ` {..< n}" for x using y(7) that by auto
    have "file_byte V' c p = overwritten (unat off) bs (file_byte V c) p" if p: "p < n * BSIZE" for p
    proof -
      have o: "?b * BSIZE + ?r = unat off" by simp
      have "file_byte V' c p = overwritten (unat off + ?k) (drop ?k bs) (file_byte ?V c) p" using y(8) p by blast
      also have "\<dots> = overwritten (unat off + ?k) (drop ?k bs) (overwritten (unat off) ?xs (file_byte V c)) p"
        using P(4) [OF p] unfolding o by (rule overwritten_cong)
      also have "\<dots> = overwritten (unat off) bs (file_byte V c) p" by (rule overwritten_twice [OF le])
      finally show ?thesis .
    qed
    moreover have "writei_loop ip off bs s = Ret () y"
      using False t(1,3) u v(1) y(1) 1(3,4) update_block_eq [OF u, of "patch ?r ?xs"]
      by (auto simp: writei_loop.simps [of ip off] Let_def call_app get_inode_eq andthen_def split: result.splits)
    ultimately show ?thesis
      using y(2-6) other P(1) t(3) v(3) by (intro exI [of _ y] exI [of _ V'] exI [of _ hs']) auto
  qed
qed

section \<open>The inode cache\<close>

text \<open>Every slot has a nonnegative reference count, and no inode is in two slots in use.\<close>

definition icache_ok :: "inode list \<Rightarrow> bool" where
  "icache_ok ips \<longleftrightarrow> length ips = NINODE \<and> (\<forall>i < NINODE. 0 \<le> i_ref (ips ! i))
     \<and> (\<forall>i < NINODE. \<forall>j < NINODE. 0 < i_ref (ips ! i) \<longrightarrow> 0 < i_ref (ips ! j) \<longrightarrow> i_dev (ips ! i) = i_dev (ips ! j)
       \<longrightarrow> i_inum (ips ! i) = i_inum (ips ! j) \<longrightarrow> i = j)"

lemma icache_locked:
  assumes "lock_free IcacheLock s" and "body (entered IcacheLock s) = Ret r ((entered IcacheLock s)\<lparr>inodes := ips\<rparr>)"
  shows "locked_section IcacheLock body s = Ret r (left IcacheLock ((entered IcacheLock s)\<lparr>inodes := ips\<rparr>))"
    "icache_frame s (left IcacheLock ((entered IcacheLock s)\<lparr>inodes := ips\<rparr>))"
    "inodes (left IcacheLock ((entered IcacheLock s)\<lparr>inodes := ips\<rparr>)) = ips"
proof -
  have b: "balanced (entered IcacheLock s) ((entered IcacheLock s)\<lparr>inodes := ips\<rparr>)" by (simp add: balanced_def holding_def)
  show "locked_section IcacheLock body s = Ret r (left IcacheLock ((entered IcacheLock s)\<lparr>inodes := ips\<rparr>))"
    using assms b by (intro locked_section_eq) (simp_all add: lock_free_def)
  show "icache_frame s (left IcacheLock ((entered IcacheLock s)\<lparr>inodes := ips\<rparr>))"
    using bracket_balanced [OF assms(1) b] by (simp add: icache_frame_def) (simp add: entered_def left_def)
  show "inodes (left IcacheLock ((entered IcacheLock s)\<lparr>inodes := ips\<rparr>)) = ips" by (simp add: left_def)
qed

lemma inodes_entered [simp]: "inodes (entered l s) = inodes s"
  by (simp add: entered_def)

text \<open>What \<open>iget\<close> does to the table, and where it returns.\<close>

definition slot_of :: "u32 \<Rightarrow> u32 \<Rightarrow> inode list \<Rightarrow> nat option" where
  "slot_of dev inum ips = (case find_index (\<lambda>ip. i_ref ip > 0 \<and> i_dev ip = dev \<and> i_inum ip = inum) ips of
     Some i \<Rightarrow> Some i | None \<Rightarrow> find_index (\<lambda>ip. i_ref ip = 0) ips)"

definition referenced :: "u32 \<Rightarrow> u32 \<Rightarrow> inode \<Rightarrow> inode" where
  "referenced dev inum ip = (if i_ref ip = 0
     then ip\<lparr>i_dev := dev, i_inum := inum, i_ref := 1, i_busy := False, i_valid := False\<rparr>
     else ip\<lparr>i_ref := i_ref ip + 1\<rparr>)"

lemma iget_eq:
  assumes "lock_free IcacheLock s"
  shows "slot_of dev inum (inodes s) = Some i \<Longrightarrow> \<exists>t. iget dev inum s = Ret i t \<and> icache_frame s t
      \<and> inodes t = (inodes s)[i := referenced dev inum (inodes s ! i)]"
    "slot_of dev inum (inodes s) = None \<Longrightarrow> iget dev inum s = Panic ''iget: no inodes''"
proof -
  let ?e = "entered IcacheLock s"
  show "iget dev inum s = Panic ''iget: no inodes''" if "slot_of dev inum (inodes s) = None"
    using that assms
    by (simp add: iget_def locked_section_def andthen_def call_app acquire_eq lock_free_def iget_body_def reads_def
        slot_of_def panic_def split: option.splits)
  assume sl: "slot_of dev inum (inodes s) = Some i"
  have "iget_body dev inum ?e = Ret i (?e\<lparr>inodes := (inodes s)[i := referenced dev inum (inodes s ! i)]\<rparr>)"
  proof (cases "find_index (\<lambda>ip. i_ref ip > 0 \<and> i_dev ip = dev \<and> i_inum ip = inum) (inodes s)")
    case None
    with sl have i: "find_index (\<lambda>ip. i_ref ip = 0) (inodes s) = Some i" by (simp add: slot_of_def)
    from find_index_SomeD [OF this] None i show ?thesis
      by (simp add: iget_body_def call_app reads_def upd_inode_def andthen_def modify_def return_def referenced_def)
  next
    case (Some k)
    with sl have "k = i" by (simp add: slot_of_def)
    with find_index_SomeD [OF Some] Some show ?thesis
      by (simp add: iget_body_def call_app reads_def upd_inode_def andthen_def modify_def return_def referenced_def)
  qed
  from icache_locked [where body = "iget_body dev inum", OF assms this] show "\<exists>t. iget dev inum s = Ret i t \<and> icache_frame s t
      \<and> inodes t = (inodes s)[i := referenced dev inum (inodes s ! i)]"
    by (auto simp: iget_def)
qed

lemma slot_of_Some:
  assumes "slot_of dev inum ips = Some i" and "icache_ok ips"
  shows "i < NINODE" "i_ref (ips ! i) = 0 \<or> i_dev (ips ! i) = dev \<and> i_inum (ips ! i) = inum"
    "j < NINODE \<Longrightarrow> 0 < i_ref (ips ! j) \<Longrightarrow> i_dev (ips ! j) = dev \<Longrightarrow> i_inum (ips ! j) = inum \<Longrightarrow> j = i"
proof -
  have len: "length ips = NINODE" using assms(2) by (simp add: icache_ok_def)
  show i: "i < NINODE" "i_ref (ips ! i) = 0 \<or> i_dev (ips ! i) = dev \<and> i_inum (ips ! i) = inum"
    using assms(1) len by (auto simp: slot_of_def find_index_Some split: option.splits)
  assume j: "j < NINODE" "0 < i_ref (ips ! j)" "i_dev (ips ! j) = dev" "i_inum (ips ! j) = inum"
  then have "find_index (\<lambda>ip. i_ref ip > 0 \<and> i_dev ip = dev \<and> i_inum ip = inum) ips \<noteq> None"
    using len by (metis (mono_tags, lifting) find_index_None nth_mem)
  then have "find_index (\<lambda>ip. i_ref ip > 0 \<and> i_dev ip = dev \<and> i_inum ip = inum) ips = Some i"
    using assms(1) by (auto simp: slot_of_def split: option.splits)
  from find_index_SomeD [OF this] have "0 < i_ref (ips ! i)" "i_dev (ips ! i) = dev" "i_inum (ips ! i) = inum"
    by simp_all
  with j i assms(2) show "j = i" by (simp add: icache_ok_def)
qed

lemma icache_ok_iget:
  assumes "slot_of dev inum ips = Some i" and "icache_ok ips"
  shows "icache_ok (ips[i := referenced dev inum (ips ! i)])"
proof -
  note S = slot_of_Some [OF assms]
  let ?x = "referenced dev inum (ips ! i)"
  have len: "length ips = NINODE" and ref: "k < NINODE \<Longrightarrow> 0 \<le> i_ref (ips ! k)"
    and inj: "k < NINODE \<Longrightarrow> l < NINODE \<Longrightarrow> 0 < i_ref (ips ! k) \<Longrightarrow> 0 < i_ref (ips ! l) \<Longrightarrow>
      i_dev (ips ! k) = i_dev (ips ! l) \<Longrightarrow> i_inum (ips ! k) = i_inum (ips ! l) \<Longrightarrow> k = l" for k l
    using assms(2) by (simp_all add: icache_ok_def)
  have x: "0 < i_ref ?x" "i_dev ?x = dev" "i_inum ?x = inum"
    using S(2) ref [OF S(1)] by (auto simp: referenced_def)
  have nth: "k < NINODE \<Longrightarrow> ips[i := ?x] ! k = (if k = i then ?x else ips ! k)" for k
    using len by (simp add: nth_list_update)
  have "k = l" if "k < NINODE" "l < NINODE" "0 < i_ref (ips[i := ?x] ! k)" "0 < i_ref (ips[i := ?x] ! l)"
    "i_dev (ips[i := ?x] ! k) = i_dev (ips[i := ?x] ! l)" "i_inum (ips[i := ?x] ! k) = i_inum (ips[i := ?x] ! l)" for k l
  proof (cases "k = i \<or> l = i")
    case True
    then show ?thesis using that(3-6) x S(3) [OF that(1)] S(3) [OF that(2)] unfolding nth [OF that(1)] nth [OF that(2)] by metis
  next
    case False
    then show ?thesis using that(3-6) inj [OF that(1,2)] unfolding nth [OF that(1)] nth [OF that(2)] by simp
  qed
  moreover have "0 \<le> i_ref (ips[i := ?x] ! k)" if "k < NINODE" for k using nth [OF that] ref [OF that] x(1) by simp
  ultimately show ?thesis using len unfolding icache_ok_def by simp
qed

section \<open>Inodes on disk\<close>

lemma dinode_codec:
  assumes "length (d_addrs d) = NDIRECT + 1"
  shows "length (enc_dinode d) = 64" "dec_dinode (enc_dinode d @ r) = d"
proof -
  show "length (enc_dinode d) = 64" using assms by (simp add: enc_dinode_def NDIRECT_def)
  have "get_words (NDIRECT + 1) (words_le (d_addrs d) @ r) = d_addrs d"
    using get_words_words_le [of "d_addrs d" r] assms by simp
  then show "dec_dinode (enc_dinode d @ r) = d"
    by (cases d) (simp add: dec_dinode_def enc_dinode_def of_le16_append of_le32_append)
qed

text \<open>Only the 64 bytes of an inode matter to it, and two inodes of one block do not overlap.\<close>

lemma get_words_take: "4 * n \<le> k \<Longrightarrow> get_words n (take k bs) = get_words n bs"
  by (induction n arbitrary: k bs) (simp_all add: drop_take)

lemma dec_dinode_slice: "dec_dinode (slice o' 64 d) = dec_dinode (drop o' d)"
proof -
  have "get_words (NDIRECT + 1) (drop 12 (take 64 b)) = get_words (NDIRECT + 1) (drop 12 b)" for b
    using get_words_take [of "NDIRECT + 1" 52 "drop 12 b"] by (simp add: drop_take NDIRECT_def del: get_words.simps)
  from this [of "drop o' d"] show ?thesis
    by (simp add: dec_dinode_def slice_def of_le16_def of_le32_def drop_take)
qed

definition dinode_at :: "(u32 \<Rightarrow> u8 list) \<Rightarrow> u32 \<Rightarrow> dinode" where
  "dinode_at V inum = dec_dinode (drop (dinode_off inum) (V (IBLOCK inum)))"

lemma dinode_off_bound: "dinode_off inum + 64 \<le> BSIZE"
proof -
  have "unat (inum mod IPB) < 8" by (simp add: IPB_def unat_mod_distrib)
  then show ?thesis by (simp add: dinode_off_def BSIZE_def)
qed

lemma dinode_off_inj:
  assumes "IBLOCK i = IBLOCK j" and "i \<noteq> j"
  shows "dinode_off i + 64 \<le> dinode_off j \<or> dinode_off j + 64 \<le> dinode_off i"
proof -
  have "i div IPB = j div IPB" using assms(1) by (simp add: IBLOCK_def)
  then have "i mod IPB \<noteq> j mod IPB" using assms(2) by (metis div_mult_mod_eq)
  then have "unat (i mod IPB) \<noteq> unat (j mod IPB)" by (simp add: word_unat_eq_iff)
  then show ?thesis by (auto simp: dinode_off_def)
qed

lemma dinode_at_patch:
  assumes "length (V (IBLOCK i)) = BSIZE" and "length (d_addrs c) = NDIRECT + 1"
  defines "V' \<equiv> V(IBLOCK i := patch (dinode_off i) (enc_dinode c) (V (IBLOCK i)))"
  shows "dinode_at V' i = c" "j \<noteq> i \<Longrightarrow> dinode_at V' j = dinode_at V j"
proof -
  note codec = dinode_codec [OF assms(2)]
  have "drop (dinode_off i) (V' (IBLOCK i)) = enc_dinode c @ drop (dinode_off i + 64) (V (IBLOCK i))"
    using dinode_off_bound [of i] assms(1) codec(1) by (simp add: V'_def patch_def)
  then show "dinode_at V' i = c" using codec(2) by (simp add: dinode_at_def)
  assume j: "j \<noteq> i"
  show "dinode_at V' j = dinode_at V j"
  proof (cases "IBLOCK j = IBLOCK i")
    case True
    have "slice (dinode_off j) 64 (V' (IBLOCK j)) = slice (dinode_off j) 64 (V (IBLOCK j))"
      using True dinode_off_inj [OF True j] dinode_off_bound [of i] dinode_off_bound [of j] assms(1) codec(1)
      by (auto simp: V'_def intro!: slice_patch_other)
    then show ?thesis unfolding dinode_at_def using dec_dinode_slice by metis
  qed (simp add: V'_def dinode_at_def)
qed

lemma in_tx_iupdate:
  assumes "in_tx s m V hs" and ip: "ip < length (inodes s)" "inodes s ! ip = i" "i_dev i = 1"
    and b: "1 < IBLOCK (i_inum i)" "IBLOCK (i_inum i) < m" and "Suc (length hs) < LOGSIZE"
  shows "\<exists>t. iupdate ip s = Ret () t \<and> inodes t = inodes s \<and> in_tx t m
    (V(IBLOCK (i_inum i) := patch (dinode_off (i_inum i)) (enc_dinode (i_copy i)) (V (IBLOCK (i_inum i)))))
    (absorb (IBLOCK (i_inum i)) hs)"
proof -
  let ?b = "IBLOCK (i_inum i)" and ?f = "patch (dinode_off (i_inum i)) (enc_dinode (i_copy i))"
  obtain k t where t: "bread 1 ?b s = Ret k t" "get_data k t = Ret (V ?b) t"
    using tr.read_release [OF assms(1) b(2)] by blast
  have "iupdate ip s = update_block ?b ?f s"
    using ip t update_block_eq [OF t, of ?f] by (simp add: iupdate_def call_app get_inode_eq)
  then show ?thesis using in_tx_update [OF assms(1) b assms(7), of ?f] by auto
qed

context block_reader
begin

lemma ilock_fill_reads:
  assumes "R s" and ip: "ip < length (inodes s)" "inodes s ! ip = i" "i_dev i = 1" "\<not> i_valid i"
    and b: "IBLOCK (i_inum i) < m" and ty: "d_type (dinode_at V (i_inum i)) \<noteq> 0"
  shows "\<exists>t. ilock_fill ip s = Ret () t \<and> R t
    \<and> inodes t = (inodes s)[ip := i\<lparr>i_copy := dinode_at V (i_inum i), i_valid := True\<rparr>]"
proof -
  let ?b = "IBLOCK (i_inum i)" and ?c = "dinode_at V (i_inum i)"
  let ?ips = "(inodes s)[ip := i\<lparr>i_copy := ?c\<rparr>]"
  obtain k t where t: "bread 1 ?b s = Ret k t" "inodes t = inodes s" "get_data k t = Ret (V ?b) t"
      "\<forall>ips. \<exists>u. brelse k (t\<lparr>inodes := ips\<rparr>) = Ret () u \<and> R u \<and> inodes u = ips"
    using rd [OF assms(1) b] by blast
  then obtain u where u: "brelse k (t\<lparr>inodes := ?ips\<rparr>) = Ret () u" "R u" "inodes u = ?ips" by blast
  let ?u = "u\<lparr>inodes := (inodes s)[ip := i\<lparr>i_copy := ?c, i_valid := True\<rparr>]\<rparr>"
  have "R ?u" by (rule frame [OF u(2) icache_frame_upd])
  moreover have "ilock_fill ip s = Ret () ?u"
    using ip t(1-3) u(1,3) ty
    by (simp add: ilock_fill_def call_app get_inode_eq andthen_def upd_inode_def modify_def panic_if_def return_def
        dinode_at_def Let_def)
  ultimately show ?thesis by auto
qed

end

lemma slot_of_cached:
  assumes "icache_ok ips" and "i < NINODE" "0 < i_ref (ips ! i)" "i_dev (ips ! i) = dev" "i_inum (ips ! i) = inum"
  shows "slot_of dev inum ips = Some i"
proof -
  have len: "length ips = NINODE" using assms(1) by (simp add: icache_ok_def)
  then have "find_index (\<lambda>ip. i_ref ip > 0 \<and> i_dev ip = dev \<and> i_inum ip = inum) ips \<noteq> None"
    using assms(2-5) by (metis (mono_tags, lifting) find_index_None nth_mem)
  then obtain k where k: "find_index (\<lambda>ip. i_ref ip > 0 \<and> i_dev ip = dev \<and> i_inum ip = inum) ips = Some k" by blast
  then have "slot_of dev inum ips = Some k" by (simp add: slot_of_def)
  with slot_of_Some(3) [OF this assms(1-5)] show ?thesis by simp
qed

section \<open>Properties\<close>

text \<open>C7: readi returns the bytes of the file from the given offset, as many as were asked for or are
  there, with their number, through the direct blocks and the indirect block alike, and leaves
  everything readable as it was; an offset past the end, or a range that wraps round, is an error.\<close>

theorem readi_bytes:
  assumes "cached s m V" and "ip < length (inodes s)" "i_dev (inodes s ! ip) = 1"
    and "i_copy (inodes s ! ip) = c" "d_type c \<noteq> T_DEV" and "mapped V m c k" "unat (d_size c) \<le> k * BSIZE"
  shows "runs (readi dv ip off n) s (\<lambda>(r, bs) t. cached t m V \<and> inodes t = inodes s
    \<and> (if off \<le> d_size c \<and> off \<le> off + n
       then bs = file_bytes V c (unat off) (min (unat n) (unat (d_size c) - unat off)) \<and> r = int (length bs)
       else bs = [] \<and> r = - 1))"
proof (cases "off \<le> d_size c \<and> off \<le> off + n")
  case True
  with cr.readi_reads [OF assms, of off n dv] show ?thesis by (auto simp: runs_def file_bytes_def not_less)
next
  case False
  with assms show ?thesis by (auto simp: readi_def runs_iff call_app get_inode_eq Let_def)
qed

text \<open>C6: what writei puts into a file readi gets back: a write inside the file, in a transaction
  that has room for the blocks it touches, returns its length; afterwards the file has those bytes in
  their place and all its others unchanged, and no block of another file has changed.\<close>

theorem writei_readi:
  assumes "in_tx s m V hs" and "ip < length (inodes s)" "i_dev (inodes s ! ip) = 1"
    and "i_copy (inodes s ! ip) = c" "d_type c \<noteq> T_DEV" and "mapped V m c k" "separate V c k" "unat (d_size c) \<le> k * BSIZE"
    and "unat off + length bs \<le> unat (d_size c)" and "length hs + touched (unat off) (length bs) \<le> 9"
  shows "runs (writei dv ip src bs off (of_nat (length bs))) s (\<lambda>r t. r = int (length bs)
    \<and> runs (readi dv ip off (of_nat (length bs))) t (\<lambda>(r', bs') u. r' = r \<and> bs' = bs
      \<and> (\<exists>V' hs'. in_tx u m V' hs' \<and> (\<forall>x. x \<notin> addr_of V c ` {..< k} \<longrightarrow> V' x = V x)
        \<and> (\<forall>p < unat (d_size c). file_byte V' c p = overwritten (unat off) bs (file_byte V c) p))))"
proof -
  let ?n = "of_nat (length bs) :: u32"
  have sz: "unat (d_size c) \<le> 71680"
    using assms(6,8) by (simp add: mapped_def MAXFILE_def NDIRECT_def NINDIRECT_def BSIZE_def)
  have n: "unat ?n = length bs" using assms(9) sz by (intro unat_of_nat32) simp
  have sum: "unat (off + ?n) = unat off + length bs"
    using assms(9) sz n by (simp add: unat_word_ariths)
  have off: "off \<le> d_size c" "\<not> off + ?n < off" "\<not> d_size c < off + ?n"
    using assms(9) sum by (auto simp: word_le_nat_alt word_less_nat_alt)
  have mx: "\<not> of_nat (MAXFILE * BSIZE) < off + ?n"
    using sum assms(9) sz by (simp add: word_less_nat_alt MAXFILE_def NDIRECT_def NINDIRECT_def BSIZE_def)
  have sn: "sint ?n = int (length bs)" using n assms(9) sz by (intro sint_of_unat) simp_all
  have "unat off + length bs \<le> k * BSIZE" "length hs + touched (unat off) (length bs) < LOGSIZE"
    using assms(8,9,10) by (simp_all add: LOGSIZE_def)
  from writei_loop_writes [OF assms(1-4,6,7) this] obtain t V' hs' where
    t: "writei_loop ip off bs s = Ret () t" "in_tx t m V' hs'" "inodes t = inodes s" "mapped V' m c k" "separate V' c k"
      "\<forall>i < k. addr_of V' c i = addr_of V c i" "\<forall>x. x \<notin> addr_of V c ` {..< k} \<longrightarrow> V' x = V x"
      "\<forall>p < k * BSIZE. file_byte V' c p = overwritten (unat off) bs (file_byte V c) p" by blast
  have w: "writei dv ip src bs off ?n s = Ret (int (length bs)) t"
    using assms(2,4,5) off mx t(1,3) sn
    by (simp add: writei_def call_app get_inode_eq andthen_def Let_def return_def)
  have fb: "file_bytes V' c (unat off) (length bs) = bs"
    using t(8) assms(8,9) by (intro nth_equalityI) (auto simp: file_bytes_def overwritten_def)
  have ip: "ip < length (inodes t)" "i_dev (inodes t ! ip) = 1" and c: "i_copy (inodes t ! ip) = c" "d_type c \<noteq> T_DEV"
    using assms(2-5) t(3) by simp_all
  have mn: "min (unat ?n) (unat (d_size c) - unat off) = length bs" using assms(9) n by simp
  obtain u where u: "readi dv ip off ?n t = Ret (int (length bs), bs) u" "in_tx u m V' hs'"
    using tr.readi_reads [OF t(2) ip c t(4) assms(8) off(1,2), of dv] unfolding mn fb by blast
  have "\<forall>p < unat (d_size c). file_byte V' c p = overwritten (unat off) bs (file_byte V c) p" using t(8) assms(8) by simp
  with w u t(7) show ?thesis by (auto simp: runs_def)
qed

text \<open>C8: iget returns the one slot that holds the inode, or else the first free one, or else panics;
  it adds a reference and keeps the table free of duplicates, so that the next iget of the same
  inode returns the same slot.\<close>

theorem iget_shares:
  assumes "lock_free IcacheLock s" and "icache_ok (inodes s)"
  shows "case slot_of dev inum (inodes s) of
      None \<Rightarrow> iget dev inum s = Panic ''iget: no inodes''
    | Some i \<Rightarrow> runs (iget dev inum) s (\<lambda>r t. r = i \<and> icache_ok (inodes t)
        \<and> inodes t = (inodes s)[i := referenced dev inum (inodes s ! i)]
        \<and> runs (iget dev inum) t (\<lambda>r' u. r' = i \<and> i_ref (inodes u ! i) = i_ref (inodes t ! i) + 1))"
proof (cases "slot_of dev inum (inodes s)")
  case None
  then show ?thesis using iget_eq(2) [OF assms(1)] by simp
next
  case (Some i)
  let ?x = "referenced dev inum (inodes s ! i)"
  note S = slot_of_Some [OF Some assms(2)]
  obtain t where t: "iget dev inum s = Ret i t" "icache_frame s t" "inodes t = (inodes s)[i := ?x]"
    using iget_eq(1) [OF assms(1) Some] by blast
  have ok: "icache_ok (inodes t)" using icache_ok_iget [OF Some assms(2)] t(3) by simp
  have "length (inodes s) = NINODE" "0 \<le> i_ref (inodes s ! i)" using assms(2) S(1) by (simp_all add: icache_ok_def)
  moreover from this have "0 < i_ref ?x" "i_dev ?x = dev" "i_inum ?x = inum"
    using S(2) by (auto simp: referenced_def)
  ultimately have x: "inodes t ! i = ?x" "0 < i_ref ?x" "i_dev ?x = dev" "i_inum ?x = inum" "i < length (inodes t)"
    using S(1) t(3) by simp_all
  have "slot_of dev inum (inodes t) = Some i" using slot_of_cached [OF ok S(1)] x by simp
  moreover have "lock_free IcacheLock t" using assms(1) icache_frame_sel(13) [OF t(2)] balanced_lock_free by blast
  ultimately obtain u where "iget dev inum t = Ret i u" "inodes u = (inodes t)[i := referenced dev inum (inodes t ! i)]"
    using iget_eq(1) by blast
  with t ok x Some show ?thesis by (simp add: runs_def) (simp add: referenced_def)
qed

text \<open>C9: an inode written back by iupdate is read again by ilock, field by field, once its copy in
  memory has been given up; the other inodes in its block are not disturbed.\<close>

theorem iupdate_ilock:
  assumes "in_tx s m V hs" and "ip < length (inodes s)" "inodes s ! ip = i" "i_dev i = 1"
    and "d_type (i_copy i) \<noteq> 0" "length (d_addrs (i_copy i)) = NDIRECT + 1"
    and "1 < IBLOCK (i_inum i)" "IBLOCK (i_inum i) < m" "length (V (IBLOCK (i_inum i))) = BSIZE" and "length hs \<le> 8"
  shows "runs (iupdate ip) s (\<lambda>_ t.
    (\<exists>V' hs'. in_tx t m V' hs' \<and> (\<forall>j. j \<noteq> i_inum i \<longrightarrow> dinode_at V' j = dinode_at V j))
    \<and> runs (ilock_fill ip) (t\<lparr>inodes := (inodes t)[ip := i\<lparr>i_valid := False, i_copy := dinode0\<rparr>]\<rparr>)
        (\<lambda>_ u. inodes u ! ip = i\<lparr>i_valid := True\<rparr>))"
proof -
  let ?V = "V(IBLOCK (i_inum i) := patch (dinode_off (i_inum i)) (enc_dinode (i_copy i)) (V (IBLOCK (i_inum i))))"
  obtain t where t: "iupdate ip s = Ret () t" "inodes t = inodes s" "in_tx t m ?V (absorb (IBLOCK (i_inum i)) hs)"
    using in_tx_iupdate [OF assms(1-4,7,8)] assms(10) by (auto simp: LOGSIZE_def)
  note P = dinode_at_patch [of V "i_inum i", OF assms(9,6)]
  let ?i = "i\<lparr>i_valid := False, i_copy := dinode0\<rparr>"
  let ?t = "t\<lparr>inodes := (inodes t)[ip := ?i]\<rparr>"
  have "in_tx ?t m ?V (absorb (IBLOCK (i_inum i)) hs)" by (rule tr.frame [OF t(3) icache_frame_upd])
  from tr.ilock_fill_reads [OF this, of ip ?i] assms(2,4,5,8) t(2) P(1)
  obtain u where "ilock_fill ip ?t = Ret () u" "inodes u = (inodes ?t)[ip := ?i\<lparr>i_copy := i_copy i, i_valid := True\<rparr>]"
    by auto
  moreover have "?i\<lparr>i_copy := i_copy i, i_valid := True\<rparr> = i\<lparr>i_valid := True\<rparr>" by (cases i) simp
  ultimately have "runs (ilock_fill ip) ?t (\<lambda>_ u. inodes u ! ip = i\<lparr>i_valid := True\<rparr>)"
    using assms(2) t(2) by (simp add: runs_def)
  with t(3) P(2) show ?thesis unfolding runs_eq [of "iupdate ip" s "()" t, OF t(1)] by blast
qed

section \<open>The properties at a concrete state\<close>

text \<open>A file of 600 bytes in the blocks 20 and 21, in the first slot of the cache.\<close>

definition example_file :: dinode where
  "example_file = \<lparr>d_type = T_FILE, d_major = 0, d_minor = 0, d_nlink = 1, d_size = 600,
     d_addrs = [20, 21, 0, 0, 0, 0, 0, 0, 0, 0, 0, 0, 0]\<rparr>"

definition example_inode :: inode where
  "example_inode = \<lparr>i_dev = 1, i_inum = 1, i_ref = 1, i_busy = True, i_valid = True, i_copy = example_file\<rparr>"

definition fs_boot :: fs_state where
  "fs_boot = log_state.extend log_boot \<lparr>inodes = []\<rparr>"

definition file_boot :: "(fs_state, unit) kern" where
  "file_boot = andthen (andthen binit initlog)
     (andthen iinit (modify (\<lambda>s. s\<lparr>inodes := (inodes s)[0 := example_inode]\<rparr>)))"

lemma fs_boot_facts: "lock_free PtableLock fs_boot" "disk fs_boot = disk log_boot" "disksize fs_boot = disksize log_boot"
  using log_boot_facts(1)
  by (simp_all add: fs_boot_def log_state.defs lock_free_def cli_ok_def holding_def)

lemma quiet_iinit:
  assumes "quiet s st"
  shows "\<exists>t. iinit s = Ret () t \<and> quiet t st \<and> disk t = disk s \<and> lock_free IcacheLock t \<and> inodes t = replicate NINODE inode0"
proof -
  let ?t = "s\<lparr>inodes := replicate NINODE inode0, locks := (locks s)(IcacheLock := \<lparr>locked = False, on_cpu = False\<rparr>)\<rparr>"
  have c: "cache s (dtrace s) (disk s) (disk s) {} {}" using assms by (simp add: quiet_def)
  have "iinit s = Ret () ?t" by (simp add: iinit_def andthen_def call_app modify_def initlock_def)
  moreover have "cache ?t (dtrace s) (disk s) (disk s) {} {}"
    using c by (auto simp: cache_def cache_inv_def links_def lock_free_def cli_ok_def holding_def)
  then have "quiet ?t st" using assms by (simp add: quiet_def lock_free_def cli_ok_def holding_def)
  moreover have "lock_free IcacheLock ?t" using cacheD(9) [OF c] by (simp add: lock_free_def cli_ok_def holding_def)
  ultimately show ?thesis by (intro exI [of _ ?t]) simp
qed

lemma file_booted:
  obtains s where "file_boot fs_boot = Ret () s" and "quiet s 1014" and "\<forall>x < 1014. disk s x = fresh_disk x"
    and "lock_free IcacheLock s" and "inodes s = (replicate NINODE inode0)[0 := example_inode]"
proof -
  note F = fresh_disk_boots [folded fs_boot_facts(2,3)]
  obtain s where s: "andthen binit initlog fs_boot = Ret () s" "disk s = recovered 1014 (disk fs_boot)" "quiet s 1014"
    using runs_unitD [OF runs_boot [OF fs_boot_facts(1) F(1,2,8,3-7)]] by blast
  obtain t where t: "iinit s = Ret () t" "quiet t 1014" "disk t = disk s" "lock_free IcacheLock t"
      "inodes t = replicate NINODE inode0"
    using quiet_iinit [OF s(3)] by blast
  let ?t = "t\<lparr>inodes := (inodes t)[0 := example_inode]\<rparr>"
  have "\<forall>x < 1014. disk t x = fresh_disk x"
    using recovered_empty [of fresh_disk 1014, OF fresh_disk_facts(3)]
    by (simp only: t(3) s(2) fs_boot_facts(2) log_boot_facts(2)) blast
  moreover have "file_boot fs_boot = Ret () ?t"
    using s(1) t(1) by (simp add: file_boot_def andthen_def [of "andthen _ _"] call_app) (simp add: andthen_def call_app modify_def)
  moreover have "cache ?t (dtrace t) (disk t) (disk t) {} {}"
    using t(2) by (intro cache_frame [OF icache_frame_upd]) (simp add: quiet_def)
  then have "quiet ?t 1014" using t(2) by (simp add: quiet_def lock_free_def cli_ok_def holding_def)
  moreover have "lock_free IcacheLock ?t" using t(4) by (simp add: lock_free_def cli_ok_def holding_def)
  ultimately show ?thesis using t(5) by (intro that [of ?t]) simp_all
qed

lemma example_facts:
  assumes "\<forall>x < 1014. V x = fresh_disk x"
  shows "mapped V 1014 example_file 2" "separate V example_file 2" "unat (d_size example_file) = 600"
    "d_type example_file \<noteq> T_DEV" "d_type example_file \<noteq> 0" "length (d_addrs example_file) = NDIRECT + 1"
    "file_bytes V example_file 510 5 = replicate 5 0"
proof -
  have a: "addr_of V example_file 0 = 20" "addr_of V example_file 1 = 21" "addr_of V example_file (Suc 0) = 21"
    by (simp_all add: addr_of_def example_file_def NDIRECT_def)
  have two: "k < 2 \<longleftrightarrow> k = 0 \<or> k = 1" for k :: nat by auto
  have "(20 :: u32) < 1014" "(21 :: u32) < 1014" by simp_all
  then have v: "V 20 = fresh_disk 20" "V 21 = fresh_disk 21" using assms by blast+
  have z: "fresh_disk 20 = replicate BSIZE 0" "fresh_disk 21 = replicate BSIZE 0" by (simp_all add: fresh_disk_def)
  show "mapped V 1014 example_file 2"
    using v z by (auto simp: mapped_def two a MAXFILE_def NDIRECT_def)
  show "separate V example_file 2" by (auto simp: separate_def two a NDIRECT_def)
  show "file_bytes V example_file 510 5 = replicate 5 0"
  proof (rule nth_equalityI)
    fix i assume "i < length (file_bytes V example_file 510 5)"
    then have i: "i < 5" by simp
    have r: "(510 + i) mod BSIZE < BSIZE" by (simp add: BSIZE_def)
    have "(510 + i) div BSIZE < 2" using i by (simp add: BSIZE_def less_mult_imp_div_less)
    then have "V (addr_of V example_file ((510 + i) div BSIZE)) = replicate BSIZE 0"
      unfolding two using v z a by (elim disjE) (simp_all only:)
    then have "file_byte V example_file (510 + i) = 0" using r by (simp add: file_byte_def)
    then show "file_bytes V example_file 510 5 ! i = replicate 5 0 ! i" using i by (simp add: nth_file_bytes)
  qed simp
qed (simp_all add: example_file_def T_FILE_def T_DEV_def NDIRECT_def)

lemma NINODE_slot: "0 < length ((replicate NINODE inode0)[0 := example_inode])"
    "(replicate NINODE inode0)[0 := example_inode] ! 0 = example_inode"
  by (simp_all add: NINODE_def)

theorem readi_bytes_witness:
  "\<exists>s. file_boot fs_boot = Ret () s \<and> runs (readi (\<lambda>_. (None, None)) 0 510 5) s (\<lambda>(r, bs) t. r = 5 \<and> bs = replicate 5 0)
     \<and> runs (readi (\<lambda>_. (None, None)) 0 601 5) s (\<lambda>(r, bs) t. r = - 1)"
proof -
  obtain s where s: "file_boot fs_boot = Ret () s" "quiet s 1014" "\<forall>x < 1014. disk s x = fresh_disk x"
      "lock_free IcacheLock s" "inodes s = (replicate NINODE inode0)[0 := example_inode]"
    by (rule file_booted)
  note E = example_facts [OF s(3)]
  have "1014 \<le> disksize s" using s(2) by (simp add: quiet_def word_le_nat_alt)
  moreover have "cache s (dtrace s) (disk s) (disk s) {} {}" using s(2) by (simp add: quiet_def)
  ultimately have c: "cached s 1014 (disk s)"
    unfolding cached_def using s(4) by (intro conjI exI [of _ "dtrace s"] exI [of _ "disk s"] exI [of _ "{}"]) (simp_all add: NBUF_def)
  have i: "0 < length (inodes s)" "i_dev (inodes s ! 0) = 1" "i_copy (inodes s ! 0) = example_file"
    unfolding s(5) using NINODE_slot by (simp_all add: example_inode_def)
  have k: "unat (d_size example_file) \<le> 2 * BSIZE" using E(3) by (simp add: BSIZE_def)
  note R = readi_bytes [OF c i(1-3) E(4,1) k, where dv = "\<lambda>_. (None, None)"]
  have "runs (readi (\<lambda>_. (None, None)) 0 510 5) s (\<lambda>(r, bs) t. r = 5 \<and> bs = replicate 5 0)"
    by (rule runs_mono [OF R]) (use E(3,7) in \<open>auto simp: word_le_nat_alt\<close>)
  moreover have "runs (readi (\<lambda>_. (None, None)) 0 601 5) s (\<lambda>(r, bs) t. r = - 1)"
    by (rule runs_mono [OF R]) (use E(3) in \<open>auto simp: word_le_nat_alt split: if_splits\<close>)
  ultimately show ?thesis using s(1) by blast
qed

lemma file_tx:
  obtains s where "andthen file_boot begin_trans fs_boot = Ret () s" and "in_tx s 1014 fresh_disk []"
    and "inodes s = (replicate NINODE inode0)[0 := example_inode]"
proof -
  obtain s where s: "file_boot fs_boot = Ret () s" "quiet s 1014" "\<forall>x < 1014. disk s x = fresh_disk x"
      "lock_free IcacheLock s" "inodes s = (replicate NINODE inode0)[0 := example_inode]"
    by (rule file_booted)
  obtain t where t: "begin_trans s = Ret () t" "log_same (s\<lparr>log_busy := True\<rparr>) t"
      "in_trans t (dtrace s) (disk s) (disk s) {} []"
    using runs_begin [OF s(2)] by blast
  have "tx t (disk s) []" "log_start t = 1014" using t(2,3) s(2) by (auto simp: tx_def quiet_def log_same_def)
  then have "tx t fresh_disk []" using tx_cong [of t "disk s" "[]" fresh_disk] s(3) by simp
  moreover have "lock_free IcacheLock t"
    using t(2) s(4) balanced_lock_free [of "s\<lparr>log_busy := True\<rparr>" t IcacheLock]
    by (simp add: log_same_def lock_free_def cli_ok_def holding_def)
  ultimately have "in_tx t 1014 fresh_disk []" using \<open>log_start t = 1014\<close> by (simp add: in_tx_def)
  moreover have "inodes t = (replicate NINODE inode0)[0 := example_inode]"
    using log_same_inodes [OF t(2)] s(5) by simp
  ultimately show ?thesis using s(1) t(1) by (intro that [of t]) (simp_all add: andthen_def [of file_boot] call_app)
qed

theorem writei_readi_witness:
  "\<exists>s. andthen file_boot begin_trans fs_boot = Ret () s
     \<and> runs (writei (\<lambda>_. (None, None)) 0 0 [1, 2, 3, 4] 510 4) s (\<lambda>r t. r = 4
       \<and> runs (readi (\<lambda>_. (None, None)) 0 510 4) t (\<lambda>(r', bs') u. bs' = [1, 2, 3, 4]))"
proof -
  obtain s where s: "andthen file_boot begin_trans fs_boot = Ret () s" "in_tx s 1014 fresh_disk []"
      "inodes s = (replicate NINODE inode0)[0 := example_inode]"
    by (rule file_tx)
  note E = example_facts [of fresh_disk, simplified]
  have i: "0 < length (inodes s)" "i_dev (inodes s ! 0) = 1" "i_copy (inodes s ! 0) = example_file"
    unfolding s(3) using NINODE_slot by (simp_all add: example_inode_def)
  have "unat (d_size example_file) \<le> 2 * BSIZE" "unat (510 :: u32) + length [1, 2, 3, 4 :: u8] \<le> unat (d_size example_file)"
    "length ([] :: u32 list) + touched (unat (510 :: u32)) (length [1, 2, 3, 4 :: u8]) \<le> 9"
    using E(3) by (simp_all add: BSIZE_def touched_def)
  from writei_readi [OF s(2) i E(4,1,2) this, where dv = "\<lambda>_. (None, None)" and src = 0]
  have "runs (writei (\<lambda>_. (None, None)) 0 0 [1, 2, 3, 4] 510 4) s (\<lambda>r t. r = 4
       \<and> runs (readi (\<lambda>_. (None, None)) 0 510 4) t (\<lambda>(r', bs') u. bs' = [1, 2, 3, 4]))"
    by (auto elim!: runs_mono)
  with s(1) show ?thesis by blast
qed

theorem iget_shares_witness:
  "\<exists>s. file_boot fs_boot = Ret () s \<and> runs (iget 1 1) s (\<lambda>r t. r = 0)"
proof -
  obtain s where s: "file_boot fs_boot = Ret () s" "quiet s 1014" "lock_free IcacheLock s"
      "inodes s = (replicate NINODE inode0)[0 := example_inode]"
    by (rule file_booted)
  have n: "inodes s ! i = (if i = 0 then example_inode else inode0)" if "i < NINODE" for i
    unfolding s(4) using that by (simp add: nth_list_update)
  have ok: "icache_ok (inodes s)"
  proof -
    have "i_ref (inodes s ! i) = (if i = 0 then 1 else 0)" if "i < NINODE" for i
      using n [OF that] by (simp add: example_inode_def inode0_def)
    moreover have "length (inodes s) = NINODE" unfolding s(4) by simp
    ultimately show ?thesis unfolding icache_ok_def by (auto split: if_splits)
  qed
  have "slot_of 1 1 (inodes s) = Some 0"
    by (rule slot_of_cached [OF ok]) (use n [of 0] in \<open>simp_all add: example_inode_def NINODE_def\<close>)
  with iget_shares [OF s(3) ok, of 1 1] have "runs (iget 1 1) s (\<lambda>r t. r = 0)" by (auto elim: runs_mono)
  with s(1) show ?thesis by blast
qed

theorem iupdate_ilock_witness:
  "\<exists>s. andthen file_boot begin_trans fs_boot = Ret () s
     \<and> runs (iupdate 0) s (\<lambda>_ t. runs (ilock_fill 0) (t\<lparr>inodes := (inodes t)[0 := example_inode\<lparr>i_valid := False, i_copy := dinode0\<rparr>]\<rparr>)
       (\<lambda>_ u. i_copy (inodes u ! 0) = example_file))"
proof -
  obtain s where s: "andthen file_boot begin_trans fs_boot = Ret () s" "in_tx s 1014 fresh_disk []"
      "inodes s = (replicate NINODE inode0)[0 := example_inode]"
    by (rule file_tx)
  note E = example_facts [of fresh_disk, simplified]
  have i: "0 < length (inodes s)" "inodes s ! 0 = example_inode"
    unfolding s(3) using NINODE_slot by simp_all
  have e: "i_dev example_inode = 1" "i_copy example_inode = example_file" "i_inum example_inode = 1"
    by (simp_all add: example_inode_def)
  have "1 < IBLOCK 1" "IBLOCK 1 < 1014" by (simp_all add: IBLOCK_def IPB_def)
  with iupdate_ilock [OF s(2) i e(1)] e(2,3) E(5,6) fresh_disk_facts(4)
  have "runs (iupdate 0) s (\<lambda>_ t.
    (\<exists>V' hs'. in_tx t 1014 V' hs' \<and> (\<forall>j. j \<noteq> 1 \<longrightarrow> dinode_at V' j = dinode_at fresh_disk j))
    \<and> runs (ilock_fill 0) (t\<lparr>inodes := (inodes t)[0 := example_inode\<lparr>i_valid := False, i_copy := dinode0\<rparr>]\<rparr>)
        (\<lambda>_ u. inodes u ! 0 = example_inode\<lparr>i_valid := True\<rparr>))"
    by simp
  then have "runs (iupdate 0) s (\<lambda>_ t. runs (ilock_fill 0) (t\<lparr>inodes := (inodes t)[0 := example_inode\<lparr>i_valid := False, i_copy := dinode0\<rparr>]\<rparr>)
       (\<lambda>_ u. i_copy (inodes u ! 0) = example_file))"
    using e(2) by (auto elim!: runs_mono)
  with s(1) show ?thesis by blast
qed

end
