(* ===== verification/Mkfs.thy ===== *)
theory Mkfs
  imports Inodes
begin

text \<open>
  tools/mkfs.c, the program that builds the image of the file system. The image is a map from sectors to their
  512 bytes, zeros where nothing was written, with the length of its file; the rest of the state is the program's
  counters. The program runs on a little endian host. An assertion that fails and an exit after an error is a
  \<open>Panic\<close>. An input file is the list of what the reads of it return.
\<close>

section \<open>State\<close>

record mk =
  img :: "u32 \<Rightarrow> u8 list"
  nsect :: u32
  freeblock :: u32
  usedblocks :: u32
  freeinode :: u32

definition nblocks :: u32 where "nblocks = 985"
definition nlog :: u32 where "nlog = 10"
definition ninodes :: u32 where "ninodes = 200"
definition fs_size :: u32 where "fs_size = 1024"

definition xshort :: "u16 \<Rightarrow> u16" where
  "xshort x = of_le16 [ucast x, ucast (drop_bit 8 x)]"

definition xint :: "u32 \<Rightarrow> u32" where
  "xint x = of_le32 [ucast x, ucast (drop_bit 8 x), ucast (drop_bit 16 x), ucast (drop_bit 24 x)]"

section \<open>Sectors and inodes\<close>

definition wsect :: "u32 \<Rightarrow> u8 list \<Rightarrow> (mk, unit) kern" where
  "wsect sec buf = modify (\<lambda>s. s\<lparr>img := (img s)(sec := buf), nsect := max (nsect s) (sec + 1)\<rparr>)"

definition rsect :: "u32 \<Rightarrow> (mk, u8 list) kern" where
  "rsect sec = call (reads nsect) (\<lambda>n. if n \<le> sec then panic ''read'' else reads (\<lambda>s. img s sec))"

definition i2b :: "u32 \<Rightarrow> u32" where
  "i2b inum = inum div IPB + 2"

definition winode :: "u32 \<Rightarrow> dinode \<Rightarrow> (mk, unit) kern" where
  "winode inum ip =
     call (rsect (i2b inum)) (\<lambda>buf.
     wsect (i2b inum) (patch (unat (inum mod IPB) * 64) (enc_dinode ip) buf))"

definition rinode :: "u32 \<Rightarrow> (mk, dinode) kern" where
  "rinode inum =
     call (rsect (i2b inum)) (\<lambda>buf.
     return (dec_dinode (drop (unat (inum mod IPB) * 64) buf)))"

definition mk_ialloc :: "u16 \<Rightarrow> (mk, u32) kern" where
  "mk_ialloc type =
     call (reads freeinode) (\<lambda>inum.
     andthen (modify (\<lambda>s. s\<lparr>freeinode := inum + 1\<rparr>))
     (andthen (winode inum (dinode0\<lparr>d_type := xshort type, d_nlink := xshort 1, d_size := xint 0\<rparr>))
     (return inum)))"

text \<open>The bitmap with the first \<open>n\<close> bits set.\<close>

definition mk_balloc :: "u32 \<Rightarrow> (mk, unit) kern" where
  "mk_balloc n =
     andthen (panic_if (\<not> sint n < 512 * 8) ''used < 512*8'')
     (wsect (ninodes div IPB + 3) (fold (\<lambda>i buf. set_bit_at buf i) [0 ..< nat (sint n)] (replicate 512 0)))"

section \<open>Appending to a file\<close>

text \<open>\<open>freeblock++\<close>.\<close>

definition new_block :: "(mk, u32) kern" where
  "new_block =
     call (reads freeblock) (\<lambda>b.
     andthen (modify (\<lambda>s. s\<lparr>freeblock := b + 1, usedblocks := usedblocks s + 1\<rparr>)) (return b))"

text \<open>The block for the part \<open>fbn\<close> of the file, with the inode that maps it.\<close>

definition direct_block :: "dinode \<Rightarrow> nat \<Rightarrow> (mk, dinode) kern" where
  "direct_block din k =
     (if xint (d_addrs din ! k) = 0
      then call new_block (\<lambda>b. return (din\<lparr>d_addrs := (d_addrs din)[k := xint b]\<rparr>))
      else return din)"

definition block_for :: "dinode \<Rightarrow> u32 \<Rightarrow> (mk, dinode \<times> u32) kern" where
  "block_for din fbn =
     (if unat fbn < NDIRECT then
        call (direct_block din (unat fbn)) (\<lambda>din.
        return (din, xint (d_addrs din ! unat fbn)))
      else
        let k = unat fbn - NDIRECT in
        call (direct_block din NDIRECT) (\<lambda>din.
        let ib = xint (d_addrs din ! NDIRECT) in
        call (rsect ib) (\<lambda>buf.
        let indirect = get_words NINDIRECT buf in
        if indirect ! k = 0 then
          call new_block (\<lambda>b.
          andthen (wsect ib (words_le (indirect[k := xint b])))
          (return (din, xint (xint b))))
        else return (din, xint (indirect ! k)))))"

definition piece :: "u32 \<Rightarrow> nat \<Rightarrow> nat" where
  "piece off n = min n (unat ((off div 512 + 1) * 512 - off))"

lemma block_rest: "unat (((off :: u32) div 512 + 1) * 512 - off) = 512 - unat off mod 512"
proof -
  have "off = off div 512 * 512 + off mod 512" by (rule div_mult_mod_eq [symmetric])
  then have "(off div 512 + 1) * 512 - off = 512 - off mod 512"
    by (metis add_diff_cancel_left add.commute distrib_right mult_1)
  moreover have e: "unat (off mod 512) = unat off mod 512" by (simp add: unat_mod_distrib)
  moreover have "off mod 512 \<le> 512" by (simp add: word_le_nat_alt e)
  then have "unat (512 - off mod 512) = 512 - unat off mod 512" by (simp add: unat_sub e)
  ultimately show ?thesis by (simp only:)
qed

lemma piece_pos: "0 < n \<Longrightarrow> 0 < piece off n"
  unfolding piece_def block_rest by simp

function iappend_loop :: "u8 list \<Rightarrow> u32 \<Rightarrow> dinode \<Rightarrow> (mk, u32 \<times> dinode) kern" where
  "iappend_loop p off din =
     (if p = [] then return (off, din)
      else
        let fbn = off div 512 in
        andthen (panic_if (\<not> unat fbn < MAXFILE) ''fbn < MAXFILE'')
        (call (block_for din fbn) (\<lambda>(din, x).
        let n1 = piece off (length p) in
        call (rsect x) (\<lambda>buf.
        andthen (wsect x (patch (unat (off - fbn * 512)) (take n1 p) buf))
        (iappend_loop (drop n1 p) (off + of_nat n1) din)))))"
  by pat_completeness auto
termination
  by (relation "measure (\<lambda>(p, off, din). length p)") (auto simp: piece_pos)

declare iappend_loop.simps [simp del]

definition iappend :: "u32 \<Rightarrow> u8 list \<Rightarrow> (mk, unit) kern" where
  "iappend inum p =
     call (rinode inum) (\<lambda>din.
     call (iappend_loop p (xint (d_size din)) din) (\<lambda>(off, din).
     winode inum (din\<lparr>d_size := xint off\<rparr>)))"

section \<open>The program\<close>

text \<open>A name in a directory entry: fourteen bytes, padded with zeros.\<close>

definition mk_entry :: "u32 \<Rightarrow> u8 list \<Rightarrow> u8 list" where
  "mk_entry inum name = enc_dirent (xshort (ucast inum), name)"

text \<open>\<open>while((cc = read(fd, buf, sizeof(buf))) > 0) iappend(inum, buf, cc)\<close>.\<close>

fun copy_file :: "u32 \<Rightarrow> u8 list list \<Rightarrow> (mk, unit) kern" where
  "copy_file inum [] = return ()"
| "copy_file inum (bs # rs) = (if bs = [] then return () else andthen (iappend inum bs) (copy_file inum rs))"

text \<open>An argument is the name, with its terminator, and the contents. A leading underscore is left out.\<close>

definition plain_name :: "u8 list \<Rightarrow> u8 list" where
  "plain_name name = (if name \<noteq> [] \<and> hd name = 95 then tl name else name)"

definition add_file :: "u32 \<Rightarrow> u8 list \<times> u8 list list \<Rightarrow> (mk, unit) kern" where
  "add_file rootino arg =
     andthen (panic_if (47 \<in> set (fst arg)) ''index(argv[i], '/') == 0'')
     (call (mk_ialloc T_FILE) (\<lambda>inum.
      call (defined (strncpy (replicate DIRSIZ 0) (plain_name (fst arg)) DIRSIZ)) (\<lambda>nm.
      andthen (iappend rootino (mk_entry inum nm))
      (copy_file inum (snd arg)))))"

fun add_files :: "u32 \<Rightarrow> (u8 list \<times> u8 list list) list \<Rightarrow> (mk, unit) kern" where
  "add_files rootino [] = return ()"
| "add_files rootino (a # args) = andthen (add_file rootino a) (add_files rootino args)"

text \<open>The image before the root directory: all sectors zero but the super block.\<close>

definition mk_start :: mk where
  "mk_start =
     (let bitblocks = fs_size div (512 * 8) + 1; n = ninodes div IPB + 3 + bitblocks
      in \<lparr>img = (\<lambda>_. replicate 512 0)(1 := patch 0 (words_le [xint fs_size, xint nblocks, xint ninodes, xint nlog]) (replicate 512 0)),
          nsect = nblocks + n + nlog, freeblock = n, usedblocks = n, freeinode = 1\<rparr>)"

text \<open>''.'' and ''..'', then the files; at the end the size of the root directory becomes whole blocks and the
  bitmap is written.\<close>

definition mkfs :: "(u8 list \<times> u8 list list) list \<Rightarrow> (mk, unit) kern" where
  "mkfs args =
     andthen (modify (\<lambda>_. mk_start))
     (call (reads usedblocks) (\<lambda>n.
      andthen (panic_if (nblocks + n + nlog \<noteq> fs_size) ''nblocks + usedblocks + nlog == size'')
     (call (mk_ialloc T_DIR) (\<lambda>rootino.
      andthen (panic_if (rootino \<noteq> ROOTINO) ''rootino == ROOTINO'')
      (andthen (iappend rootino (mk_entry rootino (46 # replicate 13 0)))
      (andthen (iappend rootino (mk_entry rootino (46 # 46 # replicate 12 0)))
      (andthen (add_files rootino args)
      (call (rinode rootino) (\<lambda>din.
       let off = (xint (d_size din) div 512 + 1) * 512 in
       andthen (winode rootino (din\<lparr>d_size := xint off\<rparr>))
       (call (reads usedblocks) mk_balloc))))))))))"

section \<open>Files\<close>

lemma rsect_eq: "sec < nsect s \<Longrightarrow> rsect sec s = Ret (img s sec) s"
  by (simp add: rsect_def kern_defs not_le)

lemma xint_id [simp]: "xint x = x"
  using of_le32_le32 [of x] by (simp add: xint_def le32_def)

lemma xshort_id [simp]: "xshort x = x"
  using of_le16_le16 [of x] by (simp add: xshort_def le16_def)

text \<open>An image in which every sector has its size and those not yet given out are zero.\<close>

definition clean :: "mk \<Rightarrow> bool" where
  "clean s \<longleftrightarrow> nsect s = 1024 \<and> usedblocks s = freeblock s \<and> (\<forall>x. length (img s x) = BSIZE) \<and> 29 \<le> freeblock s \<and> freeblock s \<le> 1024
     \<and> (\<forall>x \<ge> freeblock s. img s x = replicate BSIZE 0)"

definition fblocks :: "nat \<Rightarrow> nat" where
  "fblocks n = (n + 511) div 512"

text \<open>The blocks a file of \<open>k\<close> blocks owns, and that its inode maps exactly those, each once.\<close>

definition owned :: "(u32 \<Rightarrow> u8 list) \<Rightarrow> dinode \<Rightarrow> nat \<Rightarrow> u32 set" where
  "owned V c k = addr_of V c ` {..< k} \<union> (if NDIRECT < k then {d_addrs c ! NDIRECT} else {})"

definition mk_file :: "(u32 \<Rightarrow> u8 list) \<Rightarrow> u32 \<Rightarrow> dinode \<Rightarrow> nat \<Rightarrow> bool" where
  "mk_file V fb c k \<longleftrightarrow> length (d_addrs c) = NDIRECT + 1 \<and> k \<le> MAXFILE
     \<and> (\<forall>b \<in> owned V c k. 29 \<le> b \<and> b < fb)
     \<and> inj_on (addr_of V c) {..< k} \<and> (NDIRECT < k \<longrightarrow> d_addrs c ! NDIRECT \<notin> addr_of V c ` {..< k})
     \<and> (\<forall>j. k \<le> j \<and> j < NDIRECT \<longrightarrow> d_addrs c ! j = 0)
     \<and> (if NDIRECT < k then \<forall>j. k \<le> j \<and> j < MAXFILE \<longrightarrow> addr_of V c j = 0 else d_addrs c ! NDIRECT = 0)"

definition need :: "nat \<Rightarrow> nat \<Rightarrow> nat" where
  "need a b = (b - a) + (if a \<le> NDIRECT \<and> NDIRECT < b then 1 else 0)"

lemma addr_of_direct: "j < NDIRECT \<Longrightarrow> addr_of V c j = d_addrs c ! j"
  by (simp add: addr_of_def)

lemma addr_of_indirect:
  "length (V (d_addrs c ! NDIRECT)) = BSIZE \<Longrightarrow> NDIRECT \<le> j \<Longrightarrow> j < MAXFILE \<Longrightarrow>
   addr_of V c j = get_words NINDIRECT (V (d_addrs c ! NDIRECT)) ! (j - NDIRECT)"
  by (simp add: addr_of_def get_words_nth MAXFILE_def)

lemma addr_of_cong:
  "d_addrs c' = d_addrs c \<Longrightarrow> (NDIRECT \<le> j \<Longrightarrow> V' (d_addrs c ! NDIRECT) = V (d_addrs c ! NDIRECT)) \<Longrightarrow> addr_of V' c' j = addr_of V c j"
  by (simp add: addr_of_def)

lemma get_words_upd:
  assumes "length ws = NINDIRECT"
  shows "get_words NINDIRECT (words_le ws) = ws"
  using get_words_words_le [of ws "[]"] assms by simp

text \<open>The step of \<open>block_for\<close>: the file has the block \<open>fbn\<close> afterwards.\<close>

lemma block_for_old:
  assumes "mk_file (img s) (freeblock s) c k" "unat fbn < k" "clean s"
  shows "block_for c fbn s = Ret (c, addr_of (img s) c (unat fbn)) s"
proof -
  let ?j = "unat fbn"
  have own: "addr_of (img s) c ?j \<in> owned (img s) c k" using assms(2) by (auto simp: owned_def)
  then have nz: "addr_of (img s) c ?j \<noteq> 0" "?j < MAXFILE"
    using assms(1,2) by (force simp: mk_file_def, simp add: mk_file_def)
  show ?thesis
  proof (cases "?j < NDIRECT")
    case True
    then show ?thesis using nz by (simp add: block_for_def direct_block_def addr_of_direct call_app)
  next
    case False
    then have "NDIRECT < k" using assms(2) by simp
    then have "d_addrs c ! NDIRECT \<in> owned (img s) c k" by (simp add: owned_def)
    then have i: "29 \<le> d_addrs c ! NDIRECT" "d_addrs c ! NDIRECT < freeblock s"
      using assms(1) by (auto simp: mk_file_def)
    then have "d_addrs c ! NDIRECT \<noteq> 0" "d_addrs c ! NDIRECT < 1024"
      using assms(3) by (auto simp: clean_def)
    moreover have "addr_of (img s) c ?j = get_words NINDIRECT (img s (d_addrs c ! NDIRECT)) ! (?j - NDIRECT)"
      using False nz(2) assms(3) by (intro addr_of_indirect) (auto simp: clean_def)
    ultimately show ?thesis
      using False nz assms(3) by (simp add: block_for_def direct_block_def rsect_eq call_app clean_def Let_def)
  qed
qed

text \<open>Storing an address in the indirect block.\<close>

lemma addr_of_store:
  assumes "length (V (d_addrs c ! NDIRECT)) = BSIZE" and "NDIRECT \<le> k" "k < MAXFILE" and "j < MAXFILE"
  shows "addr_of (V(d_addrs c ! NDIRECT :=
      words_le ((get_words NINDIRECT (V (d_addrs c ! NDIRECT)))[k - NDIRECT := b]))) c j
    = (if j = k then b else addr_of V c j)"
proof (cases "j < NDIRECT")
  case True
  then show ?thesis using assms(2) by (simp add: addr_of_def)
next
  case False
  let ?i = "d_addrs c ! NDIRECT" and ?W = "get_words NINDIRECT (V (d_addrs c ! NDIRECT))"
  have l: "length (words_le (?W[k - NDIRECT := b])) = BSIZE" by (simp add: BSIZE_def NINDIRECT_def)
  have "addr_of (V(?i := words_le (?W[k - NDIRECT := b]))) c j = ?W[k - NDIRECT := b] ! (j - NDIRECT)"
    using False assms(4) l get_words_upd [of "?W[k - NDIRECT := b]"]
    by (subst addr_of_indirect) (simp_all add: NINDIRECT_def)
  moreover have "addr_of V c j = ?W ! (j - NDIRECT)" using addr_of_indirect [of V c j] assms(1) False assms(4) by simp
  ultimately show ?thesis
    using False assms(2,3,4) by (auto simp: nth_list_update MAXFILE_def)
qed

lemma unat_less1024: "x \<le> 1024 \<Longrightarrow> unat (x :: u32) + n \<le> 1024 \<Longrightarrow> 0 < n \<Longrightarrow> x < 1024 \<and> unat (x + 1) = unat x + 1 \<and> x < x + 1"
proof -
  assume "unat x + n \<le> 1024" "0 < n"
  then have u: "unat x < 1024" by simp
  then have s: "unat (x + 1) = unat x + 1" by (subst unat_add_lem [THEN iffD1]) simp_all
  with u show ?thesis by (simp add: word_less_nat_alt)
qed

lemma inj_on_Suc: "inj_on f {..< k} \<Longrightarrow> f k \<notin> f ` {..< k} \<Longrightarrow> inj_on f {..< Suc k}"
  by (simp add: lessThan_Suc)

text \<open>What a step does to the state: how many blocks it gives out, and which sectors it may write.\<close>

definition grows :: "mk \<Rightarrow> mk \<Rightarrow> nat \<Rightarrow> u32 set \<Rightarrow> bool" where
  "grows s t n S \<longleftrightarrow> clean t \<and> unat (freeblock t) = unat (freeblock s) + n \<and> freeinode t = freeinode s
     \<and> (\<forall>y < freeblock s. y \<notin> S \<longrightarrow> img t y = img s y)"

text \<open>The file has a further block.\<close>

definition extended :: "mk \<Rightarrow> dinode \<Rightarrow> nat \<Rightarrow> mk \<Rightarrow> dinode \<Rightarrow> nat \<Rightarrow> bool" where
  "extended s c k t c' k' \<longleftrightarrow> mk_file (img t) (freeblock t) c' k' \<and> c' = c\<lparr>d_addrs := d_addrs c'\<rparr>
     \<and> grows s t (need k k') (owned (img s) c k)
     \<and> owned (img t) c' k' \<subseteq> owned (img s) c k \<union> {y. freeblock s \<le> y}"

lemma block_for_direct:
  assumes "mk_file (img s) (freeblock s) c k" "unat fbn = k" "k < NDIRECT" "clean s"
    and "unat (freeblock s) + need k (Suc k) \<le> 1024"
  shows "\<exists>c' t. block_for c fbn s = Ret (c', addr_of (img t) c' k) t \<and> extended s c k t c' (Suc k)
     \<and> (\<forall>j < k. addr_of (img t) c' j = addr_of (img s) c j) \<and> img t = img s"
proof -
  let ?b = "freeblock s"
  let ?c = "c\<lparr>d_addrs := (d_addrs c)[k := ?b]\<rparr>"
  let ?t = "s\<lparr>freeblock := ?b + 1, usedblocks := usedblocks s + 1\<rparr>"
  have n: "need k (Suc k) = 1" using assms(3) by (simp add: need_def)
  have b: "?b < 1024" "unat (?b + 1) = unat ?b + 1" "?b < ?b + 1"
    using unat_less1024 [of ?b 1] assms(4,5) n by (auto simp: clean_def)
  have f: "length (d_addrs c) = NDIRECT + 1" "\<forall>x \<in> owned (img s) c k. 29 \<le> x \<and> x < ?b" "inj_on (addr_of (img s) c) {..< k}"
      "d_addrs c ! NDIRECT = 0" "d_addrs c ! k = 0" "\<forall>j. k \<le> j \<and> j < NDIRECT \<longrightarrow> d_addrs c ! j = 0"
    using assms(1,3) by (simp_all add: mk_file_def)
  have a: "addr_of (img s) ?c j = (if j = k then ?b else addr_of (img s) c j)" if "j \<le> k" for j
    using that assms(3) f(1) by (simp add: addr_of_def)
  have o: "owned (img s) ?c (Suc k) = insert ?b (owned (img s) c k)"
  proof -
    have "addr_of (img s) ?c ` {..< Suc k} = insert ?b (addr_of (img s) c ` {..< k})"
      using a by (auto simp: lessThan_Suc image_iff)
    then show ?thesis using assms(3) by (simp add: owned_def)
  qed
  have ob: "?b \<notin> owned (img s) c k" using f(2) by auto
  have "mk_file (img s) (?b + 1) ?c (Suc k)"
    unfolding mk_file_def
  proof (intro conjI)
    show "\<forall>x \<in> owned (img s) ?c (Suc k). 29 \<le> x \<and> x < ?b + 1"
      using f(2) b assms(4) unfolding o by (auto simp: clean_def)
    show "inj_on (addr_of (img s) ?c) {..< Suc k}"
    proof -
      have "inj_on (addr_of (img s) ?c) {..< k}" using f(3) a by (simp add: inj_on_def)
      moreover have "?b \<notin> addr_of (img s) ?c ` {..< k}" using ob a by (auto simp: owned_def)
      moreover have "addr_of (img s) ?c k = ?b" using a [of k] by simp
      ultimately show ?thesis using inj_on_Suc [of "addr_of (img s) ?c" k] by simp
    qed
  qed (use f assms(3) in \<open>auto simp: MAXFILE_def\<close>)
  moreover have "grows s ?t 1 (owned (img s) c k)"
    using assms(4) b by (auto simp: grows_def clean_def word_le_nat_alt word_less_nat_alt)
  ultimately have "extended s c k ?t ?c (Suc k)"
    using o by (auto simp: extended_def n)
  moreover have "block_for c fbn s = Ret (?c, addr_of (img s) ?c k) ?t"
    using assms(2,3) f(1,5) a [of k] by (simp add: block_for_def direct_block_def new_block_def kern_defs)
  ultimately show ?thesis using a by (intro exI [of _ ?c] exI [of _ ?t]) simp
qed

text \<open>A file of \<open>k\<close> blocks that has its indirect block.\<close>

definition ind_file :: "(u32 \<Rightarrow> u8 list) \<Rightarrow> u32 \<Rightarrow> dinode \<Rightarrow> nat \<Rightarrow> bool" where
  "ind_file V fb c k \<longleftrightarrow> length (d_addrs c) = NDIRECT + 1 \<and> NDIRECT \<le> k \<and> k \<le> MAXFILE
     \<and> (\<forall>b \<in> insert (d_addrs c ! NDIRECT) (addr_of V c ` {..< k}). 29 \<le> b \<and> b < fb)
     \<and> inj_on (addr_of V c) {..< k} \<and> d_addrs c ! NDIRECT \<notin> addr_of V c ` {..< k}
     \<and> (\<forall>j. k \<le> j \<and> j < MAXFILE \<longrightarrow> addr_of V c j = 0)"

lemma ind_file_mk_file: "NDIRECT < k \<Longrightarrow> ind_file V fb c k = mk_file V fb c k"
  by (auto simp: ind_file_def mk_file_def owned_def)

lemma block_for_store:
  assumes "ind_file (img s) (freeblock s) c k" "unat fbn = k" "k < MAXFILE" "clean s" "unat (freeblock s) + 1 \<le> 1024"
  shows "\<exists>t. block_for c fbn s = Ret (c, addr_of (img t) c k) t \<and> mk_file (img t) (freeblock t) c (Suc k)
    \<and> grows s t 1 {d_addrs c ! NDIRECT} \<and> (\<forall>j < k. addr_of (img t) c j = addr_of (img s) c j)
    \<and> (\<forall>y. y \<noteq> d_addrs c ! NDIRECT \<longrightarrow> img t y = img s y) \<and> addr_of (img t) c k = freeblock s"
proof -
  let ?b = "freeblock s" and ?i = "d_addrs c ! NDIRECT"
  let ?W = "get_words NINDIRECT (img s ?i)"
  let ?V = "(img s)(?i := words_le (?W[k - NDIRECT := ?b]))"
  let ?t = "s\<lparr>freeblock := ?b + 1, usedblocks := usedblocks s + 1, img := ?V\<rparr>"
  have b: "?b < 1024" "unat (?b + 1) = unat ?b + 1" "?b < ?b + 1"
    using unat_less1024 [of ?b 1] assms(4,5) by (auto simp: clean_def)
  have f: "length (d_addrs c) = NDIRECT + 1" "NDIRECT \<le> k" "29 \<le> ?i" "?i < ?b"
      "\<forall>x \<in> addr_of (img s) c ` {..< k}. 29 \<le> x \<and> x < ?b"
      "inj_on (addr_of (img s) c) {..< k}" "?i \<notin> addr_of (img s) c ` {..< k}" "\<forall>j. k \<le> j \<and> j < MAXFILE \<longrightarrow> addr_of (img s) c j = 0"
    using assms(1) by (simp_all add: ind_file_def)
  have l: "length (img s ?i) = BSIZE" using assms(4) by (simp add: clean_def)
  have a: "addr_of ?V c j = (if j = k then ?b else addr_of (img s) c j)" if "j < MAXFILE" for j
    using addr_of_store [of "img s" c k j ?b] l f(2) assms(3) that by blast
  have im: "addr_of ?V c ` {..< k} = addr_of (img s) c ` {..< k}" 
  proof (rule image_cong [OF refl])
    fix j assume "j \<in> {..< k}"
    then show "addr_of ?V c j = addr_of (img s) c j" using a [of j] assms(3) by simp
  qed
  have o: "owned ?V c (Suc k) = insert ?b (insert ?i (addr_of (img s) c ` {..< k}))"
    unfolding owned_def lessThan_Suc image_insert im using a [OF assms(3)] f(2) by (simp add: insert_commute)
  have mk: "mk_file ?V (?b + 1) c (Suc k)"
    unfolding mk_file_def
  proof (intro conjI)
    show "\<forall>x \<in> owned ?V c (Suc k). 29 \<le> x \<and> x < ?b + 1"
    proof
      fix x assume "x \<in> owned ?V c (Suc k)"
      then have "29 \<le> x \<and> (x = ?b \<or> x < ?b)" using f(3-5) assms(4) unfolding o by (auto simp: clean_def)
      then show "29 \<le> x \<and> x < ?b + 1" using b(3) less_trans [of x ?b] by blast
    qed
    have "inj_on (addr_of ?V c) {..< k}" using f(6) a assms(3) by (simp add: inj_on_def)
    moreover have "addr_of ?V c k \<notin> addr_of ?V c ` {..< k}" unfolding im using a [OF assms(3)] f(5) by auto
    ultimately show "inj_on (addr_of ?V c) {..< Suc k}" by (rule inj_on_Suc)
    show "NDIRECT < Suc k \<longrightarrow> ?i \<notin> addr_of ?V c ` {..< Suc k}"
      using im f(4,7) a [OF assms(3)] by (auto simp: lessThan_Suc)
    show "if NDIRECT < Suc k then \<forall>j. Suc k \<le> j \<and> j < MAXFILE \<longrightarrow> addr_of ?V c j = 0 else ?i = 0"
      using f(2,8) a by auto
  qed (use f assms(3) in auto)
  have g: "grows s ?t 1 {?i}"
    using assms(4) b f(3,4) by (auto simp: grows_def clean_def word_le_nat_alt word_less_nat_alt BSIZE_def NINDIRECT_def)
  have z: "?i \<noteq> 0" "?i < nsect s" using f(3,4) b(1) assms(4) by (auto simp: clean_def)
  have w: "?W ! (k - NDIRECT) = 0"
    using addr_of_indirect [of "img s" c k] l f(2,8) assms(3) by simp
  have "block_for c fbn s = Ret (c, ?b) ?t"
  proof -
    have "max (nsect s) (?i + 1) = nsect s"
    proof -
      have "?i + 1 \<le> nsect s" using z(2) by (simp add: inc_le)
      then show ?thesis by (simp add: max_def)
    qed
    then show ?thesis
      using assms(2) f(2) z w rsect_eq [OF z(2)]
      by (simp add: block_for_def direct_block_def new_block_def wsect_def kern_defs Let_def)
  qed
  then show ?thesis using mk g a assms(3) by (intro exI [of _ ?t]) simp
qed

lemma get_words_zero: "j < n \<Longrightarrow> 4 * n \<le> m \<Longrightarrow> get_words n (replicate m 0) ! j = 0"
  by (simp add: get_words_nth of_le32_def)

lemma block_for_new:
  assumes mk: "mk_file (img s) (freeblock s) c k" and k: "unat fbn = k" "k < MAXFILE" and cl: "clean s"
    and sp: "unat (freeblock s) + need k (Suc k) \<le> 1024"
  shows "\<exists>c' t. block_for c fbn s = Ret (c', addr_of (img t) c' k) t \<and> extended s c k t c' (Suc k)
     \<and> (\<forall>j < k. addr_of (img t) c' j = addr_of (img s) c j \<and> img t (addr_of (img s) c j) = img s (addr_of (img s) c j))"
proof -
  consider "k < NDIRECT" | "k = NDIRECT" | "NDIRECT < k" by linarith
  then show ?thesis
  proof cases
    case 1
    with block_for_direct [OF mk k(1) 1 cl sp] show ?thesis by auto
  next
    case 3
    have n: "need k (Suc k) = 1" using 3 by (simp add: need_def)
    have ind: "ind_file (img s) (freeblock s) c k" using mk ind_file_mk_file [OF 3] by blast
    obtain t where t: "block_for c fbn s = Ret (c, addr_of (img t) c k) t"
      "mk_file (img t) (freeblock t) c (Suc k)" "grows s t 1 {d_addrs c ! NDIRECT}"
      "\<forall>j < k. addr_of (img t) c j = addr_of (img s) c j" "\<forall>y. y \<noteq> d_addrs c ! NDIRECT \<longrightarrow> img t y = img s y"
      "addr_of (img t) c k = freeblock s"
      using block_for_store [OF ind k cl] sp n by auto
    have "grows s t 1 (owned (img s) c k)" using t(3) 3 by (auto simp: grows_def owned_def)
    moreover have "owned (img t) c (Suc k) \<subseteq> owned (img s) c k \<union> {y. freeblock s \<le> y}"
      using t(4,6) 3 by (auto simp: owned_def lessThan_Suc)
    ultimately have "extended s c k t c (Suc k)" using t(2) by (simp add: extended_def n)
    moreover have "\<forall>j < k. img t (addr_of (img s) c j) = img s (addr_of (img s) c j)"
    proof (intro allI impI)
      fix j assume "j < k"
      then have "addr_of (img s) c j \<in> addr_of (img s) c ` {..< k}" by simp
      moreover have "d_addrs c ! NDIRECT \<notin> addr_of (img s) c ` {..< k}" using ind by (simp add: ind_file_def)
      ultimately have "addr_of (img s) c j \<noteq> d_addrs c ! NDIRECT" by metis
      then show "img t (addr_of (img s) c j) = img s (addr_of (img s) c j)" using t(5) by blast
    qed
    ultimately show ?thesis using t(1,4) by blast
  next
    case 2
    let ?b = "freeblock s"
    let ?c = "c\<lparr>d_addrs := (d_addrs c)[NDIRECT := ?b]\<rparr>" and ?s = "s\<lparr>freeblock := ?b + 1, usedblocks := usedblocks s + 1\<rparr>"
    have n: "need k (Suc k) = 2" using 2 by (simp add: need_def)
    have b: "?b < 1024" "unat (?b + 1) = unat ?b + 1" "?b < ?b + 1"
      using unat_less1024 [of ?b 2] sp n cl by (auto simp: clean_def)
    have f: "length (d_addrs c) = NDIRECT + 1" "\<forall>x \<in> owned (img s) c k. 29 \<le> x \<and> x < ?b" "inj_on (addr_of (img s) c) {..< k}"
        "d_addrs c ! NDIRECT = 0"
      using mk 2 by (simp_all add: mk_file_def)
    have z: "img s ?b = replicate BSIZE 0" using cl by (simp add: clean_def)
    have lo: "addr_of (img s) ?c j = addr_of (img s) c j" if "j < k" for j
      using that 2 by (simp add: addr_of_def)
    have ow: "owned (img s) c k = addr_of (img s) c ` {..< k}" using 2 by (simp add: owned_def)
    have im: "addr_of (img s) ?c ` {..< k} = addr_of (img s) c ` {..< k}"
      by (rule image_cong [OF refl]) (use lo in simp)
    have inb: "?b \<notin> addr_of (img s) c ` {..< k}" using f(2) by (auto simp: ow)
    have hi: "addr_of (img s) ?c j = 0" if "k \<le> j" "j < MAXFILE" for j
    proof -
      have "addr_of (img s) ?c j = get_words NINDIRECT (replicate BSIZE 0) ! (j - NDIRECT)"
        using addr_of_indirect [of "img s" ?c j] that 2 z f(1) by (simp add: BSIZE_def)
      then show ?thesis using that 2 get_words_zero [of "j - NDIRECT" NINDIRECT BSIZE]
        by (simp add: MAXFILE_def NINDIRECT_def BSIZE_def NDIRECT_def)
    qed
    have cl1: "clean ?s" using cl b by (auto simp: clean_def word_le_nat_alt word_less_nat_alt)
    have ind: "ind_file (img ?s) (freeblock ?s) ?c k"
      unfolding ind_file_def
    proof (intro conjI)
      show "\<forall>x \<in> insert (d_addrs ?c ! NDIRECT) (addr_of (img ?s) ?c ` {..< k}). 29 \<le> x \<and> x < freeblock ?s"
      proof
        fix x assume "x \<in> insert (d_addrs ?c ! NDIRECT) (addr_of (img ?s) ?c ` {..< k})"
        then have "29 \<le> x \<and> (x = ?b \<or> x < ?b)" using f(1,2) im cl by (auto simp: ow clean_def)
        then show "29 \<le> x \<and> x < freeblock ?s" using b(3) less_trans [of x ?b] by auto
      qed
      show "inj_on (addr_of (img ?s) ?c) {..< k}" using f(3) lo by (simp add: inj_on_def)
      show "d_addrs ?c ! NDIRECT \<notin> addr_of (img ?s) ?c ` {..< k}" using inb im f(1) by simp
      show "\<forall>j. k \<le> j \<and> j < MAXFILE \<longrightarrow> addr_of (img ?s) ?c j = 0" using hi by simp
    qed (use f(1) 2 k(2) in simp_all)
    have sp1: "unat (freeblock ?s) + 1 \<le> 1024" using sp n b(2) by simp
    obtain t where t: "block_for ?c fbn ?s = Ret (?c, addr_of (img t) ?c k) t"
      "mk_file (img t) (freeblock t) ?c (Suc k)" "grows ?s t 1 {d_addrs ?c ! NDIRECT}"
      "\<forall>j < k. addr_of (img t) ?c j = addr_of (img ?s) ?c j" "\<forall>y. y \<noteq> d_addrs ?c ! NDIRECT \<longrightarrow> img t y = img ?s y"
      "addr_of (img t) ?c k = freeblock ?s"
      using block_for_store [OF ind k cl1 sp1] by blast
    have e: "d_addrs ?c ! NDIRECT = ?b" using f(1) by simp
    have "block_for c fbn s = block_for ?c fbn ?s"
    proof -
      have "?b \<noteq> 0" using cl by (auto simp: clean_def)
      then show ?thesis using k(1) 2 f(1,4) by (simp add: block_for_def direct_block_def new_block_def kern_defs)
    qed
    then have r: "block_for c fbn s = Ret (?c, addr_of (img t) ?c k) t" using t(1) by simp
    have "grows s t 2 (owned (img s) c k)"
      using t(3) b(2,3) unfolding grows_def e by (auto dest: less_trans)
    moreover have "owned (img t) ?c (Suc k) \<subseteq> owned (img s) c k \<union> {y. ?b \<le> y}"
    proof
      fix y assume "y \<in> owned (img t) ?c (Suc k)"
      then have "(\<exists>j < k. y = addr_of (img t) ?c j) \<or> y = freeblock ?s \<or> y = ?b"
        using t(6) e by (auto simp: owned_def lessThan_Suc split: if_splits)
      then show "y \<in> owned (img s) c k \<union> {y. ?b \<le> y}"
        using t(4) lo b(3) by (auto simp: ow)
    qed
    ultimately have "extended s c k t ?c (Suc k)" using t(2) by (simp add: extended_def n)
    moreover have "\<forall>j < k. addr_of (img t) ?c j = addr_of (img s) c j \<and> img t (addr_of (img s) c j) = img s (addr_of (img s) c j)"
    proof -
      have "addr_of (img s) c j \<noteq> ?b" if "j < k" for j using inb that by (metis imageI lessThan_iff)
      then show ?thesis using t(4,5) lo unfolding e by auto
    qed
    ultimately show ?thesis using r by blast
  qed
qed

lemma need_add: "a \<le> b \<Longrightarrow> b \<le> c \<Longrightarrow> need a b + need b c = need a c"
  by (auto simp: need_def)

lemma extended_refl: "mk_file (img s) (freeblock s) c k \<Longrightarrow> clean s \<Longrightarrow> extended s c k s c k"
  by (simp add: extended_def grows_def need_def)

lemma grows_le: "grows s t n S \<Longrightarrow> freeblock s \<le> freeblock t"
  by (simp add: grows_def word_le_nat_alt)

lemma extended_trans:
  assumes e: "extended s c k t d l" "extended t d l u e m" and "k \<le> l" "l \<le> m"
  shows "extended s c k u e m"
  unfolding extended_def
proof (intro conjI)
  show "mk_file (img u) (freeblock u) e m" using e(2) by (simp add: extended_def)
  have "d = c\<lparr>d_addrs := d_addrs d\<rparr>" "e = d\<lparr>d_addrs := d_addrs e\<rparr>" using e by (simp_all add: extended_def)
  then show "e = c\<lparr>d_addrs := d_addrs e\<rparr>" by (cases c; cases d; cases e) simp
  have g: "grows s t (need k l) (owned (img s) c k)" "grows t u (need l m) (owned (img t) d l)"
    and o: "owned (img t) d l \<subseteq> owned (img s) c k \<union> {y. freeblock s \<le> y}"
      "owned (img u) e m \<subseteq> owned (img t) d l \<union> {y. freeblock t \<le> y}"
    using e by (simp_all add: extended_def)
  have le: "freeblock s \<le> freeblock t" by (rule grows_le [OF g(1)])
  show "grows s u (need k m) (owned (img s) c k)"
    unfolding grows_def
  proof (intro conjI allI impI)
    show "clean u" "freeinode u = freeinode s" using g by (simp_all add: grows_def)
    show "unat (freeblock u) = unat (freeblock s) + need k m"
      using g need_add [OF assms(3,4)] by (simp add: grows_def)
    fix y assume y: "y < freeblock s" "y \<notin> owned (img s) c k"
    then have "y < freeblock t" "y \<notin> owned (img t) d l" using le o(1) by auto
    then show "img u y = img s y" using g y by (simp add: grows_def)
  qed
  show "owned (img u) e m \<subseteq> owned (img s) c k \<union> {y. freeblock s \<le> y}"
    using o le by (auto intro: order_trans)
qed

text \<open>Where an appended byte goes.\<close>

lemma fblocks_step:
  assumes "0 < m" "m \<le> 512 - off mod 512"
  shows "fblocks (off + m) = Suc (off div 512)"
    and "fblocks off = (if off mod 512 = 0 then off div 512 else Suc (off div 512))"
proof -
  have off: "off = off div 512 * 512 + off mod 512" "off mod 512 < 512" by simp_all
  have "off + m + 511 = Suc (off div 512) * 512 + (off mod 512 + m - 1)" using off assms by simp
  moreover have "(Suc (off div 512) * 512 + r) div 512 = Suc (off div 512)" if "r < 512" for r using that by simp
  moreover have "off mod 512 + m - 1 < 512" using assms by simp
  ultimately show "fblocks (off + m) = Suc (off div 512)" unfolding fblocks_def by metis
  show "fblocks off = (if off mod 512 = 0 then off div 512 else Suc (off div 512))"
  proof (cases "off mod 512 = 0")
    case True
    then have "off + 511 = off div 512 * 512 + 511" using off(1) by simp
    moreover have "(q * 512 + 511) div 512 = q" for q :: nat by simp
    ultimately have "(off + 511) div 512 = off div 512" by metis
    then show ?thesis using True by (simp add: fblocks_def)
  next
    case False
    then have "off + 511 = Suc (off div 512) * 512 + (off mod 512 - 1)" using off by simp
    moreover have "off mod 512 - 1 < 512" using off(2) by simp
    ultimately have "(off + 511) div 512 = Suc (off div 512)" by (metis div_mult_self3 add_0_right div_less zero_neq_numeral)
    then show ?thesis using False by (simp add: fblocks_def)
  qed
qed

text \<open>The block a piece goes to, and the inode that maps it.\<close>

lemma block_for_step:
  assumes "mk_file (img s) (freeblock s) c (fblocks (unat off))" "unat (off div 512) < MAXFILE" "clean s"
    and "unat (freeblock s) + need (fblocks (unat off)) (Suc (unat (off div 512))) \<le> 1024"
  obtains c' t where "block_for c (off div 512) s = Ret (c', addr_of (img t) c' (unat (off div 512))) t"
    "extended s c (fblocks (unat off)) t c' (Suc (unat (off div 512)))"
    "\<forall>j < fblocks (unat off). addr_of (img t) c' j = addr_of (img s) c j \<and> img t (addr_of (img s) c j) = img s (addr_of (img s) c j)"
proof -
  let ?k = "unat (off div 512)"
  have k: "?k = unat off div 512" by (simp add: unat_div_distrib)
  have "fblocks (unat off) = ?k \<or> fblocks (unat off) = Suc ?k"
    using fblocks_step(2) [of 1 "unat off"] unfolding k by auto
  then show thesis
  proof
    assume f: "fblocks (unat off) = ?k"
    note F = assms [unfolded f]
    show thesis using block_for_new [OF F(1) refl F(2,3,4)] that unfolding f by blast
  next
    assume f: "fblocks (unat off) = Suc ?k"
    have "block_for c (off div 512) s = Ret (c, addr_of (img s) c ?k) s"
      by (rule block_for_old [OF assms(1) _ assms(3)]) (simp add: f)
    then show thesis using that [of c s] extended_refl [OF assms(1,3)] unfolding f by blast
  qed
qed

text \<open>Writing the piece into its block.\<close>

lemma write_piece:
  assumes e: "extended s c k t c' (Suc n)" and cl: "clean s"
    and b: "o' + length q \<le> BSIZE"
  defines "x \<equiv> addr_of (img t) c' n"
  defines "u \<equiv> t\<lparr>img := (img t)(x := patch o' q (img t x))\<rparr>"
  shows "wsect x (patch o' q (img t x)) t = Ret () u" "x < nsect t" "extended s c k u c' (Suc n)"
    "addr_of (img u) c' j = addr_of (img t) c' j"
    "j < Suc n \<Longrightarrow> img u (addr_of (img t) c' j) = (if j = n then patch o' q (img t x) else img t (addr_of (img t) c' j))"
proof -
  have mk: "mk_file (img t) (freeblock t) c' (Suc n)" and g: "grows s t (need k (Suc n)) (owned (img s) c k)"
    and ow: "owned (img t) c' (Suc n) \<subseteq> owned (img s) c k \<union> {y. freeblock s \<le> y}" and cc: "c' = c\<lparr>d_addrs := d_addrs c'\<rparr>"
    using e by (simp_all add: extended_def)
  have ct: "clean t" using g by (simp add: grows_def)
  have xo: "x \<in> owned (img t) c' (Suc n)" by (simp add: x_def owned_def)
  have x: "29 \<le> x" "x < freeblock t" using mk xo by (auto simp: mk_file_def)
  show nx: "x < nsect t" using x(2) ct by (auto simp: clean_def)
  have xi: "x \<noteq> d_addrs c' ! NDIRECT"
  proof (cases "NDIRECT < Suc n")
    case True
    then have "d_addrs c' ! NDIRECT \<notin> addr_of (img t) c' ` {..< Suc n}" using mk by (simp add: mk_file_def)
    moreover have "x \<in> addr_of (img t) c' ` {..< Suc n}" by (simp add: x_def)
    ultimately show ?thesis by metis
  next
    case False
    then have "d_addrs c' ! NDIRECT = 0" using mk by (simp add: mk_file_def)
    then show ?thesis using x(1) by auto
  qed
  have a: "addr_of (img u) c' j = addr_of (img t) c' j" for j
    by (rule addr_of_cong) (use xi in \<open>simp_all add: u_def\<close>)
  then show "addr_of (img u) c' j = addr_of (img t) c' j" .
  have l: "length (img t x) = BSIZE" using ct by (simp add: clean_def)
  have ou: "owned (img u) c' (Suc n) = owned (img t) c' (Suc n)" by (simp add: owned_def a)
  have "mk_file (img u) (freeblock u) c' (Suc n)"
    using mk unfolding mk_file_def ou a by (simp add: u_def a inj_on_def)
  moreover have "clean u" using ct x(2) l b by (auto simp: clean_def u_def)
  then have "grows s u (need k (Suc n)) (owned (img s) c k)"
    using g xo ow by (auto simp: grows_def u_def)
  ultimately show "extended s c k u c' (Suc n)" using cc ow by (simp add: extended_def ou)
  have "max (nsect t) (x + 1) = nsect t" using inc_le [OF nx] by (simp add: max_def)
  then show "wsect x (patch o' q (img t x)) t = Ret () u" by (simp add: wsect_def modify_def u_def)
  assume j: "j < Suc n"
  show "img u (addr_of (img t) c' j) = (if j = n then patch o' q (img t x) else img t (addr_of (img t) c' j))"
  proof (cases "j = n")
    case True
    then show ?thesis by (simp add: u_def x_def)
  next
    case False
    have "inj_on (addr_of (img t) c') {..< Suc n}" using mk by (simp add: mk_file_def)
    then have "addr_of (img t) c' j \<noteq> x" using False j by (auto simp: x_def dest: inj_onD)
    then show ?thesis using False by (simp add: u_def)
  qed
qed

lemma file_bytes_snoc:
  assumes "\<And>q. q < n \<Longrightarrow> file_byte V' c' q = file_byte V c q" and "\<And>i. i < length p \<Longrightarrow> file_byte V' c' (n + i) = p ! i"
  shows "file_bytes V' c' 0 (n + length p) = file_bytes V c 0 n @ p"
proof (rule nth_equalityI)
  show "length (file_bytes V' c' 0 (n + length p)) = length (file_bytes V c 0 n @ p)" by simp
next
  fix q assume q: "q < length (file_bytes V' c' 0 (n + length p))"
  show "file_bytes V' c' 0 (n + length p) ! q = (file_bytes V c 0 n @ p) ! q"
  proof (cases "q < n")
    case True
    then show ?thesis using assms(1) by (simp add: nth_file_bytes nth_append)
  next
    case False
    then obtain i where "q = n + i" by (metis add_diff_inverse_nat)
    then show ?thesis using assms(2) q by (simp add: nth_file_bytes nth_append)
  qed
qed

text \<open>One pass of the loop of \<open>iappend\<close>.\<close>

lemma iappend_pass:
  assumes mk: "mk_file (img s) (freeblock s) c (fblocks (unat off))" and cl: "clean s" and p: "p \<noteq> []"
    and sz: "unat off + length p \<le> MAXFILE * 512"
    and sp: "unat (freeblock s) + need (fblocks (unat off)) (fblocks (unat off + length p)) \<le> 1024"
  obtains c' u where "iappend_loop p off c s
      = iappend_loop (drop (piece off (length p)) p) (off + of_nat (piece off (length p))) c' u"
    "extended s c (fblocks (unat off)) u c' (fblocks (unat off + piece off (length p)))"
    "file_bytes (img u) c' 0 (unat off + piece off (length p)) = file_bytes (img s) c 0 (unat off) @ take (piece off (length p)) p"
proof -
  let ?m = "piece off (length p)" and ?n = "unat (off div 512)" and ?k = "fblocks (unat off)"
  have n: "?n = unat off div 512" by (simp add: unat_div_distrib)
  have m: "0 < ?m" "?m \<le> 512 - unat off mod 512" "?m \<le> length p"
    using p piece_pos [of "length p" off] unfolding piece_def block_rest by auto
  have k': "fblocks (unat off + ?m) = Suc ?n" unfolding n by (rule fblocks_step(1) [OF m(1,2)])
  have kl: "?k \<le> Suc ?n" using fblocks_step(2) [OF m(1,2)] unfolding n by auto
  have "0 < length p" using p by simp
  then have "unat off < MAXFILE * 512" using sz by linarith
  then have nm: "?n < MAXFILE" unfolding n by (rule less_mult_imp_div_less)
  have mono: "Suc ?n \<le> fblocks (unat off + length p)"
    unfolding k' [symmetric] fblocks_def using m(3) by (intro div_le_mono) simp
  have sp': "unat (freeblock s) + need ?k (Suc ?n) \<le> 1024"
    using need_add [OF kl mono] sp by simp
  obtain c' t where t: "block_for c (off div 512) s = Ret (c', addr_of (img t) c' ?n) t"
    "extended s c ?k t c' (Suc ?n)"
    "\<forall>j < ?k. addr_of (img t) c' j = addr_of (img s) c j \<and> img t (addr_of (img s) c j) = img s (addr_of (img s) c j)"
    by (rule block_for_step [OF mk nm cl sp'])
  let ?x = "addr_of (img t) c' ?n" and ?o = "unat off mod 512" and ?q = "take ?m p"
  let ?u = "t\<lparr>img := (img t)(?x := patch ?o ?q (img t ?x))\<rparr>"
  have o512: "?o < 512" by simp
  have lq: "length ?q = ?m" using m(3) by simp
  have b: "?o + length ?q \<le> BSIZE" unfolding lq BSIZE_def using m(2) o512 by linarith
  note W = write_piece [OF t(2) cl b]
  have o: "unat (off - off div 512 * 512) = ?o"
  proof -
    have "off - off div 512 * 512 = off mod 512" by (rule minus_div_mult_eq_mod)
    then show ?thesis by (simp add: unat_mod_distrib)
  qed
  have lx: "length (img t ?x) = BSIZE" using t(2) by (simp add: extended_def grows_def clean_def)
  have loop: "iappend_loop p off c s = iappend_loop (drop ?m p) (off + of_nat ?m) c' ?u"
    using p nm t(1) W(1) rsect_eq [OF W(2)] o
    by (subst iappend_loop.simps) (simp add: Let_def call_app andthen_def panic_if_def)
  have byte: "file_byte (img ?u) c' q = img ?u (addr_of (img t) c' (q div BSIZE)) ! (q mod BSIZE)" for q
    by (simp only: file_byte_def W(4))
  have "file_bytes (img ?u) c' 0 (unat off + length ?q) = file_bytes (img s) c 0 (unat off) @ ?q"
  proof (rule file_bytes_snoc)
    fix q assume q: "q < unat off"
    let ?j = "q div BSIZE"
    have jn: "?j \<le> ?n" using q unfolding n BSIZE_def by (intro div_le_mono) simp
    have jk: "?j < ?k"
    proof (cases "?o = 0")
      case True
      have "?j < ?n"
      proof (rule ccontr)
        assume "\<not> ?j < ?n"
        then have "?n * 512 \<le> q" by (metis BSIZE_def div_less_iff_less_mult not_less zero_less_numeral)
        moreover have "unat off = ?n * 512 + ?o" unfolding n by simp
        ultimately show False using q True by linarith
      qed
      then show ?thesis using fblocks_step(2) [OF m(1,2)] unfolding n by simp
    next
      case False
      then show ?thesis using fblocks_step(2) [OF m(1,2)] jn unfolding n by simp
    qed
    have "img ?u (addr_of (img t) c' ?j) ! (q mod BSIZE) = img t (addr_of (img t) c' ?j) ! (q mod BSIZE)"
    proof (cases "?j = ?n")
      case True
      have "q mod BSIZE < ?o"
      proof -
        have "q = ?n * 512 + q mod BSIZE" using True by (metis BSIZE_def div_mult_mod_eq)
        moreover have "unat off = ?n * 512 + ?o" unfolding n by simp
        ultimately show ?thesis using q by linarith
      qed
      then show ?thesis using True W(5) [of ?j] b lx by (simp add: nth_patch)
    next
      case False
      then show ?thesis using W(5) [of ?j] jn by simp
    qed
    then show "file_byte (img ?u) c' q = file_byte (img s) c q"
      using t(3) jk by (simp only: byte) (simp add: file_byte_def)
  next
    fix i assume i: "i < length ?q"
    have r: "?o + i < 512" using i b unfolding BSIZE_def by linarith
    have e: "unat off + i = ?n * 512 + (?o + i)" unfolding n by simp
    have "(unat off + i) div BSIZE = ?n" "(unat off + i) mod BSIZE = ?o + i"
      unfolding e BSIZE_def using r by simp_all
    then show "file_byte (img ?u) c' (unat off + i) = ?q ! i"
    proof -
      have "?o + length ?q \<le> length (img t ?x)" "?o + i < length (img t ?x)" using b r by (simp_all only: lx) (simp add: BSIZE_def)
      from nth_patch [OF this] have "patch ?o ?q (img t ?x) ! (?o + i) = ?q ! i" using i by simp
      then show ?thesis using W(5) [of ?n] \<open>(unat off + i) div BSIZE = ?n\<close> \<open>(unat off + i) mod BSIZE = ?o + i\<close>
        by (simp only: byte) simp
    qed
  qed
  then show thesis using that [OF loop] W(3) unfolding k' lq by blast
qed

lemma fblocks_mono: "a \<le> b \<Longrightarrow> fblocks a \<le> fblocks b"
  unfolding fblocks_def by (intro div_le_mono) simp

lemma fblocks_enough: "q < n \<Longrightarrow> q div BSIZE < fblocks n"
proof -
  assume "q < n"
  moreover have "n \<le> fblocks n * 512"
    using div_mult_mod_eq [of "n + 511" 512] mod_less_divisor [of 512 "n + 511"] unfolding fblocks_def by linarith
  ultimately have "q < fblocks n * 512" by linarith
  then show ?thesis unfolding BSIZE_def by (rule less_mult_imp_div_less)
qed

lemma iappend_loop_ok:
  "mk_file (img s) (freeblock s) c (fblocks (unat off)) \<Longrightarrow> clean s \<Longrightarrow> unat off + length p \<le> MAXFILE * 512 \<Longrightarrow>
   unat (freeblock s) + need (fblocks (unat off)) (fblocks (unat off + length p)) \<le> 1024 \<Longrightarrow>
   \<exists>off' c' t. iappend_loop p off c s = Ret (off', c') t \<and> unat off' = unat off + length p
     \<and> extended s c (fblocks (unat off)) t c' (fblocks (unat off + length p))
     \<and> file_bytes (img t) c' 0 (unat off + length p) = file_bytes (img s) c 0 (unat off) @ p"
proof (induction "length p" arbitrary: p off c s rule: less_induct)
  case less
  note mk = less.prems(1) and cl = less.prems(2) and sz = less.prems(3) and sp = less.prems(4)
  show ?case
  proof (cases "p = []")
    case True
    then show ?thesis using extended_refl [OF mk cl] by (simp add: iappend_loop.simps)
  next
    case False
    let ?m = "piece off (length p)"
    have m: "0 < ?m" "?m \<le> length p" using False piece_pos [of "length p" off] by (simp_all add: piece_def)
    obtain c' u where u: "iappend_loop p off c s = iappend_loop (drop ?m p) (off + of_nat ?m) c' u"
      "extended s c (fblocks (unat off)) u c' (fblocks (unat off + ?m))"
      "file_bytes (img u) c' 0 (unat off + ?m) = file_bytes (img s) c 0 (unat off) @ take ?m p"
      by (rule iappend_pass [OF mk cl False sz sp])
    have off: "unat (off + of_nat ?m) = unat off + ?m"
    proof -
      have b: "unat off + ?m < 2 ^ 32" using sz m(2) by (simp add: MAXFILE_def NDIRECT_def NINDIRECT_def)
      then have "unat (of_nat ?m :: u32) = ?m" by (intro unat_of_nat32) simp
      then show ?thesis using b by (subst unat_add_lem [THEN iffD1]) simp_all
    qed
    have tot: "unat off + ?m + length (drop ?m p) = unat off + length p" using m(2) by simp
    have le: "fblocks (unat off) \<le> fblocks (unat off + ?m)" "fblocks (unat off + ?m) \<le> fblocks (unat off + length p)"
      by (rule fblocks_mono, use m(2) in simp)+
    have U: "mk_file (img u) (freeblock u) c' (fblocks (unat off + ?m))" "clean u"
      "unat (freeblock u) = unat (freeblock s) + need (fblocks (unat off)) (fblocks (unat off + ?m))"
      using u(2) by (simp_all add: extended_def grows_def)
    have "length (drop ?m p) < length p" using m by simp
    moreover have "unat (freeblock u) + need (fblocks (unat off + ?m)) (fblocks (unat off + length p)) \<le> 1024"
      using U(3) sp need_add [OF le] by linarith
    ultimately obtain off' d t where t: "iappend_loop (drop ?m p) (off + of_nat ?m) c' u = Ret (off', d) t"
      "unat off' = unat off + length p"
      "extended u c' (fblocks (unat off + ?m)) t d (fblocks (unat off + length p))"
      "file_bytes (img t) d 0 (unat off + length p) = file_bytes (img u) c' 0 (unat off + ?m) @ drop ?m p"
      using less.hyps [of "drop ?m p" u c' "off + of_nat ?m", unfolded off tot] U(1,2) sz by blast
    have "extended s c (fblocks (unat off)) t d (fblocks (unat off + length p))"
      by (rule extended_trans [OF u(2) t(3) le])
    then show ?thesis using u(1,3) t(1,2,4) by (intro exI [of _ off'] exI [of _ d] exI [of _ t]) simp
  qed
qed

lemma mk_file_cong:
  assumes "mk_file V fb c k" "d_addrs c' = d_addrs c" "\<forall>y \<in> owned V c k. V' y = V y" "fb \<le> fb'"
  shows "mk_file V' fb' c' k" "owned V' c' k = owned V c k" "n \<le> k * 512 \<Longrightarrow> file_bytes V' c' 0 n = file_bytes V c 0 n"
proof -
  have a: "addr_of V' c' j = addr_of V c j" if "j < k \<or> NDIRECT < k" for j
  proof (rule addr_of_cong [OF assms(2)])
    assume "NDIRECT \<le> j"
    then have "NDIRECT < k" using that by auto
    then show "V' (d_addrs c ! NDIRECT) = V (d_addrs c ! NDIRECT)" using assms(3) by (simp add: owned_def)
  qed
  have im: "addr_of V' c' ` {..< k} = addr_of V c ` {..< k}" by (rule image_cong [OF refl]) (use a in simp)
  show o: "owned V' c' k = owned V c k" unfolding owned_def im assms(2) ..
  have inj: "inj_on (addr_of V' c') {..< k} = inj_on (addr_of V c) {..< k}"
    by (rule inj_on_cong) (use a in simp)
  show "mk_file V' fb' c' k"
    using assms(1,4) a unfolding mk_file_def o im inj assms(2) by (auto split: if_splits)
  assume n: "n \<le> k * 512"
  show "file_bytes V' c' 0 n = file_bytes V c 0 n"
  proof (rule nth_equalityI)
    fix q assume "q < length (file_bytes V' c' 0 n)"
    then have q: "q < n" by simp
    then have "q < k * 512" using n by linarith
    then have j: "q div BSIZE < k" unfolding BSIZE_def by (rule less_mult_imp_div_less)
    then have "addr_of V c (q div BSIZE) \<in> owned V c k" by (simp add: owned_def)
    then have "file_byte V' c' q = file_byte V c q" using a assms(3) j by (simp add: file_byte_def)
    then show "file_bytes V' c' 0 n ! q = file_bytes V c 0 n ! q" using q by (simp add: nth_file_bytes)
  qed simp
qed

section \<open>Images\<close>

text \<open>The inode \<open>i\<close> of an image, its number of blocks, and its contents.\<close>

definition nblk :: "mk \<Rightarrow> u32 \<Rightarrow> nat" where
  "nblk s i = fblocks (unat (d_size (dinode_at (img s) i)))"

definition blocks_of :: "mk \<Rightarrow> u32 \<Rightarrow> u32 set" where
  "blocks_of s i = owned (img s) (dinode_at (img s) i) (nblk s i)"

definition contents :: "mk \<Rightarrow> u32 \<Rightarrow> u8 list" where
  "contents s i = file_bytes (img s) (dinode_at (img s) i) 0 (unat (d_size (dinode_at (img s) i)))"

text \<open>Every inode given out maps its blocks, and no block belongs to two.\<close>

definition mk_ok :: "mk \<Rightarrow> bool" where
  "mk_ok s \<longleftrightarrow> clean s \<and> 1 \<le> freeinode s \<and> freeinode s \<le> ninodes
     \<and> (\<forall>i. 1 \<le> i \<and> i < freeinode s \<longrightarrow> mk_file (img s) (freeblock s) (dinode_at (img s) i) (nblk s i))
     \<and> (\<forall>i j. 1 \<le> i \<and> i < freeinode s \<and> 1 \<le> j \<and> j < freeinode s \<and> i \<noteq> j \<longrightarrow> blocks_of s i \<inter> blocks_of s j = {})"

lemma IBLOCK_low: "i < ninodes \<Longrightarrow> IBLOCK i < 29 \<and> IBLOCK i < 1024"
proof -
  assume "i < ninodes"
  then have "unat i < 200" by (simp add: ninodes_def word_less_nat_alt)
  then have "unat (i div 8) < 25" by (simp add: unat_div_distrib)
  then have "unat (i div 8 + 2) < 29" by (subst unat_add_lem [THEN iffD1]) simp_all
  then show ?thesis by (simp add: IBLOCK_def IPB_def word_less_nat_alt)
qed

lemma rinode_eq: "i < ninodes \<Longrightarrow> clean s \<Longrightarrow> rinode i s = Ret (dinode_at (img s) i) s"
  using IBLOCK_low [of i] rsect_eq [of "IBLOCK i" s]
  by (simp add: rinode_def i2b_def IBLOCK_def call_app clean_def dinode_at_def dinode_off_def IPB_def)

lemma winode_eq:
  assumes "i < ninodes" "clean s"
  shows "winode i c s = Ret () (s\<lparr>img := (img s)(IBLOCK i := patch (dinode_off i) (enc_dinode c) (img s (IBLOCK i)))\<rparr>)"
proof -
  have "IBLOCK i < nsect s" using IBLOCK_low [OF assms(1)] assms(2) by (simp add: clean_def)
  moreover have "max (nsect s) (IBLOCK i + 1) = nsect s" using inc_le [OF calculation] by (simp add: max_def)
  ultimately show ?thesis
    using rsect_eq [of "IBLOCK i" s] by (simp add: winode_def i2b_def IBLOCK_def call_app wsect_def modify_def dinode_off_def IPB_def)
qed

lemma mk_okD:
  assumes "mk_ok s"
  shows "clean s" "1 \<le> freeinode s" "freeinode s \<le> ninodes"
    "1 \<le> i \<Longrightarrow> i < freeinode s \<Longrightarrow> mk_file (img s) (freeblock s) (dinode_at (img s) i) (nblk s i)"
    "1 \<le> i \<Longrightarrow> i < freeinode s \<Longrightarrow> 1 \<le> j \<Longrightarrow> j < freeinode s \<Longrightarrow> i \<noteq> j \<Longrightarrow> blocks_of s i \<inter> blocks_of s j = {}"
  using assms by (simp_all add: mk_ok_def)

lemma mk_okI:
  assumes "clean s" "1 \<le> freeinode s" "freeinode s \<le> ninodes"
    and "\<And>i. 1 \<le> i \<Longrightarrow> i < freeinode s \<Longrightarrow> mk_file (img s) (freeblock s) (dinode_at (img s) i) (nblk s i)"
    and "\<And>i j. 1 \<le> i \<Longrightarrow> i < freeinode s \<Longrightarrow> 1 \<le> j \<Longrightarrow> j < freeinode s \<Longrightarrow> i \<noteq> j \<Longrightarrow> blocks_of s i \<inter> blocks_of s j = {}"
  shows "mk_ok s"
  using assms by (simp add: mk_ok_def)

lemma blocks_of_range: "mk_ok s \<Longrightarrow> 1 \<le> i \<Longrightarrow> i < freeinode s \<Longrightarrow> y \<in> blocks_of s i \<Longrightarrow> 29 \<le> y \<and> y < freeblock s"
  using mk_okD(4) [of s i] by (auto simp: mk_file_def blocks_of_def)

text \<open>A change that leaves the inode of a file and its blocks alone leaves the file alone.\<close>

lemma unchanged_file:
  assumes s: "mk_ok s" "1 \<le> j" "j < freeinode s" and d: "dinode_at (img u) j = dinode_at (img s) j"
    and v: "\<forall>y \<in> blocks_of s j. img u y = img s y" and fb: "freeblock s \<le> freeblock u"
  shows "mk_file (img u) (freeblock u) (dinode_at (img u) j) (nblk u j)" "blocks_of u j = blocks_of s j"
    "contents u j = contents s j"
proof -
  have n: "nblk u j = nblk s j" by (simp add: nblk_def d)
  note c = mk_file_cong [OF mk_okD(4) [OF s] refl v [unfolded blocks_of_def] fb]
  show "mk_file (img u) (freeblock u) (dinode_at (img u) j) (nblk u j)" unfolding d n by (rule c(1))
  show "blocks_of u j = blocks_of s j" unfolding blocks_of_def d n by (rule c(2))
  have "x \<le> fblocks x * 512" for x
    using div_mult_mod_eq [of "x + 511" 512] mod_less_divisor [of 512 "x + 511"] unfolding fblocks_def by linarith
  then show "contents u j = contents s j" unfolding contents_def d by (intro c(3)) (simp add: nblk_def)
qed

lemma iappend_ok:
  assumes s: "mk_ok s" and i: "1 \<le> i" "i < freeinode s"
    and sz: "unat (d_size (dinode_at (img s) i)) + length p \<le> MAXFILE * 512"
    and sp: "unat (freeblock s) + need (nblk s i) (fblocks (unat (d_size (dinode_at (img s) i)) + length p)) \<le> 1024"
  obtains u where "iappend i p s = Ret () u" "mk_ok u" "freeinode u = freeinode s" "contents u i = contents s i @ p"
    "\<forall>j. 1 \<le> j \<and> j < freeinode s \<and> j \<noteq> i \<longrightarrow> contents u j = contents s j \<and> dinode_at (img u) j = dinode_at (img s) j"
    "unat (d_size (dinode_at (img u) i)) = unat (d_size (dinode_at (img s) i)) + length p"
    "unat (freeblock u) = unat (freeblock s) + need (nblk s i) (nblk u i)"
    "d_type (dinode_at (img u) i) = d_type (dinode_at (img s) i)" "img u 1 = img s 1"
proof -
  let ?c = "dinode_at (img s) i"
  let ?off = "d_size ?c"
  have iN: "i < ninodes" using i(2) mk_okD(3) [OF s] by simp
  note cl = mk_okD(1) [OF s] and mk = mk_okD(4) [OF s i]
  obtain off' c' t where t: "iappend_loop p ?off ?c s = Ret (off', c') t" "unat off' = unat ?off + length p"
    "extended s ?c (nblk s i) t c' (fblocks (unat ?off + length p))"
    "file_bytes (img t) c' 0 (unat ?off + length p) = file_bytes (img s) ?c 0 (unat ?off) @ p"
    using iappend_loop_ok [of s ?c ?off p] mk cl sz sp unfolding nblk_def by blast
  let ?k = "fblocks (unat ?off + length p)"
  have e: "mk_file (img t) (freeblock t) c' ?k" "c' = ?c\<lparr>d_addrs := d_addrs c'\<rparr>" "clean t"
    "unat (freeblock t) = unat (freeblock s) + need (nblk s i) ?k" "freeinode t = freeinode s"
    "\<forall>y < freeblock s. y \<notin> blocks_of s i \<longrightarrow> img t y = img s y"
    "owned (img t) c' ?k \<subseteq> blocks_of s i \<union> {y. freeblock s \<le> y}"
    using t(3) by (simp_all add: extended_def grows_def blocks_of_def)
  have fb: "freeblock s \<le> freeblock t" using e(4) by (simp add: word_le_nat_alt)
  let ?d = "c'\<lparr>d_size := off'\<rparr>"
  let ?u = "t\<lparr>img := (img t)(IBLOCK i := patch (dinode_off i) (enc_dinode ?d) (img t (IBLOCK i)))\<rparr>"
  have run: "iappend i p s = Ret () ?u"
    by (simp add: iappend_def call_app rinode_eq [OF iN cl] t(1) winode_eq [OF iN e(3)])
  have fs29: "29 \<le> freeblock s" using cl by (simp add: clean_def)
  have low: "img t y = img s y" if "y < 29" for y
  proof -
    have "y < freeblock s" using that fs29 by simp
    moreover have "y \<notin> blocks_of s i" using blocks_of_range [OF s i, of y] that by auto
    ultimately show ?thesis using e(6) by blast
  qed
  have ld: "length (d_addrs ?d) = NDIRECT + 1" "length (img t (IBLOCK i)) = BSIZE"
    using e(1,3) by (simp_all add: mk_file_def clean_def)
  note P = dinode_at_patch [of "img t" i ?d, OF ld(2,1)]
  have di: "dinode_at (img ?u) i = ?d" using P(1) by simp
  have dj: "dinode_at (img ?u) j = dinode_at (img s) j" if "j < ninodes" "j \<noteq> i" for j
  proof -
    have "dinode_at (img ?u) j = dinode_at (img t) j" using P(2) [OF that(2)] by simp
    moreover have "img t (IBLOCK j) = img s (IBLOCK j)" using IBLOCK_low [OF that(1)] by (intro low) simp
    ultimately show ?thesis by (simp add: dinode_at_def)
  qed
  have ni: "nblk ?u i = ?k" by (simp only: nblk_def di) (simp add: t(2))
  have same: "\<forall>y \<in> owned (img t) c' ?k. img ?u y = img t y"
  proof
    fix y assume "y \<in> owned (img t) c' ?k"
    then have "29 \<le> y" using e(1) by (simp add: mk_file_def)
    then have "y \<noteq> IBLOCK i" using IBLOCK_low [OF iN] by auto
    then show "img ?u y = img t y" by simp
  qed
  have da: "d_addrs ?d = d_addrs c'" and fu: "freeblock t \<le> freeblock ?u" by simp_all
  note C = mk_file_cong [OF e(1) da same fu]
  have file_i: "mk_file (img ?u) (freeblock ?u) (dinode_at (img ?u) i) (nblk ?u i)"
    unfolding di ni by (rule C(1))
  have own_i: "blocks_of ?u i = owned (img t) c' ?k"
    unfolding blocks_of_def di ni by (rule C(2))
  have "unat ?off + length p \<le> ?k * 512"
    using div_mult_mod_eq [of "unat ?off + length p + 511" 512] mod_less_divisor [of 512 "unat ?off + length p + 511"]
    unfolding fblocks_def by linarith
  from C(3) [OF this] have con_i: "contents ?u i = contents s i @ p"
    using t(2,4) unfolding contents_def di by (simp del: fun_upd_apply)
  have file_j: "mk_file (img ?u) (freeblock ?u) (dinode_at (img ?u) j) (nblk ?u j)" "blocks_of ?u j = blocks_of s j"
    "contents ?u j = contents s j" if j: "1 \<le> j" "j < freeinode s" "j \<noteq> i" for j
  proof -
    have jN: "j < ninodes" using j(2) mk_okD(3) [OF s] by simp
    have v: "\<forall>y \<in> blocks_of s j. img ?u y = img s y"
    proof
      fix y assume y: "y \<in> blocks_of s j"
      note r = blocks_of_range [OF s j(1,2) y]
      have "y \<notin> blocks_of s i" using mk_okD(5) [OF s j(1,2) i j(3)] y by blast
      then have "img t y = img s y" using e(6) r by blast
      moreover have "y \<noteq> IBLOCK i" using IBLOCK_low [OF iN] r by auto
      ultimately show "img ?u y = img s y" by simp
    qed
    have "freeblock s \<le> freeblock ?u" using fb by simp
    from unchanged_file [OF s j(1,2) dj [OF jN j(3)] v this]
    show "mk_file (img ?u) (freeblock ?u) (dinode_at (img ?u) j) (nblk ?u j)" "blocks_of ?u j = blocks_of s j"
      "contents ?u j = contents s j" .
  qed
  have apart: "blocks_of ?u i \<inter> blocks_of ?u j = {}" if j: "1 \<le> j" "j < freeinode s" "j \<noteq> i" for j
  proof -
    have "blocks_of s i \<inter> blocks_of s j = {}" using mk_okD(5) [OF s i j(1,2)] j(3) by blast
    moreover have "\<forall>y \<in> blocks_of s j. y < freeblock s" using blocks_of_range [OF s j(1,2)] by blast
    ultimately show ?thesis unfolding file_j(2) [OF j] own_i using e(7) by fastforce
  qed
  have "clean ?u" using e(3) ld(2) dinode_off_bound [of i] dinode_codec(1) [OF ld(1)] fs29 fb IBLOCK_low [OF iN]
    by (auto simp: clean_def)
  then have ok: "mk_ok ?u"
    using mk_okD(2,3) [OF s] file_i file_j(1,2) apart mk_okD(5) [OF s]
    unfolding mk_ok_def by (simp add: e(5)) (metis inf_commute)
  have "IBLOCK i \<noteq> 1"
  proof -
    have "unat (i div 8) < 25" using iN by (simp add: unat_div_distrib ninodes_def word_less_nat_alt)
    then have "unat (i div 8 + 2) = unat (i div 8) + 2" by (subst unat_add_lem [THEN iffD1]) simp_all
    then have "unat (IBLOCK i) \<noteq> unat (1 :: u32)" unfolding IBLOCK_def IPB_def by simp
    then show ?thesis by metis
  qed
  then have "img ?u 1 = img s 1" using low [of 1] by simp
  moreover have "d_type c' = d_type ?c" using e(2) by (metis dinode.select_convs(1) dinode.surjective dinode.update_convs(6))
  then have "d_type (dinode_at (img ?u) i) = d_type ?c" unfolding di by simp
  moreover have "unat (d_size (dinode_at (img ?u) i)) = unat ?off + length p" unfolding di using t(2) by simp
  ultimately show thesis
    using that [OF run ok _ con_i] e(4,5) file_j(3) dj mk_okD(3) [OF s] unfolding ni by fastforce
qed

section \<open>The whole image\<close>

abbreviation fsize :: "mk \<Rightarrow> u32 \<Rightarrow> nat" where
  "fsize s i \<equiv> unat (d_size (dinode_at (img s) i))"

text \<open>The outcome of appending \<open>p\<close> to the file \<open>i\<close>.\<close>

definition appended :: "mk \<Rightarrow> u32 \<Rightarrow> u8 list \<Rightarrow> mk \<Rightarrow> bool" where
  "appended s i p u \<longleftrightarrow> mk_ok u \<and> freeinode u = freeinode s \<and> contents u i = contents s i @ p
     \<and> (\<forall>j. 1 \<le> j \<and> j < freeinode s \<and> j \<noteq> i \<longrightarrow> contents u j = contents s j \<and> dinode_at (img u) j = dinode_at (img s) j)
     \<and> fsize u i = fsize s i + length p
     \<and> unat (freeblock u) = unat (freeblock s) + need (nblk s i) (nblk u i)
     \<and> d_type (dinode_at (img u) i) = d_type (dinode_at (img s) i) \<and> img u 1 = img s 1"

lemma need_same [simp]: "need a a = 0"
  by (simp add: need_def)

lemma appended_refl: "mk_ok s \<Longrightarrow> appended s i [] s"
  by (simp add: appended_def)

lemma appended_nblk: "appended s i p u \<Longrightarrow> nblk u i = fblocks (fsize s i + length p) \<and> nblk s i \<le> nblk u i"
  by (simp add: appended_def nblk_def fblocks_mono)

lemma appended_trans:
  assumes "appended s i p t" "appended t i q u"
  shows "appended s i (p @ q) u"
proof -
  have "nblk s i \<le> nblk t i" "nblk t i \<le> nblk u i"
    using appended_nblk [OF assms(1)] appended_nblk [OF assms(2)] by blast+
  from need_add [OF this] show ?thesis using assms by (simp add: appended_def)
qed

lemma iappend_appended:
  assumes "mk_ok s" "1 \<le> i" "i < freeinode s" "fsize s i + length p \<le> MAXFILE * 512"
    and "unat (freeblock s) + need (nblk s i) (fblocks (fsize s i + length p)) \<le> 1024"
  shows "\<exists>u. iappend i p s = Ret () u \<and> appended s i p u"
proof -
  obtain u where "iappend i p s = Ret () u" "mk_ok u" "freeinode u = freeinode s" "contents u i = contents s i @ p"
    "\<forall>j. 1 \<le> j \<and> j < freeinode s \<and> j \<noteq> i \<longrightarrow> contents u j = contents s j \<and> dinode_at (img u) j = dinode_at (img s) j"
    "fsize u i = fsize s i + length p" "unat (freeblock u) = unat (freeblock s) + need (nblk s i) (nblk u i)"
    "d_type (dinode_at (img u) i) = d_type (dinode_at (img s) i)" "img u 1 = img s 1"
    by (rule iappend_ok [OF assms])
  then show ?thesis unfolding appended_def by blast
qed

text \<open>The bytes of an input file: its reads up to the one that returns nothing.\<close>

definition file_data :: "u8 list list \<Rightarrow> u8 list" where
  "file_data rs = concat (takeWhile (\<lambda>bs. bs \<noteq> []) rs)"

lemma file_data_simps [simp]:
  "file_data [] = []" "file_data (bs # rs) = (if bs = [] then [] else bs @ file_data rs)"
  by (simp_all add: file_data_def)

lemma copy_file_ok:
  assumes "mk_ok s" "1 \<le> i" "i < freeinode s" "fsize s i + length (file_data rs) \<le> MAXFILE * 512"
    and "unat (freeblock s) + need (nblk s i) (fblocks (fsize s i + length (file_data rs))) \<le> 1024"
  shows "\<exists>u. copy_file i rs s = Ret () u \<and> appended s i (file_data rs) u"
  using assms
proof (induction rs arbitrary: s)
  case Nil
  then show ?case by (simp add: appended_refl)
next
  case (Cons bs rs)
  show ?case
  proof (cases "bs = []")
    case True
    then show ?thesis using Cons.prems by (simp add: appended_refl)
  next
    case False
    let ?d = "file_data rs" and ?n = "fsize s i"
    have d: "file_data (bs # rs) = bs @ ?d" using False by simp
    have le: "nblk s i \<le> fblocks (?n + length bs)" "fblocks (?n + length bs) \<le> fblocks (?n + length (bs @ ?d))"
      unfolding nblk_def by (rule fblocks_mono, simp)+
    note A = need_add [OF le]
    have "?n + length bs \<le> MAXFILE * 512" using Cons.prems(4) unfolding d by simp
    moreover have "unat (freeblock s) + need (nblk s i) (fblocks (?n + length bs)) \<le> 1024"
      using Cons.prems(5) A unfolding d by linarith
    ultimately obtain t where t: "iappend i bs s = Ret () t" "appended s i bs t"
      using iappend_appended [OF Cons.prems(1-3)] by blast
    have T: "mk_ok t" "freeinode t = freeinode s" "fsize t i = ?n + length bs"
      "unat (freeblock t) = unat (freeblock s) + need (nblk s i) (nblk t i)"
      using t(2) by (simp_all add: appended_def)
    have nt: "nblk t i = fblocks (?n + length bs)" using appended_nblk [OF t(2)] by blast
    have "fsize t i + length ?d = ?n + length (bs @ ?d)" using T(3) by simp
    moreover have "unat (freeblock t) + need (nblk t i) (fblocks (?n + length (bs @ ?d))) \<le> 1024"
      using T(4) Cons.prems(5) A unfolding d nt by linarith
    ultimately obtain u where "copy_file i rs t = Ret () u" "appended t i ?d u"
      using Cons.IH [OF T(1) Cons.prems(2)] Cons.prems(3,4) T(2) unfolding d by metis
    then show ?thesis using appended_trans [OF t(2)] t(1) False by (auto simp: andthen_def call_app)
  qed
qed

text \<open>A new inode is an empty file.\<close>

lemma mk_ialloc_ok:
  assumes s: "mk_ok s" "freeinode s < ninodes"
  shows "\<exists>u. mk_ialloc ty s = Ret (freeinode s) u \<and> mk_ok u \<and> freeinode u = freeinode s + 1
    \<and> freeinode s < freeinode u \<and> contents u (freeinode s) = [] \<and> fsize u (freeinode s) = 0
    \<and> d_type (dinode_at (img u) (freeinode s)) = ty
    \<and> (\<forall>j. 1 \<le> j \<and> j < freeinode s \<longrightarrow> contents u j = contents s j \<and> dinode_at (img u) j = dinode_at (img s) j)
    \<and> freeblock u = freeblock s \<and> img u 1 = img s 1"
proof -
  let ?i = "freeinode s"
  let ?d = "dinode0\<lparr>d_type := ty, d_nlink := 1, d_size := 0\<rparr>"
  let ?s = "s\<lparr>freeinode := ?i + 1\<rparr>"
  let ?u = "?s\<lparr>img := (img s)(IBLOCK ?i := patch (dinode_off ?i) (enc_dinode ?d) (img s (IBLOCK ?i)))\<rparr>"
  note cl = mk_okD(1) [OF s(1)] and lowi = IBLOCK_low [OF s(2)]
  have fs29: "29 \<le> freeblock s" using cl by (simp add: clean_def)
  have "clean ?s" using cl by (simp add: clean_def)
  from winode_eq [OF s(2) this, of ?d] have run: "mk_ialloc ty s = Ret ?i ?u"
    by (simp add: mk_ialloc_def kern_defs)
  have ld: "length (d_addrs ?d) = NDIRECT + 1" "length (img s (IBLOCK ?i)) = BSIZE"
    using cl by (simp_all add: dinode0_def clean_def)
  note P = dinode_at_patch [of "img s" ?i ?d, OF ld(2,1)]
  have di: "dinode_at (img ?u) ?i = ?d" using P(1) by simp
  have dj: "dinode_at (img ?u) j = dinode_at (img s) j" if "j \<noteq> ?i" for j using P(2) [OF that] by simp
  have ni: "nblk ?u ?i = 0" unfolding nblk_def di by (simp add: fblocks_def)
  have oi: "blocks_of ?u ?i = {}" unfolding blocks_of_def di ni by (simp add: owned_def)
  have fi: "mk_file (img ?u) (freeblock ?u) (dinode_at (img ?u) ?i) (nblk ?u ?i)"
    unfolding di ni by (simp add: mk_file_def owned_def dinode0_def del: replicate.simps)
  have nx: "unat (?i + 1) = unat ?i + 1"
    using s(2) by (subst unat_add_lem [THEN iffD1]) (simp_all add: ninodes_def word_less_nat_alt)
  have range: "j < ?i + 1 \<longleftrightarrow> j < ?i \<or> j = ?i" for j
  proof -
    have "j = ?i \<longleftrightarrow> unat j = unat ?i" by (rule word_eq_iff_unsigned)
    then show ?thesis using nx by (simp add: word_less_nat_alt less_Suc_eq)
  qed
  have fj: "mk_file (img ?u) (freeblock ?u) (dinode_at (img ?u) j) (nblk ?u j)" "blocks_of ?u j = blocks_of s j"
    "contents ?u j = contents s j" if j: "1 \<le> j" "j < ?i" for j
  proof -
    have v: "\<forall>y \<in> blocks_of s j. img ?u y = img s y"
    proof
      fix y assume "y \<in> blocks_of s j"
      then have "29 \<le> y" using blocks_of_range [OF s(1) j] by blast
      then have "y \<noteq> IBLOCK ?i" using lowi by auto
      then show "img ?u y = img s y" by simp
    qed
    have "j \<noteq> ?i" using j(2) by simp
    from unchanged_file [OF s(1) j dj [OF this] v] show
      "mk_file (img ?u) (freeblock ?u) (dinode_at (img ?u) j) (nblk ?u j)" "blocks_of ?u j = blocks_of s j"
      "contents ?u j = contents s j" by simp_all
  qed
  have fr: "freeinode ?u = ?i + 1" by simp
  have "clean ?u"
    using cl ld(2) dinode_off_bound [of ?i] dinode_codec(1) [OF ld(1)] fs29 lowi by (auto simp: clean_def)
  then have ok: "mk_ok ?u"
  proof (rule mk_okI)
    show "freeinode ?u \<le> ninodes" using inc_le [OF s(2)] by simp
    show "1 \<le> freeinode ?u" using mk_okD(2) [OF s(1)] nx by (simp add: word_le_nat_alt)
    show "mk_file (img ?u) (freeblock ?u) (dinode_at (img ?u) j) (nblk ?u j)" if "1 \<le> j" "j < freeinode ?u" for j
  proof (cases "j = ?i")
    case True
    show ?thesis unfolding True by (rule fi)
  next
    case False
    then have "j < ?i" using that(2) range [of j] unfolding fr by blast
    then show ?thesis by (rule fj(1) [OF that(1)])
  qed
    show "blocks_of ?u j \<inter> blocks_of ?u k = {}"
    if "1 \<le> j" "j < freeinode ?u" "1 \<le> k" "k < freeinode ?u" "j \<noteq> k" for j k
  proof (cases "j = ?i \<or> k = ?i")
    case True
    then show ?thesis using oi by blast
  next
    case False
    then have "j < ?i" "k < ?i" using that(2,4) range [of j] range [of k] unfolding fr by blast+
    then show ?thesis using fj(2) mk_okD(5) [OF s(1) that(1) _ that(3) _ that(5)] that(1,3) by metis
  qed
  qed
  have "unat (?i div 8) < 25" using s(2) by (simp add: unat_div_distrib ninodes_def word_less_nat_alt)
  then have "unat (?i div 8 + 2) = unat (?i div 8) + 2" by (subst unat_add_lem [THEN iffD1]) simp_all
  then have "unat (IBLOCK ?i) \<noteq> unat (1 :: u32)" unfolding IBLOCK_def IPB_def by simp
  then have "IBLOCK ?i \<noteq> 1" by metis
  then have "img ?u 1 = img s 1" by simp
  moreover have "contents ?u ?i = []" unfolding contents_def di by (simp add: file_bytes_def)
  moreover have "fsize ?u ?i = 0" "d_type (dinode_at (img ?u) ?i) = ty" unfolding di by simp_all
  moreover have "?i < ?i + 1" using nx by (simp add: word_less_nat_alt)
  ultimately show ?thesis using run ok fj(3) dj by (intro exI [of _ ?u]) auto
qed

text \<open>The directory entries of the files, from inode \<open>n\<close> on.\<close>

definition entry_of :: "u32 \<Rightarrow> u8 list \<Rightarrow> u8 list" where
  "entry_of n name = mk_entry n (the (strncpy (replicate DIRSIZ 0) (plain_name name) DIRSIZ))"

fun entries_of :: "u32 \<Rightarrow> (u8 list \<times> u8 list list) list \<Rightarrow> u8 list" where
  "entries_of n [] = []"
| "entries_of n (a # as) = entry_of n (fst a) @ entries_of (n + 1) as"

definition good_arg :: "u8 list \<times> u8 list list \<Rightarrow> bool" where
  "good_arg a \<longleftrightarrow> 47 \<notin> set (fst a) \<and> enough DIRSIZ (plain_name (fst a)) \<and> length (file_data (snd a)) \<le> MAXFILE * 512"

definition data_need :: "u8 list \<times> u8 list list \<Rightarrow> nat" where
  "data_need a = need 0 (fblocks (length (file_data (snd a))))"

lemma length_mk_entry: "length nm = DIRSIZ \<Longrightarrow> length (mk_entry n nm) = 16"
  by (simp add: mk_entry_def enc_dirent_def DIRSIZ_def)

lemma add_file_ok:
  assumes s: "mk_ok s" "1 < freeinode s" "freeinode s < ninodes" and a: "good_arg a"
    and sz: "fsize s 1 + 16 \<le> MAXFILE * 512"
    and sp: "unat (freeblock s) + need (nblk s 1) (fblocks (fsize s 1 + 16)) + data_need a \<le> 1024"
  shows "\<exists>u. add_file 1 a s = Ret () u \<and> mk_ok u \<and> freeinode u = freeinode s + 1
    \<and> contents u (freeinode s) = file_data (snd a) \<and> contents u 1 = contents s 1 @ entry_of (freeinode s) (fst a)
    \<and> fsize u 1 = fsize s 1 + 16 \<and> (\<forall>j. 1 < j \<and> j < freeinode s \<longrightarrow> contents u j = contents s j)
    \<and> unat (freeblock u) = unat (freeblock s) + need (nblk s 1) (nblk u 1) + data_need a \<and> img u 1 = img s 1"
proof -
  let ?n = "freeinode s" and ?d = "file_data (snd a)" and ?e = "entry_of (freeinode s) (fst a)"
  obtain r where r: "strncpy (replicate DIRSIZ 0) (plain_name (fst a)) DIRSIZ = Some r" "length r = DIRSIZ"
    using strncpy_copies [of DIRSIZ "replicate DIRSIZ 0" "plain_name (fst a)"] a by (auto simp: good_arg_def)
  have e: "?e = mk_entry ?n r" "length ?e = 16" using r by (simp_all add: entry_of_def length_mk_entry)
  obtain x where x: "mk_ialloc T_FILE s = Ret ?n x" "mk_ok x" "freeinode x = ?n + 1" "?n < freeinode x"
    "contents x ?n = []" "fsize x ?n = 0"
    "\<forall>j. 1 \<le> j \<and> j < ?n \<longrightarrow> contents x j = contents s j \<and> dinode_at (img x) j = dinode_at (img s) j"
    "freeblock x = freeblock s" "img x 1 = img s 1"
    using mk_ialloc_ok [OF s(1,3), of T_FILE] by blast
  have one: "contents x 1 = contents s 1" "dinode_at (img x) 1 = dinode_at (img s) 1" using x(7) s(2) by simp_all
  then have n1: "nblk x 1 = nblk s 1" by (simp add: nblk_def)
  have "1 < freeinode x" using s(2) x(4) by simp
  moreover have "fsize x 1 + length ?e \<le> MAXFILE * 512" using sz one(2) e(2) by simp
  moreover have "unat (freeblock x) + need (nblk x 1) (fblocks (fsize x 1 + length ?e)) \<le> 1024"
    using sp unfolding n1 one(2) e(2) x(8) by simp
  ultimately obtain y where y: "iappend 1 ?e x = Ret () y" "appended x 1 ?e y"
    using iappend_appended [OF x(2), of 1 ?e] by auto
  have Y: "mk_ok y" "freeinode y = ?n + 1" "contents y 1 = contents s 1 @ ?e" "fsize y 1 = fsize s 1 + 16"
    "\<forall>j. 1 \<le> j \<and> j < freeinode x \<and> j \<noteq> 1 \<longrightarrow> contents y j = contents x j \<and> dinode_at (img y) j = dinode_at (img x) j"
    "unat (freeblock y) = unat (freeblock s) + need (nblk s 1) (nblk y 1)" "img y 1 = img s 1"
    using y(2) x(3,8,9) one n1 e(2) by (simp_all add: appended_def)
  have ny: "nblk y 1 = fblocks (fsize s 1 + 16)" by (simp add: nblk_def Y(4))
  have n: "1 \<le> ?n" "?n \<noteq> 1" "?n < freeinode y" using s(2) x(3,4) Y(2) by auto
  have yn: "contents y ?n = []" "fsize y ?n = 0" "nblk y ?n = 0"
    using Y(5) n x(4,5,6) by (simp_all add: nblk_def fblocks_def)
  have "fsize y ?n + length ?d \<le> MAXFILE * 512" using a yn(2) by (simp add: good_arg_def)
  moreover have "unat (freeblock y) + need (nblk y ?n) (fblocks (fsize y ?n + length ?d)) \<le> 1024"
    using sp Y(6) unfolding yn ny data_need_def by simp
  ultimately obtain z where z: "copy_file ?n (snd a) y = Ret () z" "appended y ?n ?d z"
    using copy_file_ok [OF Y(1) n(1,3)] by blast
  have Z: "mk_ok z" "freeinode z = ?n + 1" "contents z ?n = ?d"
    "\<forall>j. 1 \<le> j \<and> j < ?n + 1 \<and> j \<noteq> ?n \<longrightarrow> contents z j = contents y j \<and> dinode_at (img z) j = dinode_at (img y) j"
    "unat (freeblock z) = unat (freeblock y) + need 0 (nblk z ?n)" "img z 1 = img y 1"
    using z(2) Y(2) yn by (simp_all add: appended_def)
  have nz: "nblk z ?n = fblocks (length ?d)" using appended_nblk [OF z(2)] yn(2) by simp
  have z1: "contents z 1 = contents y 1" "dinode_at (img z) 1 = dinode_at (img y) 1"
    using Z(4) n(1,2) Y(2) \<open>1 < freeinode x\<close> x(3) by auto
  have nz1: "nblk z 1 = nblk y 1" by (simp add: nblk_def z1(2))
  have old: "contents z j = contents s j" if "1 < j" "j < ?n" for j
  proof -
    have "j < freeinode x" "j < ?n + 1" "j \<noteq> ?n" "1 \<le> j" "j \<noteq> 1" using that x(3,4) by auto
    then show ?thesis using Z(4) Y(5) x(7) that(2) by metis
  qed
  have "add_file 1 a s = Ret () z"
    using a r(1) x(1) y(1) z(1) unfolding e(1)
    by (simp add: add_file_def good_arg_def defined_def andthen_def call_app panic_if_def)
  moreover have "unat (freeblock z) = unat (freeblock s) + need (nblk s 1) (nblk z 1) + data_need a"
    using Z(5) Y(6) nz nz1 by (simp add: data_need_def)
  ultimately show ?thesis
    using Z(1-3,6) Y(3,4,7) z1 old by (intro exI [of _ z]) simp
qed

lemma add_files_ok:
  assumes "mk_ok s" "1 < freeinode s" "unat (freeinode s) + length args \<le> 200" "\<forall>a \<in> set args. good_arg a"
    and "fsize s 1 + 16 * length args \<le> MAXFILE * 512"
    and "unat (freeblock s) + need (nblk s 1) (fblocks (fsize s 1 + 16 * length args)) + sum_list (map data_need args) \<le> 1024"
  shows "\<exists>u. add_files 1 args s = Ret () u \<and> mk_ok u \<and> unat (freeinode u) = unat (freeinode s) + length args
    \<and> (\<forall>k < length args. contents u (freeinode s + of_nat k) = file_data (snd (args ! k)))
    \<and> contents u 1 = contents s 1 @ entries_of (freeinode s) args
    \<and> fsize u 1 = fsize s 1 + 16 * length args \<and> (\<forall>j. 1 < j \<and> j < freeinode s \<longrightarrow> contents u j = contents s j)
    \<and> unat (freeblock u) = unat (freeblock s) + need (nblk s 1) (nblk u 1) + sum_list (map data_need args) \<and> img u 1 = img s 1"
  using assms
proof (induction args arbitrary: s)
  case Nil
  then show ?case by simp
next
  case (Cons a args)
  let ?n = "freeinode s" and ?k = "fblocks (fsize s 1 + 16)" and ?l = "fblocks (fsize s 1 + 16 * length (a # args))"
  have le: "nblk s 1 \<le> ?k" "?k \<le> ?l" unfolding nblk_def by (rule fblocks_mono, simp)+
  note A = need_add [OF le]
  have un: "unat ?n < 200" using Cons.prems(3) by simp
  then have nN: "?n < ninodes" by (simp add: ninodes_def word_less_nat_alt)
  have nx: "unat (?n + 1) = unat ?n + 1" using un by (subst unat_add_lem [THEN iffD1]) simp_all
  have "fsize s 1 + 16 \<le> MAXFILE * 512" using Cons.prems(5) by simp
  moreover have "unat (freeblock s) + need (nblk s 1) ?k + data_need a \<le> 1024" using Cons.prems(6) A by simp
  ultimately obtain t where t: "add_file 1 a s = Ret () t" "mk_ok t" "freeinode t = ?n + 1"
    "contents t ?n = file_data (snd a)" "contents t 1 = contents s 1 @ entry_of ?n (fst a)" "fsize t 1 = fsize s 1 + 16"
    "\<forall>j. 1 < j \<and> j < ?n \<longrightarrow> contents t j = contents s j"
    "unat (freeblock t) = unat (freeblock s) + need (nblk s 1) (nblk t 1) + data_need a" "img t 1 = img s 1"
    using add_file_ok [OF Cons.prems(1,2) nN, of a] Cons.prems(4) by auto
  have nt: "nblk t 1 = ?k" by (simp add: nblk_def t(6))
  have ft: "fsize t 1 + 16 * length args = fsize s 1 + 16 * length (a # args)" using t(6) by simp
  have n1: "?n < ?n + 1" using nx by (simp add: word_less_nat_alt)
  have "1 < freeinode t" using Cons.prems(2) n1 t(3) by simp
  moreover have "unat (freeinode t) + length args \<le> 200" using Cons.prems(3) nx t(3) by simp
  moreover have "fsize t 1 + 16 * length args \<le> MAXFILE * 512" using Cons.prems(5) unfolding ft .
  moreover have "unat (freeblock t) + need (nblk t 1) (fblocks (fsize t 1 + 16 * length args)) + sum_list (map data_need args) \<le> 1024"
    using Cons.prems(6) A t(8) unfolding nt ft by simp
  ultimately obtain u where u: "add_files 1 args t = Ret () u" "mk_ok u" "unat (freeinode u) = unat (freeinode t) + length args"
    "\<forall>k < length args. contents u (freeinode t + of_nat k) = file_data (snd (args ! k))"
    "contents u 1 = contents t 1 @ entries_of (freeinode t) args" "fsize u 1 = fsize t 1 + 16 * length args"
    "\<forall>j. 1 < j \<and> j < freeinode t \<longrightarrow> contents u j = contents t j"
    "unat (freeblock u) = unat (freeblock t) + need (nblk t 1) (nblk u 1) + sum_list (map data_need args)" "img u 1 = img t 1"
    using Cons.IH [OF t(2)] Cons.prems(4) by auto
  have nu: "nblk u 1 = ?l" unfolding nblk_def u(6) ft ..
  have "contents u (?n + of_nat k) = file_data (snd ((a # args) ! k))" if k: "k < length (a # args)" for k
  proof (cases k)
    case 0
    then show ?thesis using u(7) t(3,4) n1 Cons.prems(2) by simp
  next
    case (Suc m)
    then show ?thesis using u(4) t(3) k by (auto simp: algebra_simps)
  qed
  moreover have "unat (freeblock u) = unat (freeblock s) + need (nblk s 1) (nblk u 1) + sum_list (map data_need (a # args))"
    using u(8) t(8) A unfolding nt nu by simp
  moreover have "contents u j = contents s j" if "1 < j" "j < ?n" for j
    using that t(3,7) u(7) n1 by (metis order.strict_trans)
  moreover have "add_files 1 (a # args) s = Ret () u" using t(1) u(1) by (simp add: andthen_def call_app)
  ultimately show ?case using t u nx by (intro exI [of _ u]) auto
qed

text \<open>The bitmap.\<close>

lemma bitmap_bits:
  "n \<le> 4096 \<Longrightarrow> length (fold (\<lambda>i buf. set_bit_at buf i) [0 ..< n] (replicate 512 0)) = 512
    \<and> (bit_at (fold (\<lambda>i buf. set_bit_at buf i) [0 ..< n] (replicate 512 0)) b \<longleftrightarrow> b < n \<or> b \<ge> 4096 \<and> bit_at (replicate 512 0) b)"
proof (induction n)
  case 0
  have "b < 4096 \<Longrightarrow> \<not> bit_at (replicate 512 0) b"
    using nth_replicate [of "b div 8" 512 0] by (simp add: bit_at_iff del: replicate.simps)
  then show ?case by (cases "b < 4096") (simp_all del: replicate.simps)
next
  case (Suc n)
  let ?f = "fold (\<lambda>i buf. set_bit_at buf i) [0 ..< n] (replicate 512 0)"
  have "length ?f = BSIZE" "n < 4096" using Suc by (simp_all add: BSIZE_def del: replicate.simps)
  from bit_at_set [OF this, of b] Suc show ?case
    by (auto simp: set_bit_at_def less_Suc_eq simp del: replicate.simps)
qed

lemma mk_start_facts: "mk_ok mk_start" "freeinode mk_start = 1" "freeblock mk_start = 29" "usedblocks mk_start = 29"
    "img mk_start 1 = patch 0 (words_le [1024, 985, 200, 10]) (replicate 512 0)"
proof -
  show f: "freeinode mk_start = 1" "freeblock mk_start = 29" "usedblocks mk_start = 29"
    "img mk_start 1 = patch 0 (words_le [1024, 985, 200, 10]) (replicate 512 0)"
    by (simp_all add: mk_start_def Let_def IPB_def ninodes_def fs_size_def nblocks_def nlog_def del: replicate.simps)
  have "nsect mk_start = 1024" by (simp add: mk_start_def Let_def IPB_def ninodes_def fs_size_def nblocks_def nlog_def)
  moreover have "length (img mk_start x) = BSIZE" for x
    by (simp add: mk_start_def Let_def BSIZE_def del: replicate.simps)
  moreover have "img mk_start x = replicate BSIZE 0" if "29 \<le> x" for x
  proof -
    have "\<not> (29 :: u32) \<le> 1" by (simp add: word_le_nat_alt)
    then have "x \<noteq> 1" using that by metis
    then show ?thesis by (simp add: mk_start_def Let_def BSIZE_def del: replicate.simps)
  qed
  ultimately have "clean mk_start" by (simp add: clean_def f)
  then show "mk_ok mk_start" by (rule mk_okI) (auto simp: f ninodes_def word_less_nat_alt word_le_nat_alt)
qed

text \<open>The last steps: the rounded size of the root directory and the bitmap touch no other file.\<close>

definition finish :: "(mk, unit) kern" where
  "finish = call (rinode 1) (\<lambda>din.
     andthen (winode 1 (din\<lparr>d_size := (d_size din div 512 + 1) * 512\<rparr>)) (call (reads usedblocks) mk_balloc))"

lemma finish_ok:
  assumes s: "mk_ok s" "1 < freeinode s"
  shows "\<exists>u. finish s = Ret () u \<and> (\<forall>b < 1024. used (img u) 200 b \<longleftrightarrow> b < freeblock s) \<and> img u 1 = img s 1
    \<and> file_bytes (img u) (dinode_at (img u) 1) 0 (fsize s 1) = contents s 1
    \<and> mk_file (img u) (freeblock s) (dinode_at (img u) 1) (nblk s 1)
    \<and> d_size (dinode_at (img u) 1) = (d_size (dinode_at (img s) 1) div 512 + 1) * 512
    \<and> (\<forall>j. 1 < j \<and> j < freeinode s \<longrightarrow> contents u j = contents s j \<and> mk_file (img u) (freeblock s) (dinode_at (img u) j) (nblk u j))
    \<and> (\<forall>x. length (img u x) = BSIZE)"
proof -
  note cl = mk_okD(1) [OF s(1)]
  have N1: "1 < ninodes" "IBLOCK 1 = 2" by (simp_all add: ninodes_def IBLOCK_def IPB_def)
  let ?c = "dinode_at (img s) 1"
  let ?d = "?c\<lparr>d_size := (d_size ?c div 512 + 1) * 512\<rparr>"
  let ?V = "(img s)(2 := patch (dinode_off 1) (enc_dinode ?d) (img s 2))"
  let ?M = "fold (\<lambda>i buf. set_bit_at buf i) [0 ..< unat (freeblock s)] (replicate 512 0)"
  let ?u = "s\<lparr>img := ?V(28 := ?M)\<rparr>"
  have fb: "unat (freeblock s) \<le> 1024" "usedblocks s = freeblock s" "nsect s = 1024"
    using cl by (auto simp: clean_def word_le_nat_alt)
  have "sint (freeblock s) = int (unat (freeblock s))" by (rule sint_of_unat) (use fb in simp_all)
  then have si: "sint (freeblock s) < 512 * 8" "nat (sint (freeblock s)) = unat (freeblock s)" using fb(1) by linarith+
  have b28: "ninodes div IPB + 3 = 28" by (simp add: ninodes_def IPB_def)
  have run: "finish s = Ret () ?u"
    using fb si b28 by (simp add: finish_def call_app rinode_eq [OF N1(1) cl] winode_eq [OF N1(1) cl] N1(2) andthen_def
        mk_balloc_def wsect_def kern_defs del: replicate.simps)
  have ld: "length (d_addrs ?d) = NDIRECT + 1" "length (img s (IBLOCK 1)) = BSIZE"
    using mk_okD(4) [OF s(1), of 1] s(2) cl by (simp_all add: mk_file_def clean_def)
  note P = dinode_at_patch [of "img s" 1 ?d, OF ld(2,1), unfolded N1(2)]
  have at28: "dinode_at (?V(28 := ?M)) j = dinode_at ?V j" if "j < ninodes" for j
  proof -
    have "unat j < 200" using that by (simp add: ninodes_def word_less_nat_alt)
    then have "unat (j div 8) < 25" by (simp add: unat_div_distrib)
    then have "unat (j div 8 + 2) = unat (j div 8) + 2" by (subst unat_add_lem [THEN iffD1]) simp_all
    then have "unat (IBLOCK j) \<noteq> unat (28 :: u32)" unfolding IBLOCK_def IPB_def using \<open>unat (j div 8) < 25\<close> by simp
    then have "IBLOCK j \<noteq> 28" by metis
    then show ?thesis by (simp add: dinode_at_def)
  qed
  have d1: "dinode_at (img ?u) 1 = ?d" using at28 [OF N1(1)] P(1) by simp
  have dj: "dinode_at (img ?u) j = dinode_at (img s) j" if "j < ninodes" "j \<noteq> 1" for j
    using at28 [OF that(1)] P(2) [OF that(2)] by simp
  have hi: "\<forall>y \<in> blocks_of s j. img ?u y = img s y" if "1 \<le> j" "j < freeinode s" for j
  proof
    fix y assume "y \<in> blocks_of s j"
    then have "29 \<le> y" using blocks_of_range [OF s(1) that] by blast
    then have "y \<noteq> 2" "y \<noteq> 28" by auto
    then show "img ?u y = img s y" by simp
  qed
  have others: "contents ?u j = contents s j \<and> mk_file (img ?u) (freeblock s) (dinode_at (img ?u) j) (nblk ?u j)"
    if j: "1 < j" "j < freeinode s" for j
  proof -
    have j1: "1 \<le> j" "j \<noteq> 1" using j(1) by auto
    have jN: "j < ninodes" using j(2) mk_okD(3) [OF s(1)] by simp
    have "freeblock s \<le> freeblock ?u" by simp
    note U = unchanged_file [OF s(1) j1(1) j(2) dj [OF jN j1(2)] hi [OF j1(1) j(2)] this]
    show ?thesis using U(1,3) by simp
  qed
  have root: "file_bytes (img ?u) (dinode_at (img ?u) 1) 0 (fsize s 1) = contents s 1
    \<and> mk_file (img ?u) (freeblock s) (dinode_at (img ?u) 1) (nblk s 1)"
  proof -
    have da: "d_addrs ?d = d_addrs ?c" by simp
    have le: "fsize s 1 \<le> nblk s 1 * 512"
      using div_mult_mod_eq [of "fsize s 1 + 511" 512] mod_less_divisor [of 512 "fsize s 1 + 511"]
      unfolding nblk_def fblocks_def by linarith
    note C = mk_file_cong [OF mk_okD(4) [OF s(1) order.refl s(2)] da hi [OF order.refl s(2), unfolded blocks_of_def] order.refl]
    from C(1) C(3) [OF le] show ?thesis unfolding d1 contents_def by blast
  qed
  have bits: "used (img ?u) 200 b \<longleftrightarrow> b < freeblock s" if b: "b < 1024" for b
  proof -
    have ub: "unat b < 1024" using b by (simp add: word_less_nat_alt)
    then have "unat (b div 4096) = 0" by (simp add: unat_div_distrib)
    then have "b div 4096 = 0" by (simp add: unat_eq_0)
    then have "BBLOCK b 200 = 28" by (simp add: BBLOCK_def BPB_def IPB_def)
    then show ?thesis
      using bitmap_bits [of "unat (freeblock s)" "unat b"] fb(1) ub by (simp add: used_code word_less_nat_alt del: replicate.simps)
  qed
  have "length (img ?u x) = BSIZE" for x
    using bitmap_bits [of "unat (freeblock s)" 0] fb(1) cl dinode_off_bound [of 1] dinode_codec(1) [OF ld(1)]
    by (simp add: clean_def BSIZE_def del: replicate.simps)
  then show ?thesis using run bits root others d1 by (intro exI [of _ ?u]) simp
qed

text \<open>The blocks the whole image takes: those before the data, the root directory, the files.\<close>

definition total_need :: "(u8 list \<times> u8 list list) list \<Rightarrow> nat" where
  "total_need args = 29 + need 0 (fblocks (16 * (length args + 2))) + sum_list (map data_need args)"

text \<open>A file whose blocks lie below \<open>m\<close> is one the kernel can read there.\<close>

lemma mk_file_mapped:
  assumes "mk_file V fb c k" "fb \<le> m" "\<forall>x. length (V x) = BSIZE"
  shows "mapped V m c k"
proof -
  have o: "b \<noteq> 0 \<and> b < m" if "b \<in> owned V c k" for b
  proof -
    have "29 \<le> b" "b < fb" using assms(1) that by (auto simp: mk_file_def)
    then show ?thesis using assms(2) by auto
  qed
  then show ?thesis using assms(1,3) unfolding mapped_def by (auto simp: mk_file_def owned_def)
qed

lemma two_entries: "length (46 # replicate 13 0 :: u8 list) = DIRSIZ" "length (46 # 46 # replicate 12 0 :: u8 list) = DIRSIZ"
  by (simp_all add: DIRSIZ_def)

lemma first_steps:
  assumes "\<not> P (g (f s))"
  shows "andthen (modify f) (call (reads g) (\<lambda>n. andthen (panic_if (P n) e) Q)) s = Q (f s)"
  using assms by (simp add: kern_defs)

text \<open>The two entries of the empty root directory.\<close>

lemma root_ok:
  assumes "29 + need 0 (fblocks 32) \<le> 1024"
  shows "\<exists>u. call (mk_ialloc T_DIR) (\<lambda>rootino. andthen (panic_if (rootino \<noteq> ROOTINO) ''rootino == ROOTINO'')
      (andthen (iappend rootino (mk_entry rootino (46 # replicate 13 0)))
      (andthen (iappend rootino (mk_entry rootino (46 # 46 # replicate 12 0))) (k rootino)))) mk_start = k 1 u
    \<and> mk_ok u \<and> freeinode u = 2 \<and> contents u 1 = mk_entry 1 (46 # replicate 13 0) @ mk_entry 1 (46 # 46 # replicate 12 0)
    \<and> fsize u 1 = 32 \<and> unat (freeblock u) = 29 + need 0 (nblk u 1) \<and> img u 1 = img mk_start 1"
proof -
  let ?p = "mk_entry 1 (46 # replicate 13 0)" and ?q = "mk_entry 1 (46 # 46 # replicate 12 0)"
  note S = mk_start_facts
  have N: "freeinode mk_start < ninodes" by (simp add: S ninodes_def)
  obtain x where x: "mk_ialloc T_DIR mk_start = Ret 1 x" "mk_ok x" "freeinode x = 2" "contents x 1 = []" "fsize x 1 = 0"
    "freeblock x = 29" "img x 1 = img mk_start 1"
    using mk_ialloc_ok [OF S(1) N, of T_DIR] S(2,3) by auto
  have l: "length ?p = 16" "length ?q = 16" using two_entries by (simp_all only: length_mk_entry)
  have i: "(1 :: u32) \<le> 1" "(1 :: u32) < 2" by simp_all
  have M: "MAXFILE * 512 = 71680" by (simp add: MAXFILE_def NDIRECT_def NINDIRECT_def)
  have f1: "fblocks 16 = 1" "fblocks 32 = 1" "need 0 1 = 1" "need 1 1 = 0"
    by (simp_all add: fblocks_def need_def NDIRECT_def)
  have nx: "nblk x 1 = 0" by (simp add: nblk_def x(5) fblocks_def)
  obtain y where y: "iappend 1 ?p x = Ret () y" "appended x 1 ?p y"
    using iappend_appended [OF x(2) i(1), of ?p] x(3,5,6) l f1 nx M i(2) by auto
  have Y: "mk_ok y" "freeinode y = 2" "fsize y 1 = 16" "unat (freeblock y) = 30" "nblk y 1 = 1"
    using y(2) x(3,5,6) l f1 nx appended_nblk [OF y(2)] by (simp_all add: appended_def)
  obtain z where z: "iappend 1 ?q y = Ret () z" "appended y 1 ?q z"
    using iappend_appended [OF Y(1) i(1), of ?q] Y(2-5) l f1 M i(2) by auto
  have Z: "mk_ok z" "freeinode z = 2" "fsize z 1 = 32" "nblk z 1 = 1" "unat (freeblock z) = 30"
    using z(2) Y l f1 appended_nblk [OF z(2)] by (simp_all add: appended_def)
  moreover have "contents z 1 = ?p @ ?q" using z(2) y(2) x(4) by (simp add: appended_def)
  moreover have "img z 1 = img mk_start 1" using z(2) y(2) x(7) by (simp add: appended_def)
  moreover have "call (mk_ialloc T_DIR) (\<lambda>rootino. andthen (panic_if (rootino \<noteq> ROOTINO) ''rootino == ROOTINO'')
      (andthen (iappend rootino (mk_entry rootino (46 # replicate 13 0)))
      (andthen (iappend rootino (mk_entry rootino (46 # 46 # replicate 12 0))) (k rootino)))) mk_start = k 1 z"
    using x(1) y(1) z(1) by (simp add: call_app andthen_def panic_if_def ROOTINO_def del: replicate.simps)
  ultimately show ?thesis using f1 by (intro exI [of _ z]) simp
qed

text \<open>C33: The image mkfs builds, when its files fit: the super block describes it; every file is at the inode of its
  place and has the bytes that were read from it; the root directory holds the two dots and an entry for each file,
  and its size is that of its entries, rounded up to the block after the one they end in; the bitmap marks as used
  just the blocks given out, which does not include the log at the end of the disk. If no file took a block of the
  log, every inode maps the blocks of its contents as the kernel's readi requires: all blocks of a file, and of the
  root directory those that hold its entries, which are all its size counts unless the entries fill their last block.\<close>

theorem mkfs_image:
  assumes "\<forall>a \<in> set args. good_arg a" "length args \<le> 198" "total_need args \<le> 1024"
  shows "runs (mkfs args) s (\<lambda>_ t.
      dec_superblock (img t 1) = \<lparr>sb_size = 1024, sb_nblocks = 985, sb_ninodes = 200, sb_nlog = 10\<rparr>
    \<and> (\<forall>k < length args. contents t (2 + of_nat k) = file_data (snd (args ! k)))
    \<and> file_bytes (img t) (dinode_at (img t) 1) 0 (16 * (length args + 2)) =
        mk_entry 1 (46 # replicate 13 0) @ mk_entry 1 (46 # 46 # replicate 12 0) @ entries_of 2 args
    \<and> (\<forall>b < 1024. used (img t) 200 b \<longleftrightarrow> unat b < total_need args)
    \<and> unat (d_size (dinode_at (img t) 1)) = ((length args + 2) div 32 + 1) * 512
    \<and> (total_need args \<le> 1014 \<longrightarrow> mapped (img t) 1014 (dinode_at (img t) 1) (fblocks (16 * (length args + 2)))
         \<and> (\<forall>k < length args. mapped (img t) 1014 (dinode_at (img t) (2 + of_nat k)) (nblk t (2 + of_nat k)))))"
proof -
  let ?n = "length args"
  have len: "16 * (?n + 2) = 32 + 16 * ?n" by simp
  have le: "(0::nat) \<le> fblocks 32" "fblocks 32 \<le> fblocks (16 * (?n + 2))" by (simp, rule fblocks_mono, simp)
  note A = need_add [OF le]
  have sp0: "29 + need 0 (fblocks 32) \<le> 1024" using assms(3) A unfolding total_need_def by linarith
  define k where "k rootino = andthen (add_files rootino args) (call (rinode rootino) (\<lambda>din.
       let off = (xint (d_size din) div 512 + 1) * 512 in
       andthen (winode rootino (din\<lparr>d_size := xint off\<rparr>)) (call (reads usedblocks) mk_balloc)))" for rootino
  obtain u where u: "call (mk_ialloc T_DIR) (\<lambda>rootino. andthen (panic_if (rootino \<noteq> ROOTINO) ''rootino == ROOTINO'')
      (andthen (iappend rootino (mk_entry rootino (46 # replicate 13 0)))
      (andthen (iappend rootino (mk_entry rootino (46 # 46 # replicate 12 0))) (k rootino)))) mk_start = k 1 u"
    "mk_ok u" "freeinode u = 2" "contents u 1 = mk_entry 1 (46 # replicate 13 0) @ mk_entry 1 (46 # 46 # replicate 12 0)"
    "fsize u 1 = 32" "unat (freeblock u) = 29 + need 0 (nblk u 1)" "img u 1 = img mk_start 1"
    using root_ok [OF sp0] by blast
  have nu: "nblk u 1 = fblocks 32" by (simp add: nblk_def u(5))
  have M: "MAXFILE * 512 = 71680" by (simp add: MAXFILE_def NDIRECT_def NINDIRECT_def)
  have "1 < freeinode u" "unat (freeinode u) + ?n \<le> 200" "fsize u 1 + 16 * ?n \<le> MAXFILE * 512"
    using u(3,5) assms(2) by (simp_all add: M)
  moreover have "unat (freeblock u) + need (nblk u 1) (fblocks (fsize u 1 + 16 * ?n)) + sum_list (map data_need args) \<le> 1024"
    using assms(3) A u(6) unfolding nu u(5) total_need_def len by simp
  ultimately obtain v where v: "add_files 1 args u = Ret () v" "mk_ok v" "unat (freeinode v) = 2 + ?n"
    "\<forall>k < ?n. contents v (2 + of_nat k) = file_data (snd (args ! k))"
    "contents v 1 = contents u 1 @ entries_of 2 args" "fsize v 1 = 32 + 16 * ?n"
    "unat (freeblock v) = unat (freeblock u) + need (nblk u 1) (nblk v 1) + sum_list (map data_need args)" "img v 1 = img u 1"
    using add_files_ok [OF u(2), of args] assms(1) u(3,5) by auto
  have nv: "nblk v 1 = fblocks (16 * (?n + 2))" by (simp add: nblk_def v(6))
  have fbv: "unat (freeblock v) = total_need args"
    using v(7) u(6) A unfolding nu nv total_need_def by simp
  have fv: "1 < freeinode v" using v(3) by (simp add: word_less_nat_alt)
  obtain t where t: "finish v = Ret () t" "\<forall>b < 1024. used (img t) 200 b \<longleftrightarrow> b < freeblock v" "img t 1 = img v 1"
    "file_bytes (img t) (dinode_at (img t) 1) 0 (fsize v 1) = contents v 1"
    "mk_file (img t) (freeblock v) (dinode_at (img t) 1) (nblk v 1)"
    "d_size (dinode_at (img t) 1) = (d_size (dinode_at (img v) 1) div 512 + 1) * 512"
    "\<forall>j. 1 < j \<and> j < freeinode v \<longrightarrow> contents t j = contents v j \<and> mk_file (img t) (freeblock v) (dinode_at (img t) j) (nblk t j)"
    "\<forall>x. length (img t x) = BSIZE"
    using finish_ok [OF v(2) fv] by blast
  have range: "1 < (2 + of_nat k :: u32)" "(2 + of_nat k :: u32) < freeinode v" if "k < ?n" for k
  proof -
    have "unat (of_nat k :: u32) = k" using that assms(2) by (intro unat_of_nat32) simp
    then have "unat (2 + of_nat k :: u32) = 2 + k"
      using that assms(2) by (subst unat_add_lem [THEN iffD1]) simp_all
    then show "1 < (2 + of_nat k :: u32)" "(2 + of_nat k :: u32) < freeinode v"
      using that v(3) by (simp_all add: word_less_nat_alt)
  qed
  have run: "mkfs args s = Ret () t"
  proof -
    have c: "nblocks + usedblocks mk_start + nlog = fs_size" by (simp add: mk_start_facts nblocks_def nlog_def fs_size_def)
    have "k 1 u = finish v" using v(1) by (simp add: k_def finish_def andthen_def call_app Let_def)
    moreover have "mkfs args s = call (mk_ialloc T_DIR) (\<lambda>rootino. andthen (panic_if (rootino \<noteq> ROOTINO) ''rootino == ROOTINO'')
      (andthen (iappend rootino (mk_entry rootino (46 # replicate 13 0)))
      (andthen (iappend rootino (mk_entry rootino (46 # 46 # replicate 12 0))) (k rootino)))) mk_start"
      unfolding mkfs_def k_def
      by (rule first_steps [where f = "\<lambda>_. mk_start" and s = s]) (simp only: c not_True_eq_False not_False_eq_True)
    ultimately show ?thesis using u(1) t(1) by simp
  qed
  have "dec_superblock (img t 1) = \<lparr>sb_size = 1024, sb_nblocks = 985, sb_ninodes = 200, sb_nlog = 10\<rparr>"
    unfolding t(3) v(8) u(7) mk_start_facts(5) by (simp add: dec_superblock_def patch_def)
  moreover have "\<forall>k < ?n. contents t (2 + of_nat k) = file_data (snd (args ! k))"
  proof (intro allI impI)
    fix k assume k: "k < ?n"
    have "contents t (2 + of_nat k) = contents v (2 + of_nat k)" using t(7) range [OF k] by simp
    then show "contents t (2 + of_nat k) = file_data (snd (args ! k))" using v(4) k by simp
  qed
  moreover have "file_bytes (img t) (dinode_at (img t) 1) 0 (16 * (?n + 2)) =
      mk_entry 1 (46 # replicate 13 0) @ mk_entry 1 (46 # 46 # replicate 12 0) @ entries_of 2 args"
    using t(4) unfolding v(5,6) u(4) len by simp
  moreover have "\<forall>b < 1024. used (img t) 200 b \<longleftrightarrow> unat b < total_need args"
    using t(2) fbv by (simp add: word_less_nat_alt)
  moreover have "mapped (img t) 1014 (dinode_at (img t) (2 + of_nat k)) (nblk t (2 + of_nat k))"
    if "total_need args \<le> 1014" "k < ?n" for k
  proof (rule mk_file_mapped [OF _ _ t(8)])
    show "mk_file (img t) (freeblock v) (dinode_at (img t) (2 + of_nat k)) (nblk t (2 + of_nat k))"
      using t(7) range [OF that(2)] by simp
    show "freeblock v \<le> 1014" using fbv that(1) by (simp add: word_le_nat_alt)
  qed
  moreover have "mapped (img t) 1014 (dinode_at (img t) 1) (fblocks (16 * (?n + 2)))" if "total_need args \<le> 1014"
  proof (rule mk_file_mapped [OF t(5) [unfolded nv] _ t(8)])
    show "freeblock v \<le> 1014" using fbv that by (simp add: word_le_nat_alt)
  qed
  moreover have "unat (d_size (dinode_at (img t) 1)) = ((?n + 2) div 32 + 1) * 512"
  proof -
    have "unat (d_size (dinode_at (img v) 1)) div 512 = (?n + 2) div 32" using v(6) by simp
    moreover have "(?n + 2) div 32 < 8" using assms(2) by simp
    ultimately show ?thesis unfolding t(6) by (simp add: unat_word_ariths unat_div)
  qed
  ultimately show ?thesis using run by (simp add: runs_def)
qed

text \<open>An image with one file of three bytes; the first block of its log counts as free.\<close>

theorem mkfs_image_witness:
  "runs (mkfs [([97, 0], [[1, 2, 3], []])]) mk_start
     (\<lambda>_ t. contents t 2 = [1, 2, 3] \<and> used (img t) 200 30 \<and> \<not> used (img t) 200 1014)"
proof -
  let ?args = "[([97, 0], [[1, 2, 3], []])] :: (u8 list \<times> u8 list list) list"
  have n: "total_need ?args = 31"
    by (simp add: total_need_def data_need_def fblocks_def need_def NDIRECT_def)
  have g: "\<forall>a \<in> set ?args. good_arg a"
    by (simp add: good_arg_def plain_name_def enough_def MAXFILE_def NDIRECT_def NINDIRECT_def)
  have "length ?args \<le> 198" "total_need ?args \<le> 1024" unfolding n by simp_all
  from mkfs_image [OF g this, of mk_start, unfolded n] show ?thesis
    by (rule runs_mono) (auto simp: word_less_nat_alt)
qed

end
