(* ===== verification/Grep.thy ===== *)
theory Grep
  imports Bytes
begin

text \<open>
  The user program grep (usr/grep.c): the matcher for the operators \<open>^ . * $\<close> and the loop over
  the lines of its input. C strings are lists without the terminator.
\<close>

section \<open>The matcher\<close>

definition CARET :: u8 where "CARET = 94"
definition DOLLAR :: u8 where "DOLLAR = 36"
definition STAR :: u8 where "STAR = 42"
definition ANY :: u8 where "ANY = 46"
definition NEWLINE :: u8 where "NEWLINE = 10"

text \<open>The do-while loop of matchstar is its own recursion.\<close>

function matchhere :: "u8 list \<Rightarrow> u8 list \<Rightarrow> bool"
  and matchstar :: "u8 \<Rightarrow> u8 list \<Rightarrow> u8 list \<Rightarrow> bool" where
  "matchhere re tx =
     (case re of
        [] \<Rightarrow> True
      | c # re1 \<Rightarrow>
          if re1 \<noteq> [] \<and> hd re1 = STAR then matchstar c (tl re1) tx
          else if c = DOLLAR \<and> re1 = [] then tx = []
          else if tx \<noteq> [] \<and> (c = ANY \<or> c = hd tx) then matchhere re1 (tl tx)
          else False)"
| "matchstar c re tx =
     (matchhere re tx \<or>
      (case tx of [] \<Rightarrow> False
       | t # text1 \<Rightarrow> (t = c \<or> c = ANY) \<and> matchstar c re text1))"
  by pat_completeness auto
termination
  by (relation "measures
      [\<lambda>x. case x of Inl (re, tx) \<Rightarrow> length re | Inr (c, re, tx) \<Rightarrow> length re,
       \<lambda>x. case x of Inl (re, tx) \<Rightarrow> length tx | Inr (c, re, tx) \<Rightarrow> length tx,
       \<lambda>x. case x of Inl _ \<Rightarrow> 0 | Inr _ \<Rightarrow> (1 :: nat)]")
    (auto simp: neq_Nil_conv)

declare matchhere.simps [simp del] matchstar.simps [simp del]

fun match_from :: "u8 list \<Rightarrow> u8 list \<Rightarrow> bool" where
  "match_from re [] = matchhere re []"
| "match_from re (t # tx) = (matchhere re (t # tx) \<or> match_from re tx)"

definition match :: "u8 list \<Rightarrow> u8 list \<Rightarrow> bool" where
  "match re tx =
     (if re \<noteq> [] \<and> hd re = CARET then matchhere (tl re) tx else match_from re tx)"

section \<open>The loop over the input\<close>

text \<open>The static buffer, the number of bytes it holds, and the output written so far. The buffer
  is one array of 1024 bytes; leaving it is undefined, the value None.\<close>

record grep_state =
  gbuf :: "u8 list"
  gm :: int
  gout :: "u8 list"

definition GBUF :: nat where "GBUF = 1024"

text \<open>\<open>strchr(p, newline)\<close>: the distance to the first newline before the terminating zero;
  the inner option is the null result.\<close>

fun find_newline :: "u8 list \<Rightarrow> nat option option" where
  "find_newline [] = None"
| "find_newline (b # bs) =
     (if b = 0 then Some None
      else if b = NEWLINE then Some (Some 0)
      else map_option (map_option Suc) (find_newline bs))"

text \<open>The inner loop, from the position \<open>p\<close>: the position where it stops and the lines written.\<close>

function grep_lines :: "u8 list \<Rightarrow> u8 list \<Rightarrow> nat \<Rightarrow> (nat \<times> u8 list) option" where
  "grep_lines re buf p =
     (if p \<ge> length buf then None
      else case find_newline (drop p buf) of
        None \<Rightarrow> None
      | Some None \<Rightarrow> Some (p, [])
      | Some (Some k) \<Rightarrow>
          let line = take k (drop p buf) in
          map_option (\<lambda>(q, out). (q, (if match re line then line @ [NEWLINE] else []) @ out))
            (grep_lines re buf (p + k + 1)))"
  by pat_completeness auto
termination
  by (relation "measure (\<lambda>(re, buf, p). length buf - p)") auto

declare grep_lines.simps [simp del]

text \<open>One iteration of the outer loop, for a call of read that returned the bytes \<open>chunk\<close>.\<close>

definition grep_read :: "u8 list \<Rightarrow> u8 list \<Rightarrow> grep_state \<Rightarrow> grep_state option" where
  "grep_read re chunk g =
     (if gm g < 0 \<or> gm g + int (length chunk) > int GBUF then None
      else
        let buf = patch (nat (gm g)) chunk (gbuf g); m = gm g + int (length chunk) in
        case grep_lines re buf 0 of
          None \<Rightarrow> None
        | Some (p, out) \<Rightarrow>
            let m = (if p = 0 then 0 else m); m1 = (if m > 0 then m - int p else m) in
            if m > 0 \<and> m1 > 0
            then (if nat m1 + p > length buf then None
                  else Some \<lparr>gbuf = patch 0 (take (nat m1) (drop p buf)) buf, gm = m1, gout = gout g @ out\<rparr>)
            else Some \<lparr>gbuf = buf, gm = m1, gout = gout g @ out\<rparr>)"

text \<open>The whole loop, for the chunks the calls of read return; it stops at an empty one.\<close>

fun grep_loop :: "u8 list \<Rightarrow> u8 list list \<Rightarrow> grep_state \<Rightarrow> grep_state option" where
  "grep_loop re [] g = Some g"
| "grep_loop re (chunk # cs) g =
     (if chunk = [] then Some g
      else case grep_read re chunk g of None \<Rightarrow> None | Some h \<Rightarrow> grep_loop re cs h)"

definition grep_start :: grep_state where
  "grep_start = \<lparr>gbuf = replicate GBUF 0, gm = 0, gout = []\<rparr>"

definition grep :: "u8 list \<Rightarrow> u8 list list \<Rightarrow> u8 list option" where
  "grep re chunks = map_option gout (grep_loop re chunks (grep_start))"

section \<open>What a pattern means\<close>

datatype atom = One u8 | Many u8

text \<open>The atoms of a pattern without its \<open>^\<close>, and whether it is anchored at the end.\<close>

fun atoms :: "u8 list \<Rightarrow> atom list \<times> bool" where
  "atoms [] = ([], False)"
| "atoms [c] = (if c = DOLLAR then ([], True) else ([One c], False))"
| "atoms (c # d # re) =
     (if d = STAR then (case atoms re of (as, e) \<Rightarrow> (Many c # as, e))
      else (case atoms (d # re) of (as, e) \<Rightarrow> (One c # as, e)))"

definition char_ok :: "u8 \<Rightarrow> u8 \<Rightarrow> bool" where
  "char_ok c t \<longleftrightarrow> c = ANY \<or> c = t"

text \<open>The texts a sequence of atoms stands for.\<close>

inductive denotes :: "atom list \<Rightarrow> u8 list \<Rightarrow> bool" where
  "denotes [] []"
| "char_ok c t \<Longrightarrow> denotes as tx \<Longrightarrow> denotes (One c # as) (t # tx)"
| "(\<forall>t \<in> set ts. char_ok c t) \<Longrightarrow> denotes as tx \<Longrightarrow> denotes (Many c # as) (ts @ tx)"

inductive_simps denotes_Nil: "denotes [] w"
inductive_simps denotes_One: "denotes (One c # as) w"
inductive_simps denotes_Many: "denotes (Many c # as) w"

definition occurs_at_start :: "u8 list \<Rightarrow> u8 list \<Rightarrow> bool" where
  "occurs_at_start re tx \<longleftrightarrow>
     (\<exists>w rest. tx = w @ rest \<and> denotes (fst (atoms re)) w \<and> (snd (atoms re) \<longrightarrow> rest = []))"

lemma occurs_many:
  "(\<exists>w rest. tx = w @ rest \<and> denotes (Many c # as) w \<and> (e \<longrightarrow> rest = [])) \<longleftrightarrow>
   (\<exists>ts text1. tx = ts @ text1 \<and> (\<forall>t \<in> set ts. char_ok c t)
      \<and> (\<exists>w rest. text1 = w @ rest \<and> denotes as w \<and> (e \<longrightarrow> rest = [])))"
  (is "?l \<longleftrightarrow> ?r")
proof
  assume ?l
  then obtain v rest where "tx = v @ rest" and v: "denotes (Many c # as) v" and "e \<longrightarrow> rest = []" by blast
  moreover from v obtain ts w where "v = ts @ w" "\<forall>t \<in> set ts. char_ok c t" "denotes as w"
    by (auto simp: denotes_Many)
  ultimately have "tx = ts @ w @ rest" "\<forall>t \<in> set ts. char_ok c t" "denotes as w" "e \<longrightarrow> rest = []"
    by simp_all
  then show ?r by (intro exI [of _ ts] exI [of _ "w @ rest"]) auto
next
  assume ?r
  then obtain ts w rest where "tx = ts @ w @ rest" "\<forall>t \<in> set ts. char_ok c t" "denotes as w" "e \<longrightarrow> rest = []"
    by auto
  then show ?l by (intro exI [of _ "ts @ w"] exI [of _ rest]) (auto simp: denotes_Many)
qed

lemma occurs_one:
  "(\<exists>w rest. tx = w @ rest \<and> denotes (One c # as) w \<and> (e \<longrightarrow> rest = [])) \<longleftrightarrow>
   tx \<noteq> [] \<and> char_ok c (hd tx)
      \<and> (\<exists>w rest. tl tx = w @ rest \<and> denotes as w \<and> (e \<longrightarrow> rest = []))"
  (is "?l \<longleftrightarrow> ?r")
proof
  assume ?l
  then obtain v rest where "tx = v @ rest" and v: "denotes (One c # as) v" and "e \<longrightarrow> rest = []" by blast
  moreover from v obtain t w where "v = t # w" "char_ok c t" "denotes as w" by (auto simp: denotes_One)
  ultimately show ?r by auto
next
  assume ?r
  then obtain w rest where *: "tl tx = w @ rest" "denotes as w" "e \<longrightarrow> rest = []" "tx \<noteq> []" "char_ok c (hd tx)"
    by blast
  then have "tx = (hd tx # w) @ rest" "denotes (One c # as) (hd tx # w)"
    by (simp_all add: denotes_One) (metis list.collapse)
  with *(3) show ?l by blast
qed

lemma atoms_simps:
  "re1 \<noteq> [] \<Longrightarrow> hd re1 = STAR \<Longrightarrow> atoms (c # re1) = (Many c # fst (atoms (tl re1)), snd (atoms (tl re1)))"
  "\<not> (re1 \<noteq> [] \<and> hd re1 = STAR) \<Longrightarrow> \<not> (c = DOLLAR \<and> re1 = []) \<Longrightarrow>
   atoms (c # re1) = (One c # fst (atoms re1), snd (atoms re1))"
  by (cases re1; auto split: prod.splits)+

lemma matchstar_iff:
  assumes "\<And>tx. matchhere re tx \<longleftrightarrow> P tx"
  shows "matchstar c re tx \<longleftrightarrow> (\<exists>ts text1. tx = ts @ text1 \<and> (\<forall>t \<in> set ts. char_ok c t) \<and> P text1)"
proof (induction tx)
  case Nil
  then show ?case by (simp add: matchstar.simps [of c re "[]"] assms)
next
  case (Cons t tx)
  have eq: "(\<exists>ts text1. t # tx = ts @ text1 \<and> (\<forall>t \<in> set ts. char_ok c t) \<and> P text1) \<longleftrightarrow>
    P (t # tx) \<or> (char_ok c t \<and> (\<exists>ts text1. tx = ts @ text1 \<and> (\<forall>t \<in> set ts. char_ok c t) \<and> P text1))"
    (is "?l \<longleftrightarrow> ?r")
  proof
    assume ?l
    then obtain ts tx1 where *: "t # tx = ts @ tx1" "\<forall>t \<in> set ts. char_ok c t" "P tx1" by blast
    then show ?r by (cases ts) auto
  next
    assume ?r
    then consider "P (t # tx)" | ts tx1 where "char_ok c t" "tx = ts @ tx1" "\<forall>t \<in> set ts. char_ok c t" "P tx1"
      by blast
    then show ?l
    proof cases
      case 1
      then show ?thesis by (intro exI [of _ "[]"] exI [of _ "t # tx"]) simp
    next
      case 2
      then show ?thesis by (intro exI [of _ "t # ts"] exI [of _ tx1]) simp
    qed
  qed
  have "matchstar c re (t # tx) \<longleftrightarrow> P (t # tx) \<or> (char_ok c t \<and> matchstar c re tx)"
    unfolding matchstar.simps [of c re "t # tx"] assms char_ok_def list.case by blast
  then show ?case unfolding eq Cons.IH .
qed

lemma matchhere_iff: "matchhere re tx \<longleftrightarrow> occurs_at_start re tx"
proof (induction re arbitrary: tx rule: length_induct)
  case (1 re)
  show ?case
  proof (cases re)
    case Nil
    then show ?thesis by (simp add: matchhere.simps [of "[]"] occurs_at_start_def denotes_Nil)
  next
    case (Cons c re1)
    consider (star) "re1 \<noteq> []" "hd re1 = STAR" | (dollar) "c = DOLLAR" "re1 = []"
      | (one) "\<not> (re1 \<noteq> [] \<and> hd re1 = STAR)" "\<not> (c = DOLLAR \<and> re1 = [])" by blast
    then show ?thesis
    proof cases
      case star
      have "length (tl re1) < length re" using star(1) Cons by simp
      then have IH: "matchhere (tl re1) tx \<longleftrightarrow> occurs_at_start (tl re1) tx" for tx
        using 1 by blast
      show ?thesis
        unfolding Cons occurs_at_start_def matchhere.simps [of "c # re1"] atoms_simps(1) [OF star]
          fst_conv snd_conv occurs_many
        using star by (simp add: matchstar_iff [OF IH] occurs_at_start_def)
    next
      case dollar
      then show ?thesis
        by (simp add: Cons occurs_at_start_def matchhere.simps [of "[DOLLAR]"] denotes_Nil)
    next
      case one
      have IH: "matchhere re1 tx \<longleftrightarrow> occurs_at_start re1 tx" for tx
        using 1 Cons by simp
      show ?thesis
        unfolding Cons matchhere.simps [of "c # re1"] occurs_at_start_def atoms_simps(2) [OF one]
          fst_conv snd_conv occurs_one
        using one by (auto simp: IH occurs_at_start_def char_ok_def)
    qed
  qed
qed

lemma match_from_iff: "match_from re tx \<longleftrightarrow> (\<exists>pre post. tx = pre @ post \<and> occurs_at_start re post)"
proof (induction tx)
  case Nil
  then show ?case by (simp add: matchhere_iff)
next
  case (Cons t tx)
  have "(\<exists>pre post. t # tx = pre @ post \<and> occurs_at_start re post) \<longleftrightarrow>
    occurs_at_start re (t # tx) \<or> (\<exists>pre post. tx = pre @ post \<and> occurs_at_start re post)"
    by (auto simp: Cons_eq_append_conv)
  then show ?case by (simp add: Cons matchhere_iff)
qed

section \<open>What the loop prints\<close>

text \<open>A line as it occurs in the input, and the input made of some lines.\<close>

definition line_ok :: "u8 list \<Rightarrow> bool" where
  "line_ok l \<longleftrightarrow> 0 \<notin> set l \<and> NEWLINE \<notin> set l"

definition unlines :: "u8 list list \<Rightarrow> u8 list" where
  "unlines ls = concat (map (\<lambda>l. l @ [NEWLINE]) ls)"

lemma unlines_simps [simp]:
  "unlines [] = []" "unlines (l # ls) = l @ NEWLINE # unlines ls" "unlines (ls @ ms) = unlines ls @ unlines ms"
  by (simp_all add: unlines_def)

lemma NEWLINE_not_0 [simp]: "NEWLINE \<noteq> 0" "0 \<noteq> NEWLINE"
  by (simp_all add: NEWLINE_def)

lemma find_newline_line: "line_ok l \<Longrightarrow> find_newline (l @ NEWLINE # r) = Some (Some (length l))"
  by (induction l) (auto simp: line_ok_def)

lemma grep_lines_unlines:
  assumes "\<forall>l \<in> set ls. line_ok l"
  shows "grep_lines re (pre @ unlines ls @ 0 # post) (length pre)
    = Some (length pre + length (unlines ls), unlines (filter (match re) ls))"
  using assms
proof (induction ls arbitrary: pre)
  case Nil
  then show ?case by (simp add: grep_lines.simps [of re "pre @ 0 # post"])
next
  case (Cons l ls)
  have IH: "grep_lines re (pre @ l @ NEWLINE # unlines ls @ 0 # post) (length pre + length l + 1)
    = Some (length pre + length l + 1 + length (unlines ls), unlines (filter (match re) ls))"
    using Cons.IH [of "pre @ l @ [NEWLINE]"] Cons.prems by simp
  have "line_ok l" using Cons.prems by simp
  then have "find_newline (drop (length pre) (pre @ l @ NEWLINE # unlines ls @ 0 # post)) = Some (Some (length l))"
    by (simp add: find_newline_line)
  then show ?case
    unfolding grep_lines.simps [of re _ "length pre"] using IH by (simp add: Let_def)
qed

lemma grep_read_lines:
  assumes "\<forall>l \<in> set ls. line_ok l" and "\<forall>l \<in> set old. line_ok l" and "gm g = 0" and "ls \<noteq> []"
    and "gbuf g = keep @ unlines old @ 0 # post" and "length keep = length (unlines ls)" and "length (gbuf g) = GBUF"
  shows "grep_read re (unlines ls) g = Some \<lparr>gbuf = unlines ls @ unlines old @ 0 # post,
    gm = - int (length (unlines old)), gout = gout g @ unlines (filter (match re) (ls @ old))\<rparr>"
proof -
  let ?c = "unlines ls" and ?o = "unlines old"
  have patch: "patch 0 ?c (gbuf g) = ?c @ ?o @ 0 # post" using assms(5,6) by (simp add: patch_def)
  have len: "int (length ?c) \<le> int GBUF" using assms(5,6,7) by simp
  have lines: "grep_lines re (?c @ ?o @ 0 # post) 0
    = Some (length ?c + length ?o, unlines (filter (match re) (ls @ old)))"
    using grep_lines_unlines [of "ls @ old" re "[]" post] assms(1,2) by auto
  obtain l ls' where "ls = l # ls'" using assms(4) by (cases ls) auto
  then have "?c \<noteq> []" by simp
  with patch len lines show ?thesis
    using assms(3) by (simp add: grep_read_def Let_def)
qed

section \<open>Properties\<close>

text \<open>C38: the matcher decides exactly the language of its patterns: a text matches when the pattern
  denotes some part of it, at the start if the pattern begins with \<open>^\<close>, up to the end if it ends
  in \<open>$\<close>, where \<open>.\<close> stands for any character and \<open>*\<close> repeats the one before it.\<close>

theorem match_correct:
  "match re tx \<longleftrightarrow>
     (if re \<noteq> [] \<and> hd re = CARET then occurs_at_start (tl re) tx
      else (\<exists>pre post. tx = pre @ post \<and> occurs_at_start re post))"
  by (simp add: match_def matchhere_iff match_from_iff)

text \<open>When the whole input arrives in one read that leaves room for a terminator in the buffer,
  grep prints exactly the lines the pattern matches, in order.\<close>

theorem grep_one_read:
  assumes "\<forall>l \<in> set ls. line_ok l" and "ls \<noteq> []" and "length (unlines ls) < GBUF"
  shows "grep re [unlines ls] = Some (unlines (filter (match re) ls))"
proof -
  let ?n = "length (unlines ls)"
  have "replicate GBUF 0 = replicate ?n 0 @ unlines [] @ (0 :: u8) # replicate (GBUF - ?n - 1) 0"
    using assms(3) replicate_add [of ?n "Suc (GBUF - ?n - 1)" "0 :: u8"] by simp
  moreover have "unlines ls \<noteq> []" using assms(2) by (cases ls) simp_all
  ultimately show ?thesis
    using grep_read_lines [of ls "[]" grep_start "replicate ?n 0" "replicate (GBUF - ?n - 1) 0" re] assms
    by (simp add: grep_def grep_start_def)
qed

theorem grep_one_read_witness:
  "grep [98] [unlines [[97], [98, 97], [99]]] = Some (unlines [[98, 97]])"
proof -
  have "filter (match [98]) [[97], [98, 97], [99 :: u8]] = [[98, 97]]"
    by (simp add: match_def CARET_def matchhere.simps DOLLAR_def ANY_def)
  then show ?thesis
    using grep_one_read [of "[[97], [98, 97], [99]]" "[98]"]
    by (simp add: line_ok_def NEWLINE_def GBUF_def del: unlines_simps) (simp add: unlines_def)
qed

text \<open>The buffer is never terminated after the bytes read. When a second read returns fewer
  bytes than the first, the rest of the first is searched, and its matching lines printed, again;
  the count of bytes in the buffer is then negative, so that one more read would store before the
  start of the buffer.\<close>

theorem grep_prints_stale_lines:
  assumes "\<forall>l \<in> set (xs @ ys). line_ok l" and "\<forall>l \<in> set ls. line_ok l" and "xs \<noteq> []" and "ls \<noteq> []"
    and "length (unlines xs) = length (unlines ls)" and "length (unlines (xs @ ys)) < GBUF"
    and "ys \<noteq> []" and "c \<noteq> []"
  shows "grep re [unlines (xs @ ys), unlines ls] = Some (unlines (filter (match re) (xs @ ys @ ls @ ys)))
    \<and> grep re [unlines (xs @ ys), unlines ls, c] = None"
proof -
  let ?n = "length (unlines (xs @ ys))"
  let ?z = "replicate (GBUF - ?n - 1) (0 :: u8)"
  let ?g1 = "\<lparr>gbuf = unlines (xs @ ys) @ 0 # ?z, gm = 0, gout = unlines (filter (match re) (xs @ ys))\<rparr>"
  let ?g2 = "\<lparr>gbuf = unlines ls @ unlines ys @ 0 # ?z, gm = - int (length (unlines ys)),
    gout = unlines (filter (match re) (xs @ ys @ ls @ ys))\<rparr>"
  have "replicate GBUF 0 = replicate ?n 0 @ (0 :: u8) # ?z"
    using assms(6) replicate_add [of ?n "Suc (GBUF - ?n - 1)" "0 :: u8"] by simp
  then have r1: "grep_read re (unlines (xs @ ys)) grep_start = Some ?g1"
    using grep_read_lines [of "xs @ ys" "[]" grep_start "replicate ?n 0" ?z re] assms(1,3,6)
    by (simp add: grep_start_def)
  have len: "length (gbuf ?g1) = GBUF" using assms(6) by simp
  have r2: "grep_read re (unlines ls) ?g1 = Some ?g2"
    using grep_read_lines [of ls ys ?g1 "unlines xs" ?z re] assms(1,2,4,5) len by simp
  have "unlines zs \<noteq> []" if "zs \<noteq> []" for zs using that by (cases zs) simp_all
  then have ne: "unlines (xs @ ys) \<noteq> []" "unlines ls \<noteq> []" "unlines ys \<noteq> []"
    using assms(3,4,7) by blast+
  have r3: "grep_read re c ?g2 = None" using ne(3) by (simp add: grep_read_def)
  show ?thesis using r1 r2 r3 ne assms(8) by (simp add: grep_def)
qed

theorem grep_prints_stale_lines_witness:
  "grep [98] [unlines [[97], [98]], unlines [[99]]] = Some (unlines [[98], [98]])
    \<and> grep [98] [unlines [[97], [98]], unlines [[99]], [10]] = None"
proof -
  have "filter (match [98]) ([[97]] @ [[98]] @ [[99]] @ [[98 :: u8]]) = [[98], [98]]"
    by (simp add: match_def CARET_def matchhere.simps DOLLAR_def ANY_def)
  then show ?thesis
    using grep_prints_stale_lines [of "[[97]]" "[[98]]" "[[99]]" "[10]" "[98]"]
    by (simp add: line_ok_def NEWLINE_def GBUF_def del: filter.simps)
qed

end
