(* ===== verification/Sh.thy ===== *)
theory Sh
  imports Bytes
begin

text \<open>
  The command parser of the shell (usr/sh.c). The pair of pointers into the line, \<open>*ps\<close> and \<open>es\<close>,
  is the list of the bytes between them; the byte at \<open>es\<close> is the terminator. A parser function
  returns an error message (the argument of panic) or its result with the rest of the line.
\<close>

section \<open>Commands\<close>

text \<open>The argument and file strings are the token between the two pointers the source keeps, which
  nulterminate turns into a string.\<close>

datatype cmd =
    EXEC "u8 list list"
  | REDIR cmd "u8 list" u32 int
  | PIPE cmd cmd
  | LIST cmd cmd
  | BACK cmd

definition MAXARGS :: nat where "MAXARGS = 10"
definition RDONLY :: u32 where "RDONLY = 0"
definition WRONLY_CREATE :: u32 where "WRONLY_CREATE = 0x201"

section \<open>Tokens\<close>

definition BAR :: u8 where "BAR = 124"
definition LPAR :: u8 where "LPAR = 40"
definition RPAR :: u8 where "RPAR = 41"
definition SEMI :: u8 where "SEMI = 59"
definition AMP :: u8 where "AMP = 38"
definition LT :: u8 where "LT = 60"
definition GT :: u8 where "GT = 62"
definition PLUS :: u8 where "PLUS = 43"
definition WORD :: u8 where "WORD = 97"
definition SPACE :: u8 where "SPACE = 32"

definition whitespace :: "u8 list" where "whitespace = [32, 9, 13, 10, 11]"
definition symbols :: "u8 list" where "symbols = [LT, BAR, GT, AMP, SEMI, LPAR, RPAR]"

definition is_ws :: "u8 \<Rightarrow> bool" where "is_ws c \<longleftrightarrow> c \<in> set whitespace"
definition is_sym :: "u8 \<Rightarrow> bool" where "is_sym c \<longleftrightarrow> c \<in> set symbols"

definition skip :: "u8 list \<Rightarrow> u8 list" where "skip s = dropWhile is_ws s"

definition word_char :: "u8 \<Rightarrow> bool" where "word_char c \<longleftrightarrow> \<not> is_ws c \<and> \<not> is_sym c"

text \<open>The kind of a token (0 at the end of the line, a symbol, PLUS for \<open>>>\<close>, WORD), its bytes, and
  the rest.\<close>

definition gettoken :: "u8 list \<Rightarrow> u8 \<times> u8 list \<times> u8 list" where
  "gettoken s =
     (case skip s of
        [] \<Rightarrow> (0, [], [])
      | c # r \<Rightarrow>
          if c \<in> {BAR, LPAR, RPAR, SEMI, AMP, LT} then (c, [c], skip r)
          else if c = GT then
            (case r of
               d # r1 \<Rightarrow> if d = GT then (PLUS, [c, d], skip r1) else (c, [c], skip r)
             | [] \<Rightarrow> (c, [c], []))
          else (WORD, takeWhile word_char (c # r), skip (dropWhile word_char (c # r))))"

definition peek :: "u8 list \<Rightarrow> u8 list \<Rightarrow> bool" where
  "peek s toks = (case skip s of [] \<Rightarrow> False | c # _ \<Rightarrow> c \<in> set toks)"

lemma length_skip: "length (skip s) \<le> length s"
  by (simp add: skip_def length_dropWhile_le)

lemma skip_Cons_not_ws: "skip s = c # r \<Longrightarrow> \<not> is_ws c"
  using hd_dropWhile [of is_ws s] by (simp add: skip_def)

lemma gettoken_rest:
  assumes s: "skip s = c # r"
  shows "length (snd (snd (gettoken s))) \<le> length r"
proof -
  have cases: "is_sym c \<longleftrightarrow> c \<in> {BAR, LPAR, RPAR, SEMI, AMP, LT} \<or> c = GT"
    by (auto simp: is_sym_def symbols_def)
  show ?thesis
  proof (cases "c \<in> {BAR, LPAR, RPAR, SEMI, AMP, LT}")
    case True
    then show ?thesis using length_skip [of r] by (simp add: gettoken_def s del: insert_iff)
  next
    case no: False
    show ?thesis
    proof (cases "c = GT")
      case True
      show ?thesis
      proof (cases r)
        case Nil
        then show ?thesis using True no by (simp add: gettoken_def s del: insert_iff)
      next
        case (Cons d r1)
        then show ?thesis
          using True no length_skip [of r] length_skip [of r1] by (simp add: gettoken_def s del: insert_iff)
      qed
    next
      case False
      have "word_char c" using skip_Cons_not_ws [OF s] False no cases by (simp add: word_char_def)
      moreover have "length (skip (dropWhile word_char r)) \<le> length r"
        using length_skip [of "dropWhile word_char r"] length_dropWhile_le [of word_char r] by linarith
      ultimately show ?thesis using False no by (simp add: gettoken_def s del: insert_iff)
    qed
  qed
qed

lemma gettoken_le: "length (snd (snd (gettoken s))) \<le> length s"
proof (cases "skip s")
  case Nil
  then show ?thesis by (simp add: gettoken_def)
next
  case (Cons c r)
  with gettoken_rest [OF Cons] length_skip [of s] show ?thesis by simp
qed

lemma gettoken_less: "skip s \<noteq> [] \<Longrightarrow> length (snd (snd (gettoken s))) < length s"
  using gettoken_rest [of s] length_skip [of s] by (cases "skip s") force+

lemma peek_skip: "peek s toks \<Longrightarrow> skip s \<noteq> []"
  by (auto simp: peek_def)

section \<open>Redirections and simple commands\<close>

function parseredirs :: "cmd \<Rightarrow> u8 list \<Rightarrow> string + cmd \<times> u8 list" where
  "parseredirs c s =
     (if peek s [LT, GT] then
        let (tok, _, r) = gettoken s; (tok2, q, r2) = gettoken r in
          if tok2 \<noteq> WORD then Inl ''missing file for redirection''
          else parseredirs
            (if tok = LT then REDIR c q RDONLY 0 else REDIR c q WRONLY_CREATE 1) r2
      else Inr (c, skip s))"
  by pat_completeness auto
termination
proof (relation "measure (\<lambda>(c, s). length s)")
  fix c s tok q r tok2 q2 r2 x y xa ya
  assume "peek s [LT, GT]" and x: "x = gettoken s" "(tok, y) = x" "(q, r) = y"
    "xa = gettoken r" "(tok2, ya) = xa" "(q2, r2) = ya"
  then have "length r < length s"
    using gettoken_less [OF peek_skip, of s "[LT, GT]"] by (metis snd_conv)
  moreover have "length r2 \<le> length r" using x gettoken_le [of r] by (metis snd_conv)
  ultimately show "((if tok = LT then REDIR c q2 RDONLY 0 else REDIR c q2 WRONLY_CREATE 1, r2), c, s)
      \<in> measure (\<lambda>(c, s). length s)" by simp
qed simp

declare parseredirs.simps [simp del]

lemma parseredirs_le: "parseredirs c s = Inr (d, r) \<Longrightarrow> length r \<le> length s"
proof (induction c s rule: parseredirs.induct)
  case (1 c s)
  show ?case
  proof (cases "peek s [LT, GT]")
    case False
    with 1(2) length_skip [of s] show ?thesis by (auto simp: parseredirs.simps [of c s])
  next
    case True
    obtain tok t1 r1 where g1: "gettoken s = (tok, t1, r1)" by (cases "gettoken s")
    obtain tok2 q r2 where g2: "gettoken r1 = (tok2, q, r2)" by (cases "gettoken r1")
    have "length r1 \<le> length s" "length r2 \<le> length r1"
      using gettoken_le [of s] gettoken_le [of r1] g1 g2 by simp_all
    moreover have "length r \<le> length r2"
      using 1(2) True g1 g2 by (intro 1(1) [OF True g1 [symmetric] refl refl g2 [symmetric] refl refl])
        (simp_all add: parseredirs.simps [of c s] split: if_splits)
    ultimately show ?thesis by linarith
  qed
qed

text \<open>An argument goes to the command the redirections were wrapped around.\<close>

fun add_arg :: "u8 list \<Rightarrow> cmd \<Rightarrow> cmd" where
  "add_arg a (EXEC as) = EXEC (as @ [a])"
| "add_arg a (REDIR c f m fd) = REDIR (add_arg a c) f m fd"
| "add_arg a c = c"

text \<open>The loop of parseexec.\<close>

function parseargs :: "cmd \<Rightarrow> nat \<Rightarrow> u8 list \<Rightarrow> string + cmd \<times> u8 list" where
  "parseargs ret argc s =
     (if peek s [BAR, RPAR, AMP, SEMI] then Inr (ret, skip s)
      else
        let (tok, q, r) = gettoken s in
        if tok = 0 then Inr (ret, r)
        else if tok \<noteq> WORD then Inl ''syntax''
        else if argc + 1 \<ge> MAXARGS then Inl ''too many args''
        else case parseredirs (add_arg q ret) r of
          Inl e \<Rightarrow> Inl e
        | Inr (ret, r2) \<Rightarrow> parseargs ret (argc + 1) r2)"
  by pat_completeness auto
termination
proof (relation "measure (\<lambda>(ret, argc, s). length s)")
  fix ret :: cmd and argc :: nat and s x tok y q r z d r2
  assume x: "x = gettoken s" "(tok, y) = x" "(q, r) = y" "tok \<noteq> 0"
    and z: "parseredirs (add_arg q ret) r = Inr z" "(d, r2) = z"
  have "skip s \<noteq> []" using x by (auto simp: gettoken_def)
  then have "length r < length s" using gettoken_less [of s] x by (metis snd_conv)
  moreover have "length r2 \<le> length r" using parseredirs_le z by metis
  ultimately show "((d, argc + 1, r2), ret, argc, s) \<in> measure (\<lambda>(ret, argc, s). length s)" by simp
qed simp

declare parseargs.simps [simp del]

section \<open>Lines\<close>

definition ebind :: "string + 'a \<Rightarrow> ('a \<Rightarrow> string + 'b) \<Rightarrow> string + 'b" where
  "ebind m k = (case m of Inl e \<Rightarrow> Inl e | Inr a \<Rightarrow> k a)"

text \<open>The rest of the line after the next token.\<close>

definition after :: "u8 list \<Rightarrow> u8 list" where
  "after s = snd (snd (gettoken s))"

function parse_amps :: "cmd \<Rightarrow> u8 list \<Rightarrow> cmd \<times> u8 list" where
  "parse_amps c s = (if peek s [AMP] then parse_amps (BACK c) (after s) else (c, skip s))"
  by pat_completeness auto
termination
  by (relation "measure (\<lambda>(c, s). length s)") (auto simp: after_def intro!: gettoken_less dest: peek_skip)

declare parse_amps.simps [simp del]

text \<open>The mutually recursive functions, with fuel; \<open>parsecmd\<close> gives four units per byte, which
  suffices, because only a token read brings parseline back into play.\<close>

fun parseline :: "nat \<Rightarrow> u8 list \<Rightarrow> string + cmd \<times> u8 list"
  and parsepipe :: "nat \<Rightarrow> u8 list \<Rightarrow> string + cmd \<times> u8 list"
  and parseexec :: "nat \<Rightarrow> u8 list \<Rightarrow> string + cmd \<times> u8 list"
  and parseblock :: "nat \<Rightarrow> u8 list \<Rightarrow> string + cmd \<times> u8 list" where
  "parseline 0 s = Inl ''out of fuel''"
| "parseline (Suc n) s =
     ebind (parsepipe n s) (\<lambda>(c, r).
     let (c, r) = parse_amps c r in
     if peek r [SEMI] then ebind (parseline n (after r)) (\<lambda>(d, r2). Inr (LIST c d, r2))
     else Inr (c, skip r))"
| "parsepipe 0 s = Inl ''out of fuel''"
| "parsepipe (Suc n) s =
     ebind (parseexec n s) (\<lambda>(c, r).
     if peek r [BAR] then ebind (parsepipe n (after r)) (\<lambda>(d, r2). Inr (PIPE c d, r2))
     else Inr (c, skip r))"
| "parseexec 0 s = Inl ''out of fuel''"
| "parseexec (Suc n) s =
     (if peek s [LPAR] then parseblock n (skip s)
      else ebind (parseredirs (EXEC []) (skip s)) (\<lambda>(c, r). parseargs c 0 r))"
| "parseblock 0 s = Inl ''out of fuel''"
| "parseblock (Suc n) s =
     (if \<not> peek s [LPAR] then Inl ''parseblock''
      else ebind (parseline n (after s)) (\<lambda>(c, r).
        if \<not> peek r [RPAR] then Inl ''syntax - missing )''
        else parseredirs c (after r)))"

declare parseline.simps(2) [simp del] parsepipe.simps(2) [simp del] parseexec.simps(2) [simp del]
  parseblock.simps(2) [simp del]

lemmas parse_steps = parseline.simps(2) parsepipe.simps(2) parseexec.simps(2) parseblock.simps(2)

definition parsecmd :: "u8 list \<Rightarrow> string + cmd" where
  "parsecmd s =
     ebind (parseline (4 * length s + 4) s) (\<lambda>(c, r).
     if skip r \<noteq> [] then Inl ''syntax'' else Inr c)"

section \<open>The fuel is enough\<close>

lemma ebind_simps [simp]: "ebind (Inl e) k = Inl e" "ebind (Inr a) k = k a"
  by (simp_all add: ebind_def)

lemma ebind_Inr: "ebind m k = Inr b \<longleftrightarrow> (\<exists>a. m = Inr a \<and> k a = Inr b)"
  by (cases m) auto

lemma ebind_Inl: "ebind m k = Inl e \<longleftrightarrow> m = Inl e \<or> (\<exists>a. m = Inr a \<and> k a = Inl e)"
  by (cases m) auto

lemma after_le: "length (after s) \<le> length s"
  by (simp add: after_def gettoken_le)

lemma after_less: "peek s toks \<Longrightarrow> length (after s) < length s"
  by (simp add: after_def gettoken_less peek_skip)

lemma parse_amps_le: "length (snd (parse_amps c s)) \<le> length s"
proof (induction c s rule: parse_amps.induct)
  case (1 c s)
  show ?case
  proof (cases "peek s [AMP]")
    case True
    with 1 after_less [OF True] show ?thesis by (simp add: parse_amps.simps [of c s])
  qed (simp add: parse_amps.simps [of c s] length_skip)
qed

lemma parseredirs_no_fuel: "parseredirs c s \<noteq> Inl ''out of fuel''"
proof (induction c s rule: parseredirs.induct)
  case (1 c s)
  show ?case
  proof (cases "peek s [LT, GT]")
    case True
    obtain tok t1 r1 where g1: "gettoken s = (tok, t1, r1)" by (cases "gettoken s")
    obtain tok2 q r2 where g2: "gettoken r1 = (tok2, q, r2)" by (cases "gettoken r1")
    show ?thesis
      using 1 [OF True g1 [symmetric] refl refl g2 [symmetric] refl refl] True g1 g2
      by (simp add: parseredirs.simps [of c s])
  qed (simp add: parseredirs.simps [of c s])
qed

lemma parseargs_no_fuel: "parseargs c n s \<noteq> Inl ''out of fuel''"
proof (induction c n s rule: parseargs.induct)
  case (1 c n s)
  then show ?case
    using parseredirs_no_fuel
    by (subst parseargs.simps) (auto split: prod.split sum.split simp: Let_def)
qed

lemma parseargs_le: "parseargs c n s = Inr (d, r) \<Longrightarrow> length r \<le> length s"
proof (induction c n s rule: parseargs.induct)
  case (1 c n s)
  obtain tok q r1 where g: "gettoken s = (tok, q, r1)" by (cases "gettoken s")
  have le: "length r1 \<le> length s" using gettoken_le [of s] g by simp
  show ?case
  proof (cases "peek s [BAR, RPAR, AMP, SEMI] \<or> tok = 0 \<or> tok \<noteq> WORD \<or> n + 1 \<ge> MAXARGS")
    case True
    then show ?thesis using 1(2) g le length_skip [of s] by (auto simp: parseargs.simps [of c n s] split: if_splits)
  next
    case False
    then obtain d1 r2 where d: "parseredirs (add_arg q c) r1 = Inr (d1, r2)" "parseargs d1 (n + 1) r2 = Inr (d, r)"
      using 1(2) g by (auto simp: parseargs.simps [of c n s] split: sum.splits)
    have "length r \<le> length r2"
      using False d by (intro 1(1) [OF _ g [symmetric] refl refl]) auto
    with parseredirs_le [OF d(1)] le show ?thesis by linarith
  qed
qed

text \<open>The four functions call each other with one unit of fuel less, so their lemmas are inductions on
  the fuel.\<close>

lemma parse_le:
  "(parseline n s = Inr (c, r) \<longrightarrow> length r \<le> length s) \<and> (parsepipe n s = Inr (c, r) \<longrightarrow> length r \<le> length s)
   \<and> (parseexec n s = Inr (c, r) \<longrightarrow> length r \<le> length s) \<and> (parseblock n s = Inr (c, r) \<longrightarrow> length r \<le> length s)"
proof (induction n arbitrary: s c r)
  case (Suc n)
  note IH = Suc.IH [THEN conjunct1, rule_format] Suc.IH [THEN conjunct2, THEN conjunct1, rule_format]
    Suc.IH [THEN conjunct2, THEN conjunct2, THEN conjunct1, rule_format]
    Suc.IH [THEN conjunct2, THEN conjunct2, THEN conjunct2, rule_format]
  have "length r \<le> length s" if e: "parseline (Suc n) s = Inr (c, r)"
  proof -
    obtain c1 r1 where p: "parsepipe n s = Inr (c1, r1)" using e by (auto simp: parse_steps ebind_Inr)
    obtain c2 r2 where a: "parse_amps c1 r1 = (c2, r2)" by (cases "parse_amps c1 r1")
    then have 2: "length r2 \<le> length r1" using parse_amps_le [of c1 r1] by simp
    show ?thesis
      using e p a 2 IH(2) [OF p] IH(1) [of "after r2"] after_le [of r2] length_skip [of r2]
      by (fastforce simp: parse_steps ebind_Inr split: if_splits)
  qed
  moreover have "length r \<le> length s" if e: "parsepipe (Suc n) s = Inr (c, r)"
  proof -
    obtain c1 r1 where p: "parseexec n s = Inr (c1, r1)" using e by (auto simp: parse_steps ebind_Inr)
    show ?thesis
      using e p IH(3) [OF p] IH(2) [of "after r1"] after_le [of r1] length_skip [of r1]
      by (fastforce simp: parse_steps ebind_Inr split: if_splits)
  qed
  moreover have "length r \<le> length s" if e: "parseexec (Suc n) s = Inr (c, r)"
  proof (cases "peek s [LPAR]")
    case True
    with e IH(4) [of "skip s" c r] length_skip [of s] show ?thesis by (simp add: parse_steps)
  next
    case False
    then obtain c1 r1 where p: "parseredirs (EXEC []) (skip s) = Inr (c1, r1)" "parseargs c1 0 r1 = Inr (c, r)"
      using e by (auto simp: parse_steps ebind_Inr)
    with parseredirs_le [OF p(1)] parseargs_le [OF p(2)] length_skip [of s] show ?thesis by linarith
  qed
  moreover have "length r \<le> length s" if e: "parseblock (Suc n) s = Inr (c, r)"
  proof -
    obtain c1 r1 where p: "parseline n (after s) = Inr (c1, r1)" "parseredirs c1 (after r1) = Inr (c, r)"
      using e by (auto simp: parse_steps ebind_Inr split: if_splits)
    with parseredirs_le [OF p(2)] IH(1) [OF p(1)] after_le [of s] after_le [of r1] show ?thesis by linarith
  qed
  ultimately show ?case by blast
qed simp

lemma parse_fuel:
  "(4 * length s + 4 \<le> n \<longrightarrow> parseline n s \<noteq> Inl ''out of fuel'')
   \<and> (4 * length s + 3 \<le> n \<longrightarrow> parsepipe n s \<noteq> Inl ''out of fuel'')
   \<and> (4 * length s + 2 \<le> n \<longrightarrow> parseexec n s \<noteq> Inl ''out of fuel'')
   \<and> (4 * length s + 1 \<le> n \<longrightarrow> parseblock n s \<noteq> Inl ''out of fuel'')"
proof (induction n arbitrary: s)
  case (Suc n)
  note IH = Suc.IH [THEN conjunct1, rule_format] Suc.IH [THEN conjunct2, THEN conjunct1, rule_format]
    Suc.IH [THEN conjunct2, THEN conjunct2, THEN conjunct1, rule_format]
    Suc.IH [THEN conjunct2, THEN conjunct2, THEN conjunct2, rule_format]
  have "parseline (Suc n) s \<noteq> Inl ''out of fuel''" if n: "4 * length s + 4 \<le> Suc n"
  proof
    assume e: "parseline (Suc n) s = Inl ''out of fuel''"
    have "parsepipe n s \<noteq> Inl ''out of fuel''" using IH(2) n by simp
    then obtain c1 r1 where p: "parsepipe n s = Inr (c1, r1)"
      using e by (cases "parsepipe n s") (auto simp: parse_steps)
    obtain c2 r2 where a: "parse_amps c1 r1 = (c2, r2)" by (cases "parse_amps c1 r1")
    have "length r2 \<le> length s"
      using parse_amps_le [of c1 r1] a parse_le [of n s c1 r1] p by simp
    then have "parseline n (after r2) \<noteq> Inl ''out of fuel''" if "peek r2 [SEMI]"
      using IH(1) [of "after r2"] after_less [OF that] n by simp
    with e p a show False by (auto simp: parse_steps ebind_Inl split: if_splits)
  qed
  moreover have "parsepipe (Suc n) s \<noteq> Inl ''out of fuel''" if n: "4 * length s + 3 \<le> Suc n"
  proof
    assume e: "parsepipe (Suc n) s = Inl ''out of fuel''"
    have "parseexec n s \<noteq> Inl ''out of fuel''" using IH(3) n by simp
    then obtain c1 r1 where p: "parseexec n s = Inr (c1, r1)"
      using e by (cases "parseexec n s") (auto simp: parse_steps)
    have "length r1 \<le> length s" using parse_le [of n s c1 r1] p by simp
    then have "parsepipe n (after r1) \<noteq> Inl ''out of fuel''" if "peek r1 [BAR]"
      using IH(2) [of "after r1"] after_less [OF that] n by simp
    with e p show False by (auto simp: parse_steps ebind_Inl split: if_splits)
  qed
  moreover have "parseexec (Suc n) s \<noteq> Inl ''out of fuel''" if "4 * length s + 2 \<le> Suc n"
    using that IH(4) [of "skip s"] length_skip [of s] parseredirs_no_fuel parseargs_no_fuel
    by (auto simp: parse_steps ebind_Inl)
  moreover have "parseblock (Suc n) s \<noteq> Inl ''out of fuel''" if "4 * length s + 1 \<le> Suc n"
    using that IH(1) [of "after s"] after_less [of s "[LPAR]"] parseredirs_no_fuel
    by (auto simp: parse_steps ebind_Inl split: if_splits)
  ultimately show ?case by blast
qed simp

text \<open>A result that is not for want of fuel stays the same with more of it.\<close>

lemma parse_more:
  "(parseline n s \<noteq> Inl ''out of fuel'' \<longrightarrow> parseline (Suc n) s = parseline n s)
   \<and> (parsepipe n s \<noteq> Inl ''out of fuel'' \<longrightarrow> parsepipe (Suc n) s = parsepipe n s)
   \<and> (parseexec n s \<noteq> Inl ''out of fuel'' \<longrightarrow> parseexec (Suc n) s = parseexec n s)
   \<and> (parseblock n s \<noteq> Inl ''out of fuel'' \<longrightarrow> parseblock (Suc n) s = parseblock n s)"
proof (induction n arbitrary: s)
  case (Suc n)
  note IH = Suc.IH [THEN conjunct1, rule_format] Suc.IH [THEN conjunct2, THEN conjunct1, rule_format]
    Suc.IH [THEN conjunct2, THEN conjunct2, THEN conjunct1, rule_format]
    Suc.IH [THEN conjunct2, THEN conjunct2, THEN conjunct2, rule_format]
  have 1: "parseline (Suc (Suc n)) s = parseline (Suc n) s" if e: "parseline (Suc n) s \<noteq> Inl ''out of fuel''"
  proof -
    have p: "parsepipe (Suc n) s = parsepipe n s" using e IH(2) [of s] by (force simp: parseline.simps(2))
    show ?thesis
    proof (cases "parsepipe n s")
      case (Inr x)
      obtain c1 r1 where x: "x = (c1, r1)" by (cases x)
      obtain c2 r2 where a: "parse_amps c1 r1 = (c2, r2)" by (cases "parse_amps c1 r1")
      have "parseline (Suc n) (after r2) = parseline n (after r2)" if "peek r2 [SEMI]"
        using e that IH(1) [of "after r2"] Inr x a by (force simp: parseline.simps(2))
      with p Inr x a show ?thesis
        unfolding parseline.simps(2) [of "Suc n"] parseline.simps(2) [of n] by simp
    qed (simp add: parseline.simps(2) [of "Suc n"] parseline.simps(2) [of n] p)
  qed
  have 2: "parsepipe (Suc (Suc n)) s = parsepipe (Suc n) s" if e: "parsepipe (Suc n) s \<noteq> Inl ''out of fuel''"
  proof -
    have p: "parseexec (Suc n) s = parseexec n s" using e IH(3) [of s] by (force simp: parsepipe.simps(2))
    show ?thesis
    proof (cases "parseexec n s")
      case (Inr x)
      obtain c1 r1 where x: "x = (c1, r1)" by (cases x)
      have "parsepipe (Suc n) (after r1) = parsepipe n (after r1)" if "peek r1 [BAR]"
        using e that IH(2) [of "after r1"] Inr x by (force simp: parsepipe.simps(2))
      with p Inr x show ?thesis
        unfolding parsepipe.simps(2) [of "Suc n"] parsepipe.simps(2) [of n] by simp
    qed (simp add: parsepipe.simps(2) [of "Suc n"] parsepipe.simps(2) [of n] p)
  qed
  have 3: "parseexec (Suc (Suc n)) s = parseexec (Suc n) s" if e: "parseexec (Suc n) s \<noteq> Inl ''out of fuel''"
    using e IH(4) [of "skip s"]
    unfolding parseexec.simps(2) [of "Suc n"] parseexec.simps(2) [of n] by (auto split: if_splits)
  have 4: "parseblock (Suc (Suc n)) s = parseblock (Suc n) s" if e: "parseblock (Suc n) s \<noteq> Inl ''out of fuel''"
  proof -
    have "parseline (Suc n) (after s) = parseline n (after s)" if "peek s [LPAR]"
      using e that IH(1) [of "after s"] by (force simp: parseblock.simps(2))
    then show ?thesis
      unfolding parseblock.simps(2) [of "Suc n"] parseblock.simps(2) [of n] by simp
  qed
  from 1 2 3 4 show ?case by blast
qed simp

lemma parse_mono:
  "parseline n s = Inr x \<Longrightarrow> n \<le> m \<Longrightarrow> parseline m s = Inr x"
  "parsepipe n s = Inr x \<Longrightarrow> n \<le> m \<Longrightarrow> parsepipe m s = Inr x"
  "parseexec n s = Inr x \<Longrightarrow> n \<le> m \<Longrightarrow> parseexec m s = Inr x"
  by (rotate_tac 1, induction m rule: dec_induct, simp_all add: parse_more)+

lemma parseline_more: "n \<le> m \<Longrightarrow> parseline n s \<noteq> Inl ''out of fuel'' \<Longrightarrow> parseline m s = parseline n s"
  by (induction m rule: dec_induct) (simp_all add: parse_more)

lemma parsecmd_of_line:
  assumes "parseline n s = Inr (c, r)" and "skip r = []"
  shows "parsecmd s = Inr c"
proof -
  let ?k = "4 * length s + 4"
  obtain x where x: "parseline ?k s = x" "x \<noteq> Inl ''out of fuel''" using parse_fuel [of s ?k] by auto
  have "parseline (max n ?k) s = Inr (c, r)" using parse_mono(1) [OF assms(1)] by simp
  moreover have "parseline (max n ?k) s = x"
    using parseline_more [of ?k "max n ?k" s] x by simp
  ultimately show ?thesis using x(1) assms(2) by (simp add: parsecmd_def)
qed

section \<open>What the parser returns\<close>

definition is_word :: "u8 list \<Rightarrow> bool" where
  "is_word w \<longleftrightarrow> w \<noteq> [] \<and> list_all word_char w"

text \<open>Commands as execution expects them: the arguments fit the array with its terminating null
  pointer, every string is a word, and a redirection is one of the two kinds.\<close>

fun wf_cmd :: "cmd \<Rightarrow> bool" where
  "wf_cmd (EXEC as) \<longleftrightarrow> length as < MAXARGS \<and> list_all is_word as"
| "wf_cmd (REDIR c f m fd) \<longleftrightarrow> wf_cmd c \<and> is_word f \<and> (m = RDONLY \<and> fd = 0 \<or> m = WRONLY_CREATE \<and> fd = 1)"
| "wf_cmd (PIPE c d) \<longleftrightarrow> wf_cmd c \<and> wf_cmd d"
| "wf_cmd (LIST c d) \<longleftrightarrow> wf_cmd c \<and> wf_cmd d"
| "wf_cmd (BACK c) \<longleftrightarrow> wf_cmd c"

text \<open>The command the redirections of a command are wrapped around.\<close>

fun base :: "cmd \<Rightarrow> cmd" where
  "base (REDIR c f m fd) = base c"
| "base c = c"

lemmas char_defs = BAR_def LPAR_def RPAR_def SEMI_def AMP_def LT_def GT_def PLUS_def WORD_def SPACE_def

lemma gettoken_word:
  assumes "gettoken s = (WORD, q, r)"
  shows "is_word q"
proof (cases "skip s")
  case Nil
  with assms show ?thesis by (simp add: gettoken_def char_defs)
next
  case (Cons c u)
  have "\<not> is_sym c"
    using assms Cons by (cases u) (auto simp: gettoken_def is_sym_def symbols_def char_defs split: if_splits)
  then have w: "word_char c" using skip_Cons_not_ws [OF Cons] by (simp add: word_char_def)
  then have "q = takeWhile word_char (c # u)"
    using assms Cons \<open>\<not> is_sym c\<close>
    by (auto simp: gettoken_def is_sym_def symbols_def split: if_splits)
  with w show ?thesis by (auto simp: is_word_def list_all_iff dest: set_takeWhileD)
qed

lemma parseredirs_wf: "parseredirs c s = Inr (d, r) \<Longrightarrow> wf_cmd c \<Longrightarrow> wf_cmd d \<and> base d = base c"
proof (induction c s rule: parseredirs.induct)
  case (1 c s)
  show ?case
  proof (cases "peek s [LT, GT]")
    case False
    with 1(2,3) show ?thesis by (auto simp: parseredirs.simps [of c s])
  next
    case True
    obtain tok t1 r1 where g1: "gettoken s = (tok, t1, r1)" by (cases "gettoken s")
    obtain tok2 q r2 where g2: "gettoken r1 = (tok2, q, r2)" by (cases "gettoken r1")
    show ?thesis
      using 1(1) [OF True g1 [symmetric] refl refl g2 [symmetric] refl refl] 1(2,3) True g1 g2 gettoken_word [of r1 q r2]
      by (auto simp: parseredirs.simps [of c s] split: if_splits)
  qed
qed

lemma add_arg_facts:
  "base c = EXEC as \<Longrightarrow> base (add_arg a c) = EXEC (as @ [a])"
  "base c = EXEC as \<Longrightarrow> wf_cmd c \<Longrightarrow> is_word a \<Longrightarrow> Suc (length as) < MAXARGS \<Longrightarrow> wf_cmd (add_arg a c)"
  by (induction c) auto

lemma parseargs_wf: "parseargs c n s = Inr (d, r) \<Longrightarrow> wf_cmd c \<Longrightarrow> base c = EXEC as \<Longrightarrow> length as = n \<Longrightarrow> wf_cmd d"
proof (induction c n s arbitrary: as rule: parseargs.induct)
  case (1 c n s)
  obtain tok q r1 where g: "gettoken s = (tok, q, r1)" by (cases "gettoken s")
  show ?case
  proof (cases "peek s [BAR, RPAR, AMP, SEMI] \<or> tok = 0 \<or> tok \<noteq> WORD \<or> n + 1 \<ge> MAXARGS")
    case True
    then show ?thesis using 1(2,3) g by (auto simp: parseargs.simps [of c n s] split: if_splits)
  next
    case False
    then obtain d1 r2 where d: "parseredirs (add_arg q c) r1 = Inr (d1, r2)" "parseargs d1 (n + 1) r2 = Inr (d, r)"
      using 1(2) g by (auto simp: parseargs.simps [of c n s] split: sum.splits)
    have "is_word q" using gettoken_word [of s q r1] False g by simp
    then have "wf_cmd d1 \<and> base d1 = EXEC (as @ [q])"
      using parseredirs_wf [OF d(1)] add_arg_facts [OF 1(4), of q] 1(3,5) False by simp
    then show ?thesis
      using False d 1(5) by (intro 1(1) [OF _ g [symmetric] refl refl _ _ _ d(1) refl]) auto
  qed
qed

lemma parse_amps_wf: "parse_amps c s = (d, r) \<Longrightarrow> wf_cmd c \<Longrightarrow> wf_cmd d"
proof (induction c s rule: parse_amps.induct)
  case (1 c s)
  then show ?case by (simp add: parse_amps.simps [of c s] split: if_splits)
qed

lemma parse_wf:
  "(parseline n s = Inr (c, r) \<longrightarrow> wf_cmd c) \<and> (parsepipe n s = Inr (c, r) \<longrightarrow> wf_cmd c)
   \<and> (parseexec n s = Inr (c, r) \<longrightarrow> wf_cmd c) \<and> (parseblock n s = Inr (c, r) \<longrightarrow> wf_cmd c)"
proof (induction n arbitrary: s c r)
  case (Suc n)
  note IH = Suc.IH [THEN conjunct1, rule_format] Suc.IH [THEN conjunct2, THEN conjunct1, rule_format]
    Suc.IH [THEN conjunct2, THEN conjunct2, THEN conjunct1, rule_format]
    Suc.IH [THEN conjunct2, THEN conjunct2, THEN conjunct2, rule_format]
  have "wf_cmd c" if e: "parseline (Suc n) s = Inr (c, r)"
  proof -
    obtain c1 r1 where p: "parsepipe n s = Inr (c1, r1)" using e by (auto simp: parse_steps ebind_Inr)
    obtain c2 r2 where a: "parse_amps c1 r1 = (c2, r2)" by (cases "parse_amps c1 r1")
    show ?thesis
      using e p a parse_amps_wf [OF a IH(2) [OF p]] IH(1) [of "after r2"]
      by (auto simp: parse_steps ebind_Inr split: if_splits)
  qed
  moreover have "wf_cmd c" if e: "parsepipe (Suc n) s = Inr (c, r)"
    using e IH(3) [of s] IH(2) by (auto simp: parse_steps ebind_Inr split: if_splits)
  moreover have "wf_cmd c" if e: "parseexec (Suc n) s = Inr (c, r)"
  proof (cases "peek s [LPAR]")
    case True
    with e IH(4) [of "skip s" c r] show ?thesis by (simp add: parse_steps)
  next
    case False
    then obtain c1 r1 where p: "parseredirs (EXEC []) (skip s) = Inr (c1, r1)" "parseargs c1 0 r1 = Inr (c, r)"
      using e by (auto simp: parse_steps ebind_Inr)
    with parseredirs_wf [OF p(1)] parseargs_wf [OF p(2)] show ?thesis by (simp add: MAXARGS_def)
  qed
  moreover have "wf_cmd c" if e: "parseblock (Suc n) s = Inr (c, r)"
    using e IH(1) [of "after s"] parseredirs_wf by (auto simp: parse_steps ebind_Inr split: if_splits)
  ultimately show ?case by blast
qed simp

section \<open>Printing\<close>

text \<open>A command in the syntax of the shell, with blocks where the grammar needs them.\<close>

definition words :: "u8 list list \<Rightarrow> u8 list" where
  "words as = concat (map (\<lambda>a. a @ [SPACE]) as)"

definition grouped :: "cmd \<Rightarrow> u8 list \<Rightarrow> u8 list" where
  "grouped c t = (case c of EXEC _ \<Rightarrow> t | REDIR _ _ _ _ \<Rightarrow> t | _ \<Rightarrow> [LPAR] @ t @ [RPAR])"

fun unparse :: "cmd \<Rightarrow> u8 list" where
  "unparse (EXEC as) = words as"
| "unparse (REDIR c f m fd) = grouped c (unparse c) @ [if m = RDONLY then LT else GT] @ f @ [SPACE]"
| "unparse (PIPE c d) = grouped c (unparse c) @ [BAR] @ grouped d (unparse d)"
| "unparse (LIST c d) = grouped c (unparse c) @ [SEMI] @ grouped d (unparse d)"
| "unparse (BACK c) = grouped c (unparse c) @ [AMP]"

abbreviation grp :: "cmd \<Rightarrow> u8 list" where
  "grp c \<equiv> grouped c (unparse c)"

text \<open>The redirections of a command, as text, and around another command.\<close>

fun redirs :: "cmd \<Rightarrow> u8 list" where
  "redirs (REDIR c f m fd) = redirs c @ [if m = RDONLY then LT else GT] @ f @ [SPACE]"
| "redirs c = []"

fun rewrap :: "cmd \<Rightarrow> cmd \<Rightarrow> cmd" where
  "rewrap d (REDIR c f m fd) = REDIR (rewrap d c) f m fd"
| "rewrap d c = d"

lemma rewrap_base [simp]: "rewrap (base c) c = c"
  by (induction c) auto

lemma grp_base: "grp c = grp (base c) @ redirs c"
  by (induction c) (auto simp: grouped_def split: cmd.split)

lemma base_not_redir: "base c \<noteq> REDIR d f m fd"
  by (induction c) auto

section \<open>Tokens of printed text\<close>

lemma skip_skip [simp]: "skip (skip s) = skip s"
  by (simp add: skip_def)

lemma on_skip [simp]: "peek (skip s) t = peek s t" "gettoken (skip s) = gettoken s" "after (skip s) = after s"
  "parseredirs c (skip s) = parseredirs c s" "parseargs c n (skip s) = parseargs c n s"
  "parse_amps c (skip s) = parse_amps c s"
proof -
  show 1: "peek (skip s) t = peek s t" "gettoken (skip s) = gettoken s" for t
    by (simp_all add: peek_def gettoken_def)
  then show "after (skip s) = after s" by (simp add: after_def)
  with 1 show "parseredirs c (skip s) = parseredirs c s" "parseargs c n (skip s) = parseargs c n s"
    "parse_amps c (skip s) = parse_amps c s"
    by (simp_all add: parseredirs.simps [of c] parseargs.simps [of c] parse_amps.simps [of c])
qed

lemma parse_on_skip [simp]: "parseexec n (skip s) = parseexec n s" "parsepipe n (skip s) = parsepipe n s"
  "parseline n (skip s) = parseline n s"
proof -
  show 1: "parseexec n (skip s) = parseexec n s" by (cases n) (simp_all add: parse_steps)
  show 2: "parsepipe n (skip s) = parsepipe n s"
  proof (induction n)
    case (Suc n)
    have "parseexec n (skip s) = parseexec n s" by (cases n) (simp_all add: parse_steps)
    then show ?case by (simp add: parse_steps)
  qed simp
  show "parseline n (skip s) = parseline n s"
  proof (cases n)
    case (Suc k)
    have "parsepipe k (skip s) = parsepipe k s"
    proof (cases k)
      case (Suc j)
      have "parseexec j (skip s) = parseexec j s" by (cases j) (simp_all add: parse_steps)
      then show ?thesis using Suc by (simp add: parse_steps)
    qed simp
    then show ?thesis using Suc by (simp add: parse_steps)
  qed simp
qed

lemma skip_word: "is_word w \<Longrightarrow> skip (w @ r) = w @ r"
  by (cases w) (auto simp: is_word_def skip_def word_char_def)

lemma skip_sym: "is_sym c \<Longrightarrow> skip (c # r) = c # r"
  by (auto simp: skip_def is_ws_def is_sym_def symbols_def whitespace_def char_defs)

lemma skip_space [simp]: "skip (SPACE # r) = skip r"
  by (simp add: skip_def is_ws_def whitespace_def SPACE_def)

lemma sym_simps [simp]: "is_sym BAR" "is_sym LPAR" "is_sym RPAR" "is_sym SEMI" "is_sym AMP" "is_sym LT" "is_sym GT"
  by (simp_all add: is_sym_def symbols_def)

lemma peek_sym: "is_sym c \<Longrightarrow> peek (c # r) t \<longleftrightarrow> c \<in> set t"
  by (simp add: peek_def skip_sym)

lemma after_sym: "c \<in> {BAR, LPAR, RPAR, SEMI, AMP} \<Longrightarrow> after (c # r) = skip r"
  by (auto simp: after_def gettoken_def skip_sym)

lemma gettoken_lt_gt: "gettoken (LT # r) = (LT, [LT], skip r)"
  "is_word w \<Longrightarrow> gettoken (GT # w @ r) = (GT, [GT], w @ r)"
  by (simp add: gettoken_def skip_sym)
    (cases w, auto simp: gettoken_def skip_sym skip_word is_word_def word_char_def char_defs is_sym_def symbols_def,
     auto simp: skip_def is_ws_def)

lemma gettoken_printed:
  assumes w: "is_word w"
  shows "gettoken (w @ SPACE # r) = (WORD, w, skip r)"
proof -
  obtain c u where c: "w = c # u" "word_char c" using w by (cases w) (auto simp: is_word_def)
  have "\<not> word_char SPACE" by (simp add: word_char_def is_ws_def whitespace_def SPACE_def)
  moreover have "list_all word_char w" using w by (simp add: is_word_def)
  ultimately have "takeWhile word_char (w @ SPACE # r) = w" "dropWhile word_char (w @ SPACE # r) = SPACE # r"
    by (simp_all add: takeWhile_append dropWhile_append list_all_iff)
  moreover have "\<not> is_sym c" using c by (simp add: word_char_def)
  then have "c \<notin> {BAR, LPAR, RPAR, SEMI, AMP, LT}" "c \<noteq> GT" by auto
  ultimately show ?thesis using skip_word [OF w, of "SPACE # r"] c by (simp add: gettoken_def)
qed

lemma peek_word: "is_word w \<Longrightarrow> set t \<subseteq> set symbols \<Longrightarrow> \<not> peek (w @ r) t"
  using skip_word [of w r] by (cases w) (auto simp: peek_def is_word_def word_char_def is_sym_def)

text \<open>What may follow a simple command, and a line.\<close>

definition follow :: "u8 list \<Rightarrow> bool" where
  "follow r \<longleftrightarrow> skip r = [] \<or> hd (skip r) \<in> {BAR, RPAR, AMP, SEMI}"

definition endl :: "u8 list \<Rightarrow> bool" where
  "endl r \<longleftrightarrow> skip r = [] \<or> hd (skip r) = RPAR"

lemma follow_facts: "follow r \<Longrightarrow> \<not> peek r [LT, GT]" "follow r \<Longrightarrow> parseargs c n r = Inr (c, skip r)"
proof -
  assume f: "follow r"
  then show "\<not> peek r [LT, GT]" by (auto simp: follow_def peek_def char_defs split: list.splits)
  show "parseargs c n r = Inr (c, skip r)"
  proof (cases "skip r")
    case Nil
    then show ?thesis by (simp add: parseargs.simps [of c n r] peek_def gettoken_def)
  next
    case (Cons x u)
    with f have "peek r [BAR, RPAR, AMP, SEMI]" by (auto simp: follow_def peek_def)
    then show ?thesis by (simp add: parseargs.simps [of c n r])
  qed
qed

lemma endl_facts: "endl r \<Longrightarrow> follow r" "endl r \<Longrightarrow> \<not> peek r [BAR]" "endl r \<Longrightarrow> \<not> peek r [SEMI]" "endl r \<Longrightarrow> \<not> peek r [AMP]"
  by (auto simp: endl_def follow_def peek_def char_defs split: list.splits)

lemma parseredirs_none: "\<not> peek r [LT, GT] \<Longrightarrow> parseredirs c r = Inr (c, skip r)"
  by (simp add: parseredirs.simps [of c r])

lemma parse_amps_none: "\<not> peek r [AMP] \<Longrightarrow> parse_amps c r = (c, skip r)"
  by (simp add: parse_amps.simps [of c r])

lemma parseredirs_one:
  assumes "is_word f" and "m = RDONLY \<and> fd = 0 \<or> m = WRONLY_CREATE \<and> fd = 1"
  shows "parseredirs c ((if m = RDONLY then LT else GT) # f @ SPACE # r) = parseredirs (REDIR c f m fd) r"
proof -
  have "LT \<noteq> GT" "RDONLY \<noteq> WRONLY_CREATE" by (simp_all add: LT_def GT_def RDONLY_def WRONLY_CREATE_def)
  then show ?thesis
    using assms gettoken_lt_gt(2) [OF assms(1), of "SPACE # r"]
    by (auto simp: parseredirs.simps [of c "_ # _"] peek_sym gettoken_lt_gt(1) gettoken_printed)
qed

lemma parseredirs_printed: "wf_cmd c \<Longrightarrow> parseredirs d (redirs c @ r) = parseredirs (rewrap d c) r"
  by (induction c arbitrary: r) (simp_all add: parseredirs_one)

lemma parseargs_printed:
  assumes "as \<noteq> []" and "list_all is_word as" and "k + length as < MAXARGS" and "wf_cmd c" and "follow r"
  shows "parseargs (EXEC bs) k (words as @ redirs c @ r) = Inr (rewrap (EXEC (bs @ as)) c, skip r)"
  using assms
proof (induction as arbitrary: bs k)
  case (Cons a as)
  let ?rest = "words as @ redirs c @ r"
  have a: "is_word a" and k: "\<not> MAXARGS \<le> k + 1" using Cons.prems by simp_all
  have t: "words (a # as) @ redirs c @ r = a @ SPACE # ?rest" by (simp add: words_def)
  have "\<not> peek (a @ SPACE # ?rest) [BAR, RPAR, AMP, SEMI]"
    by (rule peek_word [OF a]) (auto simp: symbols_def)
  moreover have "WORD \<noteq> 0" by (simp add: WORD_def)
  ultimately have step: "parseargs (EXEC bs) k (words (a # as) @ redirs c @ r) =
      (case parseredirs (EXEC (bs @ [a])) ?rest of Inl e \<Rightarrow> Inl e | Inr (d, r2) \<Rightarrow> parseargs d (k + 1) r2)"
    unfolding t using k by (simp add: parseargs.simps [of "EXEC bs" k "a @ _"] gettoken_printed [OF a])
  show ?case
  proof (cases as)
    case Nil
    then show ?thesis
      using step Cons.prems(4) follow_facts [OF Cons.prems(5)]
      by (simp add: words_def parseredirs_printed parseredirs_none)
  next
    case (Cons b bs')
    then have "is_word b" "?rest = b @ SPACE # words bs' @ redirs c @ r" using Cons.prems(2) by (simp_all add: words_def)
    moreover have "set [LT, GT] \<subseteq> set symbols" by (simp add: symbols_def)
    ultimately have "\<not> peek ?rest [LT, GT]" using peek_word by metis
    with step Cons.IH [of "k + 1" "bs @ [a]"] Cons.prems Cons show ?thesis
      by (simp add: parseredirs_none)
  qed
qed simp

text \<open>A printed command is read back, as an element of a pipeline and as a line.\<close>

lemma parseexec_grp:
  assumes wf: "wf_cmd c" and f: "follow r"
    and line: "\<And>u. (\<forall>as. base c \<noteq> EXEC as) \<Longrightarrow> endl u \<Longrightarrow> \<exists>n. parseline n (unparse (base c) @ u) = Inr (base c, skip u)"
  shows "\<exists>n. parseexec n (grp c @ r) = Inr (c, skip r)"
proof (cases "\<exists>as. base c = EXEC as")
  case True
  then obtain as where b: "base c = EXEC as" by blast
  have wb: "wf_cmd (base c)" using wf by (induction c) auto
  have t: "grp c @ r = words as @ redirs c @ r" by (subst grp_base) (simp add: b grouped_def)
  have rd: "\<not> peek (words as @ redirs c @ r) t" if "as \<noteq> []" "set t \<subseteq> set symbols" for t
    using wb b that peek_word [of "hd as" t] by (cases as) (simp_all add: words_def)
  have first: "\<not> peek (redirs c @ r) [LPAR]"
  proof (cases "redirs c")
    case Nil
    with f show ?thesis by (auto simp: follow_def peek_def char_defs split: list.splits)
  next
    case (Cons x xs)
    have "hd (redirs c @ r) \<in> {LT, GT}" if "redirs c \<noteq> []" for r using that
      by (induction c arbitrary: r) (auto simp: hd_append)
    then have "x \<in> {LT, GT}" using Cons by fastforce
    then show ?thesis using Cons by (auto simp: peek_sym) (simp_all add: char_defs)
  qed
  have "parseexec (Suc 0) (grp c @ r) = Inr (rewrap (EXEC as) c, skip r)"
  proof (cases "as = []")
    case True
    then show ?thesis
      using t first wf follow_facts [OF f]
      by (simp add: parse_steps words_def parseredirs_printed parseredirs_none)
  next
    case False
    have "\<not> peek (words as @ redirs c @ r) [LPAR]" "\<not> peek (words as @ redirs c @ r) [LT, GT]"
      using rd [OF False] by (simp_all add: symbols_def)
    then show ?thesis
      using t parseargs_printed [OF False, of 0 c r "[]"] wb b wf f by (simp add: parse_steps parseredirs_none)
  qed
  then show ?thesis using rewrap_base [of c] b by metis
next
  case False
  let ?u = "RPAR # redirs c @ r"
  have t: "grp c @ r = LPAR # unparse (base c) @ ?u"
    using False base_not_redir [of c] by (subst grp_base) (auto simp: grouped_def split: cmd.split)
  have "endl ?u" by (simp add: endl_def skip_sym)
  then obtain n where n: "parseline n (unparse (base c) @ ?u) = Inr (base c, skip ?u)" using line False by blast
  have "parseblock (Suc n) (grp c @ r) = Inr (c, skip r)"
    using n wf follow_facts(1) [OF f] rewrap_base [of c]
    by (simp add: t parse_steps peek_sym after_sym parseredirs_printed parseredirs_none)
  then have "parseexec (Suc (Suc n)) (grp c @ r) = Inr (c, skip r)"
    using t by (simp add: parseexec.simps(2) peek_sym skip_sym)
  then show ?thesis by blast
qed

lemma parsepipe_grp:
  assumes "parseexec n (grp c @ r) = Inr (c, skip r)" and "\<not> peek r [BAR]"
  shows "parsepipe (Suc n) (grp c @ r) = Inr (c, skip r)"
  using assms by (simp add: parse_steps)

lemma parseline_grp:
  assumes "parseexec n (grp c @ r) = Inr (c, skip r)" and "endl r"
  shows "parseline (Suc (Suc n)) (grp c @ r) = Inr (c, skip r)"
  using parsepipe_grp [OF assms(1) endl_facts(2) [OF assms(2)]] endl_facts [OF assms(2)]
  by (simp add: parseline.simps(2) parse_amps_none)

lemma parse_base:
  "wf_cmd c \<Longrightarrow> (\<forall>as. base c \<noteq> EXEC as) \<Longrightarrow> endl r \<Longrightarrow> \<exists>n. parseline n (unparse (base c) @ r) = Inr (base c, skip r)"
proof (induction c arbitrary: r)
  case (PIPE c d)
  have "follow (BAR # grp d @ r)" by (simp add: follow_def skip_sym)
  then obtain n where n: "parseexec n (grp c @ BAR # grp d @ r) = Inr (c, BAR # grp d @ r)"
    using parseexec_grp [of c "BAR # grp d @ r"] PIPE by (auto simp: skip_sym)
  obtain m where m: "parseexec m (grp d @ r) = Inr (d, skip r)"
    using parseexec_grp [of d r] PIPE endl_facts(1) by auto
  note e = endl_facts [OF PIPE(5)]
  let ?k = "Suc (max n m)"
  have p: "parsepipe ?k (grp d @ r) = Inr (d, skip r)"
    by (rule parsepipe_grp [OF parse_mono(3) [OF m] e(2)]) simp
  have "parseexec ?k (grp c @ BAR # grp d @ r) = Inr (c, BAR # grp d @ r)"
    by (rule parse_mono(3) [OF n]) simp
  with p e have "parsepipe (Suc ?k) (unparse (PIPE c d) @ r) = Inr (PIPE c d, skip r)"
    by (simp add: parsepipe.simps(2) [of ?k] peek_sym after_sym)
  then have "parseline (Suc (Suc ?k)) (unparse (PIPE c d) @ r) = Inr (PIPE c d, skip r)"
    using e by (simp add: parseline.simps(2) [of "Suc ?k"] parse_amps_none del: unparse.simps)
  then show ?case by (auto simp del: unparse.simps)
next
  case (LIST c d)
  have "follow (SEMI # grp d @ r)" by (simp add: follow_def skip_sym)
  then obtain n where n: "parseexec n (grp c @ SEMI # grp d @ r) = Inr (c, SEMI # grp d @ r)"
    using parseexec_grp [of c "SEMI # grp d @ r"] LIST by (auto simp: skip_sym)
  obtain m where m: "parseexec m (grp d @ r) = Inr (d, skip r)"
    using parseexec_grp [of d r] LIST endl_facts(1) by auto
  note e = endl_facts [OF LIST(5)]
  let ?k = "Suc (Suc (max n m))"
  have l: "parseline ?k (grp d @ r) = Inr (d, skip r)"
    by (rule parseline_grp [OF parse_mono(3) [OF m] LIST(5)]) simp
  have "\<not> peek (SEMI # grp d @ r) [BAR]" "\<not> peek (SEMI # grp d @ r) [AMP]"
    by (simp_all add: peek_sym) (simp_all add: char_defs)
  moreover have "parsepipe ?k (grp c @ SEMI # grp d @ r) = Inr (c, SEMI # grp d @ r)"
    using parsepipe_grp [OF parse_mono(3), of n c "SEMI # grp d @ r" "Suc (max n m)"] n calculation
    by (simp add: skip_sym)
  ultimately have "parseline (Suc ?k) (unparse (LIST c d) @ r) = Inr (LIST c d, skip r)"
    using l by (simp add: parseline.simps(2) [of ?k] parse_amps_none skip_sym peek_sym after_sym)
  then show ?case by (auto simp del: unparse.simps)
next
  case (BACK c)
  have "follow (AMP # r)" by (simp add: follow_def skip_sym)
  then obtain n where n: "parseexec n (grp c @ AMP # r) = Inr (c, AMP # r)"
    using parseexec_grp [of c "AMP # r"] BACK by (auto simp: skip_sym)
  note e = endl_facts [OF BACK(4)]
  have "\<not> peek (AMP # r) [BAR]" by (simp add: peek_sym) (simp add: char_defs)
  then have "parsepipe (Suc n) (grp c @ AMP # r) = Inr (c, AMP # r)"
    using parsepipe_grp [of n c "AMP # r"] n by (simp add: skip_sym)
  moreover have "parse_amps c (AMP # r) = (BACK c, skip r)"
    using e by (simp add: parse_amps.simps [of c] peek_sym after_sym parse_amps_none)
  ultimately have "parseline (Suc (Suc n)) (unparse (BACK c) @ r) = Inr (BACK c, skip r)"
    using e by (simp add: parseline.simps(2) [of "Suc n"])
  then show ?case by (auto simp del: unparse.simps)
qed simp_all

lemma parsecmd_grp:
  assumes "wf_cmd c"
  shows "parsecmd (grp c) = Inr c"
proof -
  have e: "endl []" by (simp add: endl_def skip_def)
  obtain n where "parseexec n (grp c @ []) = Inr (c, skip [])"
    using parseexec_grp [OF assms endl_facts(1) [OF e]] parse_base [OF assms] by blast
  from parseline_grp [OF this e] show ?thesis
    by (intro parsecmd_of_line [of _ _ c "skip []"]) (simp_all add: skip_def)
qed

section \<open>Properties\<close>

text \<open>C29: parsecmd returns on every line: the fuel it gives to its recursive descent is enough, and any
  more gives the same result.\<close>

theorem parsecmd_terminates:
  "parsecmd s \<noteq> Inl ''out of fuel'' \<and> parseline (4 * length s + 4 + k) s = parseline (4 * length s + 4) s"
proof -
  have f: "parseline (4 * length s + 4) s \<noteq> Inl ''out of fuel''" using parse_fuel by blast
  moreover have "parsecmd s = Inl ''out of fuel'' \<Longrightarrow> parseline (4 * length s + 4) s = Inl ''out of fuel''"
    by (auto simp: parsecmd_def ebind_Inl split: if_splits)
  ultimately show ?thesis using parseline_more [OF _ f, of "4 * length s + 4 + k"] by auto
qed

text \<open>C30: a command parsecmd returns is well formed: at most \<open>MAXARGS - 1\<close> arguments, so that argv
  has room for its terminating null pointer, every argument and file name is a nonempty word free of
  blanks and symbols, and a redirection either reads onto descriptor 0 or writes onto 1.\<close>

theorem parsecmd_wf:
  assumes "parsecmd s = Inr c"
  shows "wf_cmd c"
proof -
  obtain r where "parseline (4 * length s + 4) s = Inr (c, r)"
    using assms by (auto simp: parsecmd_def ebind_Inr split: if_splits)
  then show ?thesis using parse_wf by blast
qed

text \<open>C27: parsing is the inverse of printing: a well formed command, printed with blocks around what is not
  a simple command, is parsed back to itself.\<close>

theorem parse_print:
  assumes "wf_cmd c"
  shows "parsecmd (grouped c (unparse c)) = Inr c"
  using parsecmd_grp [OF assms] .

text \<open>\<open>ls < a | wc > b &\<close>\<close>

definition example_cmd :: cmd where
  "example_cmd = BACK (PIPE (REDIR (EXEC [[108, 115]]) [97] RDONLY 0) (REDIR (EXEC [[119, 99]]) [98] WRONLY_CREATE 1))"

lemma example_wf: "wf_cmd example_cmd"
  by (simp add: example_cmd_def MAXARGS_def is_word_def word_char_def is_ws_def is_sym_def whitespace_def symbols_def char_defs)

theorem parse_print_witness: "\<exists>s. parsecmd s = Inr example_cmd"
  using parse_print [OF example_wf] by blast

theorem parsecmd_wf_witness: "parsecmd (grouped example_cmd (unparse example_cmd)) = Inr example_cmd \<and> wf_cmd example_cmd"
  using parsecmd_grp [OF example_wf] parsecmd_wf [OF parsecmd_grp [OF example_wf]] by simp

end
