(* ===== verification/Ulib.thy ===== *)
theory Ulib
  imports CString
begin

text \<open>
  The library of the user programs: usr/ulib.c and usr/printf.c. As in CString, the block operations act on
  a byte memory and the string operations on byte arrays with their terminator, where leaving the array is
  \<open>None\<close>. The bytes a program writes with \<open>putc\<close> are the list of its one-byte writes; what \<open>gets\<close> reads is
  the list of bytes left on the standard input, its end being the read that returns less than one.
\<close>

section \<open>Strings\<close>

fun strcpy :: "u8 list \<Rightarrow> u8 list \<Rightarrow> u8 list option" where
  "strcpy (x # s) (c # t) = (if c = 0 then Some (0 # s) else map_option ((#) c) (strcpy s t))"
| "strcpy s t = None"

fun strcmp :: "u8 list \<Rightarrow> u8 list \<Rightarrow> int option" where
  "strcmp (x # p) (y # q) = (if x \<noteq> 0 \<and> x = y then strcmp p q else Some (uint x - uint y))"
| "strcmp p q = None"

fun u_strlen :: "u8 list \<Rightarrow> nat option" where
  "u_strlen [] = None"
| "u_strlen (c # s) = (if c = 0 then Some 0 else map_option Suc (u_strlen s))"

text \<open>The index of the first \<open>c\<close>; \<open>Some None\<close> is the null pointer.\<close>

fun u_strchr :: "u8 list \<Rightarrow> u8 \<Rightarrow> nat option option" where
  "u_strchr [] c = None"
| "u_strchr (x # s) c =
     (if x = 0 then Some None
      else if x = c then Some (Some 0)
      else map_option (map_option Suc) (u_strchr s c))"

fun gets_loop :: "nat \<Rightarrow> int \<Rightarrow> u8 list \<Rightarrow> u8 list \<Rightarrow> (nat \<times> u8 list \<times> u8 list) option" where
  "gets_loop i m [] buf = Some (i, buf, [])"
| "gets_loop i m (c # input) buf =
     (if \<not> (int i + 1 < m) then Some (i, buf, c # input)
      else if i \<ge> length buf then None
      else if c = 10 \<or> c = 13 then Some (Suc i, buf[i := c], input)
      else gets_loop (Suc i) m input (buf[i := c]))"

text \<open>The buffer afterwards and the input left.\<close>

definition gets :: "u8 list \<Rightarrow> int \<Rightarrow> u8 list \<Rightarrow> (u8 list \<times> u8 list) option" where
  "gets buf m input =
     (case gets_loop 0 m input buf of
        None \<Rightarrow> None
      | Some (i, buf, rest) \<Rightarrow> if i < length buf then Some (buf[i := 0], rest) else None)"

fun atoi_loop :: "u32 \<Rightarrow> u8 list \<Rightarrow> u32 option" where
  "atoi_loop n [] = None"
| "atoi_loop n (c # s) = (if 48 \<le> c \<and> c \<le> 57 then atoi_loop (n * 10 + ucast c - 48) s else Some n)"

definition atoi :: "u8 list \<Rightarrow> u32 option" where
  "atoi s = atoi_loop 0 s"

section \<open>Memory\<close>

text \<open>\<open>memset\<close> returns the address after the block, and \<open>memmove\<close> only copies upwards.\<close>

fun set_up :: "mem \<Rightarrow> u32 \<Rightarrow> u32 \<Rightarrow> nat \<Rightarrow> mem \<times> u32" where
  "set_up m p c 0 = (m, p)"
| "set_up m p c (Suc rc) = set_up (m(p := ucast c)) (p + 1) c rc"

definition u_memset :: "mem \<Rightarrow> u32 \<Rightarrow> u32 \<Rightarrow> u32 \<Rightarrow> mem \<times> u32" where
  "u_memset m dst c n = set_up m dst c (unat n)"

definition u_memmove :: "mem \<Rightarrow> u32 \<Rightarrow> u32 \<Rightarrow> u32 \<Rightarrow> mem \<times> u32" where
  "u_memmove m vdst vsrc n = (copy_up m vdst vsrc (nat (sint n)), vdst)"

section \<open>Printing\<close>

fun u_div_loop :: "u32 \<Rightarrow> u32 \<Rightarrow> u32 \<Rightarrow> u32 \<Rightarrow> nat \<Rightarrow> u32" where
  "u_div_loop n d q r 0 = q"
| "u_div_loop n d q r (Suc i) =
     (let r = push_bit 1 r; r = r OR (drop_bit i n AND 1)
      in if r \<ge> d then u_div_loop n d (q OR push_bit i 1) (r - d) i else u_div_loop n d q r i)"

definition u_div :: "u32 \<Rightarrow> u32 \<Rightarrow> u32" where
  "u_div n d = u_div_loop n d 0 0 32"

text \<open>''0123456789ABCDEF''.\<close>

definition u_digits :: "u8 list" where
  "u_digits = [48, 49, 50, 51, 52, 53, 54, 55, 56, 57, 65, 66, 67, 68, 69, 70]"

text \<open>The do-while loop with \<open>room\<close> bytes left in \<open>buf\<close>: the digits, least significant first.\<close>

fun digit_loop :: "nat \<Rightarrow> u32 \<Rightarrow> u32 \<Rightarrow> u8 list option" where
  "digit_loop 0 x b = None"
| "digit_loop (Suc room) x b =
     (let y = u_div x b; d = u_digits ! unat (x - y * b)
      in if y = 0 then Some [d] else map_option ((#) d) (digit_loop room y b))"

definition u_printint :: "u32 \<Rightarrow> u32 \<Rightarrow> bool \<Rightarrow> u8 list option" where
  "u_printint xx base sg =
     (let neg = (sg \<and> sint xx < 0); x = (if neg then - xx else xx)
      in case digit_loop 16 x base of
           None \<Rightarrow> None
         | Some buf \<Rightarrow>
             if neg then if length buf < 16 then Some (rev (buf @ [45])) else None
             else Some (rev buf))"

text \<open>\<open>ap\<close> is the words of the arguments, \<open>str a\<close> the string at the address \<open>a\<close>.\<close>

definition u_null_text :: "u8 list" where "u_null_text = [40, 110, 117, 108, 108, 41]"

fun printf_loop :: "(u32 \<Rightarrow> u8 list) \<Rightarrow> bool \<Rightarrow> u8 list \<Rightarrow> u32 list \<Rightarrow> u8 list option" where
  "printf_loop str st [] ap = Some []"
| "printf_loop str False (c # fmt) ap =
     (if c = 37 then printf_loop str True fmt ap
      else map_option ((#) c) (printf_loop str False fmt ap))"
| "printf_loop str True (c # fmt) ap =
     (if c = 100 then
        (case ap of [] \<Rightarrow> None | a # ap \<Rightarrow>
           (case u_printint a 10 True of None \<Rightarrow> None
            | Some out \<Rightarrow> map_option ((@) out) (printf_loop str False fmt ap)))
      else if c = 120 \<or> c = 112 then
        (case ap of [] \<Rightarrow> None | a # ap \<Rightarrow>
           (case u_printint a 16 False of None \<Rightarrow> None
            | Some out \<Rightarrow> map_option ((@) out) (printf_loop str False fmt ap)))
      else if c = 115 then
        (case ap of [] \<Rightarrow> None | a # ap \<Rightarrow>
           map_option ((@) (if a = 0 then u_null_text else str a)) (printf_loop str False fmt ap))
      else if c = 99 then
        (case ap of [] \<Rightarrow> None | a # ap \<Rightarrow> map_option ((#) (ucast a)) (printf_loop str False fmt ap))
      else if c = 37 then map_option ((#) c) (printf_loop str False fmt ap)
      else map_option ((@) [37, c]) (printf_loop str False fmt ap))"

definition printf :: "(u32 \<Rightarrow> u8 list) \<Rightarrow> u8 list \<Rightarrow> u32 list \<Rightarrow> u8 list option" where
  "printf str fmt ap = printf_loop str False fmt ap"

section \<open>Numbers\<close>

lemma u_div_loop_eq: "u_div_loop n d q r k = div_loop n d q r k"
  by (induction k arbitrary: q r) (simp_all add: Let_def)

lemma u_div_eq: "d \<noteq> 0 \<Longrightarrow> u_div n d = n div d"
  using udiv_eq by (simp add: u_div_def udiv_def u_div_loop_eq)

abbreviation is_digit :: "u8 \<Rightarrow> bool" where
  "is_digit c \<equiv> 48 \<le> c \<and> c \<le> 57"

lemma digit_of: "(d :: u32) < 10 \<Longrightarrow> is_digit (u_digits ! unat d) \<and> ucast (u_digits ! unat d) = d + 48"
proof -
  assume "d < 10"
  then have "unat d < 10" by (simp add: word_less_nat_alt)
  moreover have "d = of_nat (unat d)" by simp
  moreover have "is_digit (u_digits ! k) \<and> ucast (u_digits ! k) = (of_nat k + 48 :: u32)" if "k < 10" for k :: nat
  proof -
    have "k = 0 \<or> k = 1 \<or> k = 2 \<or> k = 3 \<or> k = 4 \<or> k = 5 \<or> k = 6 \<or> k = 7 \<or> k = 8 \<or> k = 9" using that by presburger
    then show ?thesis by (elim disjE) (simp_all add: u_digits_def)
  qed
  ultimately show ?thesis by metis
qed

lemma atoi_loop_digits:
  "\<forall>c\<in>set xs. is_digit c \<Longrightarrow> atoi_loop n (xs @ s) = atoi_loop (foldl (\<lambda>n c. n * 10 + ucast c - 48) n xs) s"
  by (induction xs arbitrary: n) auto

text \<open>The digits of a number below \<open>10 ^ k\<close> fit in \<open>k\<close> bytes, and read back they give the number.\<close>

lemma digit_loop_value:
  "unat x < 10 ^ Suc k \<Longrightarrow> Suc k \<le> room \<Longrightarrow>
   \<exists>ds. digit_loop room x 10 = Some ds \<and> ds \<noteq> [] \<and> length ds \<le> Suc k \<and> (\<forall>c\<in>set ds. is_digit c)
     \<and> foldl (\<lambda>n c. n * 10 + ucast c - 48) 0 (rev ds) = x"
proof (induction k arbitrary: x room)
  case (Suc k)
  obtain m where m: "room = Suc m" "Suc k \<le> m" using Suc.prems(2) by (cases room) auto
  let ?y = "x div 10" and ?d = "x mod 10"
  have y: "u_div x 10 = ?y" by (simp add: u_div_eq)
  have d: "x - ?y * 10 = ?d" by (simp add: minus_div_mult_eq_mod)
  have "?d < 10" by (simp add: word_less_nat_alt unat_mod_distrib)
  note dig = digit_of [OF this]
  show ?case
  proof (cases "?y = 0")
    case True
    then have "?d = x" using d by simp
    then show ?thesis using True dig by (auto simp: m y Let_def)
  next
    case False
    have "unat ?y < 10 ^ Suc k" using Suc.prems(1) by (simp add: unat_div_distrib less_mult_imp_div_less)
    from Suc.IH [OF this m(2)] obtain ds where ds: "digit_loop m ?y 10 = Some ds" "ds \<noteq> []" "length ds \<le> Suc k"
      "\<forall>c\<in>set ds. is_digit c" "foldl (\<lambda>n c. n * 10 + ucast c - 48) 0 (rev ds) = ?y" by blast
    have "?y * 10 + (?d + 48) - 48 = x" using d by (simp add: algebra_simps)
    then show ?thesis using False ds dig by (auto simp: m y d Let_def)
  qed
next
  case 0
  obtain m where m: "room = Suc m" using 0(2) by (cases room) auto
  have x: "x < 10" using 0(1) by (simp add: word_less_nat_alt)
  have "unat (x div 10) = 0" using 0(1) by (simp add: unat_div_distrib)
  then have "u_div x 10 = 0" by (simp add: u_div_eq unat_eq_0)
  then show ?case using digit_of [OF x] by (auto simp: m Let_def)
qed

text \<open>C37: \<open>printint\<close> in decimal never overflows its buffer of sixteen bytes, and \<open>atoi\<close> reads the number
  it printed back from the digits, whatever follows them that is not a digit; a negative number is a minus
  sign and the digits of its absolute value, down to the least integer.\<close>

theorem printint_atoi:
  "\<exists>ds. digit_loop 16 (if sint w < 0 then - w else w) 10 = Some ds
    \<and> u_printint w 10 True = Some (if sint w < 0 then 45 # rev ds else rev ds)
    \<and> length ds \<le> 10
    \<and> (\<forall>c s. \<not> is_digit c \<longrightarrow> atoi (rev ds @ c # s) = Some (if sint w < 0 then - w else w))"
proof -
  let ?x = "if sint w < 0 then - w else w"
  have "unat ?x < 10 ^ Suc 9" using unat_lt32 [of ?x] by simp
  from digit_loop_value [OF this, of 16] obtain ds where ds: "digit_loop 16 ?x 10 = Some ds"
    "length ds \<le> Suc 9" "\<forall>c\<in>set ds. is_digit c" "foldl (\<lambda>n c. n * 10 + ucast c - 48) 0 (rev ds) = ?x" by auto
  have "atoi (rev ds @ c # s) = Some ?x" if "\<not> is_digit c" for c s
    using atoi_loop_digits [of "rev ds" 0 "c # s"] ds(3,4) that by (simp add: atoi_def)
  then show ?thesis using ds(1,2) by (auto simp: u_printint_def)
qed

theorem printint_atoi_witness:
  "\<exists>ds. u_printint 0x80000000 10 True = Some (45 # rev ds) \<and> atoi (rev ds @ [0]) = Some 0x80000000"
proof -
  have n: "sint (0x80000000 :: u32) < 0" "- 0x80000000 = (0x80000000 :: u32)" by simp_all
  obtain ds where "u_printint 0x80000000 10 True = Some (45 # rev ds)"
    "\<forall>c s. \<not> is_digit c \<longrightarrow> atoi (rev ds @ c # s) = Some 0x80000000"
    using printint_atoi [of "0x80000000", unfolded n(2) if_P [OF n(1)]] by auto
  then show ?thesis by auto
qed

text \<open>The line \<open>gets\<close> stores and the zero after it stay inside a buffer of \<open>max\<close> bytes.\<close>

lemma gets_loop_bounds:
  "int i < m \<Longrightarrow> m \<le> int (length buf) \<Longrightarrow>
   \<exists>j buf' rest. gets_loop i m input buf = Some (j, buf', rest) \<and> length buf' = length buf \<and> int j < m"
proof (induction input arbitrary: i buf)
  case (Cons c input)
  show ?case
  proof (cases "int i + 1 < m \<and> c \<noteq> 10 \<and> c \<noteq> 13")
    case True
    then show ?thesis using Cons.IH [of "Suc i" "buf[i := c]"] Cons.prems by simp
  next
    case False
    then show ?thesis using Cons.prems by auto
  qed
qed simp

lemma gets_bounds:
  "0 < m \<Longrightarrow> m \<le> int (length buf) \<Longrightarrow>
   \<exists>buf' rest. gets buf m input = Some (buf', rest) \<and> length buf' = length buf \<and> (\<exists>i. int i < m \<and> buf' ! i = 0)"
proof -
  assume m: "0 < m" "m \<le> int (length buf)"
  then obtain j buf' rest where "gets_loop 0 m input buf = Some (j, buf', rest)" "length buf' = length buf" "int j < m"
    using gets_loop_bounds [of 0 m buf input] by auto
  then have "gets buf m input = Some (buf'[j := 0], rest)" "length (buf'[j := 0]) = length buf" "buf'[j := 0] ! j = 0"
    using m by (simp_all add: gets_def)
  then show ?thesis using \<open>int j < m\<close> by blast
qed

text \<open>Where it cannot overwrite what it still has to read, \<open>memmove\<close> copies.\<close>

lemma u_memmove_copies:
  assumes "0 \<le> sint n" "d = s \<or> nat (sint n) \<le> unat (d - s)"
  shows "u_memmove m d s n = (copied m d s (nat (sint n)), d)"
proof -
  have "nat (sint n) \<le> 2 ^ 32 - 1" using sint_lt [of n] by simp
  then show ?thesis using copy_up_copied assms(2) by (simp add: u_memmove_def)
qed

end
