(* ===== verification/Shrun.thy ===== *)
theory Shrun
  imports Sh Ulib "HOL-Library.Sublist"
begin

text \<open>
  The shell as a process (usr/sh.c): runcmd, getcmd, fork1, panic and the loop of main. What a process does is
  the list of its actions; the actions of a child hang from the fork that starts it. A process has its
  descriptor table, a name (the path of forks that leads to it) and the number of its children so far. It
  makes at most one pipe, which is named after it. Which calls of exec, open, pipe, fork and chdir succeed is
  the parameter \<open>os\<close>; descriptors are given out as the kernel does, lowest first. A null command, which
  parsecmd never returns, and the leftovers a syntax error prints are left out.
\<close>

section \<open>Processes and descriptors\<close>

datatype fdend = Given nat | File "u8 list" u32 | PipeR "nat list" | PipeW "nat list"

type_synonym fdtab = "nat \<Rightarrow> fdend option"

datatype act =
    Say "fdend option" string "u8 list"
  | Exec "u8 list list" fdtab
  | Fork "act list"
  | Wait fdtab
  | Chdir "u8 list"
  | Quit

record shproc =
  fds :: fdtab
  me :: "nat list"
  kids :: nat

record os =
  exec_ok :: "u8 list list \<Rightarrow> bool"
  open_ok :: "u8 list \<Rightarrow> u32 \<Rightarrow> bool"
  pipe_ok :: "nat list \<Rightarrow> bool"
  fork_ok :: "nat list \<Rightarrow> bool"
  chdir_ok :: "u8 list \<Rightarrow> bool"

definition nofile :: nat where "nofile = 16"

definition lowest_fd :: "fdtab \<Rightarrow> nat option" where
  "lowest_fd f = find (\<lambda>i. f i = None) [0..<nofile]"

definition sh_install :: "fdend \<Rightarrow> fdtab \<Rightarrow> (nat \<times> fdtab) option" where
  "sh_install e f = (case lowest_fd f of None \<Rightarrow> None | Some i \<Rightarrow> Some (i, f(i \<mapsto> e)))"

definition sh_close :: "int \<Rightarrow> fdtab \<Rightarrow> fdtab" where
  "sh_close fd f = (if 0 \<le> fd \<and> fd < int nofile then f(nat fd := None) else f)"

definition sh_open :: "os \<Rightarrow> u8 list \<Rightarrow> u32 \<Rightarrow> fdtab \<Rightarrow> (nat \<times> fdtab) option" where
  "sh_open s path mode f = (if open_ok s path mode then sh_install (File path mode) f else None)"

definition sh_dup :: "nat \<Rightarrow> fdtab \<Rightarrow> fdtab" where
  "sh_dup fd f =
     (case f fd of
        None \<Rightarrow> f
      | Some e \<Rightarrow> (case sh_install e f of None \<Rightarrow> f | Some (_, g) \<Rightarrow> g))"

definition sh_pipe :: "os \<Rightarrow> shproc \<Rightarrow> (nat \<times> nat \<times> shproc) option" where
  "sh_pipe s p =
     (if pipe_ok s (me p) then
        case sh_install (PipeR (me p)) (fds p) of
          None \<Rightarrow> None
        | Some (p0, f) \<Rightarrow>
            (case sh_install (PipeW (me p)) f of
               None \<Rightarrow> None
             | Some (p1, g) \<Rightarrow> Some (p0, p1, p\<lparr>fds := g\<rparr>))
      else None)"

definition child :: "shproc \<Rightarrow> shproc" where
  "child p = \<lparr>fds = fds p, me = me p @ [kids p], kids = 0\<rparr>"

definition forked :: "shproc \<Rightarrow> shproc" where
  "forked p = p\<lparr>kids := kids p + 1\<rparr>"

definition sh_panic :: "shproc \<Rightarrow> string \<Rightarrow> act list" where
  "sh_panic p e = [Say (fds p 2) e [], Quit]"

text \<open>What the parent does after the fork depends on the parent afterwards.\<close>

definition fork1 :: "os \<Rightarrow> shproc \<Rightarrow> (shproc \<Rightarrow> act list) \<Rightarrow> (shproc \<Rightarrow> act list) \<Rightarrow> act list" where
  "fork1 s p in_child in_parent =
     (if fork_ok s (me (child p)) then Fork (in_child (child p)) # in_parent (forked p)
      else sh_panic p ''fork'')"

lemma fork1_cong [fundef_cong]:
  "s = s' \<Longrightarrow> p = p' \<Longrightarrow> c (child p') = c' (child p') \<Longrightarrow> d (forked p') = d' (forked p') \<Longrightarrow>
   fork1 s p c d = fork1 s' p' c' d'"
  by (simp add: fork1_def)

section \<open>Running a command\<close>

definition pipe_left :: "nat \<Rightarrow> nat \<Rightarrow> fdtab \<Rightarrow> fdtab" where
  "pipe_left p0 p1 f = sh_close (int p1) (sh_close (int p0) (sh_dup p1 (sh_close 1 f)))"

definition pipe_right :: "nat \<Rightarrow> nat \<Rightarrow> fdtab \<Rightarrow> fdtab" where
  "pipe_right p0 p1 f = sh_close (int p1) (sh_close (int p0) (sh_dup p0 (sh_close 0 f)))"

fun runcmd :: "os \<Rightarrow> cmd \<Rightarrow> shproc \<Rightarrow> act list" where
  "runcmd s (EXEC argv) p =
     (case argv of
        [] \<Rightarrow> [Quit]
      | a # _ \<Rightarrow>
          if exec_ok s argv then [Exec argv (fds p)]
          else [Say (fds p 2) ''exec %s failed'' a, Quit])"
| "runcmd s (REDIR c path mode fd) p =
     (let f = sh_close fd (fds p) in
      case sh_open s path mode f of
        None \<Rightarrow> [Say (f 2) ''open %s failed'' path, Quit]
      | Some (_, g) \<Rightarrow> runcmd s c (p\<lparr>fds := g\<rparr>))"
| "runcmd s (LIST l r) p =
     fork1 s p (runcmd s l) (\<lambda>q. Wait (fds q) # runcmd s r q)"
| "runcmd s (PIPE l r) p =
     (case sh_pipe s p of
        None \<Rightarrow> sh_panic p ''pipe''
      | Some (p0, p1, q) \<Rightarrow>
          fork1 s q (\<lambda>c. runcmd s l (c\<lparr>fds := pipe_left p0 p1 (fds c)\<rparr>)) (\<lambda>q.
          fork1 s q (\<lambda>c. runcmd s r (c\<lparr>fds := pipe_right p0 p1 (fds c)\<rparr>)) (\<lambda>q.
          let f = sh_close (int p1) (sh_close (int p0) (fds q)) in
          [Wait f, Wait f, Quit])))"
| "runcmd s (BACK c) p = fork1 s p (runcmd s c) (\<lambda>q. [Quit])"

section \<open>The main loop\<close>

definition sh_console :: "u8 list" where "sh_console = [99, 111, 110, 115, 111, 108, 101]"
definition O_RDWR :: u32 where "O_RDWR = 2"

lemma lowest_fd_Some: "lowest_fd f = Some i \<longleftrightarrow> i < nofile \<and> f i = None \<and> (\<forall>j<i. f j \<noteq> None)"
  by (auto simp: lowest_fd_def find_Some_iff)

text \<open>Each open takes one of the free descriptors.\<close>

function open_console :: "os \<Rightarrow> fdtab \<Rightarrow> fdtab" where
  "open_console s f =
     (case sh_open s sh_console O_RDWR f of
        None \<Rightarrow> f
      | Some (fd, g) \<Rightarrow> if fd \<ge> 3 then sh_close (int fd) g else open_console s g)"
  by pat_completeness auto
termination
proof (relation "measure (\<lambda>(s, f). card {i. i < nofile \<and> f i = None})")
  fix s f z fd g
  assume "sh_open s sh_console O_RDWR f = Some z" "(fd, g) = z"
  then have fd: "fd < nofile" "f fd = None" and g: "g = f(fd \<mapsto> File sh_console O_RDWR)"
    by (auto simp: sh_open_def sh_install_def lowest_fd_Some split: if_splits option.splits)
  have "{i. i < nofile \<and> g i = None} \<subset> {i. i < nofile \<and> f i = None}"
    using fd by (auto simp: g)
  then show "((s, g), s, f) \<in> measure (\<lambda>(s, f). card {i. i < nofile \<and> f i = None})"
    by (simp add: psubset_card_mono)
qed simp

declare open_console.simps [simp del]

text \<open>The string at the start of a buffer.\<close>

definition buf_str :: "u8 list \<Rightarrow> u8 list" where
  "buf_str b = takeWhile (\<lambda>c. c \<noteq> 0) b"

text \<open>The buffer with the next line and the input left; nothing at the end of the input.\<close>

definition getcmd :: "u8 list \<Rightarrow> u8 list \<Rightarrow> (u8 list \<times> u8 list) option option" where
  "getcmd buf input =
     map_option (\<lambda>(b, r). if b ! 0 = 0 then None else Some (b, r)) (gets (replicate (length buf) 0) (int (length buf)) input)"

definition run_line :: "os \<Rightarrow> u8 list \<Rightarrow> shproc \<Rightarrow> act list" where
  "run_line s buf p = (case parsecmd (buf_str buf) of Inl e \<Rightarrow> sh_panic p e | Inr c \<Rightarrow> runcmd s c p)"

text \<open>A line that is not a command to run: the cd before the fork.\<close>

definition sh_cd :: "os \<Rightarrow> shproc \<Rightarrow> u8 list \<Rightarrow> act list" where
  "sh_cd s p buf =
     (let path = buf_str (drop 3 (buf[length (buf_str buf) - 1 := 0])) in
      Chdir path # (if chdir_ok s path then [] else [Say (fds p 2) ''cannot cd %s'' path]))"

definition is_cd :: "u8 list \<Rightarrow> bool" where
  "is_cd buf \<longleftrightarrow> buf ! 0 = 99 \<and> buf ! 1 = 100 \<and> buf ! 2 = 32"

lemma gets_loop_rest:
  "gets_loop i m input buf = Some (j, b, r) \<Longrightarrow> length r + j = length input + i"
proof (induction i m input buf rule: gets_loop.induct)
  case (2 i m c input buf)
  then show ?case by (auto split: if_splits)
qed simp

lemma getcmd_less:
  assumes "getcmd buf input = Some (Some (b, r))"
  shows "length r < length input"
proof -
  obtain b0 where g: "gets (replicate (length buf) 0) (int (length buf)) input = Some (b0, r)" and nz: "b0 ! 0 \<noteq> 0"
    using assms by (auto simp: getcmd_def split: if_splits)
  obtain i b1 where l: "gets_loop 0 (int (length buf)) input (replicate (length buf) 0) = Some (i, b1, r)"
    and i: "i < length b1" "b0 = b1[i := 0]"
    using g by (auto simp: gets_def split: option.splits if_splits)
  have "i \<noteq> 0" using nz i by (metis nth_list_update_eq)
  with gets_loop_rest [OF l] show ?thesis by simp
qed

function sh_loop :: "os \<Rightarrow> shproc \<Rightarrow> u8 list \<Rightarrow> u8 list \<Rightarrow> act list option" where
  "sh_loop s p buf input =
     (case getcmd buf input of
        None \<Rightarrow> None
      | Some None \<Rightarrow> Some [Say (fds p 2) ''$ '' [], Quit]
      | Some (Some (b, rest)) \<Rightarrow>
          map_option ((#) (Say (fds p 2) ''$ '' []))
            (if is_cd b then map_option ((@) (sh_cd s p b)) (sh_loop s p b rest)
             else if fork_ok s (me (child p)) then
               map_option (\<lambda>as. Fork (run_line s b (child p)) # Wait (fds p) # as)
                 (sh_loop s (forked p) b rest)
             else Some (sh_panic p ''fork'')))"
  by pat_completeness auto
termination
  by (relation "measure (\<lambda>(s, p, buf, input). length input)") (auto dest: getcmd_less)

declare sh_loop.simps [simp del]

definition sh_main :: "os \<Rightarrow> fdtab \<Rightarrow> u8 list \<Rightarrow> act list option" where
  "sh_main s f input =
     sh_loop s \<lparr>fds = open_console s f, me = [], kids = 0\<rparr> (replicate 100 0) input"

section \<open>Descriptors\<close>

lemma lowest_fd_None: "lowest_fd f = None \<longleftrightarrow> (\<forall>i<nofile. f i \<noteq> None)"
  by (auto simp: lowest_fd_def find_None_iff)

lemma sh_install_Some:
  "sh_install e f = Some (i, g) \<longleftrightarrow> i < nofile \<and> f i = None \<and> (\<forall>j<i. f j \<noteq> None) \<and> g = f(i \<mapsto> e)"
proof -
  have "sh_install e f = Some (i, g) \<longleftrightarrow> lowest_fd f = Some i \<and> g = f(i \<mapsto> e)"
    by (auto simp: sh_install_def split: option.splits)
  then show ?thesis by (simp add: lowest_fd_Some)
qed

lemma sh_install_None: "sh_install e f = None \<longleftrightarrow> (\<forall>i<nofile. f i \<noteq> None)"
proof -
  have "sh_install e f = None \<longleftrightarrow> lowest_fd f = None" by (simp add: sh_install_def split: option.split)
  then show ?thesis by (simp add: lowest_fd_None)
qed

text \<open>The state in which the shell runs commands: the standard descriptors and room for a pipe.\<close>

definition ready :: "fdtab \<Rightarrow> bool" where
  "ready f \<longleftrightarrow> f 0 \<noteq> None \<and> f 1 \<noteq> None \<and> f 2 \<noteq> None \<and> 2 \<le> card {i. i < nofile \<and> f i = None}"

lemma ready_upd:
  assumes f: "ready f" and fd: "fd = 0 \<or> fd = 1"
  shows "ready (f(fd \<mapsto> e))"
proof -
  have "{i. i < nofile \<and> (f(fd \<mapsto> e)) i = None} = {i. i < nofile \<and> f i = None}"
    using f fd by (auto simp: ready_def intro: gr0I)
  then show ?thesis using f fd by (auto simp: ready_def simp del: fun_upd_apply) (auto simp: fun_upd_apply)
qed

text \<open>Two free descriptors, both above the standard ones.\<close>

lemma ready_pipe:
  assumes "ready (fds p)" "pipe_ok s (me p)"
  obtains p0 p1 where "3 \<le> p0" "p0 < p1" "p1 < nofile" "fds p p0 = None" "fds p p1 = None"
    "sh_pipe s p = Some (p0, p1, p\<lparr>fds := (fds p)(p0 \<mapsto> PipeR (me p), p1 \<mapsto> PipeW (me p))\<rparr>)"
proof -
  let ?f = "fds p"
  let ?S = "{i. i < nofile \<and> ?f i = None}"
  have card: "2 \<le> card ?S" using assms(1) by (simp add: ready_def)
  then have "?S \<noteq> {}" by (metis card.empty not_numeral_le_zero)
  then have "sh_install (PipeR (me p)) ?f \<noteq> None" by (auto simp: sh_install_None)
  then obtain p0 f1 where 1: "sh_install (PipeR (me p)) ?f = Some (p0, f1)" by auto
  then have p0: "p0 < nofile" "?f p0 = None" "\<forall>j<p0. ?f j \<noteq> None" "f1 = ?f(p0 \<mapsto> PipeR (me p))"
    by (simp_all add: sh_install_Some)
  have "1 \<le> card (?S - {p0})" using card p0 by (simp add: card_Diff_singleton)
  then have "?S - {p0} \<noteq> {}" by (metis card.empty not_one_le_zero)
  then have "sh_install (PipeW (me p)) f1 \<noteq> None" by (auto simp: sh_install_None p0)
  then obtain p1 f2 where 2: "sh_install (PipeW (me p)) f1 = Some (p1, f2)" by auto
  then have p1: "p1 < nofile" "f1 p1 = None" "\<forall>j<p1. f1 j \<noteq> None" "f2 = f1(p1 \<mapsto> PipeW (me p))"
    by (simp_all add: sh_install_Some)
  then have ne: "p1 \<noteq> p0" "?f p1 = None" using p0 by (auto split: if_splits)
  then have "p0 < p1" using p0(3) by (metis linorder_neqE_nat)
  moreover have "p0 \<noteq> 0" "p0 \<noteq> 1" "p0 \<noteq> 2" using assms(1) p0(2) unfolding ready_def by metis+
  moreover have "sh_pipe s p = Some (p0, p1, p\<lparr>fds := ?f(p0 \<mapsto> PipeR (me p), p1 \<mapsto> PipeW (me p))\<rparr>)"
    using 1 2 p0(4) p1(4) assms(2) by (simp add: sh_pipe_def)
  ultimately show ?thesis using p0 p1 ne that by simp
qed

section \<open>The wiring of a command\<close>

definition all_succeed :: os where
  "all_succeed = \<lparr>exec_ok = \<lambda>_. True, open_ok = \<lambda>_ _. True, pipe_ok = \<lambda>_. True, fork_ok = \<lambda>_. True,
     chdir_ok = \<lambda>_. True\<rparr>"

fun programs :: "act list \<Rightarrow> (u8 list list \<times> fdtab) list" where
  "programs [] = []"
| "programs (Exec argv f # as) = (argv, f) # programs as"
| "programs (Fork a # as) = programs a @ programs as"
| "programs (a # as) = programs as"

text \<open>The programs a command starts and their descriptors, with no system calls.\<close>

fun meaning :: "cmd \<Rightarrow> fdtab \<Rightarrow> nat list \<Rightarrow> nat \<Rightarrow> (u8 list list \<times> fdtab) list" where
  "meaning (EXEC argv) f w k = (if argv = [] then [] else [(argv, f)])"
| "meaning (REDIR c path mode fd) f w k = meaning c (f(nat fd \<mapsto> File path mode)) w k"
| "meaning (PIPE l r) f w k =
     meaning l (f(1 \<mapsto> PipeW w)) (w @ [k]) 0 @ meaning r (f(0 \<mapsto> PipeR w)) (w @ [k + 1]) 0"
| "meaning (LIST l r) f w k = meaning l f (w @ [k]) 0 @ meaning r f w (k + 1)"
| "meaning (BACK c) f w k = meaning c f (w @ [k]) 0"

lemma pipe_ends:
  assumes f: "ready f" and p: "3 \<le> p0" "p0 < p1" "p1 < nofile" "f p0 = None" "f p1 = None"
  shows "pipe_left p0 p1 (f(p0 \<mapsto> PipeR w, p1 \<mapsto> PipeW w)) = f(1 \<mapsto> PipeW w)"
    and "pipe_right p0 p1 (f(p0 \<mapsto> PipeR w, p1 \<mapsto> PipeW w)) = f(0 \<mapsto> PipeR w)"
    and "sh_close (int p1) (sh_close (int p0) (f(p0 \<mapsto> PipeR w, p1 \<mapsto> PipeW w))) = f"
proof -
  let ?g = "f(p0 \<mapsto> PipeR w, p1 \<mapsto> PipeW w)"
  have n: "p0 \<noteq> 0" "p0 \<noteq> 1" "p1 \<noteq> 0" "p1 \<noteq> 1" "p0 \<noteq> p1" "p0 < nofile" "(1::nat) < nofile" "(0::nat) < nofile"
    using p by (simp_all add: nofile_def)
  have f0: "f 0 \<noteq> None" using f by (simp add: ready_def)
  have 1: "sh_install (PipeW w) (?g(1 := None)) = Some (1, ?g(1 \<mapsto> PipeW w))"
    using n f0 by (simp add: sh_install_Some)
  have 2: "sh_install (PipeR w) (?g(0 := None)) = Some (0, ?g(0 \<mapsto> PipeR w))"
    using n by (simp add: sh_install_Some)
  have "sh_dup p1 (?g(1 := None)) = ?g(1 \<mapsto> PipeW w)" "sh_dup p0 (?g(0 := None)) = ?g(0 \<mapsto> PipeR w)"
    using 1 2 n by (simp_all add: sh_dup_def)
  then show "pipe_left p0 p1 ?g = f(1 \<mapsto> PipeW w)" "pipe_right p0 p1 ?g = f(0 \<mapsto> PipeR w)"
    "sh_close (int p1) (sh_close (int p0) ?g) = f"
    using n p by (auto simp: pipe_left_def pipe_right_def sh_close_def)
qed

lemma redir_open:
  assumes f: "ready f" and fd: "fd = 0 \<or> fd = 1"
  shows "sh_open all_succeed path mode (sh_close fd f) = Some (nat fd, f(nat fd \<mapsto> File path mode))"
  using assms by (auto simp: sh_open_def all_succeed_def sh_close_def nofile_def sh_install_Some ready_def)

text \<open>C25: In a process with the standard descriptors and two free ones, when no system call fails, runcmd
  runs exactly the programs of a well formed command, each with the descriptors the command means: a
  redirection replaces one, the two sides of a pipe have its ends as their output and input, and no program
  inherits a stray end of a pipe, whatever is nested in what.\<close>
theorem runcmd_wires:
  assumes "wf_cmd c" "ready (fds p)"
  shows "programs (runcmd all_succeed c p) = meaning c (fds p) (me p) (kids p)"
  using assms
proof (induction c arbitrary: p)
  case (EXEC argv)
  then show ?case by (cases argv) (auto simp: all_succeed_def)
next
  case (REDIR c path mode fd)
  then have fd: "fd = 0 \<or> fd = 1" and c: "wf_cmd c" by auto
  have "ready ((fds p)(nat fd \<mapsto> File path mode))" using REDIR.prems(2) fd by (auto intro!: ready_upd)
  then show ?case
    using redir_open [OF REDIR.prems(2) fd] REDIR.IH [OF c, of "p\<lparr>fds := (fds p)(nat fd \<mapsto> File path mode)\<rparr>"]
    by (simp del: fun_upd_apply)
next
  case (PIPE l r)
  have ok: "pipe_ok all_succeed (me p)" by (simp add: all_succeed_def)
  obtain p0 p1 where p: "3 \<le> p0" "p0 < p1" "p1 < nofile" "fds p p0 = None" "fds p p1 = None"
    and s: "sh_pipe all_succeed p = Some (p0, p1, p\<lparr>fds := (fds p)(p0 \<mapsto> PipeR (me p), p1 \<mapsto> PipeW (me p))\<rparr>)"
    using ready_pipe [OF PIPE.prems(2) ok] .
  have "ready ((fds p)(1 \<mapsto> e))" "ready ((fds p)(0 \<mapsto> e))" for e
    using PIPE.prems(2) by (auto intro!: ready_upd)
  then show ?case
    using PIPE s pipe_ends [OF PIPE.prems(2) p]
    by (simp add: fork1_def child_def forked_def all_succeed_def [THEN arg_cong [of _ _ fork_ok]] Let_def del: fun_upd_apply)
next
  case (LIST l r)
  then show ?case by (simp add: fork1_def child_def forked_def all_succeed_def [THEN arg_cong [of _ _ fork_ok]])
next
  case (BACK c)
  then show ?case by (simp add: fork1_def child_def forked_def all_succeed_def [THEN arg_cong [of _ _ fork_ok]])
qed

definition three_given :: shproc where
  "three_given = \<lparr>fds = [0 \<mapsto> Given 0, 1 \<mapsto> Given 1, 2 \<mapsto> Given 2], me = [], kids = 0\<rparr>"

lemma ready_given: "ready (fds three_given)"
proof -
  have "{3, 4} \<subseteq> {i. i < nofile \<and> fds three_given i = None}"
    by (auto simp: three_given_def nofile_def)
  then have "card {3 :: nat, 4} \<le> card {i. i < nofile \<and> fds three_given i = None}" by (intro card_mono) auto
  then show ?thesis by (simp add: ready_def) (simp add: three_given_def)
qed

text \<open>\<open>a < f | b\<close>\<close>

lemma runcmd_wires_witness:
  "programs (runcmd all_succeed (PIPE (REDIR (EXEC [[97]]) [102] RDONLY 0) (EXEC [[98]])) three_given) =
   [([[97]], [0 \<mapsto> File [102] 0, 1 \<mapsto> PipeW [], 2 \<mapsto> Given 2]), ([[98]], [0 \<mapsto> PipeR [], 1 \<mapsto> Given 1, 2 \<mapsto> Given 2])]"
proof -
  have wf: "wf_cmd (PIPE (REDIR (EXEC [[97]]) [102] RDONLY 0) (EXEC [[98]]))"
    by (simp add: MAXARGS_def is_word_def word_char_def is_ws_def is_sym_def whitespace_def symbols_def char_defs)
  show ?thesis
    using runcmd_wires [OF wf ready_given] by (auto simp: three_given_def RDONLY_def fun_eq_iff)
qed

section \<open>Processes end and wait for their own children\<close>

text \<open>A process performs its actions up to an exec or exit and none after; it waits at most once for each
  child it has forked; and where it waits, it holds no end of its own pipe, so that the readers of the
  pipe can see its end.\<close>

definition no_own_pipe :: "nat list \<Rightarrow> fdtab \<Rightarrow> bool" where
  "no_own_pipe w f \<longleftrightarrow> list_all (\<lambda>i. f i \<noteq> Some (PipeR w) \<and> f i \<noteq> Some (PipeW w)) [0..<nofile]"

fun proper :: "nat list \<Rightarrow> nat \<Rightarrow> nat \<Rightarrow> act list \<Rightarrow> bool" where
  "proper w k n [] \<longleftrightarrow> False"
| "proper w k n (Exec argv f # as) \<longleftrightarrow> as = []"
| "proper w k n (Quit # as) \<longleftrightarrow> as = []"
| "proper w k n (Fork a # as) \<longleftrightarrow> proper (w @ [k]) 0 0 a \<and> proper w (k + 1) (n + 1) as"
| "proper w k n (Wait f # as) \<longleftrightarrow> 0 < n \<and> no_own_pipe w f \<and> proper w k (n - 1) as"
| "proper w k n (Say e s x # as) \<longleftrightarrow> proper w k n as"
| "proper w k n (Chdir d # as) \<longleftrightarrow> proper w k n as"

text \<open>The pipes of a process that has made none yet.\<close>

definition fresh :: "nat list \<Rightarrow> fdtab \<Rightarrow> bool" where
  "fresh w f \<longleftrightarrow> (\<forall>q. PipeR q \<in> ran f \<or> PipeW q \<in> ran f \<longrightarrow> \<not> prefix w q)"

lemma fresh_mono: "fresh w f \<Longrightarrow> ran g \<subseteq> ran f \<Longrightarrow> fresh w g"
  unfolding fresh_def by blast

lemma fresh_child: "fresh w f \<Longrightarrow> fresh (w @ [k]) f"
  unfolding fresh_def by (meson append_prefixD)

lemma fresh_own: "fresh w f \<Longrightarrow> no_own_pipe w f"
  unfolding fresh_def no_own_pipe_def list_all_iff by (metis prefix_order.refl ranI)

lemma ran_upd: "ran (f(i := e)) \<subseteq> ran f \<union> set_option e"
  by (auto simp: ran_def)

lemma ran_close: "ran (sh_close fd f) \<subseteq> ran f"
  using ran_upd [of f "nat fd" None] by (simp add: sh_close_def)

lemma ran_install: "sh_install e f = Some (i, g) \<Longrightarrow> ran g \<subseteq> insert e (ran f)"
  using ran_upd [of f i "Some e"] by (auto simp: sh_install_Some)

lemma ran_dup: "ran (sh_dup fd f) \<subseteq> ran f"
proof (cases "f fd")
  case (Some e)
  then have "e \<in> ran f" by (rule ranI)
  with Some show ?thesis using ran_install [of e f] by (auto simp: sh_dup_def split: option.splits)
qed (simp add: sh_dup_def)

lemma ran_pipe_ends: "ran (pipe_left p0 p1 f) \<subseteq> ran f" "ran (pipe_right p0 p1 f) \<subseteq> ran f"
  unfolding pipe_left_def pipe_right_def by (meson ran_close ran_dup subset_trans)+

lemma fresh_pipe:
  assumes "fresh w f" "ran g \<subseteq> insert (PipeW w) (insert (PipeR w) (ran f))"
  shows "fresh (w @ [k]) g"
proof -
  have "\<not> prefix (w @ [k]) w" by (auto dest: prefix_length_le)
  then show ?thesis using assms fresh_child [OF assms(1), of k] unfolding fresh_def by blast
qed

lemma fork1_proper:
  assumes "proper (me p @ [kids p]) 0 0 (c (child p))" "proper (me p) (kids p + 1) (n + 1) (d (forked p))"
  shows "proper (me p) (kids p) n (fork1 s p c d)"
  using assms by (simp add: fork1_def child_def sh_panic_def)

text \<open>C26: Whichever system calls fail, runcmd never returns: its process and all the processes it starts
  end in one exec or exit, each waits at most once for each child it has forked, and none waits while it
  holds an end of the pipe it made.\<close>
theorem runcmd_proper:
  assumes "fresh (me p) (fds p)"
  shows "proper (me p) (kids p) n (runcmd s c p)"
  using assms
proof (induction c arbitrary: p n)
  case (EXEC argv)
  then show ?case by (cases argv) auto
next
  case (REDIR c path mode fd)
  show ?case
  proof (cases "sh_open s path mode (sh_close fd (fds p))")
    case (Some z)
    obtain i g where z: "z = (i, g)" by (cases z)
    with Some have "ran g \<subseteq> insert (File path mode) (ran (sh_close fd (fds p)))"
      by (auto simp: sh_open_def dest!: ran_install split: if_splits)
    then have "fresh (me p) g"
      using REDIR.prems ran_close [of fd "fds p"] unfolding fresh_def by blast
    with Some z REDIR.IH [of "p\<lparr>fds := g\<rparr>" n] show ?thesis by simp
  qed simp
next
  case (PIPE l r)
  show ?case
  proof (cases "sh_pipe s p")
    case None
    then show ?thesis by (simp add: sh_panic_def)
  next
    case (Some z)
    obtain p0 p1 q where z: "z = (p0, p1, q)" by (cases z)
    let ?w = "me p"
    obtain g where q: "q = p\<lparr>fds := g\<rparr>" and g: "g = (fds p)(p0 \<mapsto> PipeR ?w, p1 \<mapsto> PipeW ?w)"
      and lim: "p0 < nofile" "p1 < nofile"
      using Some z by (auto simp: sh_pipe_def sh_install_Some split: if_splits option.splits)
    have ran: "ran g \<subseteq> insert (PipeW ?w) (insert (PipeR ?w) (ran (fds p)))"
      unfolding g by (auto simp: ran_def)
    have left: "fresh (?w @ [k]) (pipe_left p0 p1 g)" and right: "fresh (?w @ [k]) (pipe_right p0 p1 g)" for k
      using fresh_pipe [OF PIPE.prems] ran ran_pipe_ends by (meson subset_trans)+
    have "no_own_pipe ?w (sh_close (int p1) (sh_close (int p0) g))"
      using fresh_own [OF PIPE.prems] lim by (auto simp: no_own_pipe_def list_all_iff sh_close_def g)
    then have wait: "proper ?w (kids p + 2) (n + 2)
        (let f = sh_close (int p1) (sh_close (int p0) g) in [Wait f, Wait f, Quit])"
      by (simp add: Let_def)
    define cl where "cl = (\<lambda>c :: shproc. runcmd s l (c\<lparr>fds := pipe_left p0 p1 (fds c)\<rparr>))"
    define cr where "cr = (\<lambda>c :: shproc. runcmd s r (c\<lparr>fds := pipe_right p0 p1 (fds c)\<rparr>))"
    define e where "e = (\<lambda>q :: shproc. let f = sh_close (int p1) (sh_close (int p0) (fds q)) in [Wait f, Wait f, Quit])"
    have 1: "proper (me q @ [kids q]) 0 0 (cl (child q))"
      using PIPE.IH(1) [of "child q\<lparr>fds := pipe_left p0 p1 (fds (child q))\<rparr>" 0] left by (simp add: q child_def cl_def)
    have 2: "proper (me (forked q) @ [kids (forked q)]) 0 0 (cr (child (forked q)))"
      using PIPE.IH(2) [of "child (forked q)\<lparr>fds := pipe_right p0 p1 (fds (child (forked q)))\<rparr>" 0] right
      by (simp add: q child_def forked_def cr_def)
    have "proper (me (forked q)) (kids (forked q)) (n + 1) (fork1 s (forked q) cr e)"
      using wait by (intro fork1_proper 2) (simp add: q forked_def e_def)
    then have "proper (me q) (kids q) n (fork1 s q cl (\<lambda>q. fork1 s q cr e))"
      by (intro fork1_proper 1) (simp add: forked_def)
    moreover have "runcmd s (PIPE l r) p = fork1 s q cl (\<lambda>q. fork1 s q cr e)"
      using Some z by (simp add: cl_def cr_def e_def)
    ultimately show ?thesis by (simp add: q)
  qed
next
  case (LIST l r)
  have "proper (me p @ [kids p]) 0 0 (runcmd s l (child p))"
    using LIST.IH(1) [of "child p" 0] LIST.prems by (simp add: child_def fresh_child)
  moreover have "proper (me p) (kids p + 1) (n + 1) (Wait (fds (forked p)) # runcmd s r (forked p))"
    using LIST.IH(2) [of "forked p" n] LIST.prems by (simp add: forked_def fresh_own)
  ultimately show ?case by (simp add: fork1_proper)
next
  case (BACK c)
  have "proper (me p @ [kids p]) 0 0 (runcmd s c (child p))"
    using BACK.IH [of "child p" 0] BACK.prems by (simp add: child_def fresh_child)
  then show ?case by (simp add: fork1_proper)
qed

lemma runcmd_proper_witness:
  "proper [] 0 0 (runcmd all_succeed (PIPE (EXEC [[97]]) (EXEC [[98]])) three_given)"
proof -
  have "fresh (me three_given) (fds three_given)"
    by (auto simp: fresh_def three_given_def)
  then show ?thesis using runcmd_proper [of three_given 0 all_succeed "PIPE (EXEC [[97]]) (EXEC [[98]])"]
    by (simp add: three_given_def del: runcmd.simps)
qed

section \<open>The loop of main\<close>

text \<open>The console is opened until the standard descriptors are there.\<close>

lemma open_console_standard:
  assumes "open_ok s sh_console O_RDWR" "f i = None" "3 \<le> i" "i < nofile"
  shows "open_console s f 0 \<noteq> None \<and> open_console s f 1 \<noteq> None \<and> open_console s f 2 \<noteq> None"
  using assms
proof (induction s f rule: open_console.induct)
  case (1 s f)
  have "sh_install (File sh_console O_RDWR) f \<noteq> None" using 1 by (auto simp: sh_install_None)
  then obtain fd g where g: "sh_install (File sh_console O_RDWR) f = Some (fd, g)" by auto
  then have o: "sh_open s sh_console O_RDWR f = Some (fd, g)" using 1 by (simp add: sh_open_def)
  show ?case
  proof (cases "3 \<le> fd")
    case True
    with g have "f 0 \<noteq> None" "f 1 \<noteq> None" "f 2 \<noteq> None" "sh_close (int fd) g = f"
      by (auto simp: sh_install_Some sh_close_def)
    with o True show ?thesis by (simp add: open_console.simps [of s f])
  next
    case False
    with g 1 have "g i = None" by (auto simp: sh_install_Some)
    with o False 1(1) [OF o refl False] 1(2-) show ?thesis by (simp add: open_console.simps [of s f])
  qed
qed

text \<open>What the shell does with a line of its input.\<close>

definition line_buf :: "u8 list \<Rightarrow> u8 list" where
  "line_buf l = l @ [10] @ replicate (99 - length l) 0"

definition typed :: "u8 list \<Rightarrow> bool" where
  "typed l \<longleftrightarrow> length l < 99 \<and> 0 \<notin> set l \<and> 10 \<notin> set l \<and> 13 \<notin> set l"

lemma gets_loop_line:
  assumes "10 \<notin> set l" "13 \<notin> set l" "int (length pre) + int (length l) + 1 < m"
  shows "gets_loop (length pre) m (l @ 10 # rest) (pre @ replicate (length l + Suc k) 0) =
    Some (length pre + length l + 1, pre @ l @ 10 # replicate k 0, rest)"
  using assms
proof (induction l arbitrary: pre)
  case (Cons c l)
  then show ?case using Cons.IH [of "pre @ [c]"] by (simp add: list_update_append)
qed (simp add: list_update_append)

lemma line_buf_facts:
  assumes "typed l"
  shows "length (line_buf l) = 100" "line_buf l ! 0 \<noteq> 0" "buf_str (line_buf l) = l @ [10]"
    "is_cd (line_buf l) \<longleftrightarrow> take 3 l = [99, 100, 32]"
    "buf_str (drop 3 ((line_buf l)[length (buf_str (line_buf l)) - 1 := 0])) = drop 3 l"
proof -
  have l: "length l < 99" "0 \<notin> set l" using assms by (simp_all add: typed_def)
  then show "length (line_buf l) = 100" by (simp add: line_buf_def)
  show "line_buf l ! 0 \<noteq> 0" using l by (cases l) (auto simp: line_buf_def)
  have tw: "takeWhile (\<lambda>c. c \<noteq> 0) (r @ y) = r @ takeWhile (\<lambda>c. c \<noteq> 0) y" if "0 \<notin> set r" for r y :: "u8 list"
    using that by (intro takeWhile_append2) auto
  obtain z where z: "replicate (99 - length l) (0 :: u8) = 0 # z"
    using l by (cases "99 - length l") auto
  show c: "buf_str (line_buf l) = l @ [10]" using l(2) by (simp add: buf_str_def line_buf_def z tw)
  show "buf_str (drop 3 ((line_buf l)[length (buf_str (line_buf l)) - 1 := 0])) = drop 3 l"
  proof -
    have "(line_buf l)[length (buf_str (line_buf l)) - 1 := 0] = l @ 0 # 0 # z"
      unfolding c by (simp add: line_buf_def z list_update_append)
    moreover have "drop 3 (l @ 0 # 0 # z) = drop 3 l @ drop (3 - length l) (0 # 0 # z)" by simp
    moreover have "0 \<notin> set (drop 3 l)" using l(2) by (meson in_set_dropD)
    moreover have "takeWhile (\<lambda>c. c \<noteq> 0) (drop (3 - length l) (0 # 0 # z)) = []"
    proof -
      have "set z \<subseteq> {0}" using z by (metis set_replicate_conv_if set_subset_Cons subset_trans empty_subsetI subset_refl)
      then have "set (drop (3 - length l) (0 # 0 # z)) \<subseteq> {0}"
        using set_drop_subset [of "3 - length l" "0 # 0 # z"] by auto
      then show ?thesis by (cases "drop (3 - length l) (0 # 0 # z)") auto
    qed
    ultimately show ?thesis by (simp add: buf_str_def tw)
  qed
  show "is_cd (line_buf l) \<longleftrightarrow> take 3 l = [99, 100, 32]"
    by (cases l rule: list.exhaust; cases "tl l"; cases "tl (tl l)")
      (auto simp: is_cd_def line_buf_def nth_append nth_Cons' take_Cons')
qed

lemma getcmd_line:
  assumes "typed l" "length buf = 100"
  shows "getcmd buf (l @ 10 # rest) = Some (Some (line_buf l, rest))"
proof -
  have "gets (replicate 100 0) 100 (l @ 10 # rest) = Some (line_buf l, rest)"
  proof -
    have len: "length l + Suc (99 - length l) = 100" "length l < 99" using assms by (simp_all add: typed_def)
    then have "gets_loop 0 100 (l @ 10 # rest) (replicate 100 0) = Some (length l + 1, line_buf l, rest)"
      using gets_loop_line [of l "[]" 100 rest "99 - length l"] assms by (simp add: typed_def line_buf_def)
    moreover have "(line_buf l)[length l + 1 := 0] = line_buf l"
      using len by (simp add: line_buf_def list_update_append) (metis Suc_diff_Suc list_update_code(2) replicate_Suc)
    ultimately show ?thesis using line_buf_facts(1) [OF assms(1)] len by (simp add: gets_def)
  qed
  then show ?thesis using line_buf_facts(2) [OF assms(1)] assms(2) by (simp add: getcmd_def)
qed

lemma getcmd_end: "length buf = 100 \<Longrightarrow> getcmd buf [] = Some None"
  by (simp add: getcmd_def gets_def)

text \<open>The session of a list of lines.\<close>

fun session :: "os \<Rightarrow> shproc \<Rightarrow> u8 list list \<Rightarrow> act list" where
  "session s p [] = [Say (fds p 2) ''$ '' [], Quit]"
| "session s p (l # ls) =
     Say (fds p 2) ''$ '' [] #
     (if take 3 l = [99, 100, 32] then
        Chdir (drop 3 l) #
        (if chdir_ok s (drop 3 l) then [] else [Say (fds p 2) ''cannot cd %s'' (drop 3 l)]) @ session s p ls
      else if fork_ok s (me p @ [kids p]) then
        Fork (case parsecmd (l @ [10]) of Inl e \<Rightarrow> sh_panic (child p) e | Inr c \<Rightarrow> runcmd s c (child p)) #
        Wait (fds p) # session s (forked p) ls
      else sh_panic p ''fork'')"

lemma me_child: "me (child p) = me p @ [kids p]"
  by (simp add: child_def)

lemma sh_loop_session:
  "list_all typed ls \<Longrightarrow> length buf = 100 \<Longrightarrow>
   sh_loop s p buf (concat (map (\<lambda>l. l @ [10]) ls)) = Some (session s p ls)"
proof (induction ls arbitrary: p buf)
  case Nil
  then show ?case by (simp add: sh_loop.simps [of s p buf] getcmd_end)
next
  case (Cons l ls)
  then have l: "typed l" and ls: "list_all typed ls" by simp_all
  note f = line_buf_facts [OF l]
  note IH = Cons.IH [OF ls f(1)]
  show ?case
    using getcmd_line [OF l Cons.prems(2)] f(3-5)
    by (simp add: sh_loop.simps [of s p buf] IH sh_cd_def run_line_def me_child forked_def Let_def)
qed

text \<open>C28: Fed with lines that fit its buffer, the shell prompts for each, changes directory itself for cd,
  starts for every other line one child that parses and runs it, with the three standard descriptors open
  in both, waits for it before the next prompt, and exits at the end of its input.\<close>
theorem shell_session:
  assumes "list_all typed ls" "open_ok s sh_console O_RDWR" "f i = None" "3 \<le> i" "i < nofile"
  shows "\<exists>g. g 0 \<noteq> None \<and> g 1 \<noteq> None \<and> g 2 \<noteq> None
    \<and> sh_main s f (concat (map (\<lambda>l. l @ [10]) ls)) = Some (session s \<lparr>fds = g, me = [], kids = 0\<rparr> ls)"
  using open_console_standard [of s f i, OF assms(2-)] sh_loop_session [OF assms(1)]
  by (intro exI [of _ "open_console s f"]) (simp add: sh_main_def)

lemma shell_session_witness:
  "\<exists>g. g 0 \<noteq> None \<and> g 1 \<noteq> None \<and> g 2 \<noteq> None
    \<and> sh_main all_succeed Map.empty [108, 115, 10] = Some (session all_succeed \<lparr>fds = g, me = [], kids = 0\<rparr> [[108, 115]])"
  using shell_session [of "[[108, 115]]" all_succeed Map.empty 3]
  by (simp add: typed_def all_succeed_def nofile_def)

end
