(* ===== verification/Userprogs.thy ===== *)
theory Userprogs
  imports Shrun
begin

text \<open>
  The small user programs: wc, cat, echo, ls, rm, mkdir, ln, kill and the first process, init (usr/*.c). A
  program is the list of what it asks of the kernel and prints; which calls succeed and what the reads return
  are parameters. A formatted line is kept as its arguments. In init and ls, descriptors are those of Shrun.
\<close>

section \<open>wc\<close>

record counts =
  lines :: int
  words_seen :: int
  chars :: int
  inword :: bool

definition wc_blanks :: "u8 list" where "wc_blanks = [32, 13, 9, 10, 11, 0]"

definition wc_byte :: "u8 \<Rightarrow> counts \<Rightarrow> counts" where
  "wc_byte b k =
     (let k = k\<lparr>chars := chars k + 1\<rparr>;
          k = (if b = 10 then k\<lparr>lines := lines k + 1\<rparr> else k)
      in if u_strchr wc_blanks b \<noteq> Some None then k\<lparr>inword := False\<rparr>
         else if \<not> inword k then k\<lparr>words_seen := words_seen k + 1, inword := True\<rparr>
         else k)"

text \<open>The results of the reads: the bytes, none at the end of the file; \<open>None\<close> for an error. The result is
  the counts printed, or \<open>None\<close> after a read error.\<close>

fun wc_loop :: "counts \<Rightarrow> u8 list option list \<Rightarrow> (int \<times> int \<times> int) option" where
  "wc_loop k [] = Some (lines k, words_seen k, chars k)"
| "wc_loop k (None # rs) = None"
| "wc_loop k (Some bs # rs) =
     (if bs = [] then Some (lines k, words_seen k, chars k) else wc_loop (fold wc_byte bs k) rs)"

definition wc :: "u8 list option list \<Rightarrow> (int \<times> int \<times> int) option" where
  "wc rs = wc_loop \<lparr>lines = 0, words_seen = 0, chars = 0, inword = False\<rparr> rs"

datatype wc_act = Wc_counts int int int "u8 list" | Wc_read_error | Wc_cannot_open "u8 list" | Wc_exit

text \<open>A read error exits the program.\<close>

definition wc_one :: "u8 list option list \<Rightarrow> u8 list \<Rightarrow> wc_act list \<Rightarrow> wc_act list" where
  "wc_one rs name rest =
     (case wc rs of
        None \<Rightarrow> [Wc_read_error, Wc_exit]
      | Some (l, w, c) \<Rightarrow> Wc_counts l w c name # rest)"

fun wc_files :: "(u8 list \<Rightarrow> u8 list option list option) \<Rightarrow> u8 list list \<Rightarrow> wc_act list" where
  "wc_files fs [] = [Wc_exit]"
| "wc_files fs (a # as) =
     (case fs a of None \<Rightarrow> [Wc_cannot_open a, Wc_exit] | Some rs \<Rightarrow> wc_one rs a (wc_files fs as))"

definition wc_main :: "(u8 list \<Rightarrow> u8 list option list option) \<Rightarrow> u8 list option list \<Rightarrow> u8 list list \<Rightarrow> wc_act list" where
  "wc_main fs input args = (if args = [] then wc_one input [] [Wc_exit] else wc_files fs args)"

section \<open>cat and echo\<close>

text \<open>The bytes written and whether all reads succeeded.\<close>

fun cat :: "u8 list option list \<Rightarrow> u8 list \<times> bool" where
  "cat [] = ([], True)"
| "cat (None # rs) = ([], False)"
| "cat (Some bs # rs) = (if bs = [] then ([], True) else let (out, ok) = cat rs in (bs @ out, ok))"

datatype cat_act = Cat_out "u8 list" | Cat_read_error | Cat_cannot_open "u8 list" | Cat_exit

definition cat_one :: "u8 list option list \<Rightarrow> cat_act list \<Rightarrow> cat_act list" where
  "cat_one rs rest =
     (let (out, ok) = cat rs in Cat_out out # (if ok then rest else [Cat_read_error, Cat_exit]))"

fun cat_files :: "(u8 list \<Rightarrow> u8 list option list option) \<Rightarrow> u8 list list \<Rightarrow> cat_act list" where
  "cat_files fs [] = [Cat_exit]"
| "cat_files fs (a # as) =
     (case fs a of None \<Rightarrow> [Cat_cannot_open a, Cat_exit] | Some rs \<Rightarrow> cat_one rs (cat_files fs as))"

definition cat_main :: "(u8 list \<Rightarrow> u8 list option list option) \<Rightarrow> u8 list option list \<Rightarrow> u8 list list \<Rightarrow> cat_act list" where
  "cat_main fs input args = (if args = [] then cat_one input [Cat_exit] else cat_files fs args)"

fun echo :: "u8 list list \<Rightarrow> u8 list" where
  "echo [] = []"
| "echo (a # as) = a @ (if as \<noteq> [] then [32] else [10]) @ echo as"

section \<open>rm, mkdir, ln and kill\<close>

datatype fs_act = Unlink "u8 list" | Mkdir "u8 list" | Link "u8 list" "u8 list" | Kill u32 | Complain string "u8 list list" | Exit

text \<open>The loops of rm and mkdir stop at the first failure.\<close>

fun each_arg :: "(u8 list \<Rightarrow> fs_act) \<Rightarrow> string \<Rightarrow> (u8 list \<Rightarrow> bool) \<Rightarrow> u8 list list \<Rightarrow> fs_act list" where
  "each_arg f msg ok [] = [Exit]"
| "each_arg f msg ok (a # as) = f a # (if ok a then each_arg f msg ok as else [Complain msg [a], Exit])"

definition rm_main :: "(u8 list \<Rightarrow> bool) \<Rightarrow> u8 list list \<Rightarrow> fs_act list" where
  "rm_main ok args =
     (if args = [] then [Complain ''Usage: rm files...'' [], Exit] else each_arg Unlink ''rm: %s failed to delete'' ok args)"

definition mkdir_main :: "(u8 list \<Rightarrow> bool) \<Rightarrow> u8 list list \<Rightarrow> fs_act list" where
  "mkdir_main ok args =
     (if args = [] then [Complain ''Usage: mkdir files...'' [], Exit] else each_arg Mkdir ''mkdir: %s failed to create'' ok args)"

definition ln_main :: "bool \<Rightarrow> u8 list list \<Rightarrow> fs_act list" where
  "ln_main ok args =
     (if length args \<noteq> 2 then [Complain ''Usage: ln old new'' [], Exit]
      else Link (args ! 0) (args ! 1) # (if ok then [] else [Complain ''link %s %s: failed'' args]) @ [Exit])"

text \<open>The arguments with their terminators.\<close>

fun kill_args :: "u8 list list \<Rightarrow> fs_act list option" where
  "kill_args [] = Some [Exit]"
| "kill_args (a # as) =
     (case atoi (a @ [0]) of None \<Rightarrow> None | Some n \<Rightarrow> map_option ((#) (Kill n)) (kill_args as))"

section \<open>ls\<close>

definition LS_DIRSIZ :: nat where "LS_DIRSIZ = 14"

text \<open>The part of a path after its last slash.\<close>

definition last_part :: "u8 list \<Rightarrow> u8 list" where
  "last_part path = rev (takeWhile (\<lambda>c. c \<noteq> 47) (rev path))"

definition fmtname :: "u8 list \<Rightarrow> u8 list" where
  "fmtname path =
     (let p = last_part path in
      if length p \<ge> LS_DIRSIZ then p else p @ replicate (LS_DIRSIZ - length p) 32)"

datatype ls_line = Ls_line "u8 list" int u32 u32 | Ls_cannot_open "u8 list" | Ls_cannot_stat "u8 list" | Ls_too_long

text \<open>type, inode and size, as \<open>fstat\<close> and \<open>stat\<close> return them.\<close>

type_synonym ls_stat = "int \<times> u32 \<times> u32"

text \<open>The loop over the entries (inode number and name field); \<open>pre\<close> is the path with its slash.\<close>

fun ls_entries :: "(u8 list \<Rightarrow> ls_stat option) \<Rightarrow> u8 list \<Rightarrow> (u16 \<times> u8 list) list \<Rightarrow> ls_line list" where
  "ls_entries st pre [] = []"
| "ls_entries st pre ((inum, name) # es) =
     (if inum = 0 then ls_entries st pre es
      else
        let p = pre @ buf_str (take LS_DIRSIZ name) in
        (case st p of
           None \<Rightarrow> Ls_cannot_stat p
         | Some (t, ino, n) \<Rightarrow> Ls_line (fmtname p) t ino n) # ls_entries st pre es)"

definition T_DIR :: int where "T_DIR = 1"
definition T_FILE :: int where "T_FILE = 2"

definition ls :: "(u8 list \<Rightarrow> ls_stat option) \<Rightarrow> (u8 list \<Rightarrow> ((u16 \<times> u8 list) list \<times> ls_stat option) option) \<Rightarrow> u8 list \<Rightarrow> ls_line list" where
  "ls st fs path =
     (case fs path of
        None \<Rightarrow> [Ls_cannot_open path]
      | Some (es, None) \<Rightarrow> [Ls_cannot_stat path]
      | Some (es, Some (t, ino, n)) \<Rightarrow>
          if t = T_FILE then [Ls_line (fmtname path) t ino n]
          else if t = T_DIR then
            if length path + 1 + LS_DIRSIZ + 1 > 512 then [Ls_too_long]
            else ls_entries st (path @ [47]) es
          else [])"

section \<open>init\<close>

definition KBD_PATH :: "u8 list" where
  "KBD_PATH = [47, 100, 101, 118, 47, 117, 97, 114, 116, 95, 107, 101, 121, 98, 111, 97, 114, 100]"
definition FB_PATH :: "u8 list" where "FB_PATH = [47, 100, 101, 118, 47, 102, 98]"

text \<open>Opening a device, after making its node when there is none yet.\<close>

definition open_dev :: "os \<Rightarrow> os \<Rightarrow> u8 list \<Rightarrow> u32 \<Rightarrow> fdtab \<Rightarrow> fdtab" where
  "open_dev s made path mode f =
     (case sh_open s path mode f of
        Some (_, g) \<Rightarrow> g
      | None \<Rightarrow> (case sh_open made path mode f of Some (_, g) \<Rightarrow> g | None \<Rightarrow> f))"

text \<open>The descriptors of the window manager init starts. The first oracle holds before the nodes are made, the
  second after.\<close>

definition init_fds :: "os \<Rightarrow> os \<Rightarrow> fdtab \<Rightarrow> fdtab" where
  "init_fds s made f = sh_dup 0 (sh_dup 0 (open_dev s made FB_PATH O_RDWR (open_dev s made KBD_PATH RDONLY f)))"

text \<open>The loop: a child each time the last one has gone; \<open>ws\<close> are the results of the waits, \<open>None\<close> an error,
  and \<open>pid\<close> the child.\<close>

fun init_reap :: "int \<Rightarrow> int option list \<Rightarrow> (nat \<times> int option list) option" where
  "init_reap pid [] = None"
| "init_reap pid (None # ws) = Some (0, ws)"
| "init_reap pid (Some w # ws) =
     (if w = pid then Some (0, ws) else map_option (\<lambda>(z, ws). (Suc z, ws)) (init_reap pid ws))"

section \<open>What they do\<close>

text \<open>The words of a text: the bytes that are not blank and begin it or follow a blank.\<close>

definition blank :: "u8 \<Rightarrow> bool" where "blank b \<longleftrightarrow> b \<in> {32, 13, 9, 10, 11}"

definition word_starts :: "u8 list \<Rightarrow> nat list" where
  "word_starts t = filter (\<lambda>i. \<not> blank (t ! i) \<and> (i = 0 \<or> blank (t ! (i - 1)))) [0..<length t]"

lemma wc_blank: "u_strchr wc_blanks b \<noteq> Some None \<longleftrightarrow> blank b"
  by (auto simp: wc_blanks_def blank_def)

lemma word_starts_snoc:
  "word_starts (t @ [b]) = word_starts t @ (if \<not> blank b \<and> (t = [] \<or> blank (last t)) then [length t] else [])"
proof -
  have "filter (\<lambda>i. \<not> blank ((t @ [b]) ! i) \<and> (i = 0 \<or> blank ((t @ [b]) ! (i - 1)))) [0..<length t] = word_starts t"
    unfolding word_starts_def by (rule filter_cong) (auto simp: nth_append)
  then show ?thesis by (cases "t = []") (auto simp: word_starts_def nth_append last_conv_nth)
qed

definition counted :: "u8 list \<Rightarrow> counts" where
  "counted t = \<lparr>lines = int (count_list t 10), words_seen = int (length (word_starts t)), chars = int (length t),
     inword = (t \<noteq> [] \<and> \<not> blank (last t))\<rparr>"

lemma wc_byte_counted: "wc_byte b (counted t) = counted (t @ [b])"
  unfolding wc_byte_def wc_blank by (auto simp: counted_def Let_def blank_def word_starts_snoc)

lemma fold_wc_byte: "fold wc_byte bs (counted t) = counted (t @ bs)"
  by (induction bs arbitrary: t) (simp_all add: wc_byte_counted)

lemma wc_loop_counted:
  "[] \<notin> set rs \<Longrightarrow> wc_loop (counted t) (map Some rs @ [Some []]) =
   (let k = counted (t @ concat rs) in Some (lines k, words_seen k, chars k))"
  by (induction rs arbitrary: t) (auto simp: fold_wc_byte Let_def)

text \<open>C39: However the reads cut up a file, wc counts its newlines, the words of the whole text and its bytes: a
  word that spans two reads counts once.\<close>
theorem wc_counts:
  assumes "[] \<notin> set chunks"
  shows "wc (map Some chunks @ [Some []]) =
    Some (int (count_list (concat chunks) 10), int (length (word_starts (concat chunks))), int (length (concat chunks)))"
proof -
  have "\<lparr>lines = 0, words_seen = 0, chars = 0, inword = False\<rparr> = counted []"
    by (simp add: counted_def word_starts_def)
  with wc_loop_counted [OF assms, of "[]"] show ?thesis by (simp add: wc_def counted_def Let_def)
qed

lemma wc_counts_witness: "wc [Some [97, 32, 98], Some [99, 10], Some []] = Some (1, 2, 5)"
proof -
  have "word_starts ((((([] @ [97]) @ [32]) @ [98]) @ [99]) @ [10]) = [0, 2]"
    unfolding word_starts_snoc by (simp add: blank_def word_starts_def)
  then show ?thesis using wc_counts [of "[[97, 32, 98], [99, 10]]"] by simp
qed

text \<open>cat writes the whole file, echo its arguments, and ls never writes past its buffer of 512 bytes.\<close>

lemma cat_copies: "[] \<notin> set chunks \<Longrightarrow> cat (map Some chunks @ [Some []]) = (concat chunks, True)"
  by (induction chunks) auto

lemma fmtname_width: "LS_DIRSIZ \<le> length (fmtname path)"
  by (simp add: fmtname_def Let_def)

text \<open>With the devices there, the standard output of what init starts is the frame buffer and its standard
  error the keyboard, opened for reading only; the second dup is descriptor 3.\<close>

lemma init_descriptors:
  assumes "open_ok s KBD_PATH RDONLY" "open_ok s FB_PATH O_RDWR"
  shows "init_fds s made Map.empty =
    [0 \<mapsto> File KBD_PATH RDONLY, 1 \<mapsto> File FB_PATH O_RDWR, 2 \<mapsto> File KBD_PATH RDONLY, 3 \<mapsto> File KBD_PATH RDONLY]"
proof -
  have i: "sh_install e f = Some (n, f(n \<mapsto> e))" if "n < 16" "f n = None" "\<forall>j<n. f j \<noteq> None" for e f n
    using that by (simp add: sh_install_Some nofile_def)
  have "sh_install e Map.empty = Some (0, [0 \<mapsto> e])" "sh_install e [0 \<mapsto> a] = Some (1, [0 \<mapsto> a, 1 \<mapsto> e])"
    "sh_install e [0 \<mapsto> a, 1 \<mapsto> b] = Some (2, [0 \<mapsto> a, 1 \<mapsto> b, 2 \<mapsto> e])"
    "sh_install e [0 \<mapsto> a, 1 \<mapsto> b, 2 \<mapsto> c] = Some (3, [0 \<mapsto> a, 1 \<mapsto> b, 2 \<mapsto> c, 3 \<mapsto> e])" for a b c e
    by (rule i; auto)+
  with assms show ?thesis by (simp add: init_fds_def open_dev_def sh_open_def sh_dup_def)
qed

end
