(* ===== verification/Wm.thy ===== *)
theory Wm
  imports Bytes
begin

text \<open>
  The window manager (usr/wm.c): overlapping windows, each with its own buffer of pixels, drawn on the
  frame buffer device one pixel at a time so that a window never paints over one above it. The
  array \<open>windows\<close> holds the windows from the bottom to the top; its first \<open>num_windows\<close> entries are
  the list here. Coordinates are C ints far from their limits.
\<close>

section \<open>Rectangles\<close>

record rect =
  rx :: int
  ry :: int
  rw :: int
  rh :: int

definition MAX_RECTS :: nat where "MAX_RECTS = 32"
definition CHAR_W :: int where "CHAR_W = 8"
definition CHAR_H :: int where "CHAR_H = 16"
definition WIN_WIDTH :: int where "WIN_WIDTH = 400"
definition WIN_HEIGHT :: int where "WIN_HEIGHT = 300"

definition rect_intersect :: "rect \<Rightarrow> rect \<Rightarrow> rect option" where
  "rect_intersect a b =
     (let x1 = (if rx a > rx b then rx a else rx b);
          y1 = (if ry a > ry b then ry a else ry b);
          x2 = (if rx a + rw a < rx b + rw b then rx a + rw a else rx b + rw b);
          y2 = (if ry a + rh a < ry b + rh b then ry a + rh a else ry b + rh b)
      in if x1 \<ge> x2 \<or> y1 \<ge> y2 then None
         else Some \<lparr>rx = x1, ry = y1, rw = x2 - x1, rh = y2 - y1\<rparr>)"

text \<open>The parts of \<open>r\<close> above, below, left and right of what it shares with \<open>w\<close>.\<close>

definition rect_subtract :: "rect \<Rightarrow> rect \<Rightarrow> rect list" where
  "rect_subtract r w =
     (case rect_intersect r w of
        None \<Rightarrow> [r]
      | Some i \<Rightarrow>
          (if ry i > ry r then [\<lparr>rx = rx r, ry = ry r, rw = rw r, rh = ry i - ry r\<rparr>] else [])
          @ (if ry i + rh i < ry r + rh r
             then [\<lparr>rx = rx r, ry = ry i + rh i, rw = rw r, rh = (ry r + rh r) - (ry i + rh i)\<rparr>] else [])
          @ (if rx i > rx r then [\<lparr>rx = rx r, ry = ry i, rw = rx i - rx r, rh = rh i\<rparr>] else [])
          @ (if rx i + rw i < rx r + rw r
             then [\<lparr>rx = rx i + rw i, ry = ry i, rw = (rx r + rw r) - (rx i + rw i), rh = rh i\<rparr>] else []))"

section \<open>Windows\<close>

record window =
  wx :: int
  wy :: int
  width :: int
  height :: int
  pipefd :: "int \<times> int"
  stdout_pipe :: "int \<times> int"
  wpid :: int
  bg_color :: u16
  fg_color :: u16
  buffer :: "u16 list"
  cursor_x :: int
  cursor_y :: int

definition rect_of :: "window \<Rightarrow> rect" where
  "rect_of w = \<lparr>rx = wx w, ry = wy w, rw = width w, rh = height w\<rparr>"

text \<open>The loop of \<open>compute_visible_rects\<close> over the windows above; a list longer than its array would be
  stored past the end (\<open>None\<close>).\<close>

fun visible_loop :: "rect list \<Rightarrow> window list \<Rightarrow> rect list option" where
  "visible_loop cur [] = Some cur"
| "visible_loop cur (w # ws) =
     (let next = concat (map (\<lambda>r. rect_subtract r (rect_of w)) cur)
      in if length next > MAX_RECTS then None
         else if next = [] then Some []
         else visible_loop next ws)"

definition compute_visible_rects :: "window list \<Rightarrow> nat \<Rightarrow> rect list option" where
  "compute_visible_rects ws idx = visible_loop [rect_of (ws ! idx)] (drop (Suc idx) ws)"

section \<open>Drawing\<close>

text \<open>\<open>fb_draw_pixel\<close> writes one record to the device: a point of the screen and its colour. A function
  that draws is the list of the pixels it writes, in order.\<close>

type_synonym pixel = "(int \<times> int) \<times> u16"

definition rect_pixels :: "window \<Rightarrow> rect \<Rightarrow> pixel list" where
  "rect_pixels w rc =
     concat (map (\<lambda>y. map (\<lambda>x.
       let px = rx rc - wx w + x; py = ry rc - wy w + y
       in ((rx rc + x, ry rc + y), buffer w ! nat (py * width w + px))) [0 .. rw rc - 1]) [0 .. rh rc - 1])"

definition blit_window_rects :: "window list \<Rightarrow> nat \<Rightarrow> pixel list option" where
  "blit_window_rects ws idx =
     map_option (\<lambda>rs. concat (map (rect_pixels (ws ! idx)) rs)) (compute_visible_rects ws idx)"

fun redraw_from :: "window list \<Rightarrow> nat list \<Rightarrow> pixel list option" where
  "redraw_from ws [] = Some []"
| "redraw_from ws (i # is) =
     (case blit_window_rects ws i of
        None \<Rightarrow> None
      | Some px \<Rightarrow> map_option (\<lambda>q. px @ q) (redraw_from ws is))"

definition redraw_all :: "window list \<Rightarrow> pixel list option" where
  "redraw_all ws = redraw_from ws [0 ..< length ws]"

text \<open>The cells of its buffer a border covers, in the order of the two loops.\<close>

definition border_cells :: "window \<Rightarrow> int list" where
  "border_cells w =
     concat (map (\<lambda>x. [0 * width w + x, (height w - 1) * width w + x]) [0 .. width w - 1])
     @ concat (map (\<lambda>y. [y * width w + 0, y * width w + (width w - 1)]) [0 .. height w - 1])"

definition set_cells :: "int list \<Rightarrow> u16 \<Rightarrow> u16 list \<Rightarrow> u16 list" where
  "set_cells cells color buf = fold (\<lambda>i b. b[nat i := color]) cells buf"

definition draw_window_border :: "u16 \<Rightarrow> window \<Rightarrow> window" where
  "draw_window_border color w = w\<lparr>buffer := set_cells (border_cells w) color (buffer w)\<rparr>"

definition FOCUSED_BORDER_COLOR :: u16 where "FOCUSED_BORDER_COLOR = 0xFFE0"
definition NORMAL_BORDER_COLOR :: u16 where "NORMAL_BORDER_COLOR = 0xFFFF"

definition draw_window_borders_according_focus :: "window list \<Rightarrow> window list" where
  "draw_window_borders_according_focus ws =
     map (\<lambda>i. draw_window_border (if i = length ws - 1 then FOCUSED_BORDER_COLOR else NORMAL_BORDER_COLOR) (ws ! i))
       [0 ..< length ws]"

section \<open>Text\<close>

text \<open>Where the next character goes: the cursor wraps at the right edge, and to the top at the bottom.\<close>

definition wrap_cursor :: "window \<Rightarrow> window" where
  "wrap_cursor w =
     (let w1 = (if (cursor_x w + 1) * CHAR_W > width w
                then w\<lparr>cursor_x := 0, cursor_y := cursor_y w + 1\<rparr> else w)
      in if (cursor_y w1 + 1) * CHAR_H > height w1 then w1\<lparr>cursor_y := 0\<rparr> else w1)"

text \<open>The cells of the set pixels of a glyph; the glyph has fifteen rows of eight bits.\<close>

definition glyph_cells :: "(nat \<Rightarrow> u8) \<Rightarrow> u8 \<Rightarrow> window \<Rightarrow> int list" where
  "glyph_cells font c w =
     (let px = cursor_x w * CHAR_W; py = cursor_y w * CHAR_H in
      concat (map (\<lambda>row. concat (map (\<lambda>b.
        let x = px + int b; y = py + int row in
        if bit (font (16 * unat c + row)) b \<and> x < width w \<and> y < height w then [y * width w + x] else [])
        [0 ..< 8])) [0 ..< 15]))"

definition window_put_char :: "(nat \<Rightarrow> u8) \<Rightarrow> u8 \<Rightarrow> window \<Rightarrow> window" where
  "window_put_char font c w =
     (if c = 10 then w\<lparr>cursor_x := 0, cursor_y := cursor_y w + 1\<rparr>
      else
        let w1 = wrap_cursor w;
            w2 = w1\<lparr>buffer := set_cells (glyph_cells font c w1) (fg_color w1) (buffer w1)\<rparr>
        in w2\<lparr>cursor_x := cursor_x w2 + 1\<rparr>)"

section \<open>Focus and events\<close>

record wm =
  windows :: "window list"
  focused_pid :: int

definition focus_window :: "nat \<Rightarrow> wm \<Rightarrow> wm" where
  "focus_window idx s =
     (let ws = windows s; w = ws ! idx
      in s\<lparr>windows := take idx ws @ drop (Suc idx) ws @ [w], focused_pid := wpid w\<rparr>)"

text \<open>The parent's part of \<open>start_process_in_window\<close>, with the pid fork returned and the descriptors of the
  two pipes. The borders are drawn before the new window is counted.\<close>

definition new_window :: "int \<Rightarrow> int \<Rightarrow> int \<times> int \<Rightarrow> int \<times> int \<Rightarrow> int \<Rightarrow> window" where
  "new_window x y p q pid =
     \<lparr>wx = x, wy = y, width = WIN_WIDTH, height = WIN_HEIGHT, pipefd = p, stdout_pipe = q, wpid = pid,
      bg_color = 0x001F, fg_color = 0xFFFF, buffer = replicate (nat (WIN_WIDTH * WIN_HEIGHT)) 0x001F,
      cursor_x = 0, cursor_y = 0\<rparr>"

definition start_process_in_window :: "int \<Rightarrow> int \<Rightarrow> int \<times> int \<Rightarrow> int \<times> int \<Rightarrow> int \<Rightarrow> wm \<Rightarrow> wm" where
  "start_process_in_window x y p q pid s =
     s\<lparr>windows := draw_window_borders_according_focus (windows s) @ [new_window x y p q pid],
       focused_pid := pid\<rparr>"

text \<open>A key read from the keyboard: the new state, the pixels drawn, and the bytes written with the
  descriptor each goes to. A pass over the output of a window draws its characters, then the window.\<close>

definition handle_key :: "u8 \<Rightarrow> wm \<Rightarrow> (wm \<times> pixel list \<times> (int \<times> u8) list) option" where
  "handle_key c s =
     (if c = 49 \<or> c = 50 then
        let s1 = focus_window (if c = 49 then 0 else 1) s
        in map_option (\<lambda>px. (s1, px, [])) (redraw_all (windows s1))
      else Some (s, [], map (\<lambda>w. (snd (pipefd w), c)) (filter (\<lambda>w. wpid w = focused_pid s) (windows s))))"

definition handle_output :: "(nat \<Rightarrow> u8) \<Rightarrow> nat \<Rightarrow> u8 list \<Rightarrow> wm \<Rightarrow> (wm \<times> pixel list) option" where
  "handle_output font i bs s =
     (if bs = [] then Some (s, [])
      else
        let s1 = s\<lparr>windows := (windows s)[i := fold (window_put_char font) bs (windows s ! i)]\<rparr>
        in map_option (\<lambda>px. (s1, px)) (blit_window_rects (windows s1) i))"

section \<open>Clipping\<close>

text \<open>How many rectangles of a list a point lies in.\<close>

definition inside :: "rect \<Rightarrow> int \<times> int \<Rightarrow> bool" where
  "inside r p \<longleftrightarrow> rx r \<le> fst p \<and> fst p < rx r + rw r \<and> ry r \<le> snd p \<and> snd p < ry r + rh r"

definition cover :: "rect list \<Rightarrow> int \<times> int \<Rightarrow> nat" where
  "cover rs p = length (filter (\<lambda>r. inside r p) rs)"

lemma cover_simps [simp]:
  "cover [] p = 0" "cover (r # rs) p = (if inside r p then 1 else 0) + cover rs p"
  "cover (rs @ ts) p = cover rs p + cover ts p"
  by (simp_all add: cover_def)

text \<open>The pieces cover what is left of the rectangle, each point once.\<close>

lemma rect_intersect_SomeD:
  assumes "rect_intersect r w = Some i"
  shows "inside i p \<longleftrightarrow> inside r p \<and> inside w p"
    and "rx r \<le> rx i" "ry r \<le> ry i" "rx i + rw i \<le> rx r + rw r" "ry i + rh i \<le> ry r + rh r"
      "0 < rw i" "0 < rh i"
  using assms by (auto simp: rect_intersect_def inside_def Let_def split: if_splits)

lemma cover_subtract: "cover (rect_subtract r w) p = (if inside r p \<and> \<not> inside w p then 1 else 0)"
proof (cases "rect_intersect r w")
  case None
  then have "\<not> (inside r p \<and> inside w p)" by (auto simp: rect_intersect_def inside_def Let_def split: if_splits)
  with None show ?thesis by (auto simp: rect_subtract_def)
next
  case (Some i)
  note i = rect_intersect_SomeD [OF Some]
  have "cover (rect_subtract r w) p = (if inside r p \<and> \<not> inside i p then 1 else 0)"
  proof -
    have c: "cover (if c then [q] else []) p = (if c \<and> inside q p then 1 else 0)" for c q by simp
    show ?thesis using i(2-7)
      by (simp only: rect_subtract_def Some option.case cover_simps c)
        (cases "snd p < ry i"; cases "snd p < ry i + rh i"; cases "fst p < rx i"; cases "fst p < rx i + rw i";
         simp add: inside_def)
  qed
  then show ?thesis by (simp add: i(1))
qed

lemma length_rect_subtract: "length (rect_subtract r w) \<le> 4"
  by (auto simp: rect_subtract_def split: option.split)

lemma cover_concat: "cover (concat (map f rs)) p = (\<Sum>r\<leftarrow>rs. cover (f r) p)"
  by (induction rs) auto

lemma cover_subtract_all:
  "cover (concat (map (\<lambda>r. rect_subtract r w) cur)) p = (if inside w p then 0 else cover cur p)"
  by (induction cur) (auto simp: cover_subtract)

lemma visible_loop_cover:
  "visible_loop cur ws = Some rs \<Longrightarrow>
   cover rs p = (if \<exists>w\<in>set ws. inside (rect_of w) p then 0 else cover cur p)"
proof (induction ws arbitrary: cur)
  case (Cons w ws)
  let ?next = "concat (map (\<lambda>r. rect_subtract r (rect_of w)) cur)"
  show ?case
  proof (cases "?next = []")
    case True
    then have "cover ?next p = 0" by (simp only: cover_simps)
    then have "(if inside (rect_of w) p then 0 else cover cur p) = 0" by (simp only: cover_subtract_all)
    then show ?thesis using Cons.prems True by (simp add: Let_def split: if_splits)
  next
    case False
    then have "visible_loop ?next ws = Some rs" using Cons.prems by (simp add: Let_def split: if_splits)
    from Cons.IH [OF this] show ?thesis by (simp add: cover_subtract_all)
  qed
qed simp

text \<open>With \<open>n\<close> windows above there are at most \<open>4 ^ n\<close> pieces.\<close>

lemma visible_loop_some: "length cur * 4 ^ length ws \<le> MAX_RECTS \<Longrightarrow> visible_loop cur ws \<noteq> None"
proof (induction ws arbitrary: cur)
  case (Cons w ws)
  let ?next = "concat (map (\<lambda>r. rect_subtract r (rect_of w)) cur)"
  have n: "length ?next \<le> 4 * length cur"
    by (induction cur) (use length_rect_subtract [of _ "rect_of w"] in \<open>auto intro: add_mono\<close>)
  have "length ?next * 4 ^ length ws \<le> length cur * 4 ^ length (w # ws)"
    using mult_right_mono [OF n, of "4 ^ length ws"] by (simp add: mult.assoc mult.commute)
  also have "\<dots> \<le> MAX_RECTS" by (rule Cons.prems)
  finally have m: "length ?next * 4 ^ length ws \<le> MAX_RECTS" .
  moreover have "length ?next * 1 \<le> length ?next * 4 ^ length ws" by (rule mult_left_mono) simp_all
  ultimately have "length ?next \<le> MAX_RECTS" by linarith
  then show ?case using Cons.IH [OF m] by (simp add: Let_def)
qed simp

section \<open>Composition\<close>

lemma cell_bounds:
  fixes x y W H :: int
  assumes "0 \<le> x" "x < W" "0 \<le> y" "y < H"
  shows "0 \<le> y * W + x" "y * W + x < W * H"
proof -
  show "0 \<le> y * W + x" using assms by simp
  have "y * W + x < (y + 1) * W" using assms by (simp add: distrib_right)
  also have "\<dots> \<le> H * W" by (rule mult_right_mono) (use assms in auto)
  finally show "y * W + x < W * H" by (simp add: mult.commute)
qed

text \<open>A screen gives a point its colour; the device stores the pixels in the order they are written. The
  window seen at a point is the topmost that contains it.\<close>

definition paint :: "pixel list \<Rightarrow> (int \<times> int \<Rightarrow> u16) \<Rightarrow> int \<times> int \<Rightarrow> u16" where
  "paint px screen = fold (\<lambda>(p, c) s. s(p := c)) px screen"

definition cell_of :: "window \<Rightarrow> int \<times> int \<Rightarrow> int" where
  "cell_of w p = (snd p - wy w) * width w + (fst p - wx w)"

definition top_window :: "window list \<Rightarrow> int \<times> int \<Rightarrow> window option" where
  "top_window ws p = find (\<lambda>w. inside (rect_of w) p) (rev ws)"

definition points :: "rect \<Rightarrow> (int \<times> int) list" where
  "points rc = concat (map (\<lambda>y. map (\<lambda>x. (rx rc + x, ry rc + y)) [0 .. rw rc - 1]) [0 .. rh rc - 1])"

abbreviation draw_points :: "window \<Rightarrow> (int \<times> int) list \<Rightarrow> pixel list" where
  "draw_points w ps \<equiv> map (\<lambda>p. (p, buffer w ! nat (cell_of w p))) ps"

lemma rect_pixels_points: "rect_pixels w rc = draw_points w (points rc)"
  by (simp add: rect_pixels_def points_def map_concat o_def cell_of_def Let_def algebra_simps)

lemma count_list_distinct: "distinct xs \<Longrightarrow> count_list xs p = (if p \<in> set xs then 1 else 0)"
  by (induction xs) auto

lemma distinct_points: "distinct (points rc)"
proof -
  have "distinct (concat (map (\<lambda>y. map (\<lambda>x. (rx rc + x, ry rc + y)) [0 .. m]) ys))" if "distinct ys" for m ys
    using that by (induction ys) (auto simp: distinct_map inj_on_def)
  then show ?thesis by (simp add: points_def)
qed

lemma set_points: "p \<in> set (points rc) \<longleftrightarrow> inside rc p"
proof
  assume p: "inside rc p"
  obtain a b where ab: "p = (a, b)" by (cases p)
  have x: "a - rx rc \<in> set [0 .. rw rc - 1]" and y: "b - ry rc \<in> set [0 .. rh rc - 1]"
    using p by (simp_all add: ab inside_def)
  have "p \<in> (\<lambda>x. (rx rc + x, ry rc + (b - ry rc))) ` set [0 .. rw rc - 1]"
    using imageI [OF x, of "\<lambda>x. (rx rc + x, ry rc + (b - ry rc))"] by (simp add: ab)
  then have "p \<in> set (map (\<lambda>x. (rx rc + x, ry rc + (b - ry rc))) [0 .. rw rc - 1])" by (simp only: set_map)
  then show "p \<in> set (points rc)"
    unfolding points_def set_concat set_map [of _ "[0 .. rh rc - 1]"] image_image by (rule UN_I [OF y])
qed (auto simp: points_def inside_def)

lemma count_points: "count_list (points rc) p = (if inside rc p then 1 else 0)"
  by (simp add: count_list_distinct distinct_points set_points)

lemma count_points_cover: "count_list (concat (map points rs)) p = cover rs p"
  by (induction rs) (auto simp: count_points)

text \<open>What one window draws: each of its points that no window above contains, once.\<close>

lemma blit_points:
  assumes "idx < length ws" "length ws \<le> 3"
  obtains ps where "blit_window_rects ws idx = Some (draw_points (ws ! idx) ps)"
    "\<And>p. count_list ps p =
       (if inside (rect_of (ws ! idx)) p \<and> \<not> (\<exists>w\<in>set (drop (Suc idx) ws). inside (rect_of w) p) then 1 else 0)"
proof -
  have "(4::nat) ^ length (drop (Suc idx) ws) \<le> 4 ^ 2" by (rule power_increasing) (use assms in auto)
  then have "visible_loop [rect_of (ws ! idx)] (drop (Suc idx) ws) \<noteq> None"
    by (intro visible_loop_some) (simp add: MAX_RECTS_def)
  then obtain rs where rs: "visible_loop [rect_of (ws ! idx)] (drop (Suc idx) ws) = Some rs" by blast
  show thesis
  proof
    show "blit_window_rects ws idx = Some (draw_points (ws ! idx) (concat (map points rs)))"
      by (simp add: blit_window_rects_def compute_visible_rects_def rs map_concat o_def fun_eq_iff
        rect_pixels_points cong: map_cong)
    show "\<And>p. count_list (concat (map points rs)) p =
       (if inside (rect_of (ws ! idx)) p \<and> \<not> (\<exists>w\<in>set (drop (Suc idx) ws). inside (rect_of w) p) then 1 else 0)"
      using visible_loop_cover [OF rs] by (auto simp: count_points_cover)
  qed
qed

lemma redraw_from_Some:
  "\<forall>i\<in>set is. blit_window_rects ws i = Some (px i) \<Longrightarrow> redraw_from ws is = Some (concat (map px is))"
  by (induction "is") auto

lemma paint_simps [simp]:
  "paint [] s = s" "paint ((p, c) # px) s = paint px (s(p := c))"
  by (simp_all add: paint_def)

lemma paint_other: "p \<notin> fst ` set px \<Longrightarrow> paint px s p = s p"
  by (induction px arbitrary: s) auto

lemma paint_same:
  "p \<in> fst ` set px \<Longrightarrow> (\<And>c. (p, c) \<in> set px \<Longrightarrow> c = v) \<Longrightarrow> paint px s p = v"
proof (induction px arbitrary: s)
  case (Cons a px)
  show ?case
  proof (cases "p \<in> fst ` set px")
    case True
    then show ?thesis using Cons.IH [OF True] Cons.prems(2) by (cases a) simp
  next
    case False
    then show ?thesis using Cons.prems by (cases a) (auto simp: paint_other)
  qed
qed simp

text \<open>The index of the topmost window at a point.\<close>

definition seen_at :: "window list \<Rightarrow> int \<times> int \<Rightarrow> nat \<Rightarrow> bool" where
  "seen_at ws p i \<longleftrightarrow> inside (rect_of (ws ! i)) p \<and> \<not> (\<exists>w\<in>set (drop (Suc i) ws). inside (rect_of w) p)"

lemma seen_at_unique:
  assumes "seen_at ws p i" "seen_at ws p j" "i < length ws" "j < length ws"
  shows "i = j"
proof -
  have "\<not> a < b" if "seen_at ws p a" "seen_at ws p b" "b < length ws" for a b
  proof
    assume "a < b"
    then have "ws ! b \<in> set (drop (Suc a) ws)"
      using that(3) \<open>a < b\<close> nth_mem [of "b - Suc a" "drop (Suc a) ws"] by simp
    then show False using that(1,2) by (auto simp: seen_at_def)
  qed
  then show ?thesis using assms by (meson linorder_neqE_nat)
qed

lemma seen_at_Cons: "seen_at (w # ws) p (Suc i) = seen_at ws p i"
  by (simp add: seen_at_def)

lemma top_window_Cons:
  "top_window (w # ws) p =
   (case top_window ws p of None \<Rightarrow> if inside (rect_of w) p then Some w else None | Some u \<Rightarrow> Some u)"
proof -
  have "find P (xs @ ys) = (case find P xs of None \<Rightarrow> find P ys | Some u \<Rightarrow> Some u)" for P :: "window \<Rightarrow> bool" and xs ys
    by (induction xs) auto
  then show ?thesis by (simp add: top_window_def split: option.split)
qed

lemma top_window_None: "top_window ws p = None \<longleftrightarrow> \<not> (\<exists>w\<in>set ws. inside (rect_of w) p)"
  by (auto simp: top_window_def find_None_iff)

lemma top_window_seen: "top_window ws p = Some w \<Longrightarrow> \<exists>i<length ws. ws ! i = w \<and> seen_at ws p i"
proof (induction ws)
  case (Cons a ws)
  show ?case
  proof (cases "top_window ws p")
    case None
    have "inside (rect_of a) p" "a = w"
      using Cons.prems by (simp_all add: top_window_Cons None split: if_splits)
    moreover have "seen_at (a # ws) p 0"
      using None \<open>inside (rect_of a) p\<close> by (simp add: top_window_None seen_at_def)
    ultimately have "seen_at (a # ws) p 0" "a = w" by simp_all
    then show ?thesis by auto
  next
    case (Some u)
    then have "top_window ws p = Some w" using Cons.prems by (simp add: top_window_Cons)
    from Cons.IH [OF this] show ?thesis by (metis Suc_less_eq length_Cons nth_Cons_Suc seen_at_Cons)
  qed
qed (simp add: top_window_def)

text \<open>What \<open>redraw_all\<close> draws, window by window.\<close>

lemma redraw_all_points:
  assumes "length ws \<le> 3"
  obtains ps where
    "redraw_all ws = Some (concat (map (\<lambda>i. draw_points (ws ! i) (ps i)) [0 ..< length ws]))"
    "\<And>i p. i < length ws \<Longrightarrow> count_list (ps i) p = (if seen_at ws p i then 1 else 0)"
proof -
  have "\<forall>i. \<exists>ps. i < length ws \<longrightarrow> blit_window_rects ws i = Some (draw_points (ws ! i) ps)
      \<and> (\<forall>p. count_list ps p = (if seen_at ws p i then 1 else 0))"
  proof (rule allI)
    fix i
    show "\<exists>ps. i < length ws \<longrightarrow> blit_window_rects ws i = Some (draw_points (ws ! i) ps)
      \<and> (\<forall>p. count_list ps p = (if seen_at ws p i then 1 else 0))"
  proof (cases "i < length ws")
    case True
    from blit_points [OF True assms] obtain qs where "blit_window_rects ws i = Some (draw_points (ws ! i) qs)"
      "\<And>p. count_list qs p = (if inside (rect_of (ws ! i)) p
         \<and> \<not> (\<exists>w\<in>set (drop (Suc i) ws). inside (rect_of w) p) then 1 else 0)" by blast
    then show ?thesis unfolding seen_at_def by blast
  qed simp
  qed
  from choice [OF this] obtain ps where ps: "\<And>i. i < length ws \<Longrightarrow> blit_window_rects ws i = Some (draw_points (ws ! i) (ps i))"
    "\<And>i p. i < length ws \<Longrightarrow> count_list (ps i) p = (if seen_at ws p i then 1 else 0)" by blast
  have r: "redraw_all ws = Some (concat (map (\<lambda>i. draw_points (ws ! i) (ps i)) [0 ..< length ws]))"
    unfolding redraw_all_def by (rule redraw_from_Some) (simp add: ps(1))
  show thesis by (rule that [OF r ps(2)])
qed

lemma count_list_set: "count_list xs p = (if P then 1 else 0) \<Longrightarrow> p \<in> set xs \<longleftrightarrow> P"
  by (metis count_list_0_iff zero_neq_one)

lemma count_seen:
  assumes "\<And>i p. i < length ws \<Longrightarrow> count_list (ps i) p = (if seen_at ws p i then 1 else 0)"
  shows "count_list (concat (map ps [0 ..< length ws])) p = (if \<exists>w\<in>set ws. inside (rect_of w) p then 1 else 0)"
  using assms
proof (induction ws arbitrary: ps)
  case (Cons w ws)
  have s: "count_list (ps (Suc i)) q = (if seen_at ws q i then 1 else 0)" if "i < length ws" for i q
    using Cons.prems [of "Suc i" q] that by (simp add: seen_at_Cons)
  have m: "map ps [0 ..< length (w # ws)] = ps 0 # map (\<lambda>i. ps (Suc i)) [0 ..< length ws]"
    by (simp add: upt_conv_Cons map_Suc_upt [symmetric] o_def del: upt_Suc)
  have "count_list (ps 0) p = (if seen_at (w # ws) p 0 then 1 else 0)" by (rule Cons.prems) simp
  then show ?case using Cons.IH [of "\<lambda>i. ps (Suc i)", OF s] unfolding m by (simp add: seen_at_def)
qed simp

text \<open>C34: \<open>redraw_all\<close> (with the visible rectangles fitting their arrays) draws every point of the
  windows exactly once and no other, and the screen then has at every point the colour the topmost
  window there holds in its buffer, wherever the windows lie; the buffer is read within its bounds.\<close>

theorem wm_composites:
  assumes "length ws \<le> 3"
  shows "\<exists>px. redraw_all ws = Some px
    \<and> (\<forall>p. count_list (map fst px) p = (if \<exists>w\<in>set ws. inside (rect_of w) p then 1 else 0))
    \<and> (\<forall>p screen. paint px screen p =
         (case top_window ws p of None \<Rightarrow> screen p | Some w \<Rightarrow> buffer w ! nat (cell_of w p)))
    \<and> (\<forall>w p. inside (rect_of w) p \<longrightarrow> 0 \<le> cell_of w p \<and> cell_of w p < width w * height w)"
proof -
  obtain ps where r: "redraw_all ws = Some (concat (map (\<lambda>i. draw_points (ws ! i) (ps i)) [0 ..< length ws]))"
    and c: "\<And>i p. i < length ws \<Longrightarrow> count_list (ps i) p = (if seen_at ws p i then 1 else 0)"
    using redraw_all_points [OF assms] by blast
  let ?px = "concat (map (\<lambda>i. draw_points (ws ! i) (ps i)) [0 ..< length ws])"
  have f: "map fst ?px = concat (map ps [0 ..< length ws])" by (simp add: map_concat o_def)
  have n: "count_list (map fst ?px) p = (if \<exists>w\<in>set ws. inside (rect_of w) p then 1 else 0)" for p
    unfolding f by (rule count_seen [OF c])
  have "paint ?px screen p = (case top_window ws p of None \<Rightarrow> screen p | Some w \<Rightarrow> buffer w ! nat (cell_of w p))"
    for p screen
  proof (cases "top_window ws p")
    case None
    then have "p \<notin> set (map fst ?px)" using count_list_set [OF n [of p]] None top_window_None [of ws p] by blast
    then have "p \<notin> fst ` set ?px" by (simp only: set_map not_False_eq_True)
    from paint_other [OF this] show ?thesis by (simp only: None option.case)
  next
    case (Some w)
    then have "\<exists>w\<in>set ws. inside (rect_of w) p" using top_window_None [of ws p] by auto
    then have "p \<in> set (map fst ?px)" using count_list_set [OF n [of p]] by blast
    then have p: "p \<in> fst ` set ?px" by (simp only: set_map)
    obtain i where i: "i < length ws" "ws ! i = w" "seen_at ws p i" using top_window_seen [OF Some] by blast
    have "col = buffer w ! nat (cell_of w p)" if "(p, col) \<in> set ?px" for col
    proof -
      from that obtain j where j: "j < length ws" "p \<in> set (ps j)" "col = buffer (ws ! j) ! nat (cell_of (ws ! j) p)"
        by auto
      have "j = i" using seen_at_unique [OF _ i(3) j(1) i(1)] j(2) count_list_set [OF c [OF j(1)]] by simp
      then show ?thesis using j(3) i(2) by simp
    qed
    from paint_same [OF p this] show ?thesis by (simp add: Some)
  qed
  moreover have "0 \<le> cell_of w p \<and> cell_of w p < width w * height w" if "inside (rect_of w) p" for w p
    using that by (auto simp: cell_of_def inside_def rect_of_def intro: cell_bounds)
  ultimately show ?thesis using r n by blast
qed

text \<open>A window of 4 by 3 pixels with a smaller one on part of it.\<close>

definition small_window :: "int \<Rightarrow> int \<Rightarrow> int \<Rightarrow> int \<Rightarrow> u16 \<Rightarrow> window" where
  "small_window x y w h c = (new_window x y (0, 0) (0, 0) 1)\<lparr>width := w, height := h, buffer := replicate (nat (w * h)) c\<rparr>"

theorem wm_composites_witness:
  "\<exists>px. redraw_all [small_window 0 0 4 3 7, small_window 2 1 9 9 5] = Some px
    \<and> paint px (\<lambda>p. 0) (1, 1) = 7 \<and> paint px (\<lambda>p. 0) (2, 1) = 5 \<and> paint px (\<lambda>p. 0) (0, 3) = 0"
proof -
  have "length [small_window 0 0 4 3 7, small_window 2 1 9 9 5] \<le> 3" by simp
  from wm_composites [OF this] obtain px where "redraw_all [small_window 0 0 4 3 7, small_window 2 1 9 9 5] = Some px"
    and "\<forall>p screen. paint px screen p = (case top_window [small_window 0 0 4 3 7, small_window 2 1 9 9 5] p of
           None \<Rightarrow> screen p | Some w \<Rightarrow> buffer w ! nat (cell_of w p))" by blast
  then show ?thesis
    by (intro exI [of _ px])
       (simp add: top_window_def small_window_def new_window_def rect_of_def inside_def cell_of_def nth_replicate del: replicate.simps)
qed

section \<open>Characters\<close>

text \<open>A window whose buffer has its size, and that has room for a character.\<close>

definition fits :: "window \<Rightarrow> bool" where
  "fits w \<longleftrightarrow> length (buffer w) = nat (width w * height w) \<and> CHAR_W \<le> width w \<and> CHAR_H \<le> height w
     \<and> 0 \<le> cursor_x w \<and> 0 \<le> cursor_y w"

text \<open>The pixels of the character at a cursor.\<close>

definition in_glyph :: "(nat \<Rightarrow> u8) \<Rightarrow> u8 \<Rightarrow> window \<Rightarrow> int \<Rightarrow> int \<Rightarrow> bool" where
  "in_glyph font c w x y \<longleftrightarrow>
     (let col = x - cursor_x w * CHAR_W; row = y - cursor_y w * CHAR_H
      in 0 \<le> col \<and> col < 8 \<and> 0 \<le> row \<and> row < 15 \<and> bit (font (16 * unat c + nat row)) (nat col))"

lemma cell_unique:
  fixes x y x' y' W :: int
  assumes "0 \<le> x" "x < W" "0 \<le> x'" "x' < W" "y * W + x = y' * W + x'"
  shows "x = x'" "y = y'"
proof -
  have "(y * W + x) div W = y" "(y' * W + x') div W = y'"
    using assms(1-4) by (simp_all)
  then show "y = y'" using assms(5) by metis
  then show "x = x'" using assms(5) by simp
qed

lemma length_set_cells [simp]: "length (set_cells cells c buf) = length buf"
  by (induction cells arbitrary: buf) (simp_all add: set_cells_def)

lemma nth_set_cells:
  "k < length buf \<Longrightarrow> set_cells cells c buf ! k = (if k \<in> nat ` set cells then c else buf ! k)"
proof (induction cells arbitrary: buf)
  case (Cons i cells)
  have "set_cells (i # cells) c buf = set_cells cells c (buf[nat i := c])" by (simp add: set_cells_def)
  then show ?case using Cons by auto
qed (simp add: set_cells_def)

lemma wrap_cursor_inside:
  assumes "fits w"
  shows "0 \<le> cursor_x (wrap_cursor w)" "0 \<le> cursor_y (wrap_cursor w)"
    "cursor_x (wrap_cursor w) * CHAR_W + 8 \<le> width w" "cursor_y (wrap_cursor w) * CHAR_H + 16 \<le> height w"
    "wrap_cursor w = w\<lparr>cursor_x := cursor_x (wrap_cursor w), cursor_y := cursor_y (wrap_cursor w)\<rparr>"
  using assms by (auto simp: wrap_cursor_def fits_def Let_def CHAR_W_def CHAR_H_def)

lemma set_glyph_cells:
  "i \<in> set (glyph_cells font c w)
   \<longleftrightarrow> (\<exists>x y. i = y * width w + x \<and> in_glyph font c w x y \<and> x < width w \<and> y < height w)"
proof
  assume "i \<in> set (glyph_cells font c w)"
  then obtain row b where "row < 15" "b < 8" "bit (font (16 * unat c + row)) b"
    "cursor_x w * CHAR_W + int b < width w" "cursor_y w * CHAR_H + int row < height w"
    "i = (cursor_y w * CHAR_H + int row) * width w + (cursor_x w * CHAR_W + int b)"
    by (auto simp: glyph_cells_def Let_def split: if_splits)
  then show "\<exists>x y. i = y * width w + x \<and> in_glyph font c w x y \<and> x < width w \<and> y < height w"
    by (intro exI [of _ "cursor_x w * CHAR_W + int b"] exI [of _ "cursor_y w * CHAR_H + int row"])
       (simp add: in_glyph_def Let_def)
next
  assume "\<exists>x y. i = y * width w + x \<and> in_glyph font c w x y \<and> x < width w \<and> y < height w"
  then obtain x y where i: "i = y * width w + x" "in_glyph font c w x y" "x < width w" "y < height w" by blast
  define b where "b = nat (x - cursor_x w * CHAR_W)"
  define row where "row = nat (y - cursor_y w * CHAR_H)"
  have x: "x = cursor_x w * CHAR_W + int b" "b < 8" and y: "y = cursor_y w * CHAR_H + int row" "row < 15"
    and "bit (font (16 * unat c + row)) b"
    using i(2) by (auto simp: in_glyph_def Let_def b_def row_def)
  then have "\<exists>b<8. bit (font (16 * unat c + row)) b \<and> cursor_x w * CHAR_W + int b < width w
      \<and> cursor_y w * CHAR_H + int row < height w
      \<and> i = (cursor_y w * CHAR_H + int row) * width w + (cursor_x w * CHAR_W + int b)"
    using i(1,3,4) by blast
  with y(2) show "i \<in> set (glyph_cells font c w)"
    by (fastforce simp: glyph_cells_def Let_def split: if_splits)
qed

text \<open>C35: A character other than a newline sets exactly the pixels of its glyph, at the cursor, to the
  foreground colour; the whole glyph lies inside the window and no other cell of the buffer changes. The
  window stays one a further character may be put in.\<close>

theorem put_char_draws_glyph:
  fixes font :: "nat \<Rightarrow> u8"
  assumes "fits w" "c \<noteq> 10"
  defines "w' \<equiv> window_put_char font c w" and "w1 \<equiv> wrap_cursor w"
  shows "fits w' \<and> cursor_x w' = cursor_x w1 + 1 \<and> cursor_y w' = cursor_y w1
    \<and> (\<forall>x y. in_glyph font c w1 x y \<longrightarrow> 0 \<le> x \<and> x < width w \<and> 0 \<le> y \<and> y < height w)
    \<and> (\<forall>x y. 0 \<le> x \<and> x < width w \<and> 0 \<le> y \<and> y < height w \<longrightarrow>
         buffer w' ! nat (y * width w + x) =
           (if in_glyph font c w1 x y then fg_color w else buffer w ! nat (y * width w + x)))"
proof -
  note i = wrap_cursor_inside [OF assms(1), folded w1_def]
  have w': "w' = w1\<lparr>buffer := set_cells (glyph_cells font c w1) (fg_color w1) (buffer w1), cursor_x := cursor_x w1 + 1\<rparr>"
    using assms(2) by (simp add: w'_def w1_def window_put_char_def Let_def)
  have g: "width w1 = width w" "height w1 = height w" "buffer w1 = buffer w" "fg_color w1 = fg_color w"
    by (subst i(5), simp)+
  have inr: "0 \<le> x \<and> x < width w \<and> 0 \<le> y \<and> y < height w" if "in_glyph font c w1 x y" for x y
    using that i(1-4) by (simp add: in_glyph_def Let_def CHAR_W_def CHAR_H_def)
  have "buffer w' ! nat (y * width w + x) =
      (if in_glyph font c w1 x y then fg_color w else buffer w ! nat (y * width w + x))"
    if b: "0 \<le> x" "x < width w" "0 \<le> y" "y < height w" for x y
  proof -
    have k: "nat (y * width w + x) < length (buffer w)"
      using cell_bounds [OF b] assms(1) by (simp add: fits_def)
    have "nat (y * width w + x) \<in> nat ` set (glyph_cells font c w1) \<longleftrightarrow> in_glyph font c w1 x y"
    proof
      assume "nat (y * width w + x) \<in> nat ` set (glyph_cells font c w1)"
      then obtain x' y' where p: "nat (y * width w + x) = nat (y' * width w + x')" "in_glyph font c w1 x' y'"
        by (auto simp: set_glyph_cells g)
      note q = inr [OF p(2)]
      have "y * width w + x = y' * width w + x'"
        using p(1) cell_bounds(1) [OF b] cell_bounds(1) [of x' "width w" y' "height w"] q by linarith
      then have "x = x'" "y = y'" using cell_unique [OF b(1,2), of x' y y'] q by simp_all
      then show "in_glyph font c w1 x y" using p(2) by simp
    next
      assume "in_glyph font c w1 x y"
      then have "y * width w + x \<in> set (glyph_cells font c w1)" using b by (auto simp: set_glyph_cells g)
      then show "nat (y * width w + x) \<in> nat ` set (glyph_cells font c w1)" by (rule imageI)
    qed
    then show ?thesis using nth_set_cells [OF k] by (simp add: w' g)
  qed
  moreover have "fits w'" using assms(1) i(1,2) by (simp add: w' fits_def g)
  ultimately show ?thesis using inr by (simp add: w')
qed

lemma fits_new_window: "fits (new_window x y p q pid)"
  by (simp add: fits_def new_window_def WIN_WIDTH_def WIN_HEIGHT_def CHAR_W_def CHAR_H_def del: replicate.simps)

theorem put_char_draws_glyph_witness:
  "buffer (window_put_char (\<lambda>_. 1) 65 (new_window 50 50 (0, 0) (0, 0) 1)) ! 0 = 0xFFFF"
proof -
  let ?w = "new_window 50 50 (0, 0) (0, 0) 1"
  have g: "wrap_cursor ?w = ?w" "width ?w = 400" "height ?w = 300" "fg_color ?w = 0xFFFF"
    by (simp_all add: wrap_cursor_def new_window_def WIN_WIDTH_def WIN_HEIGHT_def CHAR_W_def CHAR_H_def del: replicate.simps)
  have i: "in_glyph (\<lambda>_. 1) 65 (wrap_cursor ?w) 0 0"
    unfolding g by (simp add: in_glyph_def new_window_def CHAR_W_def CHAR_H_def del: replicate.simps)
  have d: "\<forall>x y. 0 \<le> x \<and> x < width ?w \<and> 0 \<le> y \<and> y < height ?w \<longrightarrow>
      buffer (window_put_char (\<lambda>_. 1) 65 ?w) ! nat (y * width ?w + x) =
        (if in_glyph (\<lambda>_. 1) 65 (wrap_cursor ?w) x y then fg_color ?w else buffer ?w ! nat (y * width ?w + x))"
    by (rule put_char_draws_glyph [OF fits_new_window, THEN conjunct2, THEN conjunct2, THEN conjunct2, THEN conjunct2]) simp
  show ?thesis using d [rule_format, of 0 0] i by (simp add: g)
qed

section \<open>Borders\<close>

lemma length_border [simp]: "length (buffer (draw_window_border c w)) = length (buffer w)"
  by (simp add: draw_window_border_def)

text \<open>After both shells are started the borders are wrong: the first window has the border of the focused
  one, and the second, to which the keys go, has none, since the borders are drawn before the new
  window is counted.\<close>

theorem focused_window_without_border:
  "let s = start_process_in_window 500 50 p2 q2 pid2
             (start_process_in_window 50 50 p1 q1 pid1 \<lparr>windows = [], focused_pid = -1\<rparr>)
   in focused_pid s = pid2 \<and> length (windows s) = 2 \<and> wpid (windows s ! 1) = pid2
      \<and> buffer (windows s ! 0) ! 0 = FOCUSED_BORDER_COLOR
      \<and> buffer (windows s ! 1) = replicate (nat (WIN_WIDTH * WIN_HEIGHT)) (bg_color (windows s ! 1))"
proof -
  let ?w = "new_window 50 50 p1 q1 pid1"
  have "(0::int) \<in> set (border_cells ?w)"
    by (auto simp: border_cells_def new_window_def WIN_WIDTH_def WIN_HEIGHT_def intro!: bexI [of _ "0::int"])
  then have "0 \<in> nat ` set (border_cells ?w)" by force
  moreover have "0 < length (buffer ?w)" by (simp add: new_window_def WIN_WIDTH_def WIN_HEIGHT_def)
  ultimately have "buffer (draw_window_border FOCUSED_BORDER_COLOR ?w) ! 0 = FOCUSED_BORDER_COLOR"
    using nth_set_cells [of 0 "buffer ?w"] by (simp add: draw_window_border_def)
  moreover have "buffer (new_window 500 50 p2 q2 pid2) = replicate (nat (WIN_WIDTH * WIN_HEIGHT)) 0x001F"
    by (simp only: new_window_def window.select_convs)
  ultimately show ?thesis
    by (simp add: start_process_in_window_def draw_window_borders_according_focus_def Let_def)
      (simp add: new_window_def)
qed

end
