(* ===== verification/Umalloc.thy ===== *)
theory Umalloc
  imports Prelude
begin

text \<open>
  The memory allocator of the user programs (usr/umalloc.c): a circular list of free blocks, in the order of
  their addresses and starting at the static header \<open>base\<close>, searched by \<open>malloc\<close> from where the last
  search ended. An address is a \<open>nat\<close>, so that \<open>p + n\<close> of the source is \<open>p + 8 * n\<close> here; the numbers of
  bytes and units a caller can make overflow are computed on 32 bits. A loop that does not end is \<open>None\<close>.
\<close>

section \<open>State\<close>

text \<open>The fields of the header at an address, the static variables, and the size of the process. The
  header is a union of eight bytes.\<close>

record heap =
  s_ptr :: "nat \<Rightarrow> nat"
  s_size :: "nat \<Rightarrow> nat"
  base :: nat
  freep :: nat
  brk :: nat

text \<open>The system call \<open>sbrk\<close>; whether the kernel finds the memory is the parameter \<open>grow\<close>.\<close>

definition sbrk :: "(nat \<Rightarrow> int \<Rightarrow> bool) \<Rightarrow> int \<Rightarrow> heap \<Rightarrow> nat option \<times> heap" where
  "sbrk grow n s =
     (if grow (brk s) n then (Some (brk s), s\<lparr>brk := nat (int (brk s) + n)\<rparr>) else (None, s))"

section \<open>Operations\<close>

text \<open>The loop of \<open>free\<close>: the block \<open>bp\<close> belongs after \<open>p\<close>, between two blocks or at an end of the list.\<close>

partial_function (option) find_slot :: "(nat \<Rightarrow> nat) \<Rightarrow> nat \<Rightarrow> nat \<Rightarrow> nat option" where
  "find_slot ptr bp p =
     (if bp > p \<and> bp < ptr p then Some p
      else if p \<ge> ptr p \<and> (bp > p \<or> bp < ptr p) then Some p
      else find_slot ptr bp (ptr p))"

text \<open>Joining \<open>bp\<close> to its upper neighbour, then its lower neighbour to it.\<close>

definition join_upper :: "nat \<Rightarrow> nat \<Rightarrow> heap \<Rightarrow> heap" where
  "join_upper bp p s =
     (if bp + 8 * s_size s bp = s_ptr s p
      then s\<lparr>s_size := (s_size s)(bp := s_size s bp + s_size s (s_ptr s p)),
             s_ptr := (s_ptr s)(bp := s_ptr s (s_ptr s p))\<rparr>
      else s\<lparr>s_ptr := (s_ptr s)(bp := s_ptr s p)\<rparr>)"

definition join_lower :: "nat \<Rightarrow> nat \<Rightarrow> heap \<Rightarrow> heap" where
  "join_lower bp p s =
     (if p + 8 * s_size s p = bp
      then s\<lparr>s_size := (s_size s)(p := s_size s p + s_size s bp),
             s_ptr := (s_ptr s)(p := s_ptr s bp)\<rparr>
      else s\<lparr>s_ptr := (s_ptr s)(p := bp)\<rparr>)"

definition free :: "nat \<Rightarrow> heap \<Rightarrow> heap option" where
  "free ap s =
     (let bp = ap - 8
      in map_option (\<lambda>p. (join_lower bp p (join_upper bp p s))\<lparr>freep := p\<rparr>)
           (find_slot (s_ptr s) bp (freep s)))"

definition morecore :: "(nat \<Rightarrow> int \<Rightarrow> bool) \<Rightarrow> nat \<Rightarrow> heap \<Rightarrow> (nat \<times> heap) option" where
  "morecore grow nu s =
     (let nu = (if nu < 4096 then 4096 else nu)
      in case sbrk grow (sint (of_nat nu * 8 :: u32)) s of
           (None, s) \<Rightarrow> Some (0, s)
         | (Some hp, s) \<Rightarrow>
             map_option (\<lambda>s. (freep s, s)) (free (hp + 8) (s\<lparr>s_size := (s_size s)(hp := nu)\<rparr>)))"

text \<open>A block that is large enough is unlinked, or its tail is split off.\<close>

definition take_from :: "nat \<Rightarrow> nat \<Rightarrow> nat \<Rightarrow> heap \<Rightarrow> nat \<times> heap" where
  "take_from nunits prevp p s =
     (if s_size s p = nunits
      then (p + 8, s\<lparr>s_ptr := (s_ptr s)(prevp := s_ptr s p), freep := prevp\<rparr>)
      else
        let k = s_size s p - nunits; q = p + 8 * k
        in (q + 8, s\<lparr>s_size := (s_size s)(p := k, q := nunits), freep := prevp\<rparr>))"

partial_function (option) malloc_loop ::
  "(nat \<Rightarrow> int \<Rightarrow> bool) \<Rightarrow> nat \<Rightarrow> nat \<Rightarrow> nat \<Rightarrow> heap \<Rightarrow> (nat \<times> heap) option" where
  "malloc_loop grow nunits prevp p s =
     (if s_size s p \<ge> nunits then Some (take_from nunits prevp p s)
      else if p = freep s then
        Option.bind (morecore grow nunits s)
          (\<lambda>(p, s). if p = 0 then Some (0, s) else malloc_loop grow nunits p (s_ptr s p) s)
      else malloc_loop grow nunits p (s_ptr s p) s)"

definition units :: "u32 \<Rightarrow> nat" where
  "units nbytes = unat ((nbytes + 8 - 1) div 8 + 1)"

definition first_use :: "heap \<Rightarrow> heap" where
  "first_use s =
     (if freep s = 0
      then s\<lparr>s_ptr := (s_ptr s)(base s := base s), freep := base s, s_size := (s_size s)(base s := 0)\<rparr>
      else s)"

definition malloc :: "(nat \<Rightarrow> int \<Rightarrow> bool) \<Rightarrow> u32 \<Rightarrow> heap \<Rightarrow> (nat \<times> heap) option" where
  "malloc grow nbytes s =
     (let s = first_use s
      in malloc_loop grow (units nbytes) (freep s) (s_ptr s (freep s)) s)"

section \<open>The circular list\<close>

text \<open>Following \<open>ptr\<close> from the head of the list visits its elements and then \<open>y\<close>.\<close>

fun path :: "(nat \<Rightarrow> nat) \<Rightarrow> nat list \<Rightarrow> nat \<Rightarrow> bool" where
  "path ptr [] y \<longleftrightarrow> True"
| "path ptr (x # xs) y \<longleftrightarrow> ptr x = hd (xs @ [y]) \<and> path ptr xs y"

lemma path_append: "path ptr (xs @ ys) y \<longleftrightarrow> path ptr xs (hd (ys @ [y])) \<and> path ptr ys y"
proof (induction xs)
  case (Cons a xs)
  then show ?case by (cases xs) auto
qed simp

lemma path_cong: "\<forall>x\<in>set xs. f x = g x \<Longrightarrow> path f xs y = path g xs y"
  by (induction xs) auto

lemma path_upd [simp]: "x \<notin> set xs \<Longrightarrow> path (f(x := a)) xs y = path f xs y"
  by (rule path_cong) auto

lemma path_last: "path ptr xs y \<Longrightarrow> xs \<noteq> [] \<Longrightarrow> ptr (last xs) = y"
  by (induction xs) auto

text \<open>The place of a block: the node before it.\<close>

lemma find_slot_lower:
  assumes "path ptr (xs @ [p]) z" and "sorted_wrt (<) (xs @ [p])" and "p < bp"
    and "bp < z \<or> z \<le> p"
  shows "x \<in> set (xs @ [p]) \<Longrightarrow> find_slot ptr bp x = Some p"
  using assms
proof (induction xs arbitrary: x)
  case Nil
  then show ?case by (subst find_slot.simps) auto
next
  case (Cons a xs)
  have IH: "y \<in> set (xs @ [p]) \<Longrightarrow> find_slot ptr bp y = Some p" for y
    using Cons by simp
  show ?case
  proof (cases "x = a")
    case True
    have n: "ptr a = hd (xs @ [p])" "hd (xs @ [p]) \<in> set (xs @ [p])" using Cons.prems(2) by (cases xs; simp)+
    then have "a < ptr a" "ptr a \<le> p"
      using Cons.prems(3) by (cases xs; auto)+
    then show ?thesis using Cons.prems(4) IH [OF n(2)] True n(1) by (subst find_slot.simps) simp
  next
    case False
    then show ?thesis using IH Cons.prems(1) by simp
  qed
qed

lemma find_slot_upper:
  assumes "path ptr ys b" and "sorted_wrt (<) ys" and "\<forall>y\<in>set ys. bp < y" and "b < bp"
    and "find_slot ptr bp b = Some p"
  shows "x \<in> set ys \<Longrightarrow> find_slot ptr bp x = Some p"
  using assms
proof (induction ys arbitrary: x)
  case (Cons a ys)
  have IH: "y \<in> set ys \<Longrightarrow> find_slot ptr bp y = Some p" for y
    using Cons by simp
  show ?case
  proof (cases "x = a")
    case True
    show ?thesis
    proof (cases ys)
      case Nil
      then have "ptr a = b" using Cons.prems(2) by simp
      then show ?thesis using Cons.prems True by (subst find_slot.simps) simp
    next
      case (Cons c cs)
      then have "ptr a = c" "a < c" "bp < a" using Cons.prems(2,3,4) by auto
      then show ?thesis using IH [of c] Cons True by (subst find_slot.simps) simp
    qed
  next
    case False
    then show ?thesis using IH Cons.prems(1) by simp
  qed
qed simp

section \<open>The free list\<close>

text \<open>A block is its header's address and its size in units.\<close>

type_synonym block = "nat \<times> nat"

abbreviation fin :: "block \<Rightarrow> nat" where
  "fin x \<equiv> fst x + 8 * snd x"

definition blk :: "block \<Rightarrow> nat set" where
  "blk x = {fst x ..< fin x}"

definition space :: "block list \<Rightarrow> nat set" where
  "space F = (\<Union>x\<in>set F. blk x)"

definition wf_list :: "nat \<Rightarrow> block list \<Rightarrow> bool" where
  "wf_list b F \<longleftrightarrow> sorted_wrt (\<lambda>x y. fin x \<le> fst y) F \<and> (\<forall>x\<in>set F. 0 < snd x \<and> b + 8 \<le> fst x)"

definition sized :: "heap \<Rightarrow> block list \<Rightarrow> bool" where
  "sized s F \<longleftrightarrow> (\<forall>x\<in>set F. s_size s (fst x) = snd x)"

definition free_list :: "heap \<Rightarrow> block list \<Rightarrow> bool" where
  "free_list s F \<longleftrightarrow> wf_list (base s) F \<and> path (s_ptr s) (base s # map fst F) (base s)
     \<and> s_size s (base s) = 0 \<and> sized s F \<and> freep s \<in> set (base s # map fst F)"

lemma space_simps [simp]:
  "space [] = {}" "space (x # F) = blk x \<union> space F" "space (F @ G) = space F \<union> space G"
  by (auto simp: space_def)

lemma blk_join: "blk (a, n) \<union> blk (a + 8 * n, m) = blk (a, n + m)"
  by (auto simp: blk_def)

lemma blk_apart: "0 < snd x \<Longrightarrow> 0 < snd y \<Longrightarrow> blk x \<inter> blk y = {} \<Longrightarrow> fin x \<le> fst y \<or> fin y \<le> fst x"
proof (rule ccontr)
  assume a: "0 < snd x" "0 < snd y" "blk x \<inter> blk y = {}" "\<not> (fin x \<le> fst y \<or> fin y \<le> fst x)"
  then have "max (fst x) (fst y) \<in> blk x \<inter> blk y" by (auto simp: blk_def)
  with a(3) show False by blast
qed

lemma sized_cong: "sized s F \<Longrightarrow> \<forall>x\<in>set F. s_size t (fst x) = s_size s (fst x) \<Longrightarrow> sized t F"
  by (simp add: sized_def)

lemma wf_list_append:
  "wf_list b (F @ G) \<longleftrightarrow> wf_list b F \<and> wf_list b G \<and> (\<forall>x\<in>set F. \<forall>y\<in>set G. fin x \<le> fst y)"
  by (auto simp: wf_list_def sorted_wrt_append)

lemma wf_list_Cons:
  "wf_list b (x # F) \<longleftrightarrow> 0 < snd x \<and> b + 8 \<le> fst x \<and> wf_list b F \<and> (\<forall>y\<in>set F. fin x \<le> fst y)"
  by (auto simp: wf_list_def)

lemma wf_list_less: "wf_list b F \<Longrightarrow> sorted_wrt (<) (b # map fst F)"
proof (induction F)
  case (Cons x F)
  then show ?case by (force simp: wf_list_Cons)
qed simp

text \<open>Where a block that is apart from the free ones belongs.\<close>

lemma split_at:
  assumes "wf_list b F" "0 < n" "blk (bp, n) \<inter> space F = {}"
  obtains G H where "F = G @ H" "\<forall>x\<in>set G. fin x \<le> bp" "\<forall>x\<in>set H. bp + 8 * n \<le> fst x"
proof -
  have "\<exists>G H. F = G @ H \<and> (\<forall>x\<in>set G. fin x \<le> bp) \<and> (\<forall>x\<in>set H. bp + 8 * n \<le> fst x)"
    using assms
  proof (induction F)
    case (Cons x F)
    have "fin x \<le> bp \<or> bp + 8 * n \<le> fst x"
      using blk_apart [of x "(bp, n)"] Cons.prems by (auto simp: wf_list_Cons)
    then show ?case
    proof
      assume x: "fin x \<le> bp"
      obtain G H where "F = G @ H" "\<forall>x\<in>set G. fin x \<le> bp" "\<forall>x\<in>set H. bp + 8 * n \<le> fst x"
        using Cons.IH Cons.prems by (auto simp: wf_list_Cons)
      then show ?case using x by (intro exI [of _ "x # G"] exI [of _ H]) simp
    next
      assume "bp + 8 * n \<le> fst x"
      then have "\<forall>y\<in>set (x # F). bp + 8 * n \<le> fst y" using Cons.prems(1) by (auto simp: wf_list_Cons)
      then show ?case by (intro exI [of _ "[]"] exI [of _ "x # F"]) simp
    qed
  qed simp
  then show thesis using that by blast
qed

lemma find_slot_block:
  assumes "free_list s (G @ H)" "base s < bp" "\<forall>x\<in>set G. fin x \<le> bp" "\<forall>x\<in>set H. bp < fst x"
  shows "find_slot (s_ptr s) bp (freep s) = Some (last (base s # map fst G))"
proof -
  let ?L = "base s # map fst G" and ?U = "map fst H"
  have f: "wf_list (base s) (G @ H)" "path (s_ptr s) (?L @ ?U) (base s)" "freep s \<in> set (?L @ ?U)"
    using assms(1) by (auto simp: free_list_def)
  have L: "?L = butlast ?L @ [last ?L]" by simp
  have "last ?L < bp"
  proof (cases G rule: rev_cases)
    case (snoc G' x)
    then have "fin x \<le> bp" "0 < snd x" using assms(3) f(1) by (auto simp: wf_list_def)
    then show ?thesis using snoc by simp
  qed (use assms(2) in simp)
  moreover have "bp < hd (?U @ [base s]) \<or> hd (?U @ [base s]) \<le> last ?L"
  proof (cases H)
    case Nil
    have "base s \<le> fst y" if "y \<in> set G" for y
    proof -
      have "base s + 8 \<le> fst y" using that f(1) by (simp add: wf_list_def)
      then show ?thesis by simp
    qed
    then have "base s \<le> x" if "x \<in> set ?L" for x using that by auto
    then show ?thesis using Nil last_in_set [of ?L] by simp
  qed (use assms(4) in simp)
  moreover have "sorted_wrt (<) (?L @ ?U)" using wf_list_less [OF f(1)] by simp
  moreover have pL: "path (s_ptr s) ?L (hd (?U @ [base s]))" and pU: "path (s_ptr s) ?U (base s)"
    using f(2) by (simp_all only: path_append)
  ultimately have lower: "find_slot (s_ptr s) bp x = Some (last ?L)" if "x \<in> set ?L" for x
    using find_slot_lower [of "s_ptr s" "butlast ?L" "last ?L" "hd (?U @ [base s])" bp x] that
    by (simp only: L [symmetric] sorted_wrt_append)
  have "find_slot (s_ptr s) bp x = Some (last ?L)" if "x \<in> set ?U" for x
  proof (rule find_slot_upper [OF pU])
    show "sorted_wrt (<) ?U" using \<open>sorted_wrt (<) (?L @ ?U)\<close> by (simp only: sorted_wrt_append)
    show "find_slot (s_ptr s) bp (base s) = Some (last ?L)" by (rule lower) simp
  qed (use assms(2,4) that in auto)
  then show ?thesis using lower f(3) unfolding set_append by blast
qed

text \<open>The two joins, on a list split at the block: the upper one makes the block the head of what follows
  it, the lower one links it to what precedes it.\<close>

lemma join_upper_ok:
  assumes "wf_list (base s) ((bp, n) # H)" "sized s ((bp, n) # H)" "path (s_ptr s) (map fst H) (base s)"
    and "s_ptr s p = hd (map fst H @ [base s])" "bp \<noteq> p"
  obtains m R where "wf_list (base s) ((bp, m) # R)" "space ((bp, m) # R) = space ((bp, n) # H)" "n \<le> m"
    "set R \<subseteq> set H"
    "path (s_ptr (join_upper bp p s)) (map fst ((bp, m) # R)) (base s)" "sized (join_upper bp p s) ((bp, m) # R)"
    "\<And>x. x \<noteq> bp \<Longrightarrow> s_ptr (join_upper bp p s) x = s_ptr s x \<and> s_size (join_upper bp p s) x = s_size s x"
    "base (join_upper bp p s) = base s" "brk (join_upper bp p s) = brk s" "freep (join_upper bp p s) = freep s"
proof -
  have bp: "s_size s bp = n" "0 < n" "bp \<notin> set (map fst H)"
    using assms(1,2) by (auto simp: sized_def wf_list_Cons)
  show thesis
  proof (cases "\<exists>m R. H = (bp + 8 * n, m) # R")
    case True
    then obtain m R where H: "H = (bp + 8 * n, m) # R" by blast
    then have j: "join_upper bp p s = s\<lparr>s_size := (s_size s)(bp := n + m),
        s_ptr := (s_ptr s)(bp := hd (map fst R @ [base s]))\<rparr>"
      using assms(2,3,4) bp(1) by (simp add: join_upper_def sized_def)
    show thesis
    proof (rule that [of "n + m" R])
      show "wf_list (base s) ((bp, n + m) # R)" using assms(1) by (auto simp: H wf_list_Cons algebra_simps)
      show "space ((bp, n + m) # R) = space ((bp, n) # H)" using blk_join [of bp n m] by (auto simp: H)
      show "sized (join_upper bp p s) ((bp, n + m) # R)"
        using assms(2) bp(3) by (auto simp: j H sized_def)
      show "path (s_ptr (join_upper bp p s)) (map fst ((bp, n + m) # R)) (base s)"
        using assms(3) bp(3) by (simp add: j H)
    qed (auto simp: H j)
  next
    case False
    have "bp + 8 * n \<noteq> s_ptr s p"
    proof (cases H)
      case Nil
      then show ?thesis using assms(1,4) bp(2) by (simp add: wf_list_Cons)
    next
      case (Cons x R)
      then show ?thesis using False assms(4) by (cases x) auto
    qed
    then have j: "join_upper bp p s = s\<lparr>s_ptr := (s_ptr s)(bp := s_ptr s p)\<rparr>"
      using bp(1) by (simp add: join_upper_def)
    show thesis
    proof (rule that [of n H])
      show "path (s_ptr (join_upper bp p s)) (map fst ((bp, n) # H)) (base s)"
        using assms(3,4) bp(3) by (simp add: j)
      show "sized (join_upper bp p s) ((bp, n) # H)" using assms(2) by (simp add: j sized_def)
    qed (use assms(1) in \<open>auto simp: j\<close>)
  qed
qed

lemma join_lower_ok:
  assumes "wf_list (base s) (G @ (bp, m) # R)" "sized s (G @ (bp, m) # R)" "s_size s (base s) = 0"
    and "path (s_ptr s) (base s # map fst G) z" "path (s_ptr s) (map fst ((bp, m) # R)) (base s)"
  defines "p \<equiv> last (base s # map fst G)"
  obtains F where "wf_list (base s) F" "space F = space (G @ (bp, m) # R)" "\<exists>x\<in>set F. m \<le> snd x"
    "path (s_ptr (join_lower bp p s)) (base s # map fst F) (base s)" "sized (join_lower bp p s) F"
    "\<And>x. x \<notin> set (map fst G) \<Longrightarrow> s_size (join_lower bp p s) x = s_size s x"
    "p \<in> set (base s # map fst F)"
    "base (join_lower bp p s) = base s" "brk (join_lower bp p s) = brk s"
proof (cases G rule: rev_cases)
  case Nil
  have "bp \<noteq> base s" "base s \<notin> set (map fst R)" using assms(1) by (auto simp: Nil wf_list_def)
  have p: "p = base s" by (simp add: p_def Nil)
  then have j: "join_lower bp p s = s\<lparr>s_ptr := (s_ptr s)(base s := bp)\<rparr>"
    using assms(3) \<open>bp \<noteq> base s\<close> by (simp add: join_lower_def)
  show thesis
  proof (rule that [of "(bp, m) # R"])
    show "path (s_ptr (join_lower bp p s)) (base s # map fst ((bp, m) # R)) (base s)"
      using assms(5) \<open>bp \<noteq> base s\<close> \<open>base s \<notin> set (map fst R)\<close> by (simp add: j)
    show "sized (join_lower bp p s) ((bp, m) # R)" using assms(2) by (simp add: j Nil sized_def)
  qed (use assms(1) p in \<open>auto simp: j [unfolded p] j Nil\<close>)
next
  case (snoc G' x)
  obtain k where x: "x = (p, k)" by (cases x) (simp add: p_def snoc)
  have w: "wf_list (base s) G'" "wf_list (base s) R" "\<forall>y\<in>set G'. fin y \<le> p" "p + 8 * k \<le> bp" "0 < k" "0 < m"
    "\<forall>y\<in>set R. bp + 8 * m \<le> fst y" "base s + 8 \<le> p" "\<forall>y\<in>set G'. 0 < snd y \<and> fin y \<le> bp"
    "\<forall>y\<in>set G'. \<forall>z\<in>set R. fin y \<le> fst z"
  proof -
    have "\<forall>y\<in>set G'. 0 < snd y" using assms(1) by (simp add: snoc wf_list_def)
    then show "\<forall>y\<in>set G'. 0 < snd y \<and> fin y \<le> bp"
      using assms(1) by (auto simp: snoc x wf_list_append wf_list_Cons)
  qed (use assms(1) in \<open>auto simp: snoc x wf_list_append wf_list_Cons\<close>)
  have ne: "p \<notin> set (map fst G')" "p \<notin> set (map fst R)" "bp \<notin> set (map fst G')" "p \<noteq> bp" "p \<noteq> base s"
      "bp \<notin> set (map fst R)"
    using w by fastforce+
  have sz: "s_size s p = k" "s_size s bp = m" "sized s G'" "sized s R"
    using assms(2) by (simp_all add: snoc x sized_def)
  have pL: "path (s_ptr s) (base s # map fst G') p"
    using assms(4) path_append [of "s_ptr s" "base s # map fst G'" "[p]" z] by (simp add: snoc x)
  show thesis
  proof (cases "p + 8 * k = bp")
    case True
    then have j: "join_lower bp p s = s\<lparr>s_size := (s_size s)(p := k + m), s_ptr := (s_ptr s)(p := s_ptr s bp)\<rparr>"
      using sz by (simp add: join_lower_def)
    show thesis
    proof (rule that [of "G' @ (p, k + m) # R"])
      show "wf_list (base s) (G' @ (p, k + m) # R)"
        using w True by (auto simp: wf_list_append wf_list_Cons algebra_simps)
      show "space (G' @ (p, k + m) # R) = space (G @ (bp, m) # R)"
        using blk_join [of p k m] True by (auto simp: snoc x)
      show "path (s_ptr (join_lower bp p s)) (base s # map fst (G' @ (p, k + m) # R)) (base s)"
        using pL assms(5) ne path_append [of "s_ptr (join_lower bp p s)" "base s # map fst G'" "p # map fst R" "base s"]
        by (simp add: j)
      show "sized (join_lower bp p s) (G' @ (p, k + m) # R)"
        using sz ne by (auto simp: j sized_def)
    qed (auto simp: j snoc x)
  next
    case False
    then have j: "join_lower bp p s = s\<lparr>s_ptr := (s_ptr s)(p := bp)\<rparr>"
      using sz by (simp add: join_lower_def)
    show thesis
    proof (rule that [of "G @ (bp, m) # R"])
      show "path (s_ptr (join_lower bp p s)) (base s # map fst (G @ (bp, m) # R)) (base s)"
        using pL assms(5) ne
          path_append [of "s_ptr (join_lower bp p s)" "base s # map fst G'" "p # bp # map fst R" "base s"]
        by (simp add: j snoc x)
      show "sized (join_lower bp p s) (G @ (bp, m) # R)" using assms(2) by (simp add: j sized_def)
    qed (use assms(1) in \<open>auto simp: j snoc x\<close>)
  qed
qed

lemma free_block:
  assumes f: "free_list s F" and n: "s_size s bp = n" "0 < n" "base s + 8 \<le> bp" "blk (bp, n) \<inter> space F = {}"
  obtains t E where "free (bp + 8) s = Some t" "free_list t E" "space E = space F \<union> blk (bp, n)"
    "base t = base s" "brk t = brk s" "\<exists>x\<in>set E. n \<le> snd x" "freep t \<noteq> 0 \<or> base s = 0"
    "\<And>a. a \<notin> space F \<Longrightarrow> a \<noteq> bp \<Longrightarrow> s_size t a = s_size s a"
proof -
  have wf: "wf_list (base s) F" using f by (simp add: free_list_def)
  obtain G H where FG: "F = G @ H" and G: "\<forall>x\<in>set G. fin x \<le> bp" and H: "\<forall>x\<in>set H. bp + 8 * n \<le> fst x"
    using split_at [OF wf n(2,4)] by blast
  let ?p = "last (base s # map fst G)"
  have w: "wf_list (base s) G" "wf_list (base s) H" "\<forall>x\<in>set G. \<forall>y\<in>set H. fin x \<le> fst y"
    using wf by (auto simp: FG wf_list_append)
  have pos: "\<forall>x\<in>set G. 0 < snd x \<and> base s + 8 \<le> fst x" using w(1) by (simp add: wf_list_def)
  have P: "path (s_ptr s) (base s # map fst G) (hd (map fst H @ [base s]))" "path (s_ptr s) (map fst H) (base s)"
    using f path_append [of "s_ptr s" "base s # map fst G" "map fst H" "base s"] by (simp_all add: free_list_def FG)
  have last: "?p \<in> set (base s # map fst G)" by (rule last_in_set) simp
  have low: "a < bp" if "a \<in> set (base s # map fst G)" for a
    using that G pos n(3) by (auto, force)
  have slot: "find_slot (s_ptr s) bp (freep s) = Some ?p"
    by (rule find_slot_block) (use f FG G H n in auto)
  have pp: "s_ptr s ?p = hd (map fst H @ [base s])"
    by (rule path_last [OF P(1)]) simp
  have b: "wf_list (base s) ((bp, n) # H)" "sized s ((bp, n) # H)" "bp \<noteq> ?p"
    using f n w(2) H low [OF last] by (auto simp: wf_list_Cons free_list_def sized_def FG)
  obtain m R where U: "wf_list (base s) ((bp, m) # R)" "space ((bp, m) # R) = space ((bp, n) # H)" "n \<le> m"
    "set R \<subseteq> set H" "path (s_ptr (join_upper bp ?p s)) (map fst ((bp, m) # R)) (base s)"
    "sized (join_upper bp ?p s) ((bp, m) # R)"
    "\<And>x. x \<noteq> bp \<Longrightarrow> s_ptr (join_upper bp ?p s) x = s_ptr s x \<and> s_size (join_upper bp ?p s) x = s_size s x"
    "base (join_upper bp ?p s) = base s" "brk (join_upper bp ?p s) = brk s" "freep (join_upper bp ?p s) = freep s"
    using join_upper_ok [OF b(1,2) P(2) pp b(3)] by blast
  define u where "u = join_upper bp ?p s"
  note U = U [folded u_def]
  have nbp: "bp \<notin> set (base s # map fst G)" using low by blast
  have "wf_list (base u) (G @ (bp, m) # R)"
    using w(1,3) U(1,4,8) G by (auto simp: wf_list_append)
  moreover have "sized u (G @ (bp, m) # R)"
  proof -
    have "sized s G" using f by (simp add: FG free_list_def sized_def)
    moreover have "\<forall>x\<in>set G. s_size u (fst x) = s_size s (fst x)" using U(7) nbp by force
    ultimately have "sized u G" by (rule sized_cong)
    then show ?thesis using U(6) by (auto simp: sized_def)
  qed
  moreover have "s_size u (base u) = 0" using f U(7,8) n(3) by (simp add: free_list_def)
  moreover have "path (s_ptr u) (base u # map fst G) (hd (map fst H @ [base s]))"
  proof -
    have "\<forall>x\<in>set (base s # map fst G). s_ptr u x = s_ptr s x"
    proof
      fix x assume "x \<in> set (base s # map fst G)"
      then have "x \<noteq> bp" using nbp by metis
      then show "s_ptr u x = s_ptr s x" by (simp add: U(7))
    qed
    from path_cong [OF this] P(1) show ?thesis unfolding U(8) by blast
  qed
  moreover have "path (s_ptr u) (map fst ((bp, m) # R)) (base u)" using U(5,8) by simp
  ultimately obtain E where E: "wf_list (base u) E" "space E = space (G @ (bp, m) # R)" "\<exists>x\<in>set E. m \<le> snd x"
    "path (s_ptr (join_lower bp ?p u)) (base u # map fst E) (base u)" "sized (join_lower bp ?p u) E"
    "\<And>x. x \<notin> set (map fst G) \<Longrightarrow> s_size (join_lower bp ?p u) x = s_size u x"
    "?p \<in> set (base u # map fst E)"
    "base (join_lower bp ?p u) = base u" "brk (join_lower bp ?p u) = brk u"
    using join_lower_ok [of u G bp m R] unfolding U(8) by blast
  let ?t = "(join_lower bp ?p u)\<lparr>freep := ?p\<rparr>"
  have gsp: "a \<in> space F" if "a \<in> set (map fst G)" for a
    using that pos by (force simp: FG space_def blk_def)
  show thesis
  proof (rule that [of ?t E])
    show "free (bp + 8) s = Some ?t" by (simp add: free_def slot u_def)
    have "base s \<notin> set (map fst G)" using pos by fastforce
    then have z: "s_size (join_lower bp ?p u) (base s) = 0"
      using E(6) [of "base s"] U(7) [of "base s"] n(3) f by (simp add: free_list_def)
    show "free_list ?t E"
      using E(1,4,5,7,8) z unfolding U(8) by (simp add: free_list_def sized_def)
    show "space E = space F \<union> blk (bp, n)" using E(2) U(2) by (auto simp: FG)
    show "\<exists>x\<in>set E. n \<le> snd x" using E(3) U(3) by (meson le_trans)
    show "s_size ?t a = s_size s a" if "a \<notin> space F" "a \<noteq> bp" for a
    proof -
      have "a \<notin> set (map fst G)" using gsp that(1) by blast
      then show ?thesis using E(6) [of a] U(7) [OF that(2)] by simp
    qed
    show "freep ?t \<noteq> 0 \<or> base s = 0" using last pos by fastforce
  qed (use E(8,9) U(8,9) in simp_all)
qed

section \<open>Allocation\<close>

text \<open>The blocks the program holds (\<open>A\<close>) and the free ones share the memory between the static header and
  the end of the process.\<close>

definition arena :: "heap \<Rightarrow> block list \<Rightarrow> block set \<Rightarrow> bool" where
  "arena s F A \<longleftrightarrow> free_list s F \<and> 0 < base s \<and> base s + 8 \<le> brk s
     \<and> (\<forall>x\<in>A. 0 < snd x \<and> base s + 8 \<le> fst x \<and> s_size s (fst x) = snd x \<and> blk x \<inter> space F = {})
     \<and> (\<forall>x\<in>A. \<forall>y\<in>A. x \<noteq> y \<longrightarrow> blk x \<inter> blk y = {})
     \<and> (\<forall>x\<in>set F \<union> A. fin x \<le> brk s)"

lemma arenaD:
  assumes "arena s F A"
  shows "free_list s F" "0 < base s" "base s + 8 \<le> brk s"
    "\<forall>x\<in>A. 0 < snd x \<and> base s + 8 \<le> fst x \<and> s_size s (fst x) = snd x \<and> blk x \<inter> space F = {}"
    "\<forall>x\<in>A. \<forall>y\<in>A. x \<noteq> y \<longrightarrow> blk x \<inter> blk y = {}" "\<forall>x\<in>set F \<union> A. fin x \<le> brk s"
  using assms by (simp_all add: arena_def)

lemma path_map: "path ptr xs y \<Longrightarrow> xs \<noteq> [] \<Longrightarrow> map ptr xs = tl xs @ [y]"
proof (induction xs)
  case (Cons a xs)
  then show ?case by (cases xs) auto
qed simp

lemma path_inj:
  assumes "path ptr xs (hd xs)" "distinct xs" "x \<in> set xs" "z \<in> set xs" "ptr x = ptr z"
  shows "x = z"
proof -
  have ne: "xs \<noteq> []" using assms(3) by auto
  then have "map ptr xs = tl xs @ [hd xs]" by (rule path_map [OF assms(1)])
  moreover have "distinct (tl xs @ [hd xs])" using assms(2) ne by (cases xs) auto
  ultimately have "inj_on ptr (set xs)" by (metis distinct_map)
  from inj_onD [OF this assms(5,3,4)] show ?thesis .
qed

lemma distinct_nodes: "wf_list b F \<Longrightarrow> distinct (b # map fst F)"
proof -
  assume "wf_list b F"
  from wf_list_less [OF this] show ?thesis
    using strict_sorted_iff [of "b # map fst F"] by blast
qed

text \<open>The node before a block of the list.\<close>

lemma split_before:
  assumes f: "free_list s F" and q: "q \<in> set (base s # map fst F)" "s_ptr s q = p" "p \<noteq> base s"
  obtains G k H where "F = G @ (p, k) # H" "q = last (base s # map fst G)" "s_size s p = k"
proof -
  let ?N = "base s # map fst F"
  have w: "wf_list (base s) F" and P: "path (s_ptr s) ?N (base s)" using f by (simp_all add: free_list_def)
  have "p \<in> set ?N" using q path_map [OF P] by (metis Un_iff append.simps(1) image_eqI image_set
        insertE list.distinct(1) list.sel(3) list.set(1,2) set_append singletonD list.set_intros(2))
  then obtain k where "(p, k) \<in> set F" using q(3) by auto
  then obtain G H where F: "F = G @ (p, k) # H" by (meson split_list)
  let ?l = "last (base s # map fst G)"
  have "path (s_ptr s) (base s # map fst G) p"
    using P path_append [of "s_ptr s" "base s # map fst G" "p # map fst H" "base s"] by (simp add: F)
  then have "s_ptr s ?l = p" by (rule path_last) simp
  moreover have "?l \<in> set ?N"
  proof -
    have "?l \<in> set (base s # map fst G)" by (rule last_in_set) simp
    moreover have "set (base s # map fst G) \<subseteq> set ?N" by (auto simp: F)
    ultimately show ?thesis by blast
  qed
  ultimately have "q = ?l" using path_inj [of "s_ptr s" ?N q ?l] P distinct_nodes [OF w] q(1,2) by simp
  then show thesis using that F f by (auto simp: free_list_def sized_def)
qed

lemma take_from_ok:
  assumes a: "arena s F A" and q: "q \<in> set (base s # map fst F)" "s_ptr s q = p" and n: "0 < n" "n \<le> s_size s p"
  obtains b t E where "take_from n q p s = (b + 8, t)" "arena t E (insert (b, n) A)" "(b, n) \<notin> A"
proof -
  have f: "free_list s F" "wf_list (base s) F" "path (s_ptr s) (base s # map fst F) (base s)" "sized s F"
      "s_size s (base s) = 0"
    using a by (simp_all add: arena_def free_list_def)
  have p: "p \<noteq> base s" using n f(5) by auto
  obtain G k H where F: "F = G @ (p, k) # H" and ql: "q = last (base s # map fst G)" and k: "s_size s p = k"
    using split_before [OF f(1) q p] by blast
  have pos: "\<forall>x\<in>set F. 0 < snd x \<and> base s + 8 \<le> fst x" using f(2) by (simp add: wf_list_def)
  have w: "wf_list (base s) G" "wf_list (base s) H" "\<forall>x\<in>set G. fin x \<le> p" "\<forall>x\<in>set G. \<forall>y\<in>set H. fin x \<le> fst y"
    "\<forall>y\<in>set H. p + 8 * k \<le> fst y"
    using f(2) by (auto simp: F wf_list_append wf_list_Cons)
  have A: "\<forall>x\<in>A. 0 < snd x \<and> base s + 8 \<le> fst x \<and> s_size s (fst x) = snd x \<and> blk x \<inter> space F = {}"
    "\<forall>x\<in>A. \<forall>y\<in>A. x \<noteq> y \<longrightarrow> blk x \<inter> blk y = {}" "\<forall>x\<in>set F \<union> A. fin x \<le> brk s" "0 < base s" "base s + 8 \<le> brk s"
    using a by (simp_all add: arena_def)
  have inA: "fst x \<notin> blk (p, k)" if "x \<in> A" for x
    using A(1) that by (fastforce simp: F blk_def)
  have qG: "q \<in> set (base s # map fst G)" unfolding ql by (rule last_in_set) simp
  show thesis
  proof (cases "k = n")
    case True
    let ?t = "s\<lparr>s_ptr := (s_ptr s)(q := s_ptr s p), freep := q\<rparr>"
    have d: "q \<notin> set (butlast (base s # map fst G))" "q \<notin> set (map fst H)" "p \<notin> set (map fst G)" "p \<notin> set (map fst H)"
    proof -
      have D: "distinct ((base s # map fst G) @ p # map fst H)" using distinct_nodes [OF f(2)] by (simp add: F)
      then show "p \<notin> set (map fst G)" "p \<notin> set (map fst H)" by simp_all
      have "base s # map fst G = butlast (base s # map fst G) @ [q]" by (simp add: ql)
      with D have "distinct ((butlast (base s # map fst G) @ [q]) @ p # map fst H)" by metis
      then show "q \<notin> set (butlast (base s # map fst G))" "q \<notin> set (map fst H)"
        by (simp_all only: distinct_append append_assoc append_Cons append_Nil distinct.simps) auto
    qed
    have P: "path (s_ptr s) (base s # map fst G) p" "path (s_ptr s) (p # map fst H) (base s)"
      using f(3) path_append [of "s_ptr s" "base s # map fst G" "p # map fst H" "base s"] by (simp_all add: F)
    have "path (s_ptr ?t) (butlast (base s # map fst G) @ [q]) (hd (map fst H @ [base s]))"
    proof -
      have "path (s_ptr s) (butlast (base s # map fst G) @ [q]) p" using P(1) by (simp add: ql)
      then have "path (s_ptr s) (butlast (base s # map fst G)) q" by (simp only: path_append) simp
      then have "path (s_ptr ?t) (butlast (base s # map fst G)) q" using d(1) by simp
      then show ?thesis using P(2) by (simp only: path_append) simp
    qed
    moreover have "butlast (base s # map fst G) @ [q] = base s # map fst G" unfolding ql by (rule append_butlast_last_id) simp
    ultimately have "path (s_ptr ?t) (base s # map fst G) (hd (map fst H @ [base s]))" by metis
    moreover have "path (s_ptr ?t) (map fst H) (base s)" using P(2) d(2) by simp
    ultimately have PP: "path (s_ptr ?t) (base s # map fst (G @ H)) (base s)"
      using path_append [of "s_ptr ?t" "base s # map fst G" "map fst H" "base s"] by simp
    have fl: "free_list ?t (G @ H)"
      using PP w f(4,5) qG by (auto simp: free_list_def wf_list_append sized_def F)
    have dis: "blk (p, k) \<inter> space (G @ H) = {}"
      using w(3,5) by (force simp: space_def blk_def)
    have sp: "space (G @ H) \<subseteq> space F" "blk (p, k) \<subseteq> space F" by (auto simp: F)
    have "arena ?t (G @ H) (insert (p, n) A)"
      unfolding arena_def
    proof (intro conjI)
      show "\<forall>x\<in>insert (p, n) A. 0 < snd x \<and> base ?t + 8 \<le> fst x \<and> s_size ?t (fst x) = snd x \<and> blk x \<inter> space (G @ H) = {}"
        using A(1) sp(1) dis n(1) pos k True by (auto simp: F)
      show "\<forall>x\<in>insert (p, n) A. \<forall>y\<in>insert (p, n) A. x \<noteq> y \<longrightarrow> blk x \<inter> blk y = {}"
        using A(1,2) sp(2) True by blast
    qed (use fl A(3-5) True in \<open>auto simp: F\<close>)
    moreover have "(p, n) \<notin> A" using inA [of "(p, n)"] n(1) True by (auto simp: blk_def)
    moreover have "take_from n q p s = (p + 8, ?t)" using k True by (simp add: take_from_def)
    ultimately show thesis by (rule that [rotated 1])
  next
    case False
    then have kn: "n < k" using n(2) k by simp
    let ?b = "p + 8 * (k - n)"
    let ?t = "s\<lparr>s_size := (s_size s)(p := k - n, ?b := n), freep := q\<rparr>"
    let ?E = "G @ (p, k - n) # H"
    have sp: "blk (p, k) = blk (p, k - n) \<union> blk (?b, n)" using blk_join [of p "k - n" n] kn by simp
    have bin: "?b \<in> blk (p, k)" "p \<in> blk (p, k)" "?b \<noteq> p" using n(1) kn by (auto simp: blk_def)
    have ne: "fst x \<notin> blk (p, k)" if "x \<in> set G \<union> set H" for x
      using that w(3,5) pos by (force simp: F blk_def)
    have fl: "free_list ?t ?E"
    proof -
      have "wf_list (base s) ?E" using w kn pos by (auto simp: wf_list_append wf_list_Cons F)
      moreover have "sized ?t ?E" using f(4) ne bin by (fastforce simp: sized_def F)
      moreover have "base s \<notin> blk (p, k)" using pos by (auto simp: F blk_def)
      then have "s_size ?t (base s) = 0" using f(5) bin by auto
      ultimately show ?thesis using f(3) qG by (auto simp: free_list_def F)
    qed
    have sub: "space ?E \<subseteq> space F" "blk (?b, n) \<subseteq> space F" using sp by (auto simp: F)
    have dis: "blk (?b, n) \<inter> space ?E = {}"
      using w(3,5) kn by (force simp: space_def blk_def)
    have "arena ?t ?E (insert (?b, n) A)"
      unfolding arena_def
    proof (intro conjI)
      show "\<forall>x\<in>insert (?b, n) A. 0 < snd x \<and> base ?t + 8 \<le> fst x \<and> s_size ?t (fst x) = snd x \<and> blk x \<inter> space ?E = {}"
      proof
        fix x assume "x \<in> insert (?b, n) A"
        then consider "x = (?b, n)" | "x \<in> A" by blast
        then show "0 < snd x \<and> base ?t + 8 \<le> fst x \<and> s_size ?t (fst x) = snd x \<and> blk x \<inter> space ?E = {}"
        proof cases
          case 1
          then show ?thesis using dis n(1) pos by (auto simp: F)
        next
          case 2
          then have "fst x \<noteq> p" "fst x \<noteq> ?b" using inA [OF 2] bin by metis+
          moreover have "blk x \<inter> space ?E = {}" using A(1) 2 sub(1) by blast
          ultimately show ?thesis using A(1) 2 by simp
        qed
      qed
      show "\<forall>x\<in>insert (?b, n) A. \<forall>y\<in>insert (?b, n) A. x \<noteq> y \<longrightarrow> blk x \<inter> blk y = {}"
        using A(1,2) sub(2) by blast
    qed (use fl A(3-5) kn in \<open>auto simp: F\<close>)
    moreover have "(?b, n) \<notin> A" using inA [of "(?b, n)"] bin by auto
    moreover have "take_from n q p s = (?b + 8, ?t)" using k False by (simp add: take_from_def Let_def)
    ultimately show thesis by (rule that [rotated 1])
  qed
qed

text \<open>The search from \<open>prevp\<close> over the rest of the list, which ends at \<open>freep\<close>.\<close>

lemma malloc_walk:
  assumes "R \<noteq> []" "last R = freep s" "freep s \<notin> set (butlast R)" "path (s_ptr s) R z"
    and "s_ptr s q = hd R" "q \<in> N" "set R \<subseteq> N"
  shows "if \<exists>x\<in>set R. n \<le> s_size s x
    then \<exists>r\<in>N. n \<le> s_size s (s_ptr s r) \<and> malloc_loop grow n q (hd R) s = Some (take_from n r (s_ptr s r) s)
    else malloc_loop grow n q (hd R) s = Option.bind (morecore grow n s)
      (\<lambda>(p, s). if p = 0 then Some (0, s) else malloc_loop grow n p (s_ptr s p) s)"
  using assms
proof (induction R arbitrary: q)
  case (Cons p R)
  show ?case
  proof (cases "n \<le> s_size s p")
    case True
    then have "malloc_loop grow n q p s = Some (take_from n q (s_ptr s q) s)"
      using Cons.prems(5) by (subst malloc_loop.simps) simp
    then show ?thesis using True Cons.prems(5,6) by auto
  next
    case False
    show ?thesis
    proof (cases "R = []")
      case True
      then show ?thesis using Cons.prems(2) False by (simp, subst malloc_loop.simps) simp
    next
      case ne: False
      then have "p \<noteq> freep s" using Cons.prems(3) by auto
      have "s_ptr s p = hd R" using Cons.prems(4) ne by simp
      then have "malloc_loop grow n q p s = malloc_loop grow n p (hd R) s"
        using False \<open>p \<noteq> freep s\<close> \<open>s_ptr s p = hd R\<close> by (subst malloc_loop.simps) simp
      moreover have "freep s \<notin> set (butlast R)" using Cons.prems(3) ne by simp
      ultimately show ?thesis using Cons.IH [OF ne _ _ _ \<open>s_ptr s p = hd R\<close>] Cons.prems False ne by simp
    qed
  qed
qed simp

text \<open>Started after \<open>freep\<close>, the search sees every node.\<close>

lemma malloc_search:
  assumes f: "free_list s F"
  defines "N \<equiv> set (base s # map fst F)"
  shows "if \<exists>x\<in>N. n \<le> s_size s x
    then \<exists>r\<in>N. n \<le> s_size s (s_ptr s r)
      \<and> malloc_loop grow n (freep s) (s_ptr s (freep s)) s = Some (take_from n r (s_ptr s r) s)
    else malloc_loop grow n (freep s) (s_ptr s (freep s)) s = Option.bind (morecore grow n s)
      (\<lambda>(p, s). if p = 0 then Some (0, s) else malloc_loop grow n p (s_ptr s p) s)"
proof -
  let ?N = "base s # map fst F"
  have w: "wf_list (base s) F" and P: "path (s_ptr s) ?N (base s)" and fr: "freep s \<in> set ?N"
    using f by (simp_all add: free_list_def)
  obtain us vs where N: "?N = us @ freep s # vs" using split_list [OF fr] by blast
  have D: "distinct (us @ freep s # vs)" using distinct_nodes [OF w] N by metis
  let ?R = "vs @ us @ [freep s]"
  have h: "hd ((us @ [freep s]) @ zs) = base s" for zs using N by (cases us) auto
  have P1: "path (s_ptr s) ((us @ [freep s]) @ vs) (base s)" using P N by simp
  have R: "path (s_ptr s) ?R (hd (vs @ [base s]))"
    using P1 h by (simp only: path_append)
  have nx: "s_ptr s (freep s) = hd ?R"
  proof -
    have "s_ptr s (freep s) = hd (vs @ [base s])"
      using P1 by (simp only: path_append) (auto simp: path_append)
    then show ?thesis using h [of "[]"] by (cases vs) auto
  qed
  have SN: "set ?R = N" unfolding N_def N by auto
  have "if \<exists>x\<in>set ?R. n \<le> s_size s x
    then \<exists>r\<in>N. n \<le> s_size s (s_ptr s r)
      \<and> malloc_loop grow n (freep s) (hd ?R) s = Some (take_from n r (s_ptr s r) s)
    else malloc_loop grow n (freep s) (hd ?R) s = Option.bind (morecore grow n s)
      (\<lambda>(p, s). if p = 0 then Some (0, s) else malloc_loop grow n p (s_ptr s p) s)"
  proof (rule malloc_walk [OF _ _ _ R nx])
    show "freep s \<notin> set (butlast ?R)" using D by (auto simp: butlast_append)
    show "freep s \<in> N" using fr by (simp add: N_def)
    show "set ?R \<subseteq> N" using SN by simp
  qed simp_all
  then show ?thesis unfolding nx SN .
qed

lemma free_ok:
  assumes a: "arena s F (insert x A)" and x: "x \<notin> A"
  obtains t E where "free (fst x + 8) s = Some t" "arena t E A" "base t = base s" "brk t = brk s"
    "\<exists>y\<in>set E. snd x \<le> snd y" "freep t \<noteq> 0"
proof -
  have f: "free_list s F" and b: "0 < snd x" "base s + 8 \<le> fst x" "s_size s (fst x) = snd x" "blk x \<inter> space F = {}"
    and A: "\<forall>y\<in>A. 0 < snd y \<and> base s + 8 \<le> fst y \<and> s_size s (fst y) = snd y \<and> blk y \<inter> space F = {}"
    "\<forall>y\<in>A. \<forall>z\<in>A. y \<noteq> z \<longrightarrow> blk y \<inter> blk z = {}" "\<forall>y\<in>A. blk y \<inter> blk x = {}"
    and B: "0 < base s" "base s + 8 \<le> brk s" "\<forall>y\<in>set F \<union> insert x A. fin y \<le> brk s"
  proof -
    show "free_list s F" "0 < snd x" "base s + 8 \<le> fst x" "s_size s (fst x) = snd x" "blk x \<inter> space F = {}"
      "\<forall>y\<in>A. 0 < snd y \<and> base s + 8 \<le> fst y \<and> s_size s (fst y) = snd y \<and> blk y \<inter> space F = {}"
      "0 < base s" "base s + 8 \<le> brk s" "\<forall>y\<in>set F \<union> insert x A. fin y \<le> brk s"
      using a by (simp_all add: arena_def)
    have d: "\<forall>y\<in>insert x A. \<forall>z\<in>insert x A. y \<noteq> z \<longrightarrow> blk y \<inter> blk z = {}"
      by (rule arenaD [OF a])
    then show "\<forall>y\<in>A. \<forall>z\<in>A. y \<noteq> z \<longrightarrow> blk y \<inter> blk z = {}" by blast
    show "\<forall>y\<in>A. blk y \<inter> blk x = {}"
    proof
      fix y assume y: "y \<in> A"
      then have "y \<noteq> x" using x by metis
      then show "blk y \<inter> blk x = {}" using d y by blast
    qed
  qed
  obtain t E where t: "free (fst x + 8) s = Some t" "free_list t E" "space E = space F \<union> blk (fst x, snd x)"
    "base t = base s" "brk t = brk s" "\<exists>y\<in>set E. snd x \<le> snd y" "freep t \<noteq> 0 \<or> base s = 0"
    "\<And>a. a \<notin> space F \<Longrightarrow> a \<noteq> fst x \<Longrightarrow> s_size t a = s_size s a"
    by (rule free_block [OF f b(3,1,2)]) (use b(4) in simp_all)
  have top: "space E \<subseteq> {..< brk s}"
  proof -
    have "blk y \<subseteq> {..< brk s}" if "y \<in> set F \<union> insert x A" for y
    proof -
      have "fin y \<le> brk s" using B(3) that by blast
      then show ?thesis by (auto simp: blk_def)
    qed
    then have "space F \<union> blk x \<subseteq> {..< brk s}" unfolding space_def by blast
    then show ?thesis by (simp add: t(3))
  qed
  have "fin y \<le> brk s" if "y \<in> set E" for y
  proof -
    have "0 < snd y" using t(2) that by (simp add: free_list_def wf_list_def)
    then have "fin y - 1 \<in> space E" using that by (auto simp: space_def blk_def intro!: bexI [of _ y])
    then show ?thesis using top by auto
  qed
  moreover have "s_size t (fst y) = snd y" if "y \<in> A" for y
  proof -
    have "fst y \<in> blk y" using A(1) that by (simp add: blk_def)
    moreover have "fst x \<in> blk x" using b(1) by (simp add: blk_def)
    ultimately have "fst y \<notin> space F" "fst y \<noteq> fst x" using A(1,3) that by (blast, force)
    then show ?thesis using t(8) A(1) that by simp
  qed
  ultimately have "arena t E A"
    using t(2-5) A B by (auto simp: arena_def)
  then show thesis using t B(1) by (intro that) auto
qed

lemma sint_times8: "8 * n < 2 ^ 31 \<Longrightarrow> sint (of_nat n * 8 :: u32) = 8 * int n"
proof -
  assume n: "8 * n < 2 ^ 31"
  have "(of_nat n * 8 :: u32) = of_int (8 * int n)" by (simp add: mult.commute)
  moreover have "signed_take_bit 31 (8 * int n) = 8 * int n" by (rule signed_take_bit_int_eq_self) (use n in simp_all)
  ultimately show ?thesis by (simp add: signed_of_int del: of_int_mult)
qed

lemma morecore_ok:
  assumes a: "arena s F A" and n: "8 * max n 4096 < 2 ^ 31"
  shows "morecore grow n s = Some (0, s)
    \<or> (\<exists>t E. morecore grow n s = Some (freep t, t) \<and> freep t \<noteq> 0 \<and> arena t E A \<and> (\<exists>y\<in>set E. n \<le> snd y))"
proof -
  let ?nu = "if n < 4096 then 4096 else n"
  have nu: "sint (of_nat ?nu * 8 :: u32) = 8 * int ?nu" "0 < ?nu" "n \<le> ?nu"
    using sint_times8 [of ?nu] n by (auto simp: max_def split: if_splits)
  show ?thesis
  proof (cases "grow (brk s) (8 * int ?nu)")
    case False
    then show ?thesis unfolding morecore_def Let_def sbrk_def nu(1) by simp
  next
    case True
    let ?s = "s\<lparr>brk := brk s + 8 * ?nu, s_size := (s_size s)(brk s := ?nu)\<rparr>" and ?x = "(brk s, ?nu)"
    have f: "free_list s F" and A: "\<forall>x\<in>A. 0 < snd x \<and> base s + 8 \<le> fst x \<and> s_size s (fst x) = snd x \<and> blk x \<inter> space F = {}"
      and AA: "\<forall>x\<in>A. \<forall>y\<in>A. x \<noteq> y \<longrightarrow> blk x \<inter> blk y = {}" and B: "\<forall>x\<in>set F \<union> A. fin x \<le> brk s" "0 < base s" "base s + 8 \<le> brk s"
      by (rule arenaD [OF a])+
    have pos: "0 < snd x" if "x \<in> set F \<union> A" for x
      using that f A by (auto simp: free_list_def wf_list_def)
    have below: "fst x \<noteq> brk s" if "x \<in> set F \<union> A" for x
    proof -
      have "fin x \<le> brk s" using B(1) that by blast
      then show ?thesis using pos [OF that] by simp
    qed
    have apart: "blk x \<inter> blk ?x = {}" if "x \<in> set F \<union> A" for x
    proof -
      have "fin x \<le> brk s" using B(1) that by blast
      then show ?thesis by (auto simp: blk_def)
    qed
    have fs: "free_list ?s F" using f B(3) below by (auto simp: free_list_def sized_def)
    have "arena ?s F (insert ?x A)"
      unfolding arena_def
    proof (intro conjI)
      show "\<forall>x\<in>insert ?x A. 0 < snd x \<and> base ?s + 8 \<le> fst x \<and> s_size ?s (fst x) = snd x \<and> blk x \<inter> space F = {}"
      proof
        fix x assume "x \<in> insert ?x A"
        then consider "x = ?x" | "x \<in> A" by blast
        then show "0 < snd x \<and> base ?s + 8 \<le> fst x \<and> s_size ?s (fst x) = snd x \<and> blk x \<inter> space F = {}"
        proof cases
          case 1
          have "blk ?x \<inter> space F = {}" using apart unfolding space_def by blast
          then show ?thesis using 1 nu(2) B(3) by simp
        next
          case 2
          then have "fst x \<noteq> brk s" using below by blast
          then show ?thesis using A 2 by simp
        qed
      qed
      show "\<forall>x\<in>insert ?x A. \<forall>y\<in>insert ?x A. x \<noteq> y \<longrightarrow> blk x \<inter> blk y = {}"
        using AA apart by blast
      show "\<forall>x\<in>set F \<union> insert ?x A. fin x \<le> brk ?s"
      proof
        fix x assume "x \<in> set F \<union> insert ?x A"
        then consider "x = ?x" | "x \<in> set F \<union> A" by blast
        then show "fin x \<le> brk ?s"
        proof cases
          case 2
          then have "fin x \<le> brk s" using B(1) by blast
          then show ?thesis by simp
        qed simp
      qed
    qed (use fs B in auto)
    moreover have "?x \<notin> A" using below [of ?x] by auto
    ultimately obtain t E where t: "free (fst ?x + 8) ?s = Some t" "arena t E A" "\<exists>y\<in>set E. snd ?x \<le> snd y" "freep t \<noteq> 0"
      by (rule free_ok)
    have "nat (int (brk s) + 8 * int ?nu) = brk s + 8 * ?nu" by simp
    then have "morecore grow n s = Some (freep t, t)"
      using True t(1) [unfolded fst_conv] unfolding morecore_def Let_def sbrk_def nu(1) by simp
    then show ?thesis using t(2-4) nu(3) unfolding snd_conv by (meson le_trans)
  qed
qed

lemma malloc_ok:
  assumes a: "arena s F A" and n: "8 * max n 4096 < 2 ^ 31" "0 < n"
  shows "malloc_loop grow n (freep s) (s_ptr s (freep s)) s = Some (0, s)
    \<or> (\<exists>b t E. malloc_loop grow n (freep s) (s_ptr s (freep s)) s = Some (b + 8, t)
        \<and> arena t E (insert (b, n) A) \<and> (b, n) \<notin> A)"
proof -
  have found: "\<exists>b t E. malloc_loop grow n (freep s) (s_ptr s (freep s)) s = Some (b + 8, t)
        \<and> arena t E (insert (b, n) A) \<and> (b, n) \<notin> A"
    if a: "arena s F A" and big: "\<exists>x\<in>set (base s # map fst F). n \<le> s_size s x" for s F
  proof -
    have f: "free_list s F" using a by (simp add: arena_def)
    obtain q where q: "q \<in> set (base s # map fst F)" "n \<le> s_size s (s_ptr s q)"
      "malloc_loop grow n (freep s) (s_ptr s (freep s)) s = Some (take_from n q (s_ptr s q) s)"
      using malloc_search [OF f, of n grow] big by (simp only: if_True) blast
    obtain b t E where "take_from n q (s_ptr s q) s = (b + 8, t)" "arena t E (insert (b, n) A)" "(b, n) \<notin> A"
      using take_from_ok [OF a q(1) refl n(2) q(2)] by blast
    then show ?thesis using q(3) by auto
  qed
  show ?thesis
  proof (cases "\<exists>x\<in>set (base s # map fst F). n \<le> s_size s x")
    case True
    then show ?thesis using found [OF a] by blast
  next
    case False
    have f: "free_list s F" using a by (simp add: arena_def)
    have m: "malloc_loop grow n (freep s) (s_ptr s (freep s)) s = Option.bind (morecore grow n s)
      (\<lambda>(p, s). if p = 0 then Some (0, s) else malloc_loop grow n p (s_ptr s p) s)"
      using malloc_search [OF f, of n grow] False by (simp only: if_False)
    from morecore_ok [OF a n(1), of grow] show ?thesis
    proof
      assume "morecore grow n s = Some (0, s)"
      then show ?thesis unfolding m by simp
    next
      assume "\<exists>t E. morecore grow n s = Some (freep t, t) \<and> freep t \<noteq> 0 \<and> arena t E A \<and> (\<exists>y\<in>set E. n \<le> snd y)"
      then obtain t E y where t: "morecore grow n s = Some (freep t, t)" "freep t \<noteq> 0" "arena t E A"
        "y \<in> set E" "n \<le> snd y" by blast
      have "s_size t (fst y) = snd y" using t(3,4) by (simp add: arena_def free_list_def sized_def)
      then have "\<exists>x\<in>set (base t # map fst E). n \<le> s_size t x"
        using t(4,5) by (intro bexI [of _ "fst y"]) auto
      from found [OF t(3) this] show ?thesis unfolding m using t(1,2) by simp
    qed
  qed
qed

section \<open>Programs\<close>

text \<open>A program that allocates, frees blocks it holds and writes anything in them behind their headers.\<close>

inductive heap_reach :: "(nat \<Rightarrow> int \<Rightarrow> bool) \<Rightarrow> heap \<Rightarrow> block set \<Rightarrow> bool" for grow where
  fresh: "freep s = 0 \<Longrightarrow> 0 < base s \<Longrightarrow> base s + 8 \<le> brk s \<Longrightarrow> heap_reach grow s {}"
| alloc: "heap_reach grow s A \<Longrightarrow> unat nb < 2 ^ 30 \<Longrightarrow> malloc grow nb s = Some (r, t) \<Longrightarrow>
    heap_reach grow t (if r = 0 then A else insert (r - 8, units nb) A)"
| release: "heap_reach grow s A \<Longrightarrow> x \<in> A \<Longrightarrow> free (fst x + 8) s = Some t \<Longrightarrow> heap_reach grow t (A - {x})"
| scribble: "heap_reach grow s A \<Longrightarrow> x \<in> A \<Longrightarrow> \<forall>a. a \<notin> {fst x <..< fin x} \<longrightarrow> p a = s_ptr s a \<and> z a = s_size s a \<Longrightarrow>
    heap_reach grow (s\<lparr>s_ptr := p, s_size := z\<rparr>) A"

definition heap_ok :: "heap \<Rightarrow> block set \<Rightarrow> bool" where
  "heap_ok s A \<longleftrightarrow> (freep s = 0 \<and> A = {} \<and> 0 < base s \<and> base s + 8 \<le> brk s) \<or> (freep s \<noteq> 0 \<and> (\<exists>F. arena s F A))"

lemma arena_freep: "arena s F A \<Longrightarrow> freep s \<noteq> 0"
  by (force simp: arena_def free_list_def wf_list_def)

lemma first_use_ok: "heap_ok s A \<Longrightarrow> \<exists>F. arena (first_use s) F A"
proof -
  assume h: "heap_ok s A"
  show ?thesis
  proof (cases "freep s = 0")
    case True
    then have "arena (first_use s) [] A"
      using h by (simp add: heap_ok_def first_use_def arena_def free_list_def wf_list_def sized_def)
    then show ?thesis by blast
  qed (use h in \<open>auto simp: heap_ok_def first_use_def\<close>)
qed

lemma units_enough:
  assumes "unat nb < 2 ^ 30"
  shows "0 < units nb" "unat nb + 8 \<le> 8 * units nb" "8 * max (units nb) 4096 < 2 ^ 31"
proof -
  have "nb + 8 - 1 = nb + 7" by simp
  moreover have a: "unat (nb + 7) = unat nb + 7" using assms by (subst unat_add_lem [THEN iffD1]) simp_all
  ultimately have "unat ((nb + 8 - 1) div 8) = (unat nb + 7) div 8"
    by (simp only: unat_div_distrib) simp
  moreover have "(unat nb + 7) div 8 + 1 < 2 ^ 32" using assms by simp
  ultimately have u: "units nb = (unat nb + 7) div 8 + 1"
    unfolding units_def by (subst unat_add_lem [THEN iffD1]) simp_all
  show "0 < units nb" by (simp add: u)
  show "unat nb + 8 \<le> 8 * units nb"
  proof -
    have "m + 8 \<le> 8 * ((m + 7) div 8 + 1)" for m :: nat by presburger
    then show ?thesis by (simp only: u)
  qed
  show "8 * max (units nb) 4096 < 2 ^ 31" using assms unfolding u by simp
qed

lemma heap_ok_malloc:
  assumes "heap_ok s A" "unat nb < 2 ^ 30"
  obtains r t where "malloc grow nb s = Some (r, t)"
    "r = 0 \<and> heap_ok t A
     \<or> (\<exists>F. 8 \<le> r \<and> arena t F (insert (r - 8, units nb) A) \<and> (r - 8, units nb) \<notin> A)"
proof -
  obtain F where F: "arena (first_use s) F A" using first_use_ok [OF assms(1)] by blast
  note u = units_enough [OF assms(2)]
  let ?m = "malloc_loop grow (units nb) (freep (first_use s)) (s_ptr (first_use s) (freep (first_use s))) (first_use s)"
  have m: "malloc grow nb s = ?m" by (simp add: malloc_def Let_def)
  have k: "heap_ok (first_use s) A" using F arena_freep [OF F] by (auto simp: heap_ok_def)
  from malloc_ok [OF F u(3,1), of grow] show thesis
  proof
    assume "?m = Some (0, first_use s)"
    then show thesis using that m k by metis
  next
    assume "\<exists>b t E. ?m = Some (b + 8, t) \<and> arena t E (insert (b, units nb) A) \<and> (b, units nb) \<notin> A"
    then obtain b t E where "?m = Some (b + 8, t)" "arena t E (insert (b, units nb) A)" "(b, units nb) \<notin> A" by blast
    then show thesis using that [of "b + 8" t] m by auto
  qed
qed

lemma heap_ok_free:
  assumes "heap_ok s A" "x \<in> A"
  obtains t where "free (fst x + 8) s = Some t" "heap_ok t (A - {x})"
proof -
  obtain F where "arena s F A" using assms by (auto simp: heap_ok_def)
  moreover have "insert x (A - {x}) = A" using assms(2) by blast
  ultimately have "arena s F (insert x (A - {x}))" by simp
  then obtain t E where "free (fst x + 8) s = Some t" "arena t E (A - {x})" "freep t \<noteq> 0"
    by (rule free_ok) simp_all
  then show thesis using that by (auto simp: heap_ok_def)
qed

lemma arena_scribble:
  assumes a: "arena s F A" "x \<in> A" and w: "\<forall>a. a \<notin> {fst x <..< fin x} \<longrightarrow> p a = s_ptr s a \<and> z a = s_size s a"
  shows "arena (s\<lparr>s_ptr := p, s_size := z\<rparr>) F A"
proof -
  note A = arenaD [OF a(1)]
  have wf: "wf_list (base s) F" using A(1) by (simp add: free_list_def)
  have F: "fst y \<notin> {fst x <..< fin x}" if "y \<in> set F" for y
  proof -
    have "fst y \<in> space F" using that wf by (auto simp: wf_list_def space_def blk_def intro!: bexI [of _ y])
    then have "fst y \<notin> blk x" using A(4) a(2) by blast
    then show ?thesis by (simp add: blk_def)
  qed
  have AA: "fst y \<notin> {fst x <..< fin x}" if "y \<in> A" for y
  proof (cases "y = x")
    case False
    then have "blk y \<inter> blk x = {}" using A(5) a(2) that by blast
    moreover have "fst y \<in> blk y" using A(4) that by (simp add: blk_def)
    ultimately have "fst y \<notin> blk x" by blast
    then show ?thesis by (simp add: blk_def)
  qed simp
  have b: "base s \<notin> {fst x <..< fin x}"
  proof -
    have "base s + 8 \<le> fst x" using A(4) a(2) by blast
    then show ?thesis by simp
  qed
  have "path p (base s # map fst F) (base s)"
  proof -
    have "\<forall>y\<in>set (base s # map fst F). p y = s_ptr s y" using F b w by auto
    from path_cong [OF this] A(1) show ?thesis by (simp only: free_list_def)
  qed
  moreover have "sized (s\<lparr>s_ptr := p, s_size := z\<rparr>) F"
    using A(1) F w by (simp add: free_list_def sized_def)
  ultimately have "free_list (s\<lparr>s_ptr := p, s_size := z\<rparr>) F"
    using A(1) b w by (simp add: free_list_def)
  moreover have "\<forall>y\<in>A. 0 < snd y \<and> base s + 8 \<le> fst y \<and> z (fst y) = snd y \<and> blk y \<inter> space F = {}"
    using A(4) AA w by simp
  ultimately show ?thesis using A(2,3,5,6) by (simp add: arena_def)
qed

lemma heap_reach_ok: "heap_reach grow s A \<Longrightarrow> heap_ok s A"
proof (induction rule: heap_reach.induct)
  case (fresh s)
  then show ?case by (simp add: heap_ok_def)
next
  case (alloc s A nb r t)
  obtain r' t' where "malloc grow nb s = Some (r', t')" "r' = 0 \<and> heap_ok t' A
     \<or> (\<exists>F. 8 \<le> r' \<and> arena t' F (insert (r' - 8, units nb) A) \<and> (r' - 8, units nb) \<notin> A)"
    using heap_ok_malloc [OF alloc.IH alloc.hyps(2)] by blast
  then have "r = 0 \<and> heap_ok t A \<or> (\<exists>F. 8 \<le> r \<and> arena t F (insert (r - 8, units nb) A))"
    using alloc.hyps(3) by auto
  then show ?case using arena_freep by (fastforce simp: heap_ok_def)
next
  case (release s A x t)
  then show ?case using heap_ok_free [OF release.IH release.hyps(2)] by auto
next
  case (scribble s A x p z)
  then obtain F where F: "arena s F A" by (auto simp: heap_ok_def)
  have "arena (s\<lparr>s_ptr := p, s_size := z\<rparr>) F A" by (rule arena_scribble [OF F scribble.hyps(2,3)])
  then show ?case using arena_freep [OF F] by (auto simp: heap_ok_def)
qed

text \<open>C36: Whatever a program did with its memory, \<open>malloc\<close> of less than a gigabyte returns, with null or with
  a block of at least the bytes asked for, behind its header, that overlaps no block the program holds and ends
  inside the process; \<open>free\<close> of a block it holds returns.\<close>

theorem malloc_safe:
  assumes "heap_reach grow s A" "unat nb < 2 ^ 30"
  shows "(\<exists>r t. malloc grow nb s = Some (r, t)
      \<and> (r \<noteq> 0 \<longrightarrow> unat nb \<le> 8 * (units nb - 1) \<and> r + unat nb \<le> brk t \<and> base t + 16 \<le> r
           \<and> (\<forall>x\<in>A. {r - 8 ..< r + unat nb} \<inter> {fst x ..< fin x} = {})))
    \<and> (\<forall>x\<in>A. free (fst x + 8) s \<noteq> None)"
proof (intro conjI ballI)
  note ok = heap_reach_ok [OF assms(1)]
  obtain r t where m: "malloc grow nb s = Some (r, t)" and r: "r = 0 \<and> heap_ok t A
     \<or> (\<exists>F. 8 \<le> r \<and> arena t F (insert (r - 8, units nb) A) \<and> (r - 8, units nb) \<notin> A)"
    using heap_ok_malloc [OF ok assms(2)] by blast
  note u = units_enough [OF assms(2)]
  have "unat nb \<le> 8 * (units nb - 1) \<and> r + unat nb \<le> brk t \<and> base t + 16 \<le> r
      \<and> (\<forall>x\<in>A. {r - 8 ..< r + unat nb} \<inter> {fst x ..< fin x} = {})" if nz: "r \<noteq> 0"
  proof -
    obtain F where F: "8 \<le> r" "arena t F (insert (r - 8, units nb) A)" "(r - 8, units nb) \<notin> A" using r nz by blast
    note A = arenaD [OF F(2)]
    let ?x = "(r - 8, units nb)"
    have b: "base t + 8 \<le> r - 8" "r - 8 + 8 * units nb \<le> brk t" using A(4,6) by auto
    have "{r - 8 ..< r + unat nb} \<inter> {fst x ..< fin x} = {}" if "x \<in> A" for x
    proof -
      have "x \<noteq> ?x" using that F(3) by metis
      then have "blk ?x \<inter> blk x = {}" using A(5) that by blast
      moreover have "{r - 8 ..< r + unat nb} \<subseteq> blk ?x" using u(2) F(1) by (auto simp: blk_def)
      ultimately show ?thesis by (auto simp: blk_def)
    qed
    then show ?thesis using b u F(1) by auto
  qed
  then show "\<exists>r t. malloc grow nb s = Some (r, t)
      \<and> (r \<noteq> 0 \<longrightarrow> unat nb \<le> 8 * (units nb - 1) \<and> r + unat nb \<le> brk t \<and> base t + 16 \<le> r
           \<and> (\<forall>x\<in>A. {r - 8 ..< r + unat nb} \<inter> {fst x ..< fin x} = {}))"
    using m by blast
  show "free (fst x + 8) s \<noteq> None" if "x \<in> A" for x
    using heap_ok_free [OF ok that] by blast
qed

definition heap_start :: heap where
  "heap_start = \<lparr>s_ptr = (\<lambda>_. 0), s_size = (\<lambda>_. 0), base = 2048, freep = 0, brk = 4096\<rparr>"

theorem malloc_safe_witness: "\<exists>r t. malloc (\<lambda>_ _. True) 100 heap_start = Some (r, t)"
proof -
  have "heap_reach (\<lambda>_ _. True) heap_start {}" by (rule heap_reach.fresh) (simp_all add: heap_start_def)
  then have "\<exists>r t. malloc (\<lambda>_ _. True) 100 heap_start = Some (r, t)
      \<and> (r \<noteq> 0 \<longrightarrow> unat (100 :: u32) \<le> 8 * (units 100 - 1) \<and> r + unat (100 :: u32) \<le> brk t \<and> base t + 16 \<le> r
           \<and> (\<forall>x\<in>{}. {r - 8 ..< r + unat (100 :: u32)} \<inter> {fst x ..< fin x} = {}))"
    by (rule malloc_safe [THEN conjunct1]) simp
  then show ?thesis by blast
qed

text \<open>A request so large that its units wrap gets a block with no room at all.\<close>

lemma units_wrap: "units 0xFFFFFFFF = 1"
  by (simp add: units_def)

end
