(* ===== verification/Spec2Isabelle.thy ===== *)
theory Spec2Isabelle
  imports Start Sched Boot Fork Keylines Mkfs Grep Userprogs Wm Umalloc
begin

text \<open>
  xv6 for the ARMv6 Raspberry Pi: the kernel (the C files at the top of the repository) and the
  larger of its user programs and their library (grep, the shell, the window manager; usr/ulib.c,
  usr/printf.c, usr/umalloc.c), and the program that builds its disk (tools/mkfs.c).

  \<^bold>\<open>The execution model.\<close> A kernel function is a function from the state to a \<open>result\<close>
  (theory Prelude): it returns a value and a state (\<open>Ret\<close>), panics (\<open>Panic\<close>, with the message), does
  something C leaves undefined (\<open>Undef\<close>), or gives the processor to the scheduler inside \<open>sched\<close>
  (\<open>Switch\<close>, with the state at the switch). A function that can sleep is followed by a second
  definition, its \<open>_resume\<close> or \<open>_return\<close>, that continues it when the process runs again, so that a
  loop around \<open>sleep\<close> needs no fuel. The machine has one processor; interleavings are sequences of such
  steps, and \<open>runs m s Q\<close> says that \<open>m\<close> started in \<open>s\<close> returns with \<open>Q\<close>, so it is total correctness.
  Each theory extends the state record of the one below it, in the order of the list that follows, and
  functions are polymorphic in the rest of the record, as the C functions are independent of the
  variables of other files.

  \<^bold>\<open>Theories and sources.\<close>
  \<^item> Prelude: the result type, its combinators, \<open>runs\<close> and the rules for it. Bytes: little endian words in
    byte lists, slices, tables searched by index.
  \<^item> CString: string.c on memory (\<open>memset\<close>, \<open>memmove\<close>) and on strings, and its software division.
  \<^item> Spinlock: spinlock.c, \<open>pushcli\<close> and \<open>popcli\<close>. Memlayout: memlayout.h and mmu.h. Kalloc: kalloc.c, with the
    free list threaded through the free pages. Vm: vm.c, page tables as words in memory.
    Space: a page directory seen as an address space, the pages it owns and the bytes a process sees through it.
  \<^item> Proc: the scheduling core of proc.c (the table, \<open>allocproc\<close>, \<open>sched\<close>, \<open>sleep\<close>, \<open>wakeup\<close>, \<open>kill\<close>, the
    scheduler). Sched: the passes of the scheduler over the table. Process: \<open>fork\<close>, \<open>exit\<close>, \<open>wait\<close>, \<open>growproc\<close>, \<open>userinit\<close>.
    Fork: facts about \<open>fork\<close>, over those of Space and of the tables of files and inodes.
  \<^item> Fifo: an interface for bounded queues. Pipe: pipe.c, an instance of it.
  \<^item> Ide: memide.c, the disk as a map from sectors to blocks with a trace of the writes it has seen.
    Bio: bio.c, with the doubly linked list of buffers at the level of its pointers. Log: log.c.
  \<^item> Fs: fs.c. Blocks: facts about its block allocator. Inodes: facts about the inode cache, inodes on disk and
    reading and writing files. File: file.c and \<open>pipealloc\<close>. Syscall: syscall.c,
    sysproc.c. Sysfile: sysfile.c. Exec: exec.c, \<open>loaduvm\<close>, the dispatch table of system calls.
  \<^item> Keyboard: uart_keyboard.c. Keylines: its buffer as the lines typed and the line being edited. Framebuffer: framebuffer.c. Trap: trap.c and the timer tick.
  \<^item> Boot: the page table of mmu.c in physical memory and the walk of the processor through it. Devices: uart.c,
    mailbox.c, timer.c and the interrupt controller as registers with the trace of their writes; a register the
    hardware changes is a list of the values its reads return. Start: \<open>tvinit\<close> and main.c up to the scheduler.
  \<^item> Grep: the matcher and the line buffer of usr/grep.c. Sh: the command parser of usr/sh.c.
    Shrun: the rest of usr/sh.c, where a process is the list of its system calls, with those of its children
    below the forks that start them, and which calls succeed is a parameter.
    Userprogs: wc, cat, echo, ls, rm, mkdir, ln, kill and the start of init.
  \<^item> Mkfs: tools/mkfs.c, on the image as a map from sectors to bytes, with the inode format of Fs and the
    description of a file of Inodes.
  \<^item> Wm: usr/wm.c, rectangles, drawing as lists of pixels, text, borders, focus, keys and output. Ulib: the
    strings, numbers and formatted output of the user library. Umalloc: its allocator, on headers at addresses,
    where a loop that does not end is the value \<open>None\<close>.

  \<^bold>\<open>What the lemmas show.\<close>
  \<^item> Interrupts are off while a lock is held, whatever the nesting (Spinlock); the allocator hands out
    distinct pages and gets them back (Kalloc); processes have distinct identifiers, at most one runs,
    no interruption, so no wakeup, can come between giving up the lock of a condition and sleeping (Proc, over the
    interruptible runs of Spinlock), and a pass of the scheduler reaches every process that was runnable
    when it began (Sched); the invariant \<open>space_ok\<close> (the directory, the tables and the pages of
    a space are different pages) is kept by the operations of vm.c, so \<open>copyuvm\<close> copies a space into pages of its
    own and gives them back when it fails, and \<open>copyout\<close> and \<open>copyin\<close> reach exactly the bytes a process may use
    and refuse the rest (Space); the child of \<open>fork\<close> is a copy of its parent, and a fork without memory leaves
    nothing behind but a page copyuvm can lose (Fork); what is typed is read line by line (Keylines); a pipe
    delivers the bytes written, in order (Pipe).
  \<^item> Bio: the ring of buffers stays a ring under \<open>unlink\<close> and \<open>link_front\<close>; \<open>cache s w D V X H\<close> ties the
    buffers to the disk \<open>D\<close>, its write trace \<open>w\<close>, the current contents \<open>V\<close>, the dirty sectors \<open>X\<close> and the
    buffers in use \<open>H\<close>. The locale \<open>block_cache\<close> is the contract of the cache, interpreted on bio.c, from
    which Log takes all it uses.
  \<^item> Log: a transaction is atomic. The main theorem runs a whole transaction, cuts its trace of disk
    writes at any point, boots from the disk that leaves (\<open>binit\<close>, \<open>initlog\<close>) and finds the old or the new
    contents. Blocks: the allocator sets and clears the bit of one block and no other, inside such
    a transaction; the layout of the bitmap is spelled out there, not taken from the code.
  \<^item> Mkfs: \<open>mk_ok\<close> says that every inode of an image maps its blocks and no block belongs to two files; appending
    to a file keeps it, and the whole image has the files, the directory and the bitmap that its arguments ask for.
  \<^item> Wm: what the windows draw is the composition a painter's algorithm would give, each point drawn once; a
    character draws its glyph inside its window. Umalloc: the invariant \<open>arena\<close> (the free list and the blocks
    the program holds are disjoint) is kept by every step of a program, so \<open>malloc\<close> returns memory nobody
    holds, and both its loop and that of \<open>free\<close> end. Ulib: \<open>atoi\<close> reads back what \<open>printint\<close> writes.
  \<^item> Boot: the table filled at boot translates every address as the kernel expects, and the identity map is gone
    afterwards. Devices: the function of a pin is set in its own field, except for the pins that are multiples of ten;
    the words of a mailbox message. Start: each processor mode has a stack of its own.
  \<^item> Userprogs: wc counts the words of the whole file, wherever the reads end.
  \<^item> Shrun: a command gives every program the descriptors it means, on the whole tree of processes, and every
    process ends and waits for its own children only.
  \<^item> CString, Grep, Sh: the routines agree with reference definitions (division with \<open>div\<close>, the matcher
    with the language of the pattern, the parser with a printer).

  \<^bold>\<open>Bounds and fuel.\<close> Loops that count use recursion on what they count. The loops of vm.c are given one
  iteration more than there are pages or entries in the address space, those of fs.c one more than
  there are bitmap blocks, inodes or directory entries; a loop that ran out of them would be \<open>Undef\<close>,
  which \<open>runs\<close> excludes. The recursive descent of sh.c gets four units of fuel per byte of the line,
  proved to be enough. Words have their width and wrap; \<open>int\<close> fields whose overflow the code does not
  meet (pids, reference counts, the nesting counter, the counts of wc) are \<open>int\<close>. A function is atomic between
  the points where it can give up the processor; sleep, where it matters, is also run with interruptions
  between its calls.

  The fuel of \<open>boot_sections\<close> and \<open>zero_words\<close> is one more than the entries of a table, and the map proved for every
  address shows that it suffices. Polling loops have no fuel: they are \<open>None\<close>, or \<open>Undef\<close> in Start, as long as the
  values read do not let them go on.

  \<^bold>\<open>Not modelled.\<close> The assembly files and the inline assembly, which switch the memory management unit on and
  off and maintain caches and TLB; console.c, which is commented out as a whole; messages printed on the
  console during boot and for debugging (\<open>trap_oops\<close>, \<open>getcallerpcs\<close>, \<open>procdump\<close>); the blinking loops of main.c;
  the dots init draws; the test programs (usertests, forktest, stressfs, zombie). The font of framebuffer.c is
  a parameter. The format of an executable is read as bytes.
\<close>

end
